(* ===== verification/Prelude.thy ===== *)
theory Prelude
  imports Main "HOL-Library.Word" "HOL-Library.Monad_Syntax"
begin

text \<open>
  Shared vocabulary of the development: the C integer types as words, the
  reading of word operations as integer arithmetic (collection
  \<open>word_arith\<close>), and generic facts on lists used by several components.
\<close>

unbundle bit_operations_syntax

type_synonym u8 = "8 word"
type_synonym u16 = "16 word"
type_synonym u32 = "32 word"
type_synonym u64 = "64 word"

named_theorems word_arith \<open>word operations read as integer arithmetic\<close>

section \<open>Words as integers\<close>

lemma uint_take_bit [word_arith]: "uint (take_bit n w) = uint w mod 2 ^ n"
  by (simp add: unsigned_take_bit_eq take_bit_int_def)

lemma uint_and_mask [word_arith]: "uint (w AND mask n) = uint w mod 2 ^ n"
  by (simp add: uint_take_bit flip: take_bit_eq_mask)

lemma uint_drop_bit [word_arith]: "uint (drop_bit n w) = uint w div 2 ^ n"
  by (simp only: unsigned_drop_bit_eq) (simp add: drop_bit_eq_div take_bit_int_eq_self)

lemma uint_push_bit_1: "n < LENGTH('a) \<Longrightarrow> uint (push_bit n 1 :: 'a::len word) = 2 ^ n"
  by (simp only: unsigned_push_bit_eq) (simp add: take_bit_push_bit push_bit_eq_mult)


lemma int_div_less:
  fixes x d k :: int
  assumes "x < k * d" "0 < d"
  shows "x div d < k"
proof -
  have "x div d * d \<le> x" using assms(2) by (simp flip: minus_mod_eq_div_mult)
  with assms(1) have "x div d * d < k * d" by linarith
  with assms(2) show ?thesis by simp
qed

lemma div_power_less:
  fixes x :: int
  assumes "x < 2 ^ w" "n \<le> w"
  shows "x div 2 ^ n < 2 ^ (w - n)"
  using assms by (intro int_div_less) (simp_all flip: power_add)

lemma uint_add_small:
  fixes a b :: "'a::len word"
  assumes "uint a + uint b < 2 ^ LENGTH('a)"
  shows "uint (a + b) = uint a + uint b"
  using assms by (simp add: uint_add_lem)

lemma uint_mult_small:
  fixes a b :: "'a::len word"
  assumes "uint a * uint b < 2 ^ LENGTH('a)"
  shows "uint (a * b) = uint a * uint b"
  using assms by (simp add: uint_mult_lem)

lemma uint_sub_small:
  fixes a b :: "'a::len word"
  assumes "uint b \<le> uint a"
  shows "uint (a - b) = uint a - uint b"
  using assms by (simp add: uint_sub_lem)

lemma uint_ucast_small:
  fixes a :: "'a::len word"
  assumes "uint a < 2 ^ LENGTH('b)"
  shows "uint (ucast a :: 'b::len word) = uint a"
  using assms by (simp add: unsigned_ucast_eq take_bit_int_eq_self_iff)

lemma take_bit_uint_self:
  fixes w :: "'a::len word"
  assumes "uint w < 2 ^ n"
  shows "take_bit n w = w"
  using assms by (intro word_uint_eqI) (simp only: uint_take_bit, simp)

lemma uint_push_bit:
  fixes w :: "'a::len word"
  assumes "uint w * 2 ^ n < 2 ^ LENGTH('a)"
  shows "uint (push_bit n w) = uint w * 2 ^ n"
  by (simp only: unsigned_push_bit_eq) (simp add: push_bit_eq_mult take_bit_int_eq_self assms)

lemma uint_or_push_bit:
  fixes u v :: "'a::len word"
  assumes "uint u < 2 ^ n" "uint u + uint v * 2 ^ n < 2 ^ LENGTH('a)"
  shows "uint (u OR push_bit n v) = uint u + uint v * 2 ^ n"
proof -
  have "uint v * 2 ^ n < 2 ^ LENGTH('a)"
    using assms(2) uint_nonnegative [of u] by linarith
  note pv = uint_push_bit [OF this]
  have "take_bit n u AND push_bit n v = 0"
    by (rule bit_eqI) (auto simp: bit_simps)
  then have "u AND push_bit n v = 0"
    by (simp only: take_bit_uint_self [OF assms(1)])
  then have "u OR push_bit n v = u + push_bit n v"
    by (simp add: disjunctive_add_eq_or)
  then show ?thesis
    using assms(2) by (simp only: pv uint_add_small)
qed

lemma uint_push_or:
  fixes u v :: "'a::len word"
  assumes "uint u < 2 ^ n" "uint u + uint v * 2 ^ n < 2 ^ LENGTH('a)"
  shows "uint (push_bit n v OR u) = uint u + uint v * 2 ^ n"
  using uint_or_push_bit [OF assms] by (simp only: or.commute)

lemma uint_and_one [simp]: "uint (w AND 1) = uint w mod 2"
  using uint_and_mask [of w 1] by simp

lemma uint_push1_or_bool:
  fixes w :: "'a::len word"
  assumes "2 * uint w + 1 < 2 ^ LENGTH('a)"
  shows "uint (push_bit 1 w OR of_bool b) = 2 * uint w + of_bool b"
proof -
  have "uint (of_bool b :: 'a word) = of_bool b" by (cases b) simp_all
  with assms show ?thesis
    by (subst uint_push_or) (cases b; simp)+
qed

lemma recompose_div:
  fixes u :: int
  assumes "r + p * f = u div b + d"
  shows "u mod b + b * r + b * p * f = u + b * d"
proof -
  have "u mod b + b * r + b * p * f = u mod b + b * (r + p * f)"
    by (simp add: algebra_simps)
  also have "\<dots> = u + b * d"
    unfolding assms by (simp add: algebra_simps)
  finally show ?thesis .
qed

lemma mod_eqI:
  fixes v w m :: int
  shows "v + m * f = w \<Longrightarrow> 0 \<le> v \<Longrightarrow> v < m \<Longrightarrow> v = w mod m"
  by (metis mod_mult_self2 mod_pos_pos_trivial)

lemma digit_less_iff:
  fixes a b p q m :: int
  assumes "0 \<le> a" "a < m" "0 \<le> b" "b < m"
  shows "a + m * p < b + m * q \<longleftrightarrow> p < q \<or> p = q \<and> a < b"
    and "a + m * p = b + m * q \<longleftrightarrow> p = q \<and> a = b"
proof -
  have "p < q \<Longrightarrow> m * (p + 1) \<le> m * q" "q < p \<Longrightarrow> m * (q + 1) \<le> m * p"
    using assms by (auto intro!: mult_left_mono)
  then have "p < q \<Longrightarrow> m * p + m \<le> m * q" "q < p \<Longrightarrow> m * q + m \<le> m * p"
    by (simp_all add: algebra_simps)
  with assms show "a + m * p < b + m * q \<longleftrightarrow> p < q \<or> p = q \<and> a < b"
    and "a + m * p = b + m * q \<longleftrightarrow> p = q \<and> a = b"
    by (cases p q rule: linorder_cases; fastforce)+
qed

lemma xor_eq_0: "a XOR b = 0 \<longleftrightarrow> a = b" for a b :: "'a::len word"
  by (auto simp: bit_eq_iff bit_xor_iff)

lemma foldl_or_eq_0: "foldl (OR) (a :: 'a::len word) ws = 0 \<longleftrightarrow> a = 0 \<and> (\<forall>w \<in> set ws. w = 0)"
  by (induction ws arbitrary: a) (auto simp: or_eq_0_iff)

lemma map2_xor_eq_0:
  fixes xs ys :: "'a::len word list"
  shows "length xs = length ys \<Longrightarrow> (\<forall>w \<in> set (map2 (XOR) xs ys). w = 0) \<longleftrightarrow> xs = ys"
  by (induction xs ys rule: list_induct2) (simp_all add: xor_eq_0)

lemma uint_or_low_bit:
  fixes u v :: "'a::len word"
  assumes "even (uint u)" "uint v < 2" "uint u + 1 < 2 ^ LENGTH('a)"
  shows "uint (u OR v) = uint u + uint v"
proof -
  have u: "u = push_bit 1 (drop_bit 1 u)"
    using assms(1) by (intro word_uint_eqI)
      (subst uint_push_bit; simp add: uint_drop_bit del: push_bit_of_1 uint_push_bit)+
  have "uint (push_bit 1 (drop_bit 1 u) OR v) = uint v + uint (drop_bit 1 u) * 2 ^ 1"
    using assms by (intro uint_push_or) (simp_all add: uint_drop_bit)
  also have "\<dots> = uint u + uint v" using assms(1) by (simp add: uint_drop_bit)
  finally show ?thesis by (simp only: flip: u)
qed

lemma digit_mod:
  fixes h t b m :: int
  assumes "0 \<le> h" "h < b" "0 < m"
  shows "h + b * (t mod m) = (h + b * t) mod (b * m)"
proof (rule mod_eqI)
  have "h + b * (t mod m) + b * m * (t div m) = h + b * (t mod m + m * (t div m))"
    by (simp only: distrib_left mult.assoc add.assoc)
  then show "h + b * (t mod m) + b * m * (t div m) = h + b * t" by simp
  show "0 \<le> h + b * (t mod m)" using assms by simp
  have "b * (t mod m + 1) \<le> b * m"
    using assms pos_mod_bound [of m t] by (intro mult_left_mono) linarith+
  then show "h + b * (t mod m) < b * m" using assms(2) by (simp add: distrib_left)
qed

lemma even_less_pow2: "even e \<Longrightarrow> e < 2 ^ 29 \<Longrightarrow> e + 1 < (2 ^ 29 :: int)"
  by (elim evenE) simp

lemma diff_mult_mod: "(a - c * p) mod p = a mod p" for a c p :: int
proof -
  have "(a - c * p) mod p = (a - c * p mod p) mod p" by (simp only: mod_diff_right_eq)
  then show ?thesis by simp
qed

lemma drop_bit_zeroD:
  fixes w :: "'a::len word"
  assumes "drop_bit n w = 0" "n \<le> k"
  shows "\<not> bit w k"
proof -
  have "\<not> bit (drop_bit n w) (k - n)" by (simp only: assms(1) bit_0_eq) simp
  then show ?thesis using assms(2) by (simp add: bit_drop_bit_eq)
qed

lemma xor_cancel [simp]:
  fixes x y z :: "'a::len word"
  shows "x XOR z = y XOR z \<longleftrightarrow> x = y" "z XOR x = z XOR y \<longleftrightarrow> x = y" "x XOR y = 0 \<longleftrightarrow> x = y"
proof -
  have r: "x = y" if "x XOR z = y XOR z" for x y z :: "'a word"
  proof -
    have "(x XOR z) XOR z = (y XOR z) XOR z" using that by simp
    then show ?thesis by (simp add: xor.assoc)
  qed
  show "x XOR z = y XOR z \<longleftrightarrow> x = y" using r [of x z y] by blast
  show "z XOR x = z XOR y \<longleftrightarrow> x = y" using r [of x z y] by (auto simp: xor.commute)
  show "x XOR y = 0 \<longleftrightarrow> x = y" using r [of x y y] by auto
qed

lemma drop_bit_zero_less:
  fixes w :: "'a::len word"
  assumes "drop_bit n w = 0"
  shows "uint w < 2 ^ n" "unat w < 2 ^ n"
proof -
  have "uint w div 2 ^ n = 0" using arg_cong [OF assms, of uint] by (simp add: uint_drop_bit)
  then show u: "uint w < 2 ^ n" by (auto simp: zdiv_eq_0_iff)
  then have "nat (uint w) < 2 ^ n" using nat_less_eq_zless [of "uint w" "2 ^ n"] by (simp add: nat_power_eq)
  then show "unat w < 2 ^ n" by (simp only: unat_eq_nat_uint)
qed

lemma byte_cases: "n < 8 \<Longrightarrow> n = 0 \<or> n = 1 \<or> n = 2 \<or> n = 3 \<or> n = 4 \<or> n = 5 \<or> n = 6 \<or> n = (7 :: nat)"
  by linarith

lemma byte_eqI: "(\<And>n. n \<in> {0, 1, 2, 3, 4, 5, 6, 7} \<Longrightarrow> bit x n = bit y n) \<Longrightarrow> x = (y :: u8)"
proof (rule bit_word_eqI)
  fix n assume h: "\<And>n. n \<in> {0, 1, 2, 3, 4, 5, 6, 7} \<Longrightarrow> bit x n = bit y n" and "n < LENGTH(8)"
  then have "n < 8" by simp
  from byte_cases [OF this] have "n \<in> {0, 1, 2, 3, 4, 5, 6, 7}" by blast
  then show "bit x n = bit y n" by (rule h)
qed

lemma digit_unique:
  fixes a b c d n :: nat
  assumes "c * n + a = d * n + b" "a < n" "b < n"
  shows "c = d" "a = b"
proof -
  have "a = (c * n + a) mod n" using assms(2) by simp
  also have "\<dots> = b" using assms(1,3) by simp
  finally show "a = b" .
  then show "c = d" using assms(1,2) by simp
qed

end
