(* ===== verification/Limbs.thy ===== *)
theory Limbs
  imports Prelude
begin

text \<open>
  Little-endian digit lists in base \<open>2 ^ 29\<close>, the number representation of
  \<open>crypto/bignum.c\<close>, and the carry loop that almost every routine of that file
  runs: \<open>acc += column; out[i] = acc & BN_LIMB_MASK; acc >>= BN_BITS_PER_LIMB\<close>.
  The loop is written once, over the list of its columns and at any word
  width (the file uses 32-bit and 64-bit accumulators).
\<close>

section \<open>Constants of bignum.h\<close>

abbreviation (input) BN_LIMBS :: nat where "BN_LIMBS \<equiv> 9"
abbreviation (input) BN_BITS_PER_LIMB :: nat where "BN_BITS_PER_LIMB \<equiv> 29"

definition BN_BASE :: "'a::len word" where
  "BN_BASE = push_bit BN_BITS_PER_LIMB 1"

definition BN_LIMB_MASK :: "'a::len word" where
  "BN_LIMB_MASK = push_bit BN_BITS_PER_LIMB 1 - 1"

section \<open>The value of a digit list\<close>

primrec rval :: "int list \<Rightarrow> int" where
  "rval [] = 0"
| "rval (d # ds) = d + 2 ^ 29 * rval ds"

definition digits_ok :: "int list \<Rightarrow> bool" where
  "digits_ok ds \<longleftrightarrow> (\<forall>d \<in> set ds. 0 \<le> d \<and> d < 2 ^ 29)"

section \<open>The carry loop\<close>

fun limb_loop :: "'a::len word \<Rightarrow> 'a word list \<Rightarrow> u32 list \<times> 'a word" where
  "limb_loop acc [] = ([], acc)"
| "limb_loop acc (c # cs) =
     (let acc = acc + c;
          (out, fin) = limb_loop (drop_bit BN_BITS_PER_LIMB acc) cs
      in (ucast (acc AND BN_LIMB_MASK) # out, fin))"

section \<open>Digit lists\<close>

lemma digits_ok_simps [simp]:
  "digits_ok []"
  "digits_ok (d # ds) \<longleftrightarrow> 0 \<le> d \<and> d < 2 ^ 29 \<and> digits_ok ds"
  "digits_ok (ds @ es) \<longleftrightarrow> digits_ok ds \<and> digits_ok es"
  by (auto simp: digits_ok_def)

lemma rval_append: "rval (ds @ es) = rval ds + 2 ^ (29 * length ds) * rval es"
  by (induction ds) (simp_all add: algebra_simps power_add)

lemma rval_nonneg: "digits_ok ds \<Longrightarrow> 0 \<le> rval ds"
  by (induction ds) simp_all

lemma rval_less: "digits_ok ds \<Longrightarrow> rval ds < 2 ^ (29 * length ds)"
proof (induction ds)
  case Nil
  then show ?case by simp
next
  case (Cons d ds)
  then have "rval ds + 1 \<le> 2 ^ (29 * length ds)" by simp
  then have "2 ^ 29 * (rval ds + 1) \<le> (2 ^ 29 * 2 ^ (29 * length ds) :: int)" by simp
  with Cons.prems show ?case by (simp add: power_add algebra_simps)
qed

lemma rval_div: "digits_ok (d # ds) \<Longrightarrow> rval (d # ds) div 2 ^ 29 = rval ds"
  by simp

lemma rval_mod: "digits_ok (d # ds) \<Longrightarrow> rval (d # ds) mod 2 ^ 29 = d"
  by simp

lemma rval_inj:
  "length ds = length es \<Longrightarrow> digits_ok ds \<Longrightarrow> digits_ok es \<Longrightarrow> rval ds = rval es \<longleftrightarrow> ds = es"
proof (induction ds es rule: list_induct2)
  case Nil
  then show ?case by simp
next
  case (Cons d ds e es)
  have "rval (d # ds) = rval (e # es) \<Longrightarrow> d = e"
    using rval_mod [OF Cons.prems(1)] rval_mod [OF Cons.prems(2)] by simp
  moreover have "rval (d # ds) = rval (e # es) \<Longrightarrow> rval ds = rval es"
    using rval_div [OF Cons.prems(1)] rval_div [OF Cons.prems(2)] by metis
  ultimately show ?case using Cons by auto
qed

lemma rval_replicate_0 [simp]: "rval (replicate n 0) = 0"
  by (induction n) simp_all

section \<open>The carry loop computes the digits of the column sum\<close>

lemma BN_LIMB_MASK_eq: "BN_LIMB_MASK = mask 29"
  by (simp add: BN_LIMB_MASK_def mask_eq_exp_minus_1 push_bit_eq_mult)

lemma uint_BN_BASE [simp]: "29 < LENGTH('a) \<Longrightarrow> uint (BN_BASE :: 'a::len word) = 2 ^ 29"
  unfolding BN_BASE_def by (rule uint_push_bit_1)

lemma uint_and_limb_mask [simp]: "uint (w AND BN_LIMB_MASK) = uint w mod 2 ^ 29"
  by (simp add: BN_LIMB_MASK_eq uint_and_mask)

lemma uint_limb [simp]:
  fixes w :: "'a::len word"
  shows "uint (ucast (w AND BN_LIMB_MASK) :: u32) = uint w mod 2 ^ 29"
proof -
  have "uint w mod 2 ^ 29 < (2 ^ 32 :: int)"
    by (rule less_trans [of _ "2 ^ 29"]) simp_all
  then show ?thesis
    by (subst uint_ucast_small) simp_all
qed

lemma length_limb_loop [simp]: "length (fst (limb_loop acc cs)) = length cs"
  by (induction acc cs rule: limb_loop.induct) (simp_all add: Let_def split_def)

lemma limb_loop_digits: "digits_ok (map uint (fst (limb_loop acc cs)))"
  by (induction acc cs rule: limb_loop.induct) (simp_all add: Let_def split_def)

text \<open>The initial accumulator only matters through the first column.\<close>

lemma limb_loop_acc: "limb_loop acc (c # cs) = limb_loop 0 ((acc + c) # cs)"
  by simp

text \<open>
  The bound on the columns is what the overflow comments of the source check
  loop by loop: the carry left after a shift is below \<open>2 ^ (w - 29)\<close>, so a
  column up to \<open>2 ^ w - 2 ^ (w - 29)\<close> cannot overflow the accumulator.
\<close>

definition column_ok :: "'a::len word \<Rightarrow> bool" where
  "column_ok c \<longleftrightarrow> uint c \<le> 2 ^ LENGTH('a) - 2 ^ (LENGTH('a) - 29)"

lemma limb_loop_rval:
  fixes acc :: "'a::len word"
  assumes "29 \<le> LENGTH('a)" "uint acc < 2 ^ (LENGTH('a) - 29)" "\<forall>c \<in> set cs. column_ok c"
  shows "rval (map uint (fst (limb_loop acc cs)))
           + 2 ^ (29 * length cs) * uint (snd (limb_loop acc cs))
         = uint acc + rval (map uint cs)"
  using assms(2,3)
proof (induction acc cs rule: limb_loop.induct)
  case (1 acc)
  then show ?case by simp
next
  case (2 acc c cs)
  define a where "a = acc + c"
  obtain out fin where l: "limb_loop (drop_bit 29 a) cs = (out, fin)" by force
  have a: "uint a = uint acc + uint c"
    unfolding a_def using "2.prems" by (intro uint_add_small) (simp add: column_ok_def)
  have "uint a div 2 ^ 29 < 2 ^ (LENGTH('a) - 29)"
    using uint_lt2p assms(1) by (rule div_power_less)
  then have "uint (drop_bit 29 a) < 2 ^ (LENGTH('a) - 29)"
    by (simp only: uint_drop_bit)
  with "2.IH" [OF a_def] "2.prems" l
  have IH: "rval (map uint out) + 2 ^ (29 * length cs) * uint fin
              = uint a div 2 ^ 29 + rval (map uint cs)"
    by (simp add: uint_drop_bit a_def)
  have "rval (map uint (fst (limb_loop acc (c # cs))))
          + 2 ^ (29 * length (c # cs)) * uint (snd (limb_loop acc (c # cs)))
        = uint a mod 2 ^ 29 + 2 ^ 29 * (rval (map uint out) + 2 ^ (29 * length cs) * uint fin)"
    using l by (simp add: a_def [symmetric] power_add algebra_simps)
  also have "\<dots> = uint a + 2 ^ 29 * rval (map uint cs)"
    unfolding IH by (simp add: algebra_simps)
  finally show ?case by (simp add: a)
qed


corollary limb_loop_mod:
  fixes acc :: "'a::len word"
  assumes "29 \<le> LENGTH('a)" "uint acc < 2 ^ (LENGTH('a) - 29)" "\<forall>c \<in> set cs. column_ok c"
  shows "rval (map uint (fst (limb_loop acc cs)))
         = (uint acc + rval (map uint cs)) mod 2 ^ (29 * length cs)"
proof -
  let ?r = "rval (map uint (fst (limb_loop acc cs)))"
  have "0 \<le> ?r" "?r < 2 ^ (29 * length cs)"
    using limb_loop_digits [of acc cs] rval_nonneg rval_less by fastforce+
  then have "(?r + 2 ^ (29 * length cs) * uint (snd (limb_loop acc cs))) mod 2 ^ (29 * length cs) = ?r"
    by simp
  then show ?thesis unfolding limb_loop_rval [OF assms] by simp
qed

text \<open>
  The value of a column list whose columns are affine in the limbs. With
  \<open>K = 1\<close> the constant part adds up to \<open>2 ^ (29 * n) - 1\<close>: this is how the
  subtracting routines avoid negative intermediate values.
\<close>

lemma rval_affine2:
  assumes "length xs = length ys"
    and "\<And>a b. (a, b) \<in> set (zip xs ys) \<Longrightarrow>
           uint (f a b) = K * (2 ^ 29 - 1) + i * uint a + j * uint b"
  shows "rval (map uint (map2 f xs ys))
         = K * (2 ^ (29 * length xs) - 1) + i * rval (map uint xs) + j * rval (map uint ys)"
  using assms
proof (induction xs ys rule: list_induct2)
  case Nil
  then show ?case by simp
next
  case (Cons x xs y ys)
  have "rval (map uint (map2 f xs ys))
        = K * (2 ^ (29 * length xs) - 1) + i * rval (map uint xs) + j * rval (map uint ys)"
    using Cons.prems by (intro Cons.IH) simp
  with Cons.prems [of x y] show ?case by (simp add: power_add algebra_simps)
qed

lemma rval_affine3:
  assumes "length xs = length ys" "length ys = length zs"
    and "\<And>a b c. (a, b, c) \<in> set (zip xs (zip ys zs)) \<Longrightarrow>
           uint (f a (b, c)) = K * (2 ^ 29 - 1) + i * uint a + j * uint b + k * uint c"
  shows "rval (map uint (map2 f xs (zip ys zs)))
         = K * (2 ^ (29 * length xs) - 1)
             + i * rval (map uint xs) + j * rval (map uint ys) + k * rval (map uint zs)"
  using assms
proof (induction xs ys zs rule: list_induct3)
  case Nil
  then show ?case by simp
next
  case (Cons x xs y ys z zs)
  have "rval (map uint (map2 f xs (zip ys zs)))
        = K * (2 ^ (29 * length xs) - 1)
            + i * rval (map uint xs) + j * rval (map uint ys) + k * rval (map uint zs)"
    using Cons.prems by (intro Cons.IH) simp
  with Cons.prems [of x y z] show ?case by (simp add: power_add algebra_simps)
qed

lemma rval_eq_0: "digits_ok ds \<Longrightarrow> rval ds = 0 \<longleftrightarrow> (\<forall>d \<in> set ds. d = 0)"
proof (induction ds)
  case (Cons d ds)
  then have "0 \<le> rval ds" using rval_nonneg by simp
  with Cons show ?case by auto
qed simp

end
