(* ===== verification/Bignum.thy ===== *)
theory Bignum
  imports Limbs
begin

text \<open>
  \<open>crypto/bignum.c\<close> and the inline helpers of \<open>crypto/bignum.h\<close>: numbers of
  nine 29-bit limbs. A routine that writes its result through a pointer
  argument returns it here; \<open>None\<close> is a failed \<open>assert\<close>. This theory holds the
  representation, conversions, comparisons and the additive routines.
\<close>

section \<open>Representation\<close>

record bignum256 =
  val :: "u32 list"

definition bn_val :: "bignum256 \<Rightarrow> int" where
  "bn_val x = rval (map uint (val x))"

definition normalized :: "bignum256 \<Rightarrow> bool" where
  "normalized x \<longleftrightarrow> length (val x) = 9 \<and> digits_ok (map uint (val x))"

text \<open>The comments' "fully reduced" and "partly reduced".\<close>

definition fully_reduced :: "bignum256 \<Rightarrow> bignum256 \<Rightarrow> bool" where
  "fully_reduced x prime \<longleftrightarrow> normalized x \<and> bn_val x < bn_val prime"

definition partly_reduced :: "bignum256 \<Rightarrow> bignum256 \<Rightarrow> bool" where
  "partly_reduced x prime \<longleftrightarrow> normalized x \<and> bn_val x < 2 * bn_val prime"

section \<open>Byte strings\<close>

definition read_be :: "u8 list \<Rightarrow> u32" where
  "read_be data = push_bit 24 (ucast (data ! 0)) OR push_bit 16 (ucast (data ! 1))
     OR push_bit 8 (ucast (data ! 2)) OR ucast (data ! 3)"

definition write_be :: "u32 \<Rightarrow> u8 list" where
  "write_be x = [ucast (drop_bit 24 x), ucast (drop_bit 16 x), ucast (drop_bit 8 x), ucast x]"

definition read_le :: "u8 list \<Rightarrow> u32" where
  "read_le data = push_bit 24 (ucast (data ! 3)) OR push_bit 16 (ucast (data ! 2))
     OR push_bit 8 (ucast (data ! 1)) OR ucast (data ! 0)"

definition write_le :: "u32 \<Rightarrow> u8 list" where
  "write_le x = [ucast x, ucast (drop_bit 8 x), ucast (drop_bit 16 x), ucast (drop_bit 24 x)]"

text \<open>
  Both readers run the same loop over the eight 32-bit words, least significant
  first; they differ in where the word sits in the input and in its byte order.
\<close>

fun bn_read_loop :: "(nat \<Rightarrow> u32) \<Rightarrow> nat \<Rightarrow> nat \<Rightarrow> u32 \<Rightarrow> u32 list" where
  "bn_read_loop word 0 i temp = [temp]"
| "bn_read_loop word (Suc n) i temp =
     (let limb = word i;
          temp = temp OR push_bit (3 * i) limb
      in (temp AND BN_LIMB_MASK) # bn_read_loop word n (i + 1) (drop_bit (32 - 3 * (i + 1)) limb))"

definition bn_read_be :: "u8 list \<Rightarrow> bignum256" where
  "bn_read_be in_number =
     \<lparr>val = bn_read_loop (\<lambda>i. read_be (drop ((7 - i) * 4) in_number)) 8 0 0\<rparr>"

definition bn_read_le :: "u8 list \<Rightarrow> bignum256" where
  "bn_read_le in_number = \<lparr>val = bn_read_loop (\<lambda>i. read_le (drop (i * 4) in_number)) 8 0 0\<rparr>"

text \<open>The writers go from limb 7 down to limb 0; the word of limb \<open>i\<close> is emitted at step \<open>i\<close>.\<close>

fun bn_write_loop :: "u32 list \<Rightarrow> nat \<Rightarrow> u32 \<Rightarrow> u32 list" where
  "bn_write_loop limbs 0 temp = []"
| "bn_write_loop limbs (Suc i) temp =
     (let limb = limbs ! i;
          temp = push_bit (29 - 3 * i) temp OR drop_bit (3 * i) limb
      in temp # bn_write_loop limbs i limb)"

definition bn_write_be :: "bignum256 \<Rightarrow> u8 list" where
  "bn_write_be in_number =
     concat (map write_be (bn_write_loop (val in_number) 8 (val in_number ! 8)))"

definition bn_write_le :: "bignum256 \<Rightarrow> u8 list" where
  "bn_write_le in_number =
     concat (map write_le (rev (bn_write_loop (val in_number) 8 (val in_number ! 8))))"

definition bn_read_uint32 :: "u32 \<Rightarrow> bignum256" where
  "bn_read_uint32 in_number =
     \<lparr>val = [in_number AND BN_LIMB_MASK, drop_bit 29 in_number] @ replicate 7 0\<rparr>"

definition bn_read_uint64 :: "u64 \<Rightarrow> bignum256" where
  "bn_read_uint64 in_number =
     (let n1 = drop_bit 29 in_number
      in \<lparr>val = [ucast (in_number AND BN_LIMB_MASK), ucast (n1 AND BN_LIMB_MASK),
                 ucast (drop_bit 29 n1)] @ replicate 6 0\<rparr>)"

definition bn_write_uint32 :: "bignum256 \<Rightarrow> u32" where
  "bn_write_uint32 in_number = (val in_number ! 0) OR push_bit 29 (val in_number ! 1)"

definition bn_write_uint64 :: "bignum256 \<Rightarrow> u64" where
  "bn_write_uint64 in_number =
     (let acc = ucast (val in_number ! 2);
          acc = push_bit 29 acc;
          acc = acc OR ucast (val in_number ! 1);
          acc = push_bit 29 acc
      in acc OR ucast (val in_number ! 0))"

section \<open>Constants, tests and comparisons\<close>

definition bn_zero :: bignum256 where
  "bn_zero = \<lparr>val = replicate 9 0\<rparr>"

definition bn_one :: bignum256 where
  "bn_one = \<lparr>val = 1 # replicate 8 0\<rparr>"

definition bn_is_zero :: "bignum256 \<Rightarrow> bool" where
  "bn_is_zero x \<longleftrightarrow> foldl (OR) 0 (val x) = 0"

definition bn_is_one :: "bignum256 \<Rightarrow> bool" where
  "bn_is_one x \<longleftrightarrow> foldl (OR) ((val x ! 0) XOR 1) (tl (val x)) = 0"

definition bn_is_even :: "bignum256 \<Rightarrow> bool" where
  "bn_is_even x \<longleftrightarrow> (val x ! 0) AND 1 = 0"

definition bn_is_odd :: "bignum256 \<Rightarrow> bool" where
  "bn_is_odd x \<longleftrightarrow> (val x ! 0) AND 1 = 1"

fun bn_less_step :: "u32 \<times> u32 \<Rightarrow> u32 \<times> u32 \<Rightarrow> u32 \<times> u32" where
  "bn_less_step (res1, res2) (a, b) =
     (push_bit 1 res1 OR of_bool (a < b), push_bit 1 res2 OR of_bool (a > b))"

definition bn_is_less :: "bignum256 \<Rightarrow> bignum256 \<Rightarrow> bool" where
  "bn_is_less x y \<longleftrightarrow>
     (let (res1, res2) = foldl bn_less_step (0, 0) (rev (zip (val x) (val y))) in res1 > res2)"

definition bn_is_equal :: "bignum256 \<Rightarrow> bignum256 \<Rightarrow> bool" where
  "bn_is_equal x y \<longleftrightarrow> foldl (OR) 0 (map2 (XOR) (val x) (val y)) = 0"

text \<open>\<open>__builtin_clz\<close> of a nonzero limb, and the bit length read from the top limb down.\<close>

definition clz32 :: "u32 \<Rightarrow> nat" where
  "clz32 w = length (takeWhile (\<lambda>b. \<not> b) (map (\<lambda>i. bit w (31 - i)) [0..<32]))"

fun bn_bitcount_loop :: "u32 list \<Rightarrow> nat \<Rightarrow> nat" where
  "bn_bitcount_loop limbs 0 = 0"
| "bn_bitcount_loop limbs (Suc i) =
     (let limb = limbs ! i
      in if limb \<noteq> 0 then i * 29 + (32 - clz32 limb) else bn_bitcount_loop limbs i)"

definition bn_bitcount :: "bignum256 \<Rightarrow> nat" where
  "bn_bitcount x = bn_bitcount_loop (val x) 9"

definition bn_cmov :: "u32 \<Rightarrow> bignum256 \<Rightarrow> bignum256 \<Rightarrow> bignum256 option" where
  "bn_cmov cond truecase falsecase =
     (if \<not> (cond = 1 \<or> cond = 0) then None
      else let tmask = - cond; fmask = NOT tmask
           in Some \<lparr>val = map2 (\<lambda>t f. (t AND tmask) OR (f AND fmask)) (val truecase) (val falsecase)\<rparr>)"

section \<open>Additive routines: each is the carry loop over its columns\<close>

definition bn_normalize :: "bignum256 \<Rightarrow> bignum256" where
  "bn_normalize x = \<lparr>val = fst (limb_loop 0 (val x))\<rparr>"

definition bn_add :: "bignum256 \<Rightarrow> bignum256 \<Rightarrow> bignum256" where
  "bn_add x y = \<lparr>val = fst (limb_loop 0 (map2 (+) (val x) (val y)))\<rparr>"

definition bn_addi :: "bignum256 \<Rightarrow> u32 \<Rightarrow> bignum256" where
  "bn_addi x y = \<lparr>val = fst (limb_loop y (val x))\<rparr>"

definition bn_subi :: "bignum256 \<Rightarrow> u32 \<Rightarrow> bignum256 \<Rightarrow> bignum256 option" where
  "bn_subi x y prime =
     (if \<not> y < val prime ! 0 then None
      else Some \<lparr>val = fst (limb_loop (- y) (map2 (+) (val x) (val prime)))\<rparr>)"

definition bn_subtract :: "bignum256 \<Rightarrow> bignum256 \<Rightarrow> bignum256" where
  "bn_subtract x y =
     \<lparr>val = fst (limb_loop 1 (map2 (\<lambda>a b. (BN_BASE - 1) + a - b) (val x) (val y)))\<rparr>"

definition bn_subtractmod :: "bignum256 \<Rightarrow> bignum256 \<Rightarrow> bignum256 \<Rightarrow> bignum256" where
  "bn_subtractmod x y prime =
     \<lparr>val = fst (limb_loop 1
        (map2 (\<lambda>a (b, p). (BN_BASE - 1) + a + 2 * p - b) (val x) (zip (val y) (val prime))))\<rparr>"

definition bn_mod :: "bignum256 \<Rightarrow> bignum256 \<Rightarrow> bignum256 option" where
  "bn_mod x prime =
     (let x_less_prime = of_bool (bn_is_less x prime);
          temp = bn_subtract x prime
      in bn_cmov x_less_prime x temp)"

fun bn_cnegate_loop ::
  "u32 \<Rightarrow> u32 \<Rightarrow> u32 \<Rightarrow> u32 \<Rightarrow> (u32 \<times> u32) list \<Rightarrow> u32 list" where
  "bn_cnegate_loop tmask fmask acc1 acc2 [] = []"
| "bn_cnegate_loop tmask fmask acc1 acc2 ((p, a) # cs) =
     (let acc1 = acc1 + ((BN_BASE - 1) + 2 * p - a);
          acc2 = acc2 + (p + a)
      in (((acc1 AND tmask) OR (acc2 AND fmask)) AND BN_LIMB_MASK)
           # bn_cnegate_loop tmask fmask (drop_bit 29 acc1) (drop_bit 29 acc2) cs)"

definition bn_cnegate :: "u32 \<Rightarrow> bignum256 \<Rightarrow> bignum256 \<Rightarrow> bignum256 option" where
  "bn_cnegate cond x prime =
     (if \<not> (cond = 1 \<or> cond = 0) then None
      else do {
        x \<leftarrow> bn_mod x prime;
        Some \<lparr>val = bn_cnegate_loop (- cond) (NOT (- cond)) 1 0 (zip (val prime) (val x))\<rparr>
      })"

section \<open>Shifts and single bits\<close>

fun bn_lshift_loop :: "u32 \<Rightarrow> u32 list \<Rightarrow> u32 list" where
  "bn_lshift_loop low [] = []"
| "bn_lshift_loop low (a # as) =
     ((push_bit 1 a AND BN_LIMB_MASK) OR drop_bit 28 low) # bn_lshift_loop a as"

definition bn_lshift :: "bignum256 \<Rightarrow> bignum256" where
  "bn_lshift x =
     \<lparr>val = (push_bit 1 (val x ! 0) AND BN_LIMB_MASK) # bn_lshift_loop (val x ! 0) (tl (val x))\<rparr>"

fun bn_rshift_loop :: "u32 list \<Rightarrow> u32 list" where
  "bn_rshift_loop [] = []"
| "bn_rshift_loop [a] = [drop_bit 1 a]"
| "bn_rshift_loop (a # b # as) =
     (drop_bit 1 a OR push_bit 28 (b AND 1)) # bn_rshift_loop (b # as)"

definition bn_rshift :: "bignum256 \<Rightarrow> bignum256" where
  "bn_rshift x = \<lparr>val = bn_rshift_loop (val x)\<rparr>"

definition bn_setbit :: "bignum256 \<Rightarrow> u16 \<Rightarrow> bignum256 option" where
  "bn_setbit x i =
     (let n = unat i in
      if \<not> n < 9 * 29 then None
      else Some \<lparr>val = (val x)[n div 29 := (val x ! (n div 29)) OR push_bit (n mod 29) 1]\<rparr>)"

definition bn_clearbit :: "bignum256 \<Rightarrow> u16 \<Rightarrow> bignum256 option" where
  "bn_clearbit x i =
     (let n = unat i in
      if \<not> n < 9 * 29 then None
      else Some \<lparr>val = (val x)[n div 29 := (val x ! (n div 29)) AND NOT (push_bit (n mod 29) 1)]\<rparr>)"

definition bn_testbit :: "bignum256 \<Rightarrow> u16 \<Rightarrow> u32 option" where
  "bn_testbit x i =
     (let n = unat i in
      if \<not> n < 9 * 29 then None
      else Some (drop_bit (n mod 29) (val x ! (n div 29)) AND 1))"

definition bn_xor :: "bignum256 \<Rightarrow> bignum256 \<Rightarrow> bignum256" where
  "bn_xor x y = \<lparr>val = map2 (XOR) (val x) (val y)\<rparr>"

section \<open>Normalized numbers\<close>

lemma normalized_limb:
  "normalized x \<Longrightarrow> a \<in> set (val x) \<Longrightarrow> uint a < 2 ^ 29"
  by (auto simp: normalized_def digits_ok_def)

lemma normalized_zip:
  assumes "normalized x" "normalized y" "(a, b) \<in> set (zip (val x) (val y))"
  shows "uint a < 2 ^ 29" "uint b < 2 ^ 29"
  using assms normalized_limb set_zip_leftD set_zip_rightD by metis+

lemma normalized_length [simp]: "normalized x \<Longrightarrow> length (val x) = 9"
  by (simp add: normalized_def)

lemma bn_val_nonneg: "normalized x \<Longrightarrow> 0 \<le> bn_val x"
  by (simp add: bn_val_def normalized_def rval_nonneg)

lemma bn_val_less: "normalized x \<Longrightarrow> bn_val x < 2 ^ 261"
  using rval_less [of "map uint (val x)"] by (simp add: bn_val_def normalized_def)

lemma bn_val_inj: "normalized x \<Longrightarrow> normalized y \<Longrightarrow> bn_val x = bn_val y \<longleftrightarrow> x = y"
  by (cases x, cases y)
    (simp add: bn_val_def normalized_def rval_inj inj_map_eq_map [OF inj_unsigned])

text \<open>Every routine built on the carry loop is an instance of this.\<close>

lemma bn_loop:
  fixes acc :: "'a::len word"
  assumes "29 \<le> LENGTH('a)" "uint acc < 2 ^ (LENGTH('a) - 29)" "\<forall>c \<in> set cs. column_ok c"
    and "length cs = 9"
  shows "normalized \<lparr>val = fst (limb_loop acc cs)\<rparr>"
    and "bn_val \<lparr>val = fst (limb_loop acc cs)\<rparr> = (uint acc + rval (map uint cs)) mod 2 ^ 261"
  using limb_loop_mod [OF assms(1-3)] assms(4)
  by (simp_all add: normalized_def bn_val_def limb_loop_digits)

lemma column_ok_32: "uint (c :: u32) < 2 ^ 31 \<Longrightarrow> column_ok c"
  by (simp add: column_ok_def)

lemma column_ok_64: "uint (c :: u64) < 2 ^ 63 \<Longrightarrow> column_ok c"
  by (simp add: column_ok_def)

lemma map2_columns_ok:
  assumes "\<And>a b. (a, b) \<in> set (zip xs ys) \<Longrightarrow> column_ok (f a b)"
  shows "\<forall>c \<in> set (map2 f xs ys). column_ok c"
  using assms by auto

section \<open>Additive routines\<close>

lemma bn_add_mod:
  assumes "normalized x" "normalized y"
  shows "normalized (bn_add x y)"
    and "bn_val (bn_add x y) = (bn_val x + bn_val y) mod 2 ^ 261"
proof -
  have col: "uint (a + b) = uint a + uint b" "column_ok (a + b)"
    if "(a, b) \<in> set (zip (val x) (val y))" for a b
    using normalized_zip [OF assms that] by (simp_all add: uint_add_small column_ok_def)
  note cols = map2_columns_ok [of "val x" "val y" "(+)", OF col(2)]
  show "normalized (bn_add x y)"
    unfolding bn_add_def using cols assms by (intro bn_loop) auto
  have "bn_val (bn_add x y) = rval (map uint (map2 (+) (val x) (val y))) mod 2 ^ 261"
    unfolding bn_add_def using cols assms by (subst bn_loop(2)) auto
  also have "rval (map uint (map2 (+) (val x) (val y))) = bn_val x + bn_val y"
    using rval_affine2 [of "val x" "val y" "(+)" 0 1 1] col assms by (simp add: bn_val_def)
  finally show "bn_val (bn_add x y) = (bn_val x + bn_val y) mod 2 ^ 261" .
qed

lemma bn_subtract_mod:
  assumes "normalized x" "normalized y"
  shows "normalized (bn_subtract x y)"
    and "bn_val (bn_subtract x y) = (bn_val x - bn_val y) mod 2 ^ 261"
proof -
  let ?f = "\<lambda>a b. (BN_BASE - 1) + a - b :: u32"
  have col: "uint (?f a b) = 1 * (2 ^ 29 - 1) + 1 * uint a + (- 1) * uint b" "column_ok (?f a b)"
    if "(a, b) \<in> set (zip (val x) (val y))" for a b
  proof -
    have b1: "uint (BN_BASE - 1 :: u32) = 2 ^ 29 - 1"
      by (subst uint_sub_small) simp_all
    have "uint ((BN_BASE - 1) + a) = 2 ^ 29 - 1 + uint a"
      using normalized_zip [OF assms that] by (subst uint_add_small) (simp_all add: b1)
    then show "uint (?f a b) = 1 * (2 ^ 29 - 1) + 1 * uint a + (- 1) * uint b"
      using normalized_zip [OF assms that] uint_nonnegative [of a] by (subst uint_sub_small, linarith, simp)
    then show "column_ok (?f a b)"
      using normalized_zip [OF assms that]
      by (intro column_ok_32, simp) (use uint_nonnegative [of b] in linarith)
  qed
  note cols = map2_columns_ok [of "val x" "val y" ?f, OF col(2)]
  show "normalized (bn_subtract x y)"
    unfolding bn_subtract_def using cols assms by (intro bn_loop) auto
  have "bn_val (bn_subtract x y) = (1 + rval (map uint (map2 ?f (val x) (val y)))) mod 2 ^ 261"
    unfolding bn_subtract_def using cols assms by (subst bn_loop(2)) auto
  also have "1 + rval (map uint (map2 ?f (val x) (val y))) = 2 ^ 261 + (bn_val x - bn_val y)"
    using rval_affine2 [of "val x" "val y" ?f 1 1 "- 1"] col(1) assms by (simp add: bn_val_def)
  finally show "bn_val (bn_subtract x y) = (bn_val x - bn_val y) mod 2 ^ 261"
    by simp
qed

lemma normalized_zip3:
  assumes "normalized x" "normalized y" "normalized z"
    and "(a, b, c) \<in> set (zip (val x) (zip (val y) (val z)))"
  shows "uint a < 2 ^ 29" "uint b < 2 ^ 29" "uint c < 2 ^ 29"
  using assms normalized_limb set_zip_leftD set_zip_rightD by metis+

lemma uint_base_1: "uint (BN_BASE - 1 :: u32) = 2 ^ 29 - 1"
  by (subst uint_sub_small) simp_all

lemma bn_subtractmod_mod:
  assumes "normalized x" "normalized y" "normalized prime"
  shows "normalized (bn_subtractmod x y prime)"
    and "bn_val (bn_subtractmod x y prime) = (bn_val x + 2 * bn_val prime - bn_val y) mod 2 ^ 261"
proof -
  let ?f = "\<lambda>a (b, p). (BN_BASE - 1) + a + 2 * p - b :: u32"
  have col: "uint (?f a (b, p)) = 1 * (2 ^ 29 - 1) + 1 * uint a + (- 1) * uint b + 2 * uint p"
    "column_ok (?f a (b, p))"
    if "(a, b, p) \<in> set (zip (val x) (zip (val y) (val prime)))" for a b p
  proof -
    note bnd = normalized_zip3 [OF assms that]
    have "uint ((BN_BASE - 1) + a) = 2 ^ 29 - 1 + uint a"
      using bnd by (subst uint_add_small) (simp_all add: uint_base_1)
    moreover have "uint (2 * p) = 2 * uint p"
      using bnd by (subst uint_mult_small) simp_all
    ultimately have "uint ((BN_BASE - 1) + a + 2 * p) = 2 ^ 29 - 1 + uint a + 2 * uint p"
      using bnd by (subst uint_add_small) simp_all
    then show 1: "uint (?f a (b, p)) = 1 * (2 ^ 29 - 1) + 1 * uint a + (- 1) * uint b + 2 * uint p"
      using bnd uint_nonnegative [of a] uint_nonnegative [of p]
      by (simp only: split_beta fst_conv snd_conv) (subst uint_sub_small, linarith, simp)
    show "column_ok (?f a (b, p))"
      using bnd 1 by (intro column_ok_32, simp) (use uint_nonnegative [of b] in linarith)
  qed
  have cols: "\<forall>c \<in> set (map2 ?f (val x) (zip (val y) (val prime))). column_ok c"
    using col(2) by auto
  show "normalized (bn_subtractmod x y prime)"
    unfolding bn_subtractmod_def using cols assms by (intro bn_loop) auto
  have "bn_val (bn_subtractmod x y prime)
          = (1 + rval (map uint (map2 ?f (val x) (zip (val y) (val prime))))) mod 2 ^ 261"
    unfolding bn_subtractmod_def using cols assms by (subst bn_loop(2)) auto
  also have "1 + rval (map uint (map2 ?f (val x) (zip (val y) (val prime))))
             = 2 ^ 261 + (bn_val x + 2 * bn_val prime - bn_val y)"
    using rval_affine3 [of "val x" "val y" "val prime" ?f 1 1 "- 1" 2] col(1) assms
    by (simp add: bn_val_def)
  finally show "bn_val (bn_subtractmod x y prime) = (bn_val x + 2 * bn_val prime - bn_val y) mod 2 ^ 261"
    by simp
qed

lemma bn_normalize_mod:
  assumes "length (val x) = 9" "\<forall>c \<in> set (val x). column_ok c"
  shows "normalized (bn_normalize x)" "bn_val (bn_normalize x) = bn_val x mod 2 ^ 261"
  unfolding bn_normalize_def using bn_loop [of 0 "val x"] assms
  by (simp_all add: bn_val_def)

text \<open>A first column that the initial accumulator is folded into.\<close>

lemma bn_loop_first:
  fixes acc :: u32
  assumes "length cs = 9" "\<forall>c \<in> set (tl cs). column_ok c"
  shows "normalized \<lparr>val = fst (limb_loop acc cs)\<rparr>"
    and "bn_val \<lparr>val = fst (limb_loop acc cs)\<rparr> = (uint (acc + hd cs) + 2 ^ 29 * rval (map uint (tl cs))) mod 2 ^ 261"
proof -
  obtain c ds where cs: "cs = c # ds" "length ds = 8" using assms(1) by (cases cs) auto
  let ?a = "acc + c"
  let ?l = "limb_loop (drop_bit 29 ?a) ds"
  have "uint (drop_bit 29 ?a) < 2 ^ (LENGTH(32) - 29)"
    unfolding uint_drop_bit by (intro div_power_less uint_lt2p) simp
  with assms cs have "rval (map uint (fst ?l)) + 2 ^ 232 * uint (snd ?l)
      = uint ?a div 2 ^ 29 + rval (map uint ds)"
    using limb_loop_rval [of "drop_bit 29 ?a" ds] by (simp add: uint_drop_bit)
  then have "uint ?a mod 2 ^ 29 + 2 ^ 29 * rval (map uint (fst ?l)) + 2 ^ 29 * 2 ^ 232 * uint (snd ?l)
      = uint ?a + 2 ^ 29 * rval (map uint ds)"
    by (rule recompose_div)
  then have eq: "bn_val \<lparr>val = fst (limb_loop acc cs)\<rparr> + 2 ^ 261 * uint (snd ?l)
      = uint (acc + hd cs) + 2 ^ 29 * rval (map uint (tl cs))"
    by (simp add: bn_val_def cs Let_def split_def)
  show n: "normalized \<lparr>val = fst (limb_loop acc cs)\<rparr>"
    using cs limb_loop_digits [of acc cs] by (simp add: normalized_def del: limb_loop.simps)
  show "bn_val \<lparr>val = fst (limb_loop acc cs)\<rparr>
      = (uint (acc + hd cs) + 2 ^ 29 * rval (map uint (tl cs))) mod 2 ^ 261"
    using eq bn_val_nonneg [OF n] bn_val_less [OF n] by (rule mod_eqI)
qed

lemma bn_addi_mod:
  assumes "normalized x" "uint y \<le> 2 ^ 32 - 2 ^ 29"
  shows "normalized (bn_addi x y)" "bn_val (bn_addi x y) = (bn_val x + uint y) mod 2 ^ 261"
proof -
  obtain a as where x: "val x = a # as" using assms(1) by (cases "val x") (auto simp: normalized_def)
  have "uint (y + a) = uint y + uint a"
    using assms x by (intro uint_add_small) (auto simp: normalized_def)
  moreover have "\<forall>c \<in> set (tl (val x)). column_ok c"
    using assms normalized_limb [OF assms(1)] x by (auto intro!: column_ok_32 simp: x) force
  ultimately show "normalized (bn_addi x y)" "bn_val (bn_addi x y) = (bn_val x + uint y) mod 2 ^ 261"
    unfolding bn_addi_def using bn_loop_first [of "val x" y] assms(1)
      normalized_length [OF assms(1)]
    by (simp_all add: bn_val_def x algebra_simps del: limb_loop.simps)
qed

lemma bn_subi_mod:
  assumes "normalized x" "normalized prime" "uint y < uint (val prime ! 0)"
  shows "\<exists>r. bn_subi x y prime = Some r \<and> normalized r
           \<and> bn_val r = (bn_val x + bn_val prime - uint y) mod 2 ^ 261"
proof -
  obtain a as where x: "val x = a # as" "length as = 8"
    using assms(1) by (cases "val x") (auto simp: normalized_def)
  obtain p ps where p: "val prime = p # ps" "length ps = 8"
    using assms(2) by (cases "val prime") (auto simp: normalized_def)
  let ?cs = "map2 (+) (val x) (val prime)"
  have col: "uint (b + c) = uint b + uint c" "column_ok (b + c)"
    if "(b, c) \<in> set (zip (val x) (val prime))" for b c
    using normalized_zip [OF assms(1,2) that] by (simp_all add: uint_add_small column_ok_def)
  have "uint (a + p) = uint a + uint p" using col(1) [of a p] x p by simp
  moreover have "- y + (a + p) = (a + p) - y" by simp
  ultimately have first: "uint (- y + (a + p)) = uint a + uint p - uint y"
    using assms(3) p uint_nonnegative [of a] by (simp only:) (subst uint_sub_small, auto intro: add_increasing less_imp_le)
  have rest: "rval (map uint (map2 (+) as ps)) = rval (map uint as) + rval (map uint ps)"
    using rval_affine2 [of as ps "(+)" 0 1 1] col(1) x p by simp
  have "\<forall>c \<in> set (tl ?cs). column_ok c" using col(2) x p by auto
  then have "normalized \<lparr>val = fst (limb_loop (- y) ?cs)\<rparr>"
    "bn_val \<lparr>val = fst (limb_loop (- y) ?cs)\<rparr> = (bn_val x + bn_val prime - uint y) mod 2 ^ 261"
    using bn_loop_first [of ?cs "- y"] first rest x p
    by (simp_all add: bn_val_def distrib_left add_ac add_diff_eq diff_add_eq del: limb_loop.simps)
  then show ?thesis
    using assms(3) p by (simp add: bn_subi_def word_less_alt)
qed

section \<open>Tests and comparisons\<close>

lemma bn_is_zero_iff: "normalized x \<Longrightarrow> bn_is_zero x \<longleftrightarrow> bn_val x = 0"
  by (auto simp: bn_is_zero_def foldl_or_eq_0 bn_val_def normalized_def rval_eq_0 uint_0_iff)

lemma normalized_bn_one [simp]: "normalized bn_one"
  by (simp add: bn_one_def normalized_def digits_ok_def)

lemma normalized_bn_zero [simp]: "normalized bn_zero"
  by (simp add: bn_zero_def normalized_def digits_ok_def)

lemma bn_val_one [simp]: "bn_val bn_one = 1"
  by (simp add: bn_one_def bn_val_def)

lemma bn_val_zero [simp]: "bn_val bn_zero = 0"
  by (simp add: bn_zero_def bn_val_def)

lemma bn_is_one_iff:
  assumes "normalized x"
  shows "bn_is_one x \<longleftrightarrow> bn_val x = 1"
proof -
  obtain a as where x: "val x = a # as" "length as = 8"
    using assms by (cases "val x") (auto simp: normalized_def)
  have "bn_is_one x \<longleftrightarrow> val x = val bn_one"
    using x by (auto simp: bn_is_one_def foldl_or_eq_0 bn_one_def xor_eq_0
        intro: replicate_eqI [symmetric] replicate_eqI)
  also have "\<dots> \<longleftrightarrow> bn_val x = bn_val bn_one"
    using bn_val_inj [OF assms normalized_bn_one] by (cases x) (simp add: bn_one_def)
  finally show ?thesis by simp
qed

lemma bn_is_equal_iff:
  assumes "normalized x" "normalized y"
  shows "bn_is_equal x y \<longleftrightarrow> bn_val x = bn_val y"
  using map2_xor_eq_0 [of "val x" "val y"] bn_val_inj [OF assms] normalized_length [OF assms(1)]
    normalized_length [OF assms(2)]
  by (cases x, cases y) (simp add: bn_is_equal_def foldl_or_eq_0)

lemma even_bn_val:
  assumes "normalized x"
  shows "even (bn_val x) \<longleftrightarrow> even (uint (val x ! 0))"
  using assms by (cases "val x") (simp_all add: bn_val_def normalized_def)

lemma bn_is_even_iff: "normalized x \<Longrightarrow> bn_is_even x \<longleftrightarrow> even (bn_val x)"
  by (simp add: even_bn_val bn_is_even_def word_uint_eq_iff) presburger

lemma bn_is_odd_iff: "normalized x \<Longrightarrow> bn_is_odd x \<longleftrightarrow> odd (bn_val x)"
  by (simp add: even_bn_val bn_is_odd_def word_uint_eq_iff) presburger

text \<open>
  The constant-time comparison collects one "less" and one "greater" bit per
  limb, most significant first, and compares the two bit strings.
\<close>

lemma bn_less_fold:
  assumes "length xs = length ys" "length xs \<le> 31"
    and "digits_ok (map uint xs)" "digits_ok (map uint ys)"
    and "foldl bn_less_step (0, 0) (rev (zip xs ys)) = (r1, r2)"
  shows "uint r1 < 2 ^ length xs \<and> uint r2 < 2 ^ length xs
    \<and> (uint r1 > uint r2 \<longleftrightarrow> rval (map uint xs) < rval (map uint ys))
    \<and> (uint r1 = uint r2 \<longleftrightarrow> rval (map uint xs) = rval (map uint ys))"
  using assms
proof (induction xs ys arbitrary: r1 r2 rule: list_induct2)
  case Nil
  then show ?case by simp
next
  case (Cons x xs y ys)
  obtain s1 s2 where s: "foldl bn_less_step (0, 0) (rev (zip xs ys)) = (s1, s2)" by force
  then have IH: "uint s1 < 2 ^ length xs" "uint s2 < 2 ^ length xs"
    "uint s1 > uint s2 \<longleftrightarrow> rval (map uint xs) < rval (map uint ys)"
    "uint s1 = uint s2 \<longleftrightarrow> rval (map uint xs) = rval (map uint ys)"
    using Cons.IH [OF _ _ _ s] Cons.prems by auto
  have "(2 :: int) ^ length xs \<le> 2 ^ 30"
    using Cons.prems by (intro power_increasing) simp_all
  with IH(1,2) have "uint (push_bit 1 s OR of_bool b) = 2 * uint s + of_bool b"
    if "s \<in> {s1, s2}" for s b
    using that by (intro uint_push1_or_bool) auto
  moreover have "r1 = push_bit 1 s1 OR of_bool (x < y)" "r2 = push_bit 1 s2 OR of_bool (y < x)"
    using Cons.prems s by simp_all
  ultimately have r: "uint r1 = 2 * uint s1 + of_bool (x < y)" "uint r2 = 2 * uint s2 + of_bool (y < x)"
    by simp_all
  have d: "0 \<le> uint x" "uint x < 2 ^ 29" "0 \<le> uint y" "uint y < 2 ^ 29"
    using Cons.prems by simp_all
  note lex = digit_less_iff [OF d, of "rval (map uint xs)" "rval (map uint ys)"]
  show ?case
    unfolding r word_less_alt list.map rval.simps lex using IH(1,2)
    by (cases "uint s1" "uint s2" rule: linorder_cases;
        cases "uint x" "uint y" rule: linorder_cases) (simp_all flip: IH(3,4))
qed

lemma bn_is_less_iff:
  assumes "normalized x" "normalized y"
  shows "bn_is_less x y \<longleftrightarrow> bn_val x < bn_val y"
proof -
  obtain r1 r2 where r: "foldl bn_less_step (0, 0) (rev (zip (val x) (val y))) = (r1, r2)" by force
  with bn_less_fold [OF _ _ _ _ r] assms show ?thesis
    by (simp add: bn_is_less_def bn_val_def normalized_def word_less_alt)
qed

lemma bn_cmov_eq:
  assumes "length (val t) = length (val f)"
  shows "bn_cmov (of_bool b) t f = Some (if b then t else f)"
proof -
  have "length xs = length ys \<Longrightarrow> map2 (\<lambda>t f. t) xs ys = xs"
    "length xs = length ys \<Longrightarrow> map2 (\<lambda>t f. f) xs ys = ys" for xs ys :: "u32 list"
    by (simp_all add: map_fst_zip [unfolded fst_def] map_snd_zip [unfolded snd_def])
  with assms show ?thesis
    by (cases b; cases t; cases f) (simp_all add: bn_cmov_def)
qed

lemma bn_mod_correct:
  assumes "partly_reduced x prime" "normalized prime" "0 < bn_val prime"
  shows "\<exists>r. bn_mod x prime = Some r \<and> fully_reduced r prime \<and> bn_val r = bn_val x mod bn_val prime"
proof -
  have n: "normalized x" "normalized prime" "bn_val x < 2 * bn_val prime"
    using assms by (simp_all add: partly_reduced_def)
  note s = bn_subtract_mod [OF n(1,2)]
  have eq: "bn_mod x prime = Some (if bn_val x < bn_val prime then x else bn_subtract x prime)"
    using n s by (simp add: bn_mod_def bn_cmov_eq bn_is_less_iff)
  show ?thesis
  proof (cases "bn_val x < bn_val prime")
    case True
    with n eq bn_val_nonneg show ?thesis by (simp add: fully_reduced_def)
  next
    case False
    then have "0 \<le> bn_val x - bn_val prime" "bn_val x - bn_val prime < 2 ^ 261"
      using bn_val_less [OF n(1)] assms(3) by simp_all
    then have "bn_val (bn_subtract x prime) = bn_val x - bn_val prime"
      using s by simp
    moreover have "bn_val x mod bn_val prime = bn_val x - bn_val prime"
      using False n by (intro mod_eqI [symmetric, where f = 1]) simp_all
    ultimately show ?thesis
      using False n eq s by (simp add: fully_reduced_def)
  qed
qed

section \<open>Shifts\<close>

lemma uint_double_limb:
  fixes a :: u32
  assumes "uint a < 2 ^ 29"
  shows "uint (push_bit 1 a AND BN_LIMB_MASK) = 2 * uint a mod 2 ^ 29"
  using assms by (simp only: uint_and_limb_mask) (subst uint_push_bit, simp_all add: mult.commute)

text \<open>One output limb of the left shift: the low bit is the top bit of the limb below.\<close>

lemma lshift_limb:
  fixes a low :: u32
  assumes "uint a < 2 ^ 29" "uint low < 2 ^ 29"
  shows "uint ((push_bit 1 a AND BN_LIMB_MASK) OR drop_bit 28 low) = 2 * uint a mod 2 ^ 29 + uint low div 2 ^ 28"
    and "2 * uint a mod 2 ^ 29 + uint low div 2 ^ 28 < 2 ^ 29"
proof -
  have e: "even (2 * uint a mod 2 ^ 29)" by (simp add: dvd_mod_iff)
  moreover have l: "2 * uint a mod 2 ^ 29 < 2 ^ 29" by simp
  ultimately have "2 * uint a mod 2 ^ 29 + 1 < 2 ^ 29" by (rule even_less_pow2)
  moreover have "uint low div 2 ^ 28 < 2" using assms by (intro int_div_less) simp_all
  ultimately show "2 * uint a mod 2 ^ 29 + uint low div 2 ^ 28 < 2 ^ 29" by linarith
  show "uint ((push_bit 1 a AND BN_LIMB_MASK) OR drop_bit 28 low) = 2 * uint a mod 2 ^ 29 + uint low div 2 ^ 28"
    using uint_or_low_bit [of "push_bit 1 a AND BN_LIMB_MASK" "drop_bit 28 low"] e
      less_trans [OF \<open>2 * uint a mod 2 ^ 29 + 1 < 2 ^ 29\<close>, of "2 ^ 32"] \<open>uint low div 2 ^ 28 < 2\<close>
    unfolding uint_double_limb [OF assms(1)] uint_drop_bit by (simp del: push_bit_numeral)
qed

lemma bn_lshift_loop_rval:
  assumes "digits_ok (map uint (low # as))"
  shows "digits_ok (map uint (bn_lshift_loop low as))
    \<and> rval (map uint (bn_lshift_loop low as))
         = (uint low div 2 ^ 28 + 2 * rval (map uint as)) mod 2 ^ (29 * length as)"
  using assms
proof (induction low as rule: bn_lshift_loop.induct)
  case (1 low)
  have "uint low div 2 ^ 28 mod 1 = 0" by simp
  then show ?case by simp
next
  case (2 low a as)
  have d: "uint a < 2 ^ 29" "uint low < 2 ^ 29" using "2.prems" by simp_all
  let ?h = "2 * uint a mod 2 ^ 29 + uint low div 2 ^ 28"
  let ?t = "uint a div 2 ^ 28 + 2 * rval (map uint as)"
  have h: "0 \<le> ?h" "?h < 2 ^ 29"
    using lshift_limb(2) [OF d] by (simp_all add: add_nonneg_nonneg pos_imp_zdiv_nonneg_iff)
  have "2 * uint a = 2 * uint a mod 2 ^ 29 + 2 ^ 29 * (uint a div 2 ^ 28)"
    using mult_div_mod_eq [of "2 ^ 29" "2 * uint a"] by (simp add: div_mult2_eq [of _ 2 "2 ^ 28", simplified])
  then have sum: "?h + 2 ^ 29 * ?t = uint low div 2 ^ 28 + 2 * rval (map uint (a # as))"
    by (simp add: algebra_simps)
  have IH: "digits_ok (map uint (bn_lshift_loop a as))"
    "rval (map uint (bn_lshift_loop a as)) = ?t mod 2 ^ (29 * length as)"
    using "2.IH" "2.prems" by simp_all
  have "rval (map uint (bn_lshift_loop low (a # as))) = ?h + 2 ^ 29 * (?t mod 2 ^ (29 * length as))"
    by (simp only: bn_lshift_loop.simps list.map rval.simps lshift_limb(1) [OF d] IH)
  also have "\<dots> = (?h + 2 ^ 29 * ?t) mod (2 ^ 29 * 2 ^ (29 * length as))"
    using h by (rule digit_mod) simp
  also have "\<dots> = (uint low div 2 ^ 28 + 2 * rval (map uint (a # as))) mod 2 ^ (29 * length (a # as))"
    by (simp only: sum) (simp add: power_add)
  finally show ?case
    using IH(1) lshift_limb [OF d] h by simp
qed

lemma bn_lshift_correct:
  assumes "normalized x"
  shows "normalized (bn_lshift x)" "bn_val (bn_lshift x) = (2 * bn_val x) mod 2 ^ 261"
proof -
  obtain a as where x: "val x = a # as" "length as = 8"
    using assms by (cases "val x") (auto simp: normalized_def)
  have "bn_lshift x = \<lparr>val = bn_lshift_loop 0 (val x)\<rparr>"
    by (simp add: bn_lshift_def x)
  moreover have "length (bn_lshift_loop low cs) = length cs" for low cs
    by (induction low cs rule: bn_lshift_loop.induct) simp_all
  ultimately show "normalized (bn_lshift x)" "bn_val (bn_lshift x) = (2 * bn_val x) mod 2 ^ 261"
    using bn_lshift_loop_rval [of 0 "val x"] assms by (simp_all add: normalized_def bn_val_def)
qed

lemma bn_rshift_loop_rval:
  assumes "digits_ok (map uint as)"
  shows "digits_ok (map uint (bn_rshift_loop as))
    \<and> rval (map uint (bn_rshift_loop as)) = rval (map uint as) div 2"
  using assms
proof (induction as rule: bn_rshift_loop.induct)
  case 1
  then show ?case by simp
next
  case (2 a)
  then show ?case by (simp add: uint_drop_bit)
next
  case (3 a b as)
  define R where "R = rval (map uint (b # as))"
  have "uint a div 2 < 2 ^ 28" using "3.prems" by (intro int_div_less) simp_all
  moreover have "uint b mod 2 \<le> 1" by simp
  ultimately have l: "uint a div 2 + uint b mod 2 * 2 ^ 28 < 2 ^ 29" by simp
  have h: "uint (drop_bit 1 a OR push_bit 28 (b AND 1)) = uint a div 2 + uint b mod 2 * 2 ^ 28"
    using \<open>uint a div 2 < 2 ^ 28\<close> l by (subst uint_or_push_bit) (simp_all add: uint_drop_bit)
  have "R = uint b + 2 * (2 ^ 28 * rval (map uint as))" by (simp add: R_def)
  then have "uint b mod 2 = R mod 2" by (simp only: mod_mult_self2)
  then have "uint a div 2 + uint b mod 2 * 2 ^ 28 + 2 ^ 29 * (R div 2)
             = uint a div 2 + 2 ^ 28 * (2 * (R div 2) + R mod 2)"
    by (simp only: distrib_left) simp
  also have "\<dots> = (uint a + 2 ^ 29 * R) div 2"
    by simp
  finally have sum: "uint a div 2 + uint b mod 2 * 2 ^ 28 + 2 ^ 29 * (R div 2) = (uint a + 2 ^ 29 * R) div 2" .
  have IH: "digits_ok (map uint (bn_rshift_loop (b # as)))"
    "rval (map uint (bn_rshift_loop (b # as))) = R div 2"
    using "3.IH" "3.prems" by (simp_all add: R_def)
  have "rval (map uint (bn_rshift_loop (a # b # as))) = (uint a + 2 ^ 29 * R) div 2"
    by (simp only: bn_rshift_loop.simps list.map rval.simps h IH sum)
  then show ?case using IH(1) h l by (simp add: R_def)
qed

lemma bn_rshift_correct:
  assumes "normalized x"
  shows "normalized (bn_rshift x)" "bn_val (bn_rshift x) = bn_val x div 2"
proof -
  have "length (bn_rshift_loop as) = length as" for as
    by (induction as rule: bn_rshift_loop.induct) simp_all
  then show "normalized (bn_rshift x)" "bn_val (bn_rshift x) = bn_val x div 2"
    using bn_rshift_loop_rval [of "val x"] assms by (simp_all add: normalized_def bn_val_def bn_rshift_def)
qed

section \<open>Conditional negation\<close>

lemma bn_cnegate_loop_true:
  "bn_cnegate_loop (- 1) 0 acc1 acc2 cs
   = fst (limb_loop acc1 (map (\<lambda>(p, a). (BN_BASE - 1) + 2 * p - a) cs))"
  by (induction "- 1 :: u32" "0 :: u32" acc1 acc2 cs rule: bn_cnegate_loop.induct)
    (simp_all add: Let_def split_def)

lemma bn_cnegate_loop_false:
  "bn_cnegate_loop 0 (- 1) acc1 acc2 cs = fst (limb_loop acc2 (map (\<lambda>(p, a). p + a) cs))"
  by (induction "0 :: u32" "- 1 :: u32" acc1 acc2 cs rule: bn_cnegate_loop.induct)
    (simp_all add: Let_def split_def)

lemma bn_cnegate_columns:
  assumes "normalized x" "normalized prime"
  shows "normalized \<lparr>val = fst (limb_loop 1 (map2 (\<lambda>p a. (BN_BASE - 1) + 2 * p - a) (val prime) (val x)))\<rparr>"
    and "bn_val \<lparr>val = fst (limb_loop 1 (map2 (\<lambda>p a. (BN_BASE - 1) + 2 * p - a) (val prime) (val x)))\<rparr>
           = (2 * bn_val prime - bn_val x) mod 2 ^ 261"
proof -
  let ?f = "\<lambda>p a. (BN_BASE - 1) + 2 * p - a :: u32"
  have col: "uint (?f p a) = 1 * (2 ^ 29 - 1) + 2 * uint p + (- 1) * uint a" "column_ok (?f p a)"
    if "(p, a) \<in> set (zip (val prime) (val x))" for p a
  proof -
    note bnd = normalized_zip [OF assms(2,1) that]
    have "uint (2 * p) = 2 * uint p"
      using bnd by (subst uint_mult_small) simp_all
    then have "uint ((BN_BASE - 1) + 2 * p) = 2 ^ 29 - 1 + 2 * uint p"
      using bnd by (subst uint_add_small) (simp_all add: uint_base_1)
    then show 1: "uint (?f p a) = 1 * (2 ^ 29 - 1) + 2 * uint p + (- 1) * uint a"
      using bnd uint_nonnegative [of p] by (subst uint_sub_small, linarith, simp)
    show "column_ok (?f p a)"
      using bnd 1 by (intro column_ok_32, simp) (use uint_nonnegative [of a] in linarith)
  qed
  note cols = map2_columns_ok [of "val prime" "val x" ?f, OF col(2)]
  show "normalized \<lparr>val = fst (limb_loop 1 (map2 ?f (val prime) (val x)))\<rparr>"
    using cols assms by (intro bn_loop) auto
  have "bn_val \<lparr>val = fst (limb_loop 1 (map2 ?f (val prime) (val x)))\<rparr>
      = (1 + rval (map uint (map2 ?f (val prime) (val x)))) mod 2 ^ 261"
    using cols assms by (subst bn_loop(2)) auto
  also have "1 + rval (map uint (map2 ?f (val prime) (val x))) = 2 ^ 261 + (2 * bn_val prime - bn_val x)"
    using rval_affine2 [of "val prime" "val x" ?f 1 2 "- 1"] col(1) assms by (simp add: bn_val_def)
  finally show "bn_val \<lparr>val = fst (limb_loop 1 (map2 ?f (val prime) (val x)))\<rparr>
      = (2 * bn_val prime - bn_val x) mod 2 ^ 261" by simp
qed

lemma bn_cnegate_eq:
  assumes "partly_reduced x prime" "normalized prime" "0 < bn_val prime" "bn_val prime < 2 ^ 260"
  shows "\<exists>r. bn_cnegate (of_bool c) x prime = Some r \<and> normalized r
     \<and> bn_val r = (if c then 2 * bn_val prime - bn_val x mod bn_val prime
                   else bn_val prime + bn_val x mod bn_val prime)"
proof -
  obtain m where m: "bn_mod x prime = Some m" "fully_reduced m prime" "bn_val m = bn_val x mod bn_val prime"
    using bn_mod_correct [OF assms(1-3)] by blast
  then have n: "normalized m" "0 \<le> bn_val m" "bn_val m < bn_val prime"
    using bn_val_nonneg [of m] by (simp_all add: fully_reduced_def)
  show ?thesis
  proof (cases c)
    case True
    have eq: "bn_cnegate (of_bool c) x prime
        = Some \<lparr>val = fst (limb_loop 1 (map2 (\<lambda>p a. (BN_BASE - 1) + 2 * p - a) (val prime) (val m)))\<rparr>"
      using True m by (simp add: bn_cnegate_def bn_cnegate_loop_true)
    have "(2 * bn_val prime - bn_val m) mod 2 ^ 261 = 2 * bn_val prime - bn_val m"
      using n assms(4) by (intro mod_pos_pos_trivial) simp_all
    then show ?thesis
      using eq bn_cnegate_columns [OF n(1) assms(2)] m(3) True by simp
  next
    case False
    have eq: "bn_cnegate (of_bool c) x prime = Some (bn_add prime m)"
      using False m by (simp add: bn_cnegate_def bn_cnegate_loop_false bn_add_def)
    have "(bn_val prime + bn_val m) mod 2 ^ 261 = bn_val prime + bn_val m"
      using n assms(3,4) by (intro mod_pos_pos_trivial) simp_all
    then show ?thesis
      using eq bn_add_mod [OF assms(2) n(1)] m(3) False by simp
  qed
qed

lemma bn_one_correct [simp]: "normalized bn_one" "bn_val bn_one = 1"
  by (simp_all add: bn_one_def normalized_def bn_val_def digits_ok_def)

lemma bn_zero_correct [simp]: "normalized bn_zero" "bn_val bn_zero = 0"
  by (simp_all add: bn_zero_def normalized_def bn_val_def digits_ok_def)

end
