(* ===== verification/Bignum_Mod.thy ===== *)
theory Bignum_Mod
  imports Bignum
begin

text \<open>
  The multiplicative half of \<open>crypto/bignum.c\<close>: halving, multiplication,
  addition and reduction modulo a prime \<open>2 ^ 256 - 2 ^ 224 \<le> prime \<le> 2 ^ 256\<close>.
\<close>

section \<open>Halving, multiplication, reduction\<close>

fun bn_mult_half_loop :: "u32 \<Rightarrow> u32 \<Rightarrow> (u32 \<times> u32) list \<Rightarrow> u32 list" where
  "bn_mult_half_loop x_is_odd_mask acc [] = [acc]"
| "bn_mult_half_loop x_is_odd_mask acc ((a, p) # cs) =
     (let temp = a + (p AND x_is_odd_mask);
          acc = acc + push_bit 28 (temp AND 1)
      in (acc AND BN_LIMB_MASK)
           # bn_mult_half_loop x_is_odd_mask (drop_bit 29 acc + drop_bit 1 temp) cs)"

definition bn_mult_half :: "bignum256 \<Rightarrow> bignum256 \<Rightarrow> bignum256" where
  "bn_mult_half x prime =
     (let x_is_odd_mask = - ((val x ! 0) AND 1);
          acc = drop_bit 1 ((val x ! 0) + ((val prime ! 0) AND x_is_odd_mask))
      in \<lparr>val = bn_mult_half_loop x_is_odd_mask acc (tl (zip (val x) (val prime)))\<rparr>)"

definition bn_fast_mod :: "bignum256 \<Rightarrow> bignum256 \<Rightarrow> bignum256" where
  "bn_fast_mod x prime =
     (let coef = drop_bit 24 (val x ! 8);
          column = (\<lambda>a p. push_bit 8 (ucast (BN_BASE - 1 :: u32)) + ucast a - ucast p * ucast coef :: u64)
      in \<lparr>val = fst (limb_loop (push_bit 8 1) (map2 column (val x) (val prime)))\<rparr>)"

definition bn_mult_k :: "bignum256 \<Rightarrow> u8 \<Rightarrow> bignum256 \<Rightarrow> bignum256 option" where
  "bn_mult_k x k prime =
     (if \<not> k \<le> 8 then None
      else Some (bn_fast_mod \<lparr>val = map (\<lambda>a. ucast k * a) (val x)\<rparr> prime))"

definition bn_addmod :: "bignum256 \<Rightarrow> bignum256 \<Rightarrow> bignum256 \<Rightarrow> bignum256" where
  "bn_addmod x y prime = bn_fast_mod \<lparr>val = map2 (+) (val x) (val y)\<rparr> prime"

text \<open>
  Long multiplication: column \<open>i\<close> is the sum of the products \<open>k[j] * x[i - j]\<close>,
  for \<open>j \<le> i\<close> in the lower half and \<open>i - 8 \<le> j \<le> 8\<close> in the upper half; the
  last carry is limb 17.
\<close>

definition mul_column :: "u32 list \<Rightarrow> u32 list \<Rightarrow> nat \<Rightarrow> u64" where
  "mul_column k x i =
     sum_list (map (\<lambda>j. ucast (k ! j) * ucast (x ! (i - j)))
       (if i < 9 then [0..<i + 1] else [i - 9 + 1..<9]))"

definition bn_multiply_long :: "bignum256 \<Rightarrow> bignum256 \<Rightarrow> u32 list" where
  "bn_multiply_long k x =
     (let (res, acc) = limb_loop 0 (map (mul_column (val k) (val x)) [0..<17])
      in res @ [ucast acc])"

definition bn_multiply_reduce_step :: "u32 list \<Rightarrow> bignum256 \<Rightarrow> nat \<Rightarrow> u32 list" where
  "bn_multiply_reduce_step res prime d =
     (let coef = drop_bit 24 (res ! (d + 8)) + push_bit 5 (res ! (d + 9));
          column = (\<lambda>a p. push_bit 31 (ucast (BN_BASE - 1 :: u32)) + ucast a - ucast p * ucast coef :: u64);
          out = fst (limb_loop (push_bit 31 1) (map2 column (take 9 (drop d res)) (val prime)))
      in (take d res @ out @ drop (d + 9) res)[d + 9 := 0])"

fun bn_multiply_reduce_loop :: "nat \<Rightarrow> u32 list \<Rightarrow> bignum256 \<Rightarrow> u32 list" where
  "bn_multiply_reduce_loop 0 res prime = res"
| "bn_multiply_reduce_loop (Suc i) res prime =
     bn_multiply_reduce_loop i (bn_multiply_reduce_step res prime i) prime"

definition bn_multiply_reduce :: "u32 list \<Rightarrow> bignum256 \<Rightarrow> bignum256" where
  "bn_multiply_reduce res prime = \<lparr>val = take 9 (bn_multiply_reduce_loop 9 res prime)\<rparr>"

definition bn_multiply :: "bignum256 \<Rightarrow> bignum256 \<Rightarrow> bignum256 \<Rightarrow> bignum256" where
  "bn_multiply k x prime = bn_multiply_reduce (bn_multiply_long k x) prime"

section \<open>The moduli the routines are made for\<close>

definition prime_ok :: "bignum256 \<Rightarrow> bool" where
  "prime_ok prime \<longleftrightarrow> normalized prime \<and> 2 ^ 256 - 2 ^ 224 \<le> bn_val prime \<and> bn_val prime \<le> 2 ^ 256"

lemma prime_ok_normalized [simp]: "prime_ok prime \<Longrightarrow> normalized prime"
  by (simp add: prime_ok_def)

lemma prime_ok_pos [simp]: "prime_ok prime \<Longrightarrow> 0 < bn_val prime"
  by (simp add: prime_ok_def)

lemma prime_ok_le: "prime_ok prime \<Longrightarrow> bn_val prime \<le> 2 ^ 256"
  unfolding prime_ok_def by (elim conjE)

lemma partly_reduced_less: 
  assumes "prime_ok prime" "partly_reduced a prime"
  shows "bn_val a < 2 ^ 257"
proof -
  have "bn_val a < 2 * bn_val prime" using assms(2) by (simp add: partly_reduced_def)
  also have "\<dots> \<le> 2 * 2 ^ 256" using prime_ok_le [OF assms(1)] by (rule mult_left_mono) simp
  finally show ?thesis by simp
qed

section \<open>Columns of a subtraction of a multiple of the modulus\<close>

text \<open>
  Both reductions run the carry loop over \<open>((BASE - 1) << shift) + x[i] - prime[i] * coef\<close>
  with a coefficient below \<open>2 ^ shift\<close>; \<open>shift\<close> is 8 in \<open>bn_fast_mod\<close> and 31 in
  \<open>bn_multiply_reduce_step\<close>.
\<close>

definition reduce_column :: "nat \<Rightarrow> u32 \<Rightarrow> u32 \<Rightarrow> u32 \<Rightarrow> u64" where
  "reduce_column shift coef a p =
     push_bit shift (ucast (BN_BASE - 1 :: u32)) + ucast a - ucast p * ucast coef"

lemma uint_ucast_32_64 [simp]: "uint (ucast (a :: u32) :: u64) = uint a"
  by (rule uint_ucast_small) (rule less_trans [OF uint_lt2p], simp)

lemma uint_reduce_column:
  assumes "shift \<le> 31" "uint coef < 2 ^ shift" "uint p < 2 ^ 29"
  shows "uint (reduce_column shift coef a p) = 2 ^ shift * (2 ^ 29 - 1) + uint a - uint p * uint coef"
    and "column_ok (reduce_column shift coef a p)"
proof -
  have s: "(2 :: int) ^ shift \<le> 2 ^ 31" using assms(1) by (intro power_increasing) simp_all
  have a: "uint a < 2 ^ 32" using uint_lt2p [of a] by simp
  have "uint (push_bit shift (ucast (BN_BASE - 1 :: u32)) :: u64) = (2 ^ 29 - 1) * 2 ^ shift"
    using s by (subst uint_push_bit) (simp_all add: uint_base_1)
  moreover have "(2 ^ 29 - 1) * 2 ^ shift + uint a < 2 ^ 63" using s a by simp
  ultimately have 1: "uint (push_bit shift (ucast (BN_BASE - 1 :: u32)) + ucast a :: u64)
      = (2 ^ 29 - 1) * 2 ^ shift + uint a"
    by (subst uint_add_small) simp_all
  have pc: "uint p * uint coef \<le> (2 ^ 29 - 1) * 2 ^ shift"
    using assms by (intro mult_mono) simp_all
  then have "uint p * uint coef < 2 ^ 64" using s by simp
  then have 2: "uint (ucast p * ucast coef :: u64) = uint p * uint coef"
    by (subst uint_mult_small) simp_all
  have le: "uint (ucast p * ucast coef :: u64) \<le> uint (push_bit shift (ucast (BN_BASE - 1 :: u32)) + ucast a :: u64)"
    unfolding 1 2 using pc uint_nonnegative [of a] by linarith
  show eq: "uint (reduce_column shift coef a p) = 2 ^ shift * (2 ^ 29 - 1) + uint a - uint p * uint coef"
    unfolding reduce_column_def uint_sub_small [OF le] 1 2 by (simp add: mult.commute)
  have "0 \<le> uint p * uint coef" by simp
  with \<open>(2 ^ 29 - 1) * 2 ^ shift + uint a < 2 ^ 63\<close> show "column_ok (reduce_column shift coef a p)"
    by (intro column_ok_64, unfold eq mult.commute [of "2 ^ shift"]) linarith
qed

lemma reduce_loop:
  fixes cs :: "u32 list"
  assumes "shift \<le> 31" "uint coef < 2 ^ shift" "normalized prime" "length cs = 9"
  defines "out \<equiv> \<lparr>val = fst (limb_loop (push_bit shift 1 :: u64) (map2 (reduce_column shift coef) cs (val prime)))\<rparr>"
  shows "normalized out"
    and "bn_val out = (rval (map uint cs) - uint coef * bn_val prime) mod 2 ^ 261"
proof -
  let ?cols = "map2 (reduce_column shift coef) cs (val prime)"
  have b: "uint p < 2 ^ 29" if "(a, p) \<in> set (zip cs (val prime))" for a p
    using that assms(3) normalized_limb set_zip_rightD by metis
  have "\<forall>c \<in> set ?cols. column_ok c"
    using uint_reduce_column(2) [OF assms(1,2) b] by (intro map2_columns_ok) 
  moreover have "uint (push_bit shift 1 :: u64) = 2 ^ shift"
    using assms(1) by (intro uint_push_bit_1) simp
  moreover have "(2 :: int) ^ shift < 2 ^ 35" using assms(1) by (intro power_strict_increasing) simp_all
  ultimately have n: "normalized out"
    and v: "bn_val out = (2 ^ shift + rval (map uint ?cols)) mod 2 ^ 261"
    unfolding out_def using bn_loop [of "push_bit shift 1 :: u64" ?cols] assms(3,4) by simp_all
  have "rval (map uint ?cols) = 2 ^ shift * (2 ^ (29 * length cs) - 1)
      + 1 * rval (map uint cs) + (- uint coef) * rval (map uint (val prime))"
    using assms(3,4) uint_reduce_column(1) [OF assms(1,2) b]
    by (intro rval_affine2) (simp_all add: mult.commute)
  then have "2 ^ shift + rval (map uint ?cols) = 2 ^ 261 * 2 ^ shift + (rval (map uint cs) - uint coef * bn_val prime)"
    using assms(4) by (simp add: bn_val_def algebra_simps)
  then show "normalized out" "bn_val out = (rval (map uint cs) - uint coef * bn_val prime) mod 2 ^ 261"
    using n unfolding v by (simp_all only: mod_mult_self4)
qed

section \<open>Partial reduction\<close>

text \<open>
  The limbs may be any 32-bit values (\<open>bn_mult_k\<close> and \<open>bn_addmod\<close> pass unnormalized
  ones), and the quotient estimate taken from the top limb is still good enough.
\<close>

lemma rval_u32_le: "rval (map uint (as :: u32 list)) \<le> 9 * (2 ^ (29 * length as) - 1)"
proof (induction as)
  case (Cons a as)
  have "uint a < 2 ^ 32" using uint_lt2p [of a] by simp
  with Cons show ?case by (simp add: power_add)
qed simp

lemma rval_u32_nonneg: "0 \<le> rval (map uint (as :: u32 list))"
  by (induction as) simp_all

lemma bn_fast_mod_quotient:
  assumes "prime_ok prime" "length (val x) = 9"
  defines "coef \<equiv> uint (drop_bit 24 (val x ! 8))"
  shows "0 \<le> coef" "coef < 2 ^ 8" "0 \<le> bn_val x - coef * bn_val prime"
    and "bn_val x - coef * bn_val prime < 2 * bn_val prime"
proof -
  obtain lo top where x: "val x = lo @ [top]" "length lo = 8"
    using assms(2) by (cases "val x" rule: rev_cases) auto
  let ?L = "rval (map uint lo)" and ?p = "bn_val prime"
  have top: "uint top < 2 ^ 32" using uint_lt2p [of top] by simp
  have c: "coef = uint top div 2 ^ 24"
    using x by (simp add: coef_def nth_append uint_drop_bit)
  show c0: "0 \<le> coef" by (simp add: c pos_imp_zdiv_nonneg_iff)
  show c8: "coef < 2 ^ 8" unfolding c using div_power_less [OF top, of 24] by simp
  have L: "0 \<le> ?L" "?L \<le> 9 * (2 ^ 232 - 1)"
    using rval_u32_le [of lo] rval_u32_nonneg [of lo] x(2) by simp_all
  have p: "2 ^ 256 - 2 ^ 224 \<le> ?p" "?p \<le> 2 ^ 256" using assms(1) by (simp_all add: prime_ok_def)
  define m where "m = uint top mod 2 ^ 24"
  have m: "0 \<le> m" "m < 2 ^ 24" by (simp_all add: m_def)
  have "uint top = 2 ^ 24 * coef + m" by (simp add: c m_def)
  then have X: "bn_val x = ?L + 2 ^ 232 * m + 2 ^ 256 * coef"
    using x by (simp add: bn_val_def rval_append)
  have "coef * ?p \<le> coef * 2 ^ 256" using p c0 by (intro mult_left_mono) simp_all
  then show "0 \<le> bn_val x - coef * ?p" using X L m by simp
  have "coef * (2 ^ 256 - ?p) \<le> 2 ^ 8 * 2 ^ 224" using p c0 c8 by (intro mult_mono) simp_all
  then have "2 ^ 256 * coef - coef * ?p \<le> 2 ^ 232" by (simp add: algebra_simps)
  then show "bn_val x - coef * ?p < 2 * ?p" using X L m p by simp
qed

lemma bn_fast_mod_correct:
  assumes "prime_ok prime" "length (val x) = 9"
  shows "partly_reduced (bn_fast_mod x prime) prime"
    and "bn_val (bn_fast_mod x prime) mod bn_val prime = bn_val x mod bn_val prime"
proof -
  let ?c = "drop_bit 24 (val x ! 8)"
  note q = bn_fast_mod_quotient [OF assms]
  have eq: "bn_fast_mod x prime
      = \<lparr>val = fst (limb_loop (push_bit 8 1 :: u64) (map2 (reduce_column 8 ?c) (val x) (val prime)))\<rparr>"
    by (simp add: bn_fast_mod_def reduce_column_def Let_def)
  note r = reduce_loop [of 8 ?c prime "val x"]
  have n: "normalized (bn_fast_mod x prime)"
    unfolding eq using assms q(2) by (intro r(1)) simp_all
  have "bn_val (bn_fast_mod x prime) = (bn_val x - uint ?c * bn_val prime) mod 2 ^ 261"
    unfolding eq using assms q(2) by (subst r(2)) (simp_all add: bn_val_def)
  moreover have "bn_val x - uint ?c * bn_val prime < 2 ^ 261"
    using q(4) assms(1) by (simp add: prime_ok_def)
  ultimately have v: "bn_val (bn_fast_mod x prime) = bn_val x - uint ?c * bn_val prime"
    using q(3) by simp
  show "partly_reduced (bn_fast_mod x prime) prime"
    using n v q(4) by (simp add: partly_reduced_def)
  show "bn_val (bn_fast_mod x prime) mod bn_val prime = bn_val x mod bn_val prime"
    unfolding v by (rule diff_mult_mod)
qed

section \<open>Long multiplication\<close>

lemma length_9_cases:
  assumes "length xs = 9"
  obtains a0 a1 a2 a3 a4 a5 a6 a7 a8 where "xs = [a0, a1, a2, a3, a4, a5, a6, a7, a8]"
  using assms by (auto simp: numeral_eq_Suc length_Suc_conv)

definition conv_column :: "int list \<Rightarrow> int list \<Rightarrow> nat \<Rightarrow> int" where
  "conv_column k x i =
     sum_list (map (\<lambda>j. k ! j * x ! (i - j)) (if i < 9 then [0..<i + 1] else [i - 9 + 1..<9]))"

lemma conv_rval:
  assumes "length k = 9" "length x = 9"
  shows "rval (map (conv_column k x) [0..<17]) = rval k * rval x"
proof -
  obtain k0 k1 k2 k3 k4 k5 k6 k7 k8 where k: "k = [k0, k1, k2, k3, k4, k5, k6, k7, k8]"
    using assms(1) by (rule length_9_cases)
  obtain x0 x1 x2 x3 x4 x5 x6 x7 x8 where x: "x = [x0, x1, x2, x3, x4, x5, x6, x7, x8]"
    using assms(2) by (rule length_9_cases)
  have u: "[0..<17] = [0,1,2,3,4,5,6,7,8,9,10,11,12,13,14,15,16::nat]" by (simp add: upt_rec)
  define B where "B = (2 :: int) ^ 29"
  have "rval (map (conv_column k x) [0..<17])
    = k0*x0 + B*(k0*x1+k1*x0 + B*(k0*x2+k1*x1+k2*x0 + B*(k0*x3+k1*x2+k2*x1+k3*x0
      + B*(k0*x4+k1*x3+k2*x2+k3*x1+k4*x0 + B*(k0*x5+k1*x4+k2*x3+k3*x2+k4*x1+k5*x0
      + B*(k0*x6+k1*x5+k2*x4+k3*x3+k4*x2+k5*x1+k6*x0
      + B*(k0*x7+k1*x6+k2*x5+k3*x4+k4*x3+k5*x2+k6*x1+k7*x0
      + B*(k0*x8+k1*x7+k2*x6+k3*x5+k4*x4+k5*x3+k6*x2+k7*x1+k8*x0
      + B*(k1*x8+k2*x7+k3*x6+k4*x5+k5*x4+k6*x3+k7*x2+k8*x1
      + B*(k2*x8+k3*x7+k4*x6+k5*x5+k6*x4+k7*x3+k8*x2
      + B*(k3*x8+k4*x7+k5*x6+k6*x5+k7*x4+k8*x3
      + B*(k4*x8+k5*x7+k6*x6+k7*x5+k8*x4 + B*(k5*x8+k6*x7+k7*x6+k8*x5
      + B*(k6*x8+k7*x7+k8*x6 + B*(k7*x8+k8*x7 + B*(k8*x8))))))))))))))))"
    unfolding u k x by (simp add: conv_column_def upt_rec B_def)
  also have "\<dots> = (k0+B*(k1+B*(k2+B*(k3+B*(k4+B*(k5+B*(k6+B*(k7+B*k8))))))))
    * (x0+B*(x1+B*(x2+B*(x3+B*(x4+B*(x5+B*(x6+B*(x7+B*x8))))))))"
    by algebra
  also have "\<dots> = rval k * rval x" by (simp add: k x B_def)
  finally show ?thesis .
qed

lemma uint_sum_list_small:
  fixes ws :: "'a::len word list"
  assumes "sum_list (map uint ws) < 2 ^ LENGTH('a)"
  shows "uint (sum_list ws) = sum_list (map uint ws)"
  using assms
proof (induction ws)
  case (Cons w ws)
  have "sum_list (map uint ws) < 2 ^ LENGTH('a)"
    using Cons.prems uint_nonnegative [of w] by (simp only: list.map sum_list.Cons)
  then show ?case using Cons by (simp add: uint_add_small)
qed simp

lemma sum_list_bound:
  fixes c :: int
  shows "(\<And>x. x \<in> set xs \<Longrightarrow> x \<le> c) \<Longrightarrow> sum_list xs \<le> c * int (length xs)"
  by (induction xs) (auto simp: algebra_simps intro: add_mono)

lemma mul_column_correct:
  assumes "normalized k" "normalized x" "i < 17"
  shows "uint (mul_column (val k) (val x) i) = conv_column (map uint (val k)) (map uint (val x)) i"
    and "column_ok (mul_column (val k) (val x) i)"
proof -
  define js where "js = (if i < 9 then [0..<i + 1] else [i - 9 + 1..<9])"
  have js: "j < 9" "i - j < 9" if "j \<in> set js" for j
    using that assms(3) by (auto simp: js_def split: if_splits)
  have len: "length js \<le> 9" by (auto simp: js_def)
  have prod: "uint (ucast (val k ! j) * ucast (val x ! (i - j)) :: u64) = uint (val k ! j) * uint (val x ! (i - j))"
    "uint (val k ! j) * uint (val x ! (i - j)) \<le> 2 ^ 29 * 2 ^ 29" if "j \<in> set js" for j
  proof -
    have "uint (val k ! j) < 2 ^ 29" "uint (val x ! (i - j)) < 2 ^ 29"
      using js [OF that] assms(1,2) normalized_limb nth_mem normalized_length by metis+
    then show le: "uint (val k ! j) * uint (val x ! (i - j)) \<le> 2 ^ 29 * 2 ^ 29"
      by (intro mult_mono) simp_all
    then show "uint (ucast (val k ! j) * ucast (val x ! (i - j)) :: u64) = uint (val k ! j) * uint (val x ! (i - j))"
      by (subst uint_mult_small) simp_all
  qed
  let ?ws = "map (\<lambda>j. ucast (val k ! j) * ucast (val x ! (i - j)) :: u64) js"
  have "sum_list (map uint ?ws) \<le> 2 ^ 58 * int (length (map uint ?ws))"
    using prod by (intro sum_list_bound) auto
  also have "\<dots> \<le> 2 ^ 58 * 9" using len by simp
  finally have b: "sum_list (map uint ?ws) \<le> 2 ^ 58 * 9" .
  then have u: "uint (mul_column (val k) (val x) i) = sum_list (map uint ?ws)"
    unfolding mul_column_def js_def [symmetric] by (intro uint_sum_list_small) simp
  also have "map uint ?ws = map (\<lambda>j. map uint (val k) ! j * map uint (val x) ! (i - j)) js"
    using prod js assms(1,2) by (auto simp: o_def)
  finally show "uint (mul_column (val k) (val x) i) = conv_column (map uint (val k)) (map uint (val x)) i"
    by (simp add: conv_column_def js_def)
  show "column_ok (mul_column (val k) (val x) i)"
    using u b by (intro column_ok_64) simp
qed

lemma bn_multiply_long_correct:
  assumes "normalized k" "normalized x"
  shows "length (bn_multiply_long k x) = 18" "digits_ok (map uint (bn_multiply_long k x))"
    and "rval (map uint (bn_multiply_long k x)) = bn_val k * bn_val x"
proof -
  let ?cols = "map (mul_column (val k) (val x)) [0..<17]"
  obtain res acc where l: "limb_loop 0 ?cols = (res, acc)" by force
  have eq: "bn_multiply_long k x = res @ [ucast acc]" by (simp add: bn_multiply_long_def l)
  have len: "length res = 17" using length_limb_loop [of 0 ?cols] l by simp
  have dig: "digits_ok (map uint res)" using limb_loop_digits [of 0 ?cols] l by simp
  have "map uint ?cols = map (conv_column (map uint (val k)) (map uint (val x))) [0..<17]"
    using mul_column_correct(1) [OF assms] by simp
  then have "rval (map uint ?cols) = bn_val k * bn_val x"
    unfolding bn_val_def using assms by (simp only:) (simp add: conv_rval)
  moreover have "\<forall>c \<in> set ?cols. column_ok c" using mul_column_correct(2) [OF assms] by auto
  ultimately have v: "rval (map uint res) + 2 ^ 493 * uint acc = bn_val k * bn_val x"
    using limb_loop_rval [of 0 ?cols] l by simp
  have "bn_val k * bn_val x < 2 ^ 261 * 2 ^ 261"
    using assms bn_val_less bn_val_nonneg by (intro mult_strict_mono) auto
  then have "2 ^ 493 * uint acc < 2 ^ 493 * 2 ^ 29"
    using v rval_nonneg [OF dig] by simp
  then have a: "uint acc < 2 ^ 29" by simp
  then have "uint (ucast acc :: u32) = uint acc" by (intro uint_ucast_small) simp
  then show "length (bn_multiply_long k x) = 18" "digits_ok (map uint (bn_multiply_long k x))"
    "rval (map uint (bn_multiply_long k x)) = bn_val k * bn_val x"
    using len dig a v by (simp_all add: eq rval_append)
qed

section \<open>Reduction of a double-length product\<close>

text \<open>
  One reduction step seen on the ten limbs \<open>mid @ [r9]\<close> it works on: the quotient
  estimate is exact and the difference fits in nine limbs.
\<close>

lemma reduce_step_window:
  fixes mid :: "u32 list" and r9 :: u32
  assumes "prime_ok prime" "length mid = 9" "digits_ok (map uint mid)"
    and "rval (map uint mid) + 2 ^ 261 * uint r9 < 2 ^ 287"
  defines "M \<equiv> rval (map uint mid) + 2 ^ 261 * uint r9"
    and "coef \<equiv> drop_bit 24 (mid ! 8) + push_bit 5 r9"
  shows "uint coef < 2 ^ 31" "0 \<le> M - uint coef * bn_val prime"
    and "M - uint coef * bn_val prime + 1 \<le> 2 * bn_val prime"
proof -
  obtain lo top where mid: "mid = lo @ [top]" "length lo = 8"
    using assms(2) by (cases mid rule: rev_cases) auto
  let ?L = "rval (map uint lo)" and ?p = "bn_val prime"
  have L: "0 \<le> ?L" "?L < 2 ^ 232"
    using assms(3) mid rval_nonneg [of "map uint lo"] rval_less [of "map uint lo"] by simp_all
  have top: "uint top < 2 ^ 29" using assms(3) mid by simp
  define c where "c = uint top div 2 ^ 24"
  define m where "m = uint top mod 2 ^ 24"
  have m: "0 \<le> m" "m < 2 ^ 24" by (simp_all add: m_def)
  have c: "0 \<le> c" "c < 2 ^ 5"
    using div_power_less [OF top, of 24] by (simp_all add: c_def pos_imp_zdiv_nonneg_iff)
  have "uint top = 2 ^ 24 * c + m" by (simp add: c_def m_def)
  then have M: "M = ?L + 2 ^ 232 * m + 2 ^ 256 * (c + uint r9 * 2 ^ 5)"
    using mid by (simp add: M_def rval_append)
  have "2 ^ 256 * (c + uint r9 * 2 ^ 5) < 2 ^ 256 * 2 ^ 31"
    using assms(4) L m unfolding M_def [symmetric] M by simp
  then have q: "c + uint r9 * 2 ^ 5 < 2 ^ 31" by simp
  have "uint (push_bit 5 r9) = uint r9 * 2 ^ 5" using q c by (intro uint_push_bit) simp
  then have coef: "uint coef = c + uint r9 * 2 ^ 5"
    unfolding coef_def using q mid by (subst uint_add_small) (simp_all add: uint_drop_bit c_def nth_append)
  show c31: "uint coef < 2 ^ 31" using q coef by simp
  have p: "2 ^ 256 - 2 ^ 224 \<le> ?p" "?p \<le> 2 ^ 256" using assms(1) by (simp_all add: prime_ok_def)
  have "uint coef * ?p \<le> uint coef * 2 ^ 256" using p by (intro mult_left_mono) simp_all
  then show "0 \<le> M - uint coef * ?p" using M L m by (simp add: coef)
  have "uint coef * (2 ^ 256 - ?p) \<le> 2 ^ 31 * 2 ^ 224" using p c31 by (intro mult_mono) simp_all
  then have "2 ^ 256 * uint coef - uint coef * ?p \<le> 2 ^ 255" by (simp add: algebra_simps)
  moreover have "M = ?L + 2 ^ 232 * m + 2 ^ 256 * uint coef" unfolding M coef by simp
  ultimately show "M - uint coef * ?p + 1 \<le> 2 * ?p" using L m p by simp
qed

lemma bn_multiply_reduce_step_correct:
  assumes "prime_ok prime" "length res = 18" "digits_ok (map uint res)" "d \<le> 8"
    and "rval (map uint res) < 2 ^ (256 + 29 * d + 31)"
  defines "res' \<equiv> bn_multiply_reduce_step res prime d"
  shows "length res' = 18" "digits_ok (map uint res')"
    and "rval (map uint res') < 2 * bn_val prime * 2 ^ (29 * d)"
    and "rval (map uint res') mod bn_val prime = rval (map uint res) mod bn_val prime"
proof -
  define lo where "lo = take d res"
  define mid where "mid = take 9 (drop d res)"
  define r9 where "r9 = res ! (d + 9)"
  define hi where "hi = drop (d + 10) res"
  let ?v = "\<lambda>ws :: u32 list. rval (map uint ws)" and ?p = "bn_val prime"
  have "drop (d + 9) res = r9 # hi"
    using Cons_nth_drop_Suc [of "d + 9" res] assms(2,4) by (simp add: r9_def hi_def add.commute)
  then have d9: "drop (d + 9) res = r9 # hi" "res = lo @ mid @ r9 # hi"
    using append_take_drop_id [of d res] append_take_drop_id [of 9 "drop d res"]
    by (simp_all add: lo_def mid_def add.commute)
  have len: "length lo = d" "length mid = 9" using assms(2,4) by (simp_all add: lo_def mid_def)
  have dig: "digits_ok (map uint lo)" "digits_ok (map uint mid)" "digits_ok (map uint hi)" "uint r9 < 2 ^ 29"
    using assms(3) by (simp_all add: d9(2))
  define M where "M = ?v mid + 2 ^ 261 * uint r9"
  have res: "?v res = ?v lo + 2 ^ (29 * d) * (M + 2 ^ 290 * ?v hi)"
    using len by (simp add: d9(2) rval_append M_def algebra_simps)
  have nn: "0 \<le> ?v lo" "0 \<le> ?v mid" "0 \<le> ?v hi" using dig rval_nonneg by simp_all
  have "256 + 29 * d + 31 = 29 * d + 287" by simp
  then have "2 ^ (256 + 29 * d + 31) = (2 ^ (29 * d) * 2 ^ 287 :: int)" by (simp only: power_add)
  then have "2 ^ (29 * d) * (M + 2 ^ 290 * ?v hi) < 2 ^ (29 * d) * 2 ^ 287"
    using assms(5) nn(1) unfolding res by linarith
  then have small: "M + 2 ^ 290 * ?v hi < 2 ^ 287" by simp
  have "0 \<le> M" using nn by (simp add: M_def)
  then have hi0: "?v hi = 0" using small nn(3) by simp
  then have M287: "?v mid + 2 ^ 261 * uint r9 < 2 ^ 287" using small by (simp add: M_def)
  define coef where "coef = drop_bit 24 (mid ! 8) + push_bit 5 r9"
  note w = reduce_step_window [OF assms(1) len(2) dig(2) M287, folded M_def coef_def]
  define out where "out = \<lparr>val = fst (limb_loop (push_bit 31 1 :: u64) (map2 (reduce_column 31 coef) mid (val prime)))\<rparr>"
  have out: "normalized out" "bn_val out = (?v mid - uint coef * ?p) mod 2 ^ 261"
    unfolding out_def using assms(1) w(1) len by (intro reduce_loop; simp)+
  have "M - uint coef * ?p = (?v mid - uint coef * ?p) + 2 ^ 261 * uint r9" by (simp add: M_def)
  then have "(?v mid - uint coef * ?p) mod 2 ^ 261 = (M - uint coef * ?p) mod 2 ^ 261"
    by (simp only: mod_mult_self2)
  also have "\<dots> = M - uint coef * ?p"
    using w(2,3) assms(1) by (intro mod_pos_pos_trivial) (simp_all add: prime_ok_def)
  finally have outv: "bn_val out = M - uint coef * ?p" using out by simp
  have "res ! (d + 8) = mid ! 8" using len by (simp add: d9(2) nth_append)
  then have "res' = (lo @ val out @ r9 # hi)[d + 9 := 0]"
    by (simp add: res'_def bn_multiply_reduce_step_def Let_def d9(1) out_def coef_def
        reduce_column_def [abs_def] lo_def mid_def r9_def)
  then have eq: "res' = lo @ val out @ 0 # hi"
    using len normalized_length [OF out(1)] by (simp add: list_update_append)
  show "length res' = 18" using assms(2) len normalized_length [OF out(1)] by (simp add: eq d9(2))
  show "digits_ok (map uint res')" using dig out(1) by (simp add: eq normalized_def)
  have v: "?v res' = ?v lo + 2 ^ (29 * d) * bn_val out"
    using len hi0 normalized_length [OF out(1)] by (simp add: eq rval_append bn_val_def)
  have "?v lo < 2 ^ (29 * d)" using rval_less [OF dig(1)] len by simp
  moreover have "2 ^ (29 * d) * (bn_val out + 1) \<le> 2 ^ (29 * d) * (2 * ?p)"
    using w(3) outv by (intro mult_left_mono) simp_all
  moreover have "2 ^ (29 * d) * (bn_val out + 1) = 2 ^ (29 * d) * bn_val out + 2 ^ (29 * d)"
    by (simp only: distrib_left mult_1_right)
  ultimately show "?v res' < 2 * ?p * 2 ^ (29 * d)"
    unfolding v mult.commute [of "2 * ?p"] by linarith
  have "?v res' = ?v res - (2 ^ (29 * d) * uint coef) * ?p"
    unfolding v outv res hi0 by (simp only: right_diff_distrib mult_zero_right add_0_right mult.assoc)
  then show "?v res' mod ?p = ?v res mod ?p" by (simp only: diff_mult_mod)
qed

lemma bn_multiply_reduce_loop_correct:
  assumes "prime_ok prime" "length res = 18" "digits_ok (map uint res)" "n \<le> 9"
    and "rval (map uint res) < 2 ^ (258 + 29 * n)" "n = 0 \<longrightarrow> rval (map uint res) < 2 * bn_val prime"
  defines "out \<equiv> bn_multiply_reduce_loop n res prime"
  shows "length out = 18 \<and> digits_ok (map uint out) \<and> rval (map uint out) < 2 * bn_val prime
    \<and> rval (map uint out) mod bn_val prime = rval (map uint res) mod bn_val prime"
  unfolding out_def using assms(2-6)
proof (induction n arbitrary: res)
  case 0
  then show ?case by simp
next
  case (Suc i)
  have e: "258 + 29 * Suc i = 256 + 29 * i + 31" by simp
  note s = bn_multiply_reduce_step_correct [OF assms(1) Suc.prems(1,2) _ Suc.prems(4) [unfolded e]]
  let ?r = "bn_multiply_reduce_step res prime i"
  have i: "i \<le> 8" using Suc.prems(3) by simp
  have "2 * bn_val prime * 2 ^ (29 * i) \<le> 2 ^ 258 * 2 ^ (29 * i)"
    using assms(1) by (intro mult_right_mono) (simp_all add: prime_ok_def)
  then have "rval (map uint ?r) < 2 ^ (258 + 29 * i)"
    using s(3) [OF i] by (simp only: power_add)
  moreover have "i = 0 \<longrightarrow> rval (map uint ?r) < 2 * bn_val prime"
    using s(3) [OF i] by auto
  ultimately show ?case
    using Suc.IH [of ?r] s(1,2,4) [OF i] i by simp
qed

lemma bn_multiply_reduce_correct:
  assumes "prime_ok prime" "length res = 18" "digits_ok (map uint res)" "rval (map uint res) < 2 ^ 519"
  shows "partly_reduced (bn_multiply_reduce res prime) prime"
    and "bn_val (bn_multiply_reduce res prime) mod bn_val prime = rval (map uint res) mod bn_val prime"
proof -
  define out where "out = bn_multiply_reduce_loop 9 res prime"
  have out: "length out = 18" "digits_ok (map uint out)" "rval (map uint out) < 2 * bn_val prime"
    "rval (map uint out) mod bn_val prime = rval (map uint res) mod bn_val prime"
    using bn_multiply_reduce_loop_correct [OF assms(1-3), of 9] assms(4) by (simp_all add: out_def)
  let ?lo = "map uint (take 9 out)" and ?hi = "map uint (drop 9 out)"
  have split: "map uint out = ?lo @ ?hi" by (simp flip: map_append)
  then have dig: "digits_ok ?lo" "digits_ok ?hi" using out(2) by (metis digits_ok_simps(3))+
  have "rval (map uint out) = rval ?lo + 2 ^ 261 * rval ?hi"
    using out(1) by (simp only: split rval_append) simp
  moreover have "rval (map uint out) < 2 ^ 261"
    using out(3) assms(1) by (simp add: prime_ok_def)
  ultimately have "rval ?hi = 0" "rval (map uint out) = rval ?lo"
    using rval_nonneg [OF dig(1)] rval_nonneg [OF dig(2)] by auto
  then show "partly_reduced (bn_multiply_reduce res prime) prime"
    "bn_val (bn_multiply_reduce res prime) mod bn_val prime = rval (map uint res) mod bn_val prime"
    using out dig by (simp_all add: bn_multiply_reduce_def out_def [symmetric] partly_reduced_def
        normalized_def bn_val_def)
qed

lemma bn_multiply_correct:
  assumes "prime_ok prime" "normalized k" "normalized x" "bn_val k * bn_val x < 2 ^ 519"
  shows "partly_reduced (bn_multiply k x prime) prime"
    and "bn_val (bn_multiply k x prime) mod bn_val prime = bn_val k * bn_val x mod bn_val prime"
  using bn_multiply_reduce_correct [OF assms(1)] bn_multiply_long_correct [OF assms(2,3)] assms(4)
  by (simp_all add: bn_multiply_def)

section \<open>Small multiples and sums\<close>

lemma rval_map_mult: "rval (map (\<lambda>d. c * f d) ds) = c * rval (map f ds)"
  by (induction ds) (simp_all add: algebra_simps)

lemma bn_mult_k_correct:
  assumes "prime_ok prime" "normalized x" "uint k \<le> 8"
  shows "\<exists>r. bn_mult_k x k prime = Some r \<and> partly_reduced r prime
    \<and> bn_val r mod bn_val prime = uint k * bn_val x mod bn_val prime"
proof -
  let ?kx = "map (\<lambda>a. ucast k * a) (val x)"
  have "uint (ucast k * a) = uint k * uint a" if "a \<in> set (val x)" for a :: u32
  proof -
    have k: "uint (ucast k :: u32) = uint k" using assms(3) by (intro uint_ucast_small) simp
    have "uint k * uint a \<le> 8 * (2 ^ 29 - 1)"
      using assms(3) normalized_limb [OF assms(2) that] by (intro mult_mono) simp_all
    then show ?thesis by (subst uint_mult_small) (simp_all add: k)
  qed
  then have "map uint ?kx = map (\<lambda>a. uint k * uint a) (val x)" by simp
  then have "bn_val \<lparr>val = ?kx\<rparr> = uint k * bn_val x"
    unfolding bn_val_def by (simp only: bignum256.simps rval_map_mult)
  with bn_fast_mod_correct [OF assms(1), of "\<lparr>val = ?kx\<rparr>"] assms show ?thesis
    by (simp add: bn_mult_k_def word_le_def)
qed

lemma bn_addmod_correct:
  assumes "prime_ok prime" "normalized x" "normalized y"
  shows "partly_reduced (bn_addmod x y prime) prime"
    and "bn_val (bn_addmod x y prime) mod bn_val prime = (bn_val x + bn_val y) mod bn_val prime"
proof -
  let ?s = "\<lparr>val = map2 (+) (val x) (val y)\<rparr>"
  have "uint (a + b) = 0 * (2 ^ 29 - 1) + 1 * uint a + 1 * uint b" if "(a, b) \<in> set (zip (val x) (val y))" for a b
    using normalized_zip [OF assms(2,3) that] by (subst uint_add_small) simp_all
  then have "bn_val ?s = bn_val x + bn_val y"
    using rval_affine2 [of "val x" "val y" "(+)" 0 1 1] assms(2,3) by (simp add: bn_val_def)
  with bn_fast_mod_correct [OF assms(1), of ?s] assms(2,3)
  show "partly_reduced (bn_addmod x y prime) prime"
    "bn_val (bn_addmod x y prime) mod bn_val prime = (bn_val x + bn_val y) mod bn_val prime"
    by (simp_all add: bn_addmod_def)
qed

section \<open>Halving modulo an odd number\<close>

text \<open>
  An odd column gives its low bit to the top of the limb below, so the loop
  adds \<open>2 ^ 28\<close> times the value of the columns to its accumulator.
\<close>

lemma bn_mult_half_step:
  fixes acc a p msk :: u32
  assumes "uint acc < 2 ^ 30" "uint a < 2 ^ 29" "uint p < 2 ^ 29" "msk = (if b then - 1 else 0)"
  defines "temp \<equiv> a + (p AND msk)"
  defines "acc' \<equiv> acc + push_bit 28 (temp AND 1)"
  defines "nacc \<equiv> drop_bit 29 acc' + drop_bit 1 temp"
  shows "uint nacc < 2 ^ 30"
    and "uint acc' mod 2 ^ 29 + 2 ^ 29 * uint nacc = uint acc + 2 ^ 28 * (uint a + of_bool b * uint p)"
proof -
  have "uint (p AND msk) = of_bool b * uint p" using assms(4) by simp
  then have temp: "uint temp = uint a + of_bool b * uint p"
    unfolding temp_def using assms(2,3) by (subst uint_add_small) auto
  have t30: "uint temp < 2 ^ 30" unfolding temp using assms(2,3) by auto
  have m: "uint temp mod 2 * 2 ^ 28 \<le> 1 * 2 ^ 28" by (intro mult_right_mono) simp_all
  then have "uint (push_bit 28 (temp AND 1)) = uint temp mod 2 * 2 ^ 28"
    by (subst uint_push_bit) simp_all
  with m assms(1) have acc': "uint acc' = uint acc + uint temp mod 2 * 2 ^ 28" "uint acc' < 2 ^ 31"
    unfolding acc'_def by (subst uint_add_small; simp)+
  have "uint acc' div 2 ^ 29 < 2 ^ 2" "uint temp div 2 < 2 ^ 29"
    using acc'(2) t30 by (intro int_div_less; simp)+
  then have nacc: "uint nacc = uint acc' div 2 ^ 29 + uint temp div 2" "uint nacc < 2 ^ 30"
    unfolding nacc_def by (subst uint_add_small; simp add: uint_drop_bit)+
  then show "uint nacc < 2 ^ 30" by simp
  have "uint acc' mod 2 ^ 29 + 2 ^ 29 * uint nacc = uint acc' + 2 ^ 29 * (uint temp div 2)"
    unfolding nacc(1) distrib_left add.assoc [symmetric] by simp
  also have "\<dots> = uint acc + 2 ^ 28 * (uint temp mod 2 + 2 * (uint temp div 2))"
    unfolding acc'(1) distrib_left by simp
  finally show "uint acc' mod 2 ^ 29 + 2 ^ 29 * uint nacc = uint acc + 2 ^ 28 * (uint a + of_bool b * uint p)"
    unfolding mod_mult_div_eq temp .
qed

lemma bn_mult_half_loop_rval:
  assumes "uint acc < 2 ^ 30" "\<forall>(a, p) \<in> set cs. uint a < 2 ^ 29 \<and> uint p < 2 ^ 29"
    and "msk = (if b then - 1 else 0)"
  shows "length (bn_mult_half_loop msk acc cs) = Suc (length cs)
    \<and> digits_ok (map uint (butlast (bn_mult_half_loop msk acc cs)))
    \<and> rval (map uint (bn_mult_half_loop msk acc cs))
        = uint acc + 2 ^ 28 * rval (map (\<lambda>(a, p). uint a + of_bool b * uint p) cs)"
  using assms(1,2)
proof (induction cs arbitrary: acc)
  case Nil
  then show ?case by simp
next
  case (Cons c cs)
  obtain a p where c: "c = (a, p)" by force
  define temp where "temp = a + (p AND msk)"
  define acc' where "acc' = acc + push_bit 28 (temp AND 1)"
  define nacc where "nacc = drop_bit 29 acc' + drop_bit 1 temp"
  have ap: "uint a < 2 ^ 29" "uint p < 2 ^ 29" using Cons.prems c by simp_all
  note s = bn_mult_half_step [OF Cons.prems(1) ap assms(3), folded temp_def, folded acc'_def, folded nacc_def]
  let ?R = "rval (map (\<lambda>(a, p). uint a + of_bool b * uint p) cs)"
  have IH: "length (bn_mult_half_loop msk nacc cs) = Suc (length cs)"
    "digits_ok (map uint (butlast (bn_mult_half_loop msk nacc cs)))"
    "rval (map uint (bn_mult_half_loop msk nacc cs)) = uint nacc + 2 ^ 28 * ?R"
    using Cons.IH [of nacc] s(1) Cons.prems(2) by simp_all
  have ne: "bn_mult_half_loop msk nacc cs \<noteq> []" using IH(1) by auto
  have l: "bn_mult_half_loop msk acc (c # cs) = (acc' AND BN_LIMB_MASK) # bn_mult_half_loop msk nacc cs"
    by (simp add: c Let_def temp_def acc'_def nacc_def)
  have "uint acc' mod 2 ^ 29 + 2 ^ 29 * (uint nacc + 2 ^ 28 * ?R)
      = uint acc + 2 ^ 28 * (uint a + of_bool b * uint p) + 2 ^ 29 * (2 ^ 28 * ?R)"
    using s(2) by (simp only: distrib_left)
  then show ?case using IH ne unfolding l by (simp add: c algebra_simps)
qed

lemma rval_map2_add:
  "length xs = length ys \<Longrightarrow> rval (map2 (\<lambda>a b. f a + c * g b) xs ys) = rval (map f xs) + c * rval (map g ys)"
  by (induction xs ys rule: list_induct2) (simp_all add: algebra_simps)

lemma bn_mult_half_eq:
  assumes "normalized x" "normalized prime" "odd (bn_val prime)"
  shows "normalized (bn_mult_half x prime)"
    and "2 * bn_val (bn_mult_half x prime) = bn_val x + of_bool (odd (bn_val x)) * bn_val prime"
proof -
  obtain x0 xs where x: "val x = x0 # xs" "length xs = 8" "uint x0 < 2 ^ 29" "digits_ok (map uint xs)"
    using assms(1) by (cases "val x") (auto simp: normalized_def)
  obtain p0 ps where p: "val prime = p0 # ps" "length ps = 8" "uint p0 < 2 ^ 29" "digits_ok (map uint ps)"
    using assms(2) by (cases "val prime") (auto simp: normalized_def)
  define b where "b = odd (bn_val x)"
  define msk where "msk = - (x0 AND 1)"
  define acc where "acc = drop_bit 1 (x0 + (p0 AND msk))"
  define out where "out = bn_mult_half_loop msk acc (zip xs ps)"
  have bx: "b \<longleftrightarrow> odd (uint x0)" using even_bn_val [OF assms(1)] x by (simp add: b_def)
  have "x0 AND 1 = of_bool b" by (simp add: word_uint_eq_iff bx) presburger
  then have msk: "msk = (if b then - 1 else 0)" by (simp add: msk_def)
  then have "uint (p0 AND msk) = of_bool b * uint p0" by simp
  then have "uint (x0 + (p0 AND msk)) = uint x0 + of_bool b * uint p0"
    using x(3) p(3) by (subst uint_add_small) auto
  then have acc: "uint acc = (uint x0 + of_bool b * uint p0) div 2"
    by (simp add: acc_def uint_drop_bit)
  have "odd (uint p0)" using even_bn_val [OF assms(2)] assms(3) p by simp
  then have ev: "2 * uint acc = uint x0 + of_bool b * uint p0" unfolding acc by (cases b) (simp_all add: bx)
  then have a30: "uint acc < 2 ^ 30" using x(3) p(3) by (cases b) simp_all
  have eq: "bn_mult_half x prime = \<lparr>val = out\<rparr>"
    by (simp add: bn_mult_half_def x p Let_def out_def acc_def msk_def)
  have "\<forall>(a, p) \<in> set (zip xs ps). uint a < 2 ^ 29 \<and> uint p < 2 ^ 29"
    using x(4) p(4) by (auto simp: digits_ok_def dest: set_zip_leftD set_zip_rightD)
  from bn_mult_half_loop_rval [OF a30 this msk, folded out_def]
  have out: "length out = 9" "digits_ok (map uint (butlast out))"
    "rval (map uint out) = uint acc + 2 ^ 28 * rval (map2 (\<lambda>a p. uint a + of_bool b * uint p) xs ps)"
    using x p by simp_all
  have "rval (map2 (\<lambda>a p. uint a + of_bool b * uint p) xs ps) = rval (map uint xs) + of_bool b * rval (map uint ps)"
    using x(2) p(2) by (simp add: rval_map2_add)
  then have tot: "2 * rval (map uint out) = bn_val x + of_bool b * bn_val prime"
    using ev unfolding out(3) by (simp add: x p bn_val_def algebra_simps)
  obtain lo top where lt: "out = lo @ [top]" "length lo = 8"
    using out(1) by (cases out rule: rev_cases) auto
  have "bn_val x + of_bool b * bn_val prime < 2 * 2 ^ 261"
    using bn_val_less [OF assms(1)] bn_val_less [OF assms(2)] by (cases b) simp_all
  then have "rval (map uint out) < 2 ^ 261" unfolding tot [symmetric] by simp
  then have "uint top < 2 ^ 29"
    using lt out(2) rval_nonneg [of "map uint lo"] by (simp add: rval_append)
  then show "normalized (bn_mult_half x prime)"
    using lt out(2) by (simp add: eq normalized_def)
  show "2 * bn_val (bn_mult_half x prime) = bn_val x + of_bool (odd (bn_val x)) * bn_val prime"
    using tot by (simp add: eq bn_val_def b_def)
qed

section \<open>The prime of secp256k1\<close>

definition secp256k1_prime :: bignum256 where
  "secp256k1_prime = \<lparr>val = [0x1ffffc2f, 0x1ffffff7, 0x1fffffff, 0x1fffffff, 0x1fffffff, 0x1fffffff,
     0x1fffffff, 0x1fffffff, 0xffffff]\<rparr>"

lemma secp256k1_prime_ok: "prime_ok secp256k1_prime" "bn_val secp256k1_prime = 2 ^ 256 - 2 ^ 32 - 977"
  by (simp_all add: secp256k1_prime_def prime_ok_def normalized_def bn_val_def)

section \<open>Properties\<close>

text \<open>
  C1. Modular multiplication: for a modulus in the range the code allows and two
  normalized factors whose product is below \<open>2 ^ 519\<close>, \<open>bn_multiply\<close> returns a normalized
  number below twice the modulus that is congruent to the product.
\<close>

theorem bn_multiply_spec:
  assumes "prime_ok prime" "normalized k" "normalized x" "bn_val k * bn_val x < 2 ^ 519"
  shows "partly_reduced (bn_multiply k x prime) prime
    \<and> bn_val (bn_multiply k x prime) mod bn_val prime = bn_val k * bn_val x mod bn_val prime"
  using bn_multiply_correct [OF assms] by simp

theorem bn_multiply_spec_witness:
  "partly_reduced (bn_multiply secp256k1_prime bn_one secp256k1_prime) secp256k1_prime
    \<and> bn_val (bn_multiply secp256k1_prime bn_one secp256k1_prime) mod bn_val secp256k1_prime
        = bn_val secp256k1_prime * bn_val bn_one mod bn_val secp256k1_prime"
proof (rule bn_multiply_spec)
  show "prime_ok secp256k1_prime" "normalized secp256k1_prime" using secp256k1_prime_ok by simp_all
  show "normalized bn_one" "bn_val secp256k1_prime * bn_val bn_one < 2 ^ 519"
    by (simp_all add: secp256k1_prime_ok)
qed

text \<open>
  C5. Canonical reduction: on any nine 32-bit limbs, normalized or not, \<open>bn_fast_mod\<close>
  followed by \<open>bn_mod\<close> returns the remainder of the value modulo the prime.
\<close>

theorem bn_reduce_spec:
  assumes "prime_ok prime" "length (val x) = 9"
  shows "\<exists>r. bn_mod (bn_fast_mod x prime) prime = Some r \<and> fully_reduced r prime
    \<and> bn_val r = bn_val x mod bn_val prime"
  using bn_mod_correct [OF bn_fast_mod_correct(1) [OF assms]] bn_fast_mod_correct(2) [OF assms] assms(1) by auto

theorem bn_reduce_spec_witness:
  "\<exists>r. bn_mod (bn_fast_mod \<lparr>val = replicate 9 (- 1)\<rparr> secp256k1_prime) secp256k1_prime = Some r
    \<and> fully_reduced r secp256k1_prime
    \<and> bn_val r = bn_val \<lparr>val = replicate 9 (- 1)\<rparr> mod bn_val secp256k1_prime"
  by (rule bn_reduce_spec) (simp_all add: secp256k1_prime_ok)

text \<open>
  Sums and small multiples: \<open>bn_addmod\<close> and, for a factor up to 8, \<open>bn_mult_k\<close> return
  a partly reduced number congruent to the sum and to the multiple; a larger factor
  fails the assertion of \<open>bn_mult_k\<close>.
\<close>

theorem bn_addmod_mult_k_spec:
  assumes "prime_ok prime" "normalized x" "normalized y"
  shows "partly_reduced (bn_addmod x y prime) prime
    \<and> bn_val (bn_addmod x y prime) mod bn_val prime = (bn_val x + bn_val y) mod bn_val prime
    \<and> (case bn_mult_k x k prime of
        Some r \<Rightarrow> uint k \<le> 8 \<and> partly_reduced r prime
          \<and> bn_val r mod bn_val prime = uint k * bn_val x mod bn_val prime
      | None \<Rightarrow> 8 < uint k)"
proof (cases "uint k \<le> 8")
  case True
  then show ?thesis
    using bn_addmod_correct [OF assms] bn_mult_k_correct [OF assms(1,2) True] by auto
next
  case False
  then show ?thesis
    using bn_addmod_correct [OF assms] by (simp add: bn_mult_k_def word_le_def)
qed

theorem bn_addmod_mult_k_spec_witness:
  "partly_reduced (bn_addmod secp256k1_prime bn_one secp256k1_prime) secp256k1_prime
   \<and> bn_mult_k secp256k1_prime 9 secp256k1_prime = None"
  using bn_addmod_mult_k_spec [of secp256k1_prime secp256k1_prime bn_one 9] secp256k1_prime_ok(1)
  by (auto split: option.splits)

end
