(* ===== verification/Modular_Power.thy ===== *)
theory Modular_Power
  imports Prelude
begin

text \<open>
  The interface of a modular multiplication, square-and-multiply over it, and
  the little number theory the square root needs (Fermat's little theorem).
\<close>

section \<open>Square and multiply over a modular multiplication\<close>

primrec bits_val :: "bool list \<Rightarrow> nat" where
  "bits_val [] = 0"
| "bits_val (b # bs) = of_bool b + 2 * bits_val bs"

text \<open>
  \<open>mul m a b\<close> multiplies modulo \<open>modulus m\<close> on representations that satisfy
  \<open>ok m\<close>; the results need not be fully reduced, only congruent.
\<close>

locale modular_mult =
  fixes mul :: "'m \<Rightarrow> 'a \<Rightarrow> 'a \<Rightarrow> 'a"
    and value_of :: "'a \<Rightarrow> int"
    and modulus :: "'m \<Rightarrow> int"
    and ok :: "'m \<Rightarrow> 'a \<Rightarrow> bool"
  assumes mul_ok: "ok m a \<Longrightarrow> ok m b \<Longrightarrow> ok m (mul m a b)"
    and mul_val: "ok m a \<Longrightarrow> ok m b \<Longrightarrow>
      value_of (mul m a b) mod modulus m = value_of a * value_of b mod modulus m"
begin

primrec sq_mul :: "'m \<Rightarrow> bool list \<Rightarrow> 'a \<Rightarrow> 'a \<Rightarrow> 'a \<times> 'a" where
  "sq_mul m [] acc res = (acc, res)"
| "sq_mul m (b # bs) acc res = sq_mul m bs (mul m acc acc) (if b then mul m acc res else res)"

lemma mul_power:
  assumes "ok m a"
  shows "value_of (mul m a a) ^ n mod modulus m = value_of a ^ (2 * n) mod modulus m"
proof -
  have "value_of (mul m a a) ^ n mod modulus m = (value_of a * value_of a mod modulus m) ^ n mod modulus m"
    using mul_val [OF assms assms] by (metis power_mod)
  then show ?thesis by (simp add: power_mod power_mult power2_eq_square)
qed

lemma sq_mul_ok:
  assumes "ok m acc" "ok m res"
  shows "ok m (fst (sq_mul m bs acc res))" "ok m (snd (sq_mul m bs acc res))"
  using assms by (induction bs arbitrary: acc res) (simp_all add: mul_ok)

lemma sq_mul_val:
  assumes "ok m acc" "ok m res"
  shows "value_of (snd (sq_mul m bs acc res)) mod modulus m
    = value_of res * value_of acc ^ bits_val bs mod modulus m"
  using assms
proof (induction bs arbitrary: acc res)
  case Nil
  then show ?case by simp
next
  case (Cons b bs)
  let ?r = "if b then mul m acc res else res" and ?n = "bits_val bs"
  have r: "value_of ?r mod modulus m = value_of res * value_of acc ^ of_bool b mod modulus m"
    using mul_val [OF Cons.prems] by (simp add: mult.commute)
  have "value_of (snd (sq_mul m (b # bs) acc res)) mod modulus m
      = value_of ?r * value_of (mul m acc acc) ^ ?n mod modulus m"
    using Cons.IH [of "mul m acc acc" ?r] Cons.prems by (simp add: mul_ok)
  also have "\<dots> = (value_of res * value_of acc ^ of_bool b) * value_of acc ^ (2 * ?n) mod modulus m"
    using r mul_power [OF Cons.prems(1)] by (rule mod_mult_cong)
  finally show ?case by (simp add: power_add mult.assoc)
qed

lemma sq_mul_append:
  "sq_mul m (bs @ cs) acc res = (case sq_mul m bs acc res of (acc, res) \<Rightarrow> sq_mul m cs acc res)"
  by (induction bs arbitrary: acc res) simp_all

lemma sq_mul_zeros: "snd (sq_mul m (replicate n False) acc res) = res"
  by (induction n arbitrary: acc) simp_all

end

section \<open>Fermat's little theorem\<close>

definition is_prime :: "int \<Rightarrow> bool" where
  "is_prime p \<longleftrightarrow> 1 < p \<and> (\<forall>d. 0 < d \<and> d dvd p \<longrightarrow> d = 1 \<or> d = p)"

lemma is_prime_coprime:
  assumes "is_prime p" "0 < k" "k < p"
  shows "coprime k p"
proof -
  have "gcd k p dvd p" "0 < gcd k p" using assms by simp_all
  then have "gcd k p = 1 \<or> gcd k p = p" using assms(1) by (auto simp: is_prime_def)
  moreover have "gcd k p \<noteq> p"
    using assms zdvd_imp_le [of p k] gcd_dvd1 [of k p] by force
  ultimately show ?thesis by (simp add: coprime_iff_gcd_eq_1)
qed

lemma prime_dvd_choose:
  assumes "is_prime (int p)" "0 < k" "k < p"
  shows "p dvd p choose k"
proof -
  obtain k' p' where s: "k = Suc k'" "p = Suc p'" using assms by (metis Suc_pred less_trans)
  have "int k * int (p choose k) = int p * int (p' choose k')"
    unfolding s by (metis Suc_times_binomial of_nat_mult)
  then have "int p dvd int k * int (p choose k)" by simp
  moreover have "coprime (int p) (int k)"
    using is_prime_coprime [OF assms(1), of "int k"] assms by (simp add: coprime_commute)
  ultimately have "int p dvd int (p choose k)" by (simp add: coprime_dvd_mult_right_iff)
  then show ?thesis by simp
qed

lemma prime_freshman:
  assumes "is_prime (int p)"
  shows "(a + 1) ^ p mod p = (a ^ p + 1) mod (p :: nat)"
proof -
  have p: "0 < p" using assms by (simp add: is_prime_def)
  have "(a + 1) ^ p = (\<Sum>k\<le>p. (p choose k) * a ^ k)"
    using binomial_ring [of a 1 p] by (simp add: mult.commute)
  also have "{..p} = insert 0 (insert p {0<..<p})" using p by auto
  also have "(\<Sum>k\<in>insert 0 (insert p {0<..<p}). (p choose k) * a ^ k)
      = 1 + (a ^ p + (\<Sum>k\<in>{0<..<p}. (p choose k) * a ^ k))"
    using p by simp
  finally have "(a + 1) ^ p = a ^ p + 1 + (\<Sum>k\<in>{0<..<p}. (p choose k) * a ^ k)" by simp
  moreover have "p dvd (\<Sum>k\<in>{0<..<p}. (p choose k) * a ^ k)"
    using prime_dvd_choose [OF assms] by (intro dvd_sum) simp
  ultimately show ?thesis by (metis add.right_neutral mod_add_right_eq dvd_eq_mod_eq_0)
qed

lemma fermat_nat: "is_prime (int p) \<Longrightarrow> a ^ p mod p = a mod (p :: nat)"
proof (induction a)
  case 0
  then show ?case by (simp add: is_prime_def zero_power)
next
  case (Suc a)
  then have "(a + 1) ^ p mod p = (a mod p + 1) mod p"
    using prime_freshman [OF Suc.prems, of a] by (metis mod_add_left_eq)
  then show ?case by (simp add: mod_add_left_eq mod_Suc_eq)
qed

lemma fermat_int:
  assumes "is_prime p"
  shows "y ^ nat p mod p = y mod p"
proof -
  have p: "int (nat p) = p" using assms by (simp add: is_prime_def)
  have y: "int (nat (y mod p)) = y mod p" using assms by (simp add: is_prime_def)
  have "nat (y mod p) ^ nat p mod nat p = nat (y mod p) mod nat p"
    using assms p by (intro fermat_nat) simp
  then have "(y mod p) ^ nat p mod p = (y mod p) mod p"
    using p y by (metis of_nat_mod of_nat_power)
  then show ?thesis by (simp add: power_mod)
qed

text \<open>For \<open>p = 3\<close> modulo 4, \<open>y\<^sup>2\<close> raised to \<open>(p + 1) / 4\<close> is a square root of \<open>y\<^sup>2\<close>
  whenever \<open>y ^ p = y\<close> modulo \<open>p\<close>, which \<open>fermat_int\<close> gives for every \<open>y\<close> when \<open>p\<close> is prime.\<close>

lemma sqrt_exponent:
  assumes "0 < p" "p mod 4 = 3" "y ^ nat p mod p = y mod p"
  shows "((y * y) ^ nat ((p + 1) div 4)) * ((y * y) ^ nat ((p + 1) div 4)) mod p = y * y mod p"
proof -
  have "4 * ((p + 1) div 4) = p + 1" using assms(2) by presburger
  then have e: "4 * nat ((p + 1) div 4) = Suc (nat p)" using assms(1) by linarith
  have "((y * y) ^ nat ((p + 1) div 4)) * ((y * y) ^ nat ((p + 1) div 4)) = y ^ (4 * nat ((p + 1) div 4))"
    unfolding power_mult_distrib power_add [symmetric] by (rule arg_cong [where f = "(^) y"]) simp
  also have "\<dots> mod p = y * (y ^ nat p mod p) mod p"
    unfolding e by (simp add: mod_mult_right_eq)
  also have "\<dots> = y * y mod p"
    unfolding assms(3) by (rule mod_mult_right_eq)
  finally show ?thesis .
qed

end
