(* ===== verification/Bignum_Power.thy ===== *)
theory Bignum_Power
  imports Bignum_Mod Modular_Power
begin

text \<open>
  Exponentiation and square roots modulo a prime, from \<open>crypto/bignum.c\<close>.
\<close>

section \<open>Exponentiation and square root\<close>

text \<open>One limb of the exponent, 29 bits from the least significant; the last limb stops at its top bit.\<close>

fun bn_power_limb ::
  "bool \<Rightarrow> nat \<Rightarrow> u32 \<Rightarrow> bignum256 \<Rightarrow> bignum256 \<Rightarrow> bignum256 \<Rightarrow> bignum256 \<times> bignum256" where
  "bn_power_limb is_last 0 limb prime acc res = (acc, res)"
| "bn_power_limb is_last (Suc j) limb prime acc res =
     (if is_last \<and> limb = 0 then (acc, res)
      else let res = (if limb AND 1 \<noteq> 0 then bn_multiply acc res prime else res);
               limb = drop_bit 1 limb;
               acc = bn_multiply acc acc prime
           in bn_power_limb is_last j limb prime acc res)"

fun bn_power_loop :: "u32 list \<Rightarrow> bignum256 \<Rightarrow> bignum256 \<Rightarrow> bignum256 \<Rightarrow> bignum256" where
  "bn_power_loop [] prime acc res = res"
| "bn_power_loop (limb # limbs) prime acc res =
     (let (acc, res) = bn_power_limb (limbs = []) 29 limb prime acc res
      in bn_power_loop limbs prime acc res)"

definition bn_power_mod :: "bignum256 \<Rightarrow> bignum256 \<Rightarrow> bignum256 \<Rightarrow> bignum256" where
  "bn_power_mod x e prime = bn_power_loop (val e) prime x bn_one"

definition bn_sqrt :: "bignum256 \<Rightarrow> bignum256 \<Rightarrow> bignum256 option" where
  "bn_sqrt x prime =
     (if \<not> (val prime ! 8) mod 4 = 3 then None
      else let e = bn_rshift (bn_rshift (bn_addi prime 1))
           in bn_mod (bn_power_mod x e prime) prime)"

section \<open>Exponentiation is square-and-multiply over the bits of the exponent\<close>

definition mult_ok :: "bignum256 \<Rightarrow> bignum256 \<Rightarrow> bool" where
  "mult_ok prime a \<longleftrightarrow> prime_ok prime \<and> normalized a \<and> bn_val a < 2 ^ 259"

lemma mult_okD: "mult_ok prime a \<Longrightarrow> mult_ok prime b \<Longrightarrow> bn_val a * bn_val b < 2 ^ 519"
proof -
  assume "mult_ok prime a" "mult_ok prime b"
  then have "bn_val a * bn_val b \<le> 2 ^ 259 * 2 ^ 259"
    by (intro mult_mono) (simp_all add: mult_ok_def bn_val_nonneg)
  then show ?thesis by simp
qed

lemma partly_reduced_mult_ok:
  assumes "prime_ok prime" "partly_reduced a prime"
  shows "mult_ok prime a"
proof -
  have "bn_val a < 2 ^ 259" by (rule less_trans [OF partly_reduced_less [OF assms]]) simp
  then show ?thesis using assms unfolding mult_ok_def partly_reduced_def by blast
qed

interpretation bn: modular_mult "\<lambda>prime a b. bn_multiply a b prime" bn_val bn_val mult_ok
proof
  fix m a b
  assume ab: "mult_ok m a" "mult_ok m b"
  note c = bn_multiply_correct [of m a b]
  show "mult_ok m (bn_multiply a b m)"
    using ab mult_okD [OF ab] by (intro partly_reduced_mult_ok c) (simp_all add: mult_ok_def)
  show "bn_val (bn_multiply a b m) mod bn_val m = bn_val a * bn_val b mod bn_val m"
    using ab mult_okD [OF ab] by (intro c) (simp_all add: mult_ok_def)
qed

fun limb_bits :: "nat \<Rightarrow> u32 \<Rightarrow> bool list" where
  "limb_bits 0 w = []"
| "limb_bits (Suc j) w = (w AND 1 \<noteq> 0) # limb_bits j (drop_bit 1 w)"

lemma limb_bits_val: "uint w < 2 ^ j \<Longrightarrow> int (bits_val (limb_bits j w)) = uint w"
proof (induction j arbitrary: w)
  case 0
  then have "uint w = 0" using uint_nonnegative [of w] by (simp only: power_0)
  then show ?case by simp
next
  case (Suc j)
  have "uint w div 2 < 2 ^ j" using Suc.prems by (intro int_div_less) simp_all
  then have "int (bits_val (limb_bits j (drop_bit 1 w))) = uint w div 2"
    using Suc.IH [of "drop_bit 1 w"] by (simp add: uint_drop_bit)
  moreover have "w AND 1 \<noteq> 0 \<longleftrightarrow> odd (uint w)" by (simp add: word_uint_eq_iff) presburger
  ultimately show ?case by simp presburger
qed

lemma length_limb_bits [simp]: "length (limb_bits j w) = j"
  by (induction j w rule: limb_bits.induct) simp_all

lemma limb_bits_0: "limb_bits j 0 = replicate j False"
  by (induction j) simp_all

lemma bits_val_append: "bits_val (bs @ cs) = bits_val bs + 2 ^ length bs * bits_val cs"
  by (induction bs) (simp_all add: algebra_simps)

lemma bits_val_limbs:
  assumes "digits_ok (map uint ws)"
  shows "int (bits_val (concat (map (limb_bits 29) ws))) = rval (map uint ws)"
  using assms by (induction ws) (simp_all add: bits_val_append limb_bits_val)

lemma bn_power_limb_sq_mul:
  assumes "bn_power_limb is_last j limb prime acc res = (acc', res')"
  shows "res' = snd (bn.sq_mul prime (limb_bits j limb) acc res)"
    and "\<not> is_last \<Longrightarrow> acc' = fst (bn.sq_mul prime (limb_bits j limb) acc res)"
  using assms
  by (induction is_last j limb prime acc res rule: bn_power_limb.induct)
    (auto simp: Let_def limb_bits_0 bn.sq_mul_zeros split: if_splits)

lemma bn_power_loop_sq_mul:
  "bn_power_loop limbs prime acc res
     = snd (bn.sq_mul prime (concat (map (limb_bits 29) limbs)) acc res)"
proof (induction limbs prime acc res rule: bn_power_loop.induct)
  case (1 prime acc res)
  then show ?case by simp
next
  case (2 limb limbs prime acc res)
  obtain a r where ar: "bn_power_limb (limbs = []) 29 limb prime acc res = (a, r)" by force
  note l = bn_power_limb_sq_mul [OF ar]
  show ?case
  proof (cases "limbs = []")
    case True
    then show ?thesis using l(1) ar by simp
  next
    case False
    then have "bn.sq_mul prime (limb_bits 29 limb) acc res = (a, r)" using l by (simp add: prod_eq_iff)
    then show ?thesis using "2.IH" [OF refl] ar by (simp add: bn.sq_mul_append)
  qed
qed

lemma sq_mul_partly_reduced:
  assumes "mult_ok prime acc" "mult_ok prime res" "partly_reduced res prime"
  shows "partly_reduced (snd (bn.sq_mul prime bs acc res)) prime"
  using assms
proof (induction bs arbitrary: acc res)
  case (Cons b bs)
  have "partly_reduced (bn_multiply acc res prime) prime"
    using Cons.prems(1,2) mult_okD by (intro bn_multiply_correct) (auto simp: mult_ok_def)
  then show ?case
    using Cons.IH [of "bn_multiply acc acc prime" "if b then bn_multiply acc res prime else res"]
      Cons.prems bn.mul_ok by simp
qed simp

lemma bn_power_mod_correct:
  assumes "prime_ok prime" "normalized x" "bn_val x < 2 ^ 259" "normalized e"
  shows "partly_reduced (bn_power_mod x e prime) prime"
    and "bn_val (bn_power_mod x e prime) mod bn_val prime = bn_val x ^ nat (bn_val e) mod bn_val prime"
proof -
  let ?bs = "concat (map (limb_bits 29) (val e))"
  have ok: "mult_ok prime x" "partly_reduced bn_one prime"
  proof -
    show "mult_ok prime x" using assms by (simp add: mult_ok_def)
    have "1 < 2 * bn_val prime" using prime_ok_pos [OF assms(1)] by linarith
    then show "partly_reduced bn_one prime" by (simp add: partly_reduced_def)
  qed
  have one: "mult_ok prime bn_one" using assms(1) ok(2) by (rule partly_reduced_mult_ok)
  have eq: "bn_power_mod x e prime = snd (bn.sq_mul prime ?bs x bn_one)"
    by (simp add: bn_power_mod_def bn_power_loop_sq_mul)
  have "bits_val ?bs = nat (bn_val e)"
    using bits_val_limbs [of "val e"] assms(4) unfolding bn_val_def normalized_def by linarith
  then show "bn_val (bn_power_mod x e prime) mod bn_val prime = bn_val x ^ nat (bn_val e) mod bn_val prime"
    using bn.sq_mul_val [OF ok(1) one, of ?bs] by (simp add: eq)
  show "partly_reduced (bn_power_mod x e prime) prime"
    unfolding eq using ok one by (intro sq_mul_partly_reduced)
qed

section \<open>Square root\<close>

lemma bn_sqrt_correct:
  assumes "prime_ok prime" "bn_val prime mod 4 = 3" "uint (val prime ! 8) mod 4 = 3"
    and "normalized x" "bn_val x < 2 ^ 259"
    and "bn_val x mod bn_val prime = y * y mod bn_val prime" "y ^ nat (bn_val prime) mod bn_val prime = y mod bn_val prime"
  shows "\<exists>r. bn_sqrt x prime = Some r \<and> fully_reduced r prime
    \<and> bn_val r * bn_val r mod bn_val prime = bn_val x mod bn_val prime"
proof -
  let ?p = "bn_val prime"
  define e where "e = bn_rshift (bn_rshift (bn_addi prime 1))"
  have "?p + 1 \<le> 2 ^ 256 + 1" using prime_ok_le [OF assms(1)] by simp
  also have "\<dots> < 2 ^ 261" by simp
  finally have p1: "(?p + 1) mod 2 ^ 261 = ?p + 1"
    using prime_ok_pos [OF assms(1)] by (intro mod_pos_pos_trivial) simp_all
  have a: "normalized (bn_addi prime 1)" "bn_val (bn_addi prime 1) = ?p + 1"
    using bn_addi_mod [of prime 1] prime_ok_normalized [OF assms(1)] p1 by simp_all
  have r1: "normalized (bn_rshift (bn_addi prime 1))" "bn_val (bn_rshift (bn_addi prime 1)) = (?p + 1) div 2"
    using bn_rshift_correct [OF a(1)] a(2) by simp_all
  have e: "normalized e" "bn_val e = (?p + 1) div 4"
    using bn_rshift_correct [OF r1(1)] r1(2) by (simp_all add: e_def)
  note pm = bn_power_mod_correct [OF assms(1,4,5) e(1)]
  obtain r where r: "bn_mod (bn_power_mod x e prime) prime = Some r" "fully_reduced r prime"
    "bn_val r = bn_val (bn_power_mod x e prime) mod ?p"
    using bn_mod_correct [OF pm(1) prime_ok_normalized [OF assms(1)] prime_ok_pos [OF assms(1)]] by blast
  let ?s = "(y * y) ^ nat ((?p + 1) div 4)"
  have "bn_val x ^ nat ((?p + 1) div 4) mod ?p = (bn_val x mod ?p) ^ nat ((?p + 1) div 4) mod ?p"
    by (rule power_mod [symmetric])
  also have "\<dots> = ?s mod ?p" unfolding assms(6) by (rule power_mod)
  finally have v: "bn_val r = ?s mod ?p" unfolding r(3) pm(2) e(2) .
  have "bn_val r * bn_val r mod ?p = ?s * ?s mod ?p" unfolding v by (rule mod_mult_eq)
  also have "\<dots> = y * y mod ?p"
    by (rule sqrt_exponent [OF prime_ok_pos [OF assms(1)] assms(2,7)])
  finally have "bn_val r * bn_val r mod ?p = bn_val x mod ?p" unfolding assms(6) .
  moreover have "val prime ! 8 mod 4 = 3"
    using assms(3) by (simp add: word_uint_eq_iff uint_mod)
  ultimately show ?thesis
    using r unfolding bn_sqrt_def Let_def e_def [symmetric] by simp
qed

section \<open>Properties\<close>

text \<open>
  C3. Exponentiation: \<open>bn_power_mod\<close> returns a partly reduced number congruent to \<open>x\<close>
  raised to the value of the exponent, for every normalized exponent.
\<close>

theorem bn_power_mod_spec:
  assumes "prime_ok prime" "normalized x" "bn_val x < 2 ^ 259" "normalized e"
  shows "partly_reduced (bn_power_mod x e prime) prime
    \<and> bn_val (bn_power_mod x e prime) mod bn_val prime = bn_val x ^ nat (bn_val e) mod bn_val prime"
  using bn_power_mod_correct [OF assms] by simp

theorem bn_power_mod_spec_witness:
  "partly_reduced (bn_power_mod secp256k1_prime bn_one secp256k1_prime) secp256k1_prime
    \<and> bn_val (bn_power_mod secp256k1_prime bn_one secp256k1_prime) mod bn_val secp256k1_prime = 0"
  using bn_power_mod_spec [of secp256k1_prime secp256k1_prime bn_one] secp256k1_prime_ok by simp

text \<open>
  C4. Square root: for a modulus that is 3 modulo 4, if \<open>x\<close> is the square of some \<open>y\<close>
  with \<open>y ^ prime = y\<close> modulo the prime (Fermat's little theorem gives this for every
  \<open>y\<close> when the modulus is prime, \<open>fermat_int\<close>), \<open>bn_sqrt\<close> returns a fully reduced square
  root of \<open>x\<close>. The code asserts the condition on the top limb instead of on the modulus,
  hence the two congruences.
\<close>

theorem bn_sqrt_spec:
  assumes "prime_ok prime" "bn_val prime mod 4 = 3" "uint (val prime ! 8) mod 4 = 3"
    and "normalized x" "bn_val x < 2 ^ 259"
    and "bn_val x mod bn_val prime = y * y mod bn_val prime" "y ^ nat (bn_val prime) mod bn_val prime = y mod bn_val prime"
  shows "\<exists>r. bn_sqrt x prime = Some r \<and> fully_reduced r prime
    \<and> bn_val r * bn_val r mod bn_val prime = bn_val x mod bn_val prime"
  using bn_sqrt_correct [OF assms] .

theorem bn_sqrt_spec_witness:
  "\<exists>r. bn_sqrt bn_one secp256k1_prime = Some r \<and> fully_reduced r secp256k1_prime
    \<and> bn_val r * bn_val r mod bn_val secp256k1_prime = bn_val bn_one mod bn_val secp256k1_prime"
  by (rule bn_sqrt_spec [where y = 1]) (simp_all add: secp256k1_prime_ok, simp add: secp256k1_prime_def)

end
