(* ===== verification/Bignum_Inverse.thy ===== *)
theory Bignum_Inverse
  imports Bignum_Mod
begin

text \<open>
  Inversion modulo a prime, from \<open>crypto/bignum.c\<close>: the inverse modulo a power of two, the
  division by the base modulo the prime, and the constant-time almost-inverse loop.
\<close>

section \<open>Inversion\<close>

function inverse_mod_power_two_loop :: "nat \<Rightarrow> nat \<Rightarrow> u32 \<Rightarrow> u32 \<Rightarrow> u32 \<Rightarrow> u32" where
  "inverse_mod_power_two_loop i n msk f acc =
     (if 0 < i \<and> i < n
      then let f = (f * f) AND msk;
               acc = (acc * (1 + f)) AND msk
           in inverse_mod_power_two_loop (2 * i) n msk f acc
      else acc)"
  by pat_completeness auto
termination
  by (relation "measure (\<lambda>(i, n, msk, f, acc). n - i)") auto

definition inverse_mod_power_two :: "u32 \<Rightarrow> nat \<Rightarrow> u32" where
  "inverse_mod_power_two a n =
     (let acc = 2 - a; f = a - 1;
          msk = (if n = 32 then 0xFFFFFFFF else push_bit n 1 - 1)
      in inverse_mod_power_two_loop 1 n msk f acc)"

definition bn_divide_base :: "bignum256 \<Rightarrow> bignum256 \<Rightarrow> bignum256 option" where
  "bn_divide_base x prime =
     (let m = ((val x ! 0) * (BN_BASE - inverse_mod_power_two (val prime ! 0) 29)) AND BN_LIMB_MASK;
          acc = drop_bit 29 (ucast (val x ! 0) + ucast m * ucast (val prime ! 0) :: u64);
          column = (\<lambda>a p. ucast a + ucast m * ucast p :: u64);
          (out, acc) = limb_loop acc (map2 column (tl (val x)) (tl (val prime)))
      in if \<not> drop_bit 29 acc = 0 then None else Some \<lparr>val = out @ [ucast acc]\<rparr>)"

text \<open>
  The state of the inversion loop. The flags are \<open>0\<close> or \<open>-1\<close> in the source, used
  as masks that select between pointers; they are booleans here.
\<close>

record inv_state =
  st_u :: bignum256
  st_v :: bignum256
  st_r :: bignum256
  st_s :: bignum256
  st_k :: nat
  st_finished :: bool

definition bn_inverse_step :: "inv_state \<Rightarrow> inv_state" where
  "bn_inverse_step st =
     (let finished = (st_finished st \<or> bn_is_one (st_v st));
          u = st_u st; v = st_v st; r = st_r st; s = st_s st;
          u_even = bn_is_even u;
          v_even = bn_is_even v;
          v_less_u = bn_is_less v u;
          b1 = (\<not> finished \<and> u_even);
          b2 = (\<not> finished \<and> \<not> b1 \<and> v_even);
          b3 = (\<not> finished \<and> \<not> b1 \<and> \<not> b2 \<and> v_less_u);
          b4 = (\<not> finished \<and> \<not> b1 \<and> \<not> b2 \<and> \<not> b3);
          sub = bn_subtract (if b3 then u else v) (if b3 \<or> b4 then (if b3 then v else u) else bn_zero);
          (u, v) = (if b3 then (sub, v) else (u, sub));
          add = bn_add (if b3 then r else s) (if b3 \<or> b4 then (if b3 then s else r) else bn_zero);
          (r, s) = (if b3 then (add, s) else (r, add));
          (u, v) = (if b1 \<or> b3 then (bn_rshift u, v) else (u, bn_rshift v));
          (r, s) = (if b1 \<or> b3 then (r, bn_lshift s) else (bn_lshift r, s));
          k = (if finished then st_k st else st_k st + 1)
      in \<lparr>st_u = u, st_v = v, st_r = r, st_s = s, st_k = k, st_finished = finished\<rparr>)"

fun bn_inverse_div_loop :: "nat \<Rightarrow> nat \<Rightarrow> nat \<Rightarrow> bignum256 \<Rightarrow> bignum256 \<Rightarrow> bignum256 option" where
  "bn_inverse_div_loop 0 i q s prime = Some s"
| "bn_inverse_div_loop (Suc n) i q s prime = do {
     r \<leftarrow> bn_divide_base s prime;
     s \<leftarrow> bn_cmov (of_bool (i < q)) r s;
     bn_inverse_div_loop n (i + 1) q s prime }"

fun bn_inverse_half_loop :: "nat \<Rightarrow> nat \<Rightarrow> nat \<Rightarrow> bignum256 \<Rightarrow> bignum256 \<Rightarrow> bignum256 option" where
  "bn_inverse_half_loop 0 i q s prime = Some s"
| "bn_inverse_half_loop (Suc n) i q s prime = do {
     s \<leftarrow> bn_cmov (of_bool (i < q)) (bn_mult_half s prime) s;
     bn_inverse_half_loop n (i + 1) q s prime }"

definition bn_inverse_fast :: "bignum256 \<Rightarrow> bignum256 \<Rightarrow> bignum256 option" where
  "bn_inverse_fast x prime = do {
     x \<leftarrow> bn_mod (bn_fast_mod x prime) prime;
     let st = (bn_inverse_step ^^ (2 * 9 * 29))
       \<lparr>st_u = prime, st_v = x, st_r = bn_zero, st_s = bn_one, st_k = 0, st_finished = False\<rparr>;
     let k = st_k st;
     s \<leftarrow> bn_inverse_div_loop (2 * 9) 0 (k div 29) (st_s st) prime;
     s \<leftarrow> bn_inverse_half_loop 29 0 (k mod 29) s prime;
     bn_cmov (of_bool (bn_is_zero x)) x s }"

definition bn_inverse :: "bignum256 \<Rightarrow> bignum256 \<Rightarrow> bignum256 option" where
  "bn_inverse x prime = bn_inverse_fast x prime"

section \<open>The inverse modulo a power of two\<close>

declare inverse_mod_power_two_loop.simps [simp del]

lemma pow_dvd_square: "2 ^ min i n dvd f \<Longrightarrow> 2 ^ min (2 * i) n dvd f * (f :: int)"
proof -
  assume "2 ^ min i n dvd f"
  then have "2 ^ (min i n + min i n) dvd f * f" by (simp add: power_add mult_dvd_mono)
  moreover have "min (2 * i) n \<le> min i n + min i n" by simp
  ultimately show ?thesis by (rule power_le_dvd)
qed

text \<open>The loop keeps \<open>a * acc = 1 - f\<^sup>2\<close> modulo \<open>2 ^ n\<close>, with \<open>f\<close> divisible by \<open>2 ^ i\<close>.\<close>

lemma inverse_mod_power_two_loop_correct:
  assumes "n \<le> 32" "0 < i" "2 ^ min i n dvd uint f" "2 ^ n dvd uint a * uint acc + uint f * uint f - 1"
    and "i < n \<or> uint acc < 2 ^ n"
  defines "r \<equiv> inverse_mod_power_two_loop i n (mask n) f acc"
  shows "uint r < 2 ^ n \<and> 2 ^ n dvd uint a * uint r - 1"
  unfolding r_def using assms(1-5)
proof (induction i n "mask n :: u32" f acc rule: inverse_mod_power_two_loop.induct)
  case (1 i n f acc)
  show ?case
  proof (cases "i < n")
    case False
    then have "2 ^ n dvd uint f * uint f" using "1.prems"(3) by simp
    then have "2 ^ n dvd uint a * uint acc + uint f * uint f - 1 - uint f * uint f"
      using "1.prems"(4) by (rule dvd_diff [rotated])
    then show ?thesis using False "1.prems" by (subst (1 2) inverse_mod_power_two_loop.simps) simp
  next
    case True
    define f' where "f' = (f * f) AND mask n"
    define acc' where "acc' = (acc * (1 + f')) AND mask n"
    have d32: "(2 :: int) ^ n dvd 2 ^ 32" using "1.prems"(1) by (rule le_imp_power_dvd)
    have m: "uint (w AND mask n) = uint w mod 2 ^ n" for w :: u32 by (rule uint_and_mask)
    have f': "uint f' = uint f * uint f mod 2 ^ n"
      unfolding f'_def m using d32 by (simp add: uint_word_ariths mod_mod_cancel)
    have acc': "uint acc' = uint acc * (1 + uint f') mod 2 ^ n"
      unfolding acc'_def m using d32
      by (simp add: uint_word_ariths mod_mod_cancel) (metis d32 mod_mod_cancel mod_mult_right_eq)
    obtain k1 where k1: "uint f * uint f = uint f' + 2 ^ n * k1" unfolding f' by (metis mod_mult_div_eq)
    obtain k2 where k2: "uint acc * (1 + uint f') = uint acc' + 2 ^ n * k2" unfolding acc' by (metis mod_mult_div_eq)
    obtain k3 where k3: "uint a * uint acc + uint f * uint f - 1 = 2 ^ n * k3" using "1.prems"(4) by (elim dvdE)
    define P :: int where "P = 2 ^ n"
    have "uint a * uint acc' + uint f' * uint f' - 1 = P * (k3 * (1 + uint f') - k1 * (1 + uint f') - uint a * k2)"
      using k1 k2 k3 unfolding P_def [symmetric] by algebra
    then have inv: "2 ^ n dvd uint a * uint acc' + uint f' * uint f' - 1" by (simp add: P_def)
    have dvd: "2 ^ min (2 * i) n dvd uint f'"
      unfolding f' using pow_dvd_square [OF "1.prems"(3)] by (simp add: dvd_mod le_imp_power_dvd)
    have "uint acc' < 2 ^ n" unfolding acc' by simp
    then have "uint (inverse_mod_power_two_loop (2 * i) n (mask n) f' acc') < 2 ^ n
        \<and> 2 ^ n dvd uint a * uint (inverse_mod_power_two_loop (2 * i) n (mask n) f' acc') - 1"
      using "1.prems" True dvd inv by (intro "1.hyps") (simp_all add: f'_def acc'_def)
    then show ?thesis
      using True "1.prems"(2) by (subst (1 2) inverse_mod_power_two_loop.simps) (simp add: f'_def acc'_def Let_def)
  qed
qed

lemma inverse_mod_power_two_correct:
  assumes "odd (uint a)" "2 \<le> n" "n \<le> 32"
  shows "uint (inverse_mod_power_two a n) < 2 ^ n"
    and "uint a * uint (inverse_mod_power_two a n) mod 2 ^ n = 1"
proof -
  define msk :: u32 where "msk = (if n = 32 then 0xFFFFFFFF else push_bit n 1 - 1)"
  have msk: "msk = mask n"
    by (auto simp: msk_def mask_eq_exp_minus_1 push_bit_eq_mult)
  have "1 \<le> uint a" using assms(1) uint_nonnegative [of a] by (cases "uint a = 0") (simp, linarith)
  then have f: "uint (a - 1) = uint a - 1" by (subst uint_sub_small) simp_all
  define k where "k = - ((2 - uint a) div 2 ^ 32)"
  have "uint (2 - a) = (2 - uint a) mod 2 ^ 32" by (simp add: uint_word_ariths)
  then have k: "uint (2 - a) = 2 - uint a + 2 ^ 32 * k"
    unfolding k_def by (simp only: minus_mult_div_eq_mod [symmetric])
  have "uint a * uint (2 - a) + uint (a - 1) * uint (a - 1) - 1 = 2 ^ 32 * (uint a * k)"
    unfolding f k by (simp add: algebra_simps)
  moreover have "(2 :: int) ^ n dvd 2 ^ 32" using assms(3) by (rule le_imp_power_dvd)
  ultimately have "2 ^ n dvd uint a * uint (2 - a) + uint (a - 1) * uint (a - 1) - 1" by simp
  with inverse_mod_power_two_loop_correct [of n 1 "a - 1" a "2 - a"] assms
  have r: "uint (inverse_mod_power_two a n) < 2 ^ n" "2 ^ n dvd uint a * uint (inverse_mod_power_two a n) - 1"
    unfolding inverse_mod_power_two_def Let_def msk_def [symmetric] msk by (simp_all add: f)
  show "uint (inverse_mod_power_two a n) < 2 ^ n" by (rule r)
  have "uint a * uint (inverse_mod_power_two a n) mod 2 ^ n = 1 mod 2 ^ n"
    using r(2) by (simp only: mod_eq_dvd_iff)
  also have "\<dots> = 1" using one_less_power [of 2 n] assms(2) by (intro mod_pos_pos_trivial) simp_all
  finally show "uint a * uint (inverse_mod_power_two a n) mod 2 ^ n = 1" .
qed

section \<open>Division by the base modulo the prime\<close>

lemma odd_bn_val_limb: "normalized x \<Longrightarrow> odd (bn_val x) \<Longrightarrow> odd (uint (val x ! 0))"
  by (simp add: even_bn_val)

lemma divide_base_multiplier:
  fixes a p :: u32
  assumes "odd (uint p)" 
  defines "m \<equiv> (a * (BN_BASE - inverse_mod_power_two p 29)) AND BN_LIMB_MASK"
  shows "uint m < 2 ^ 29" "(uint a + uint m * uint p) mod 2 ^ 29 = 0"
proof -
  define i where "i = inverse_mod_power_two p 29"
  have i: "uint i < 2 ^ 29" "uint p * uint i mod 2 ^ 29 = 1"
    using inverse_mod_power_two_correct [of p 29] assms(1) by (simp_all add: i_def)
  have "uint (BN_BASE - i) = 2 ^ 29 - uint i"
    using i(1) by (subst uint_sub_small) simp_all
  then have m: "uint m = uint a * (2 ^ 29 - uint i) mod 2 ^ 29"
    by (simp add: m_def i_def [symmetric] uint_word_ariths mod_mod_cancel)
  then show "uint m < 2 ^ 29" by simp
  obtain k where k: "uint p * uint i = 1 + 2 ^ 29 * k" using i(2) by (metis mod_mult_div_eq)
  obtain l where l: "uint a * (2 ^ 29 - uint i) = uint m + 2 ^ 29 * l" unfolding m by (metis mod_mult_div_eq)
  define B :: int where "B = 2 ^ 29"
  have "uint a + uint m * uint p = B * (uint a * uint p - uint a * k - l * uint p)"
    using k l unfolding B_def [symmetric] by algebra
  then show "(uint a + uint m * uint p) mod 2 ^ 29 = 0" by (simp add: B_def)
qed

lemma bn_divide_base_eq:
  assumes "normalized x" "normalized prime" "odd (bn_val prime)"
  shows "\<exists>r m. bn_divide_base x prime = Some r \<and> normalized r \<and> 0 \<le> m \<and> m < 2 ^ 29
    \<and> 2 ^ 29 * bn_val r = bn_val x + m * bn_val prime"
proof -
  obtain x0 xs where x: "val x = x0 # xs" "length xs = 8" "uint x0 < 2 ^ 29" "digits_ok (map uint xs)"
    using assms(1) by (cases "val x") (auto simp: normalized_def)
  obtain p0 ps where p: "val prime = p0 # ps" "length ps = 8" "uint p0 < 2 ^ 29" "digits_ok (map uint ps)"
    using assms(2) by (cases "val prime") (auto simp: normalized_def)
  define m where "m = (x0 * (BN_BASE - inverse_mod_power_two p0 29)) AND BN_LIMB_MASK"
  have "odd (uint p0)" using odd_bn_val_limb [OF assms(2,3)] p by simp
  note m = divide_base_multiplier [OF this, of x0, folded m_def]
  define col where "col = (\<lambda>(a :: u32) (p :: u32). ucast a + ucast m * ucast p :: u64)"
  have col: "uint (col a b) = 0 * (2 ^ 29 - 1) + 1 * uint a + uint m * uint b" "uint (col a b) < 2 ^ 60"
    if "uint a < 2 ^ 29" "uint b < 2 ^ 29" for a b
  proof -
    have "uint m * uint b \<le> 2 ^ 29 * 2 ^ 29" using that m by (intro mult_mono) simp_all
    moreover from this have "uint (ucast m * ucast b :: u64) = uint m * uint b"
      by (subst uint_mult_small) simp_all
    ultimately show eq: "uint (col a b) = 0 * (2 ^ 29 - 1) + 1 * uint a + uint m * uint b"
      unfolding col_def using that(1) by (subst uint_add_small) simp_all
    show "uint (col a b) < 2 ^ 60"
      unfolding eq using \<open>uint m * uint b \<le> 2 ^ 29 * 2 ^ 29\<close> that(1) by simp
  qed
  define acc where "acc = drop_bit 29 (col x0 p0)"
  have z: "uint a < 2 ^ 29 \<and> uint b < 2 ^ 29" if "(a, b) \<in> set (zip xs ps)" for a b
    using that x(4) p(4) by (auto simp: digits_ok_def dest: set_zip_leftD set_zip_rightD)
  let ?cols = "map2 col xs ps"
  obtain out fin where l: "limb_loop acc ?cols = (out, fin)" by force
  have ok: "\<forall>c \<in> set ?cols. column_ok c"
    using z col(2) by (fastforce intro!: column_ok_64)
  have len: "length out = 8" using length_limb_loop [of acc ?cols] l x p by simp
  have dig: "digits_ok (map uint out)" using limb_loop_digits [of acc ?cols] l by simp
  have a: "uint acc = uint (col x0 p0) div 2 ^ 29" by (simp add: acc_def uint_drop_bit)
  then have a35: "uint acc < 2 ^ 35" using col(2) [OF x(3) p(3)] by simp
  have cs: "rval (map uint ?cols) = rval (map uint xs) + uint m * rval (map uint ps)"
    using rval_affine2 [of xs ps col 0 1 "uint m"] col(1) z x p by simp
  have L: "rval (map uint out) + 2 ^ 232 * uint fin = uint acc + (rval (map uint xs) + uint m * rval (map uint ps))"
    using limb_loop_rval [of acc ?cols] l ok a35 x p unfolding cs by simp
  have "2 ^ 29 * uint acc = uint x0 + uint m * uint p0"
    using m(2) col(1) [OF x(3) p(3)] unfolding a by (simp add: dvd_eq_mod_eq_0)
  then have tot: "2 ^ 29 * (rval (map uint out) + 2 ^ 232 * uint fin) = bn_val x + uint m * bn_val prime"
    unfolding L using x p by (simp add: bn_val_def algebra_simps)
  have "uint m * bn_val prime \<le> (2 ^ 29 - 1) * 2 ^ 261"
    using m(1) bn_val_less [OF assms(2)] bn_val_nonneg [OF assms(2)] by (intro mult_mono) simp_all
  then have "2 ^ 29 * (rval (map uint out) + 2 ^ 232 * uint fin) < 2 ^ 29 * 2 ^ 261"
    unfolding tot using bn_val_less [OF assms(1)] by simp
  then have fin: "uint fin < 2 ^ 29" using rval_nonneg [OF dig] by simp
  then have uf: "uint (ucast fin :: u32) = uint fin" by (intro uint_ucast_small) simp
  have "drop_bit 29 fin = 0" using fin by (simp add: word_uint_eq_iff uint_drop_bit)
  then have "bn_divide_base x prime = Some \<lparr>val = out @ [ucast fin]\<rparr>"
    using l x p by (simp add: bn_divide_base_def Let_def m_def [symmetric] col_def [symmetric] acc_def)
       (simp add: col_def acc_def)
  moreover have "normalized \<lparr>val = out @ [ucast fin]\<rparr>" using len dig fin by (simp add: normalized_def uf)
  moreover have "bn_val \<lparr>val = out @ [ucast fin]\<rparr> = rval (map uint out) + 2 ^ 232 * uint fin"
    using len by (simp add: bn_val_def rval_append uf)
  ultimately show ?thesis using tot m(1) by auto
qed

lemma bn_divide_base_correct:
  assumes "normalized x" "normalized prime" "odd (bn_val prime)" "bn_val x < c * bn_val prime" "1 \<le> c"
  shows "\<exists>r. bn_divide_base x prime = Some r \<and> normalized r \<and> bn_val r < c * bn_val prime
    \<and> 2 ^ 29 * bn_val r mod bn_val prime = bn_val x mod bn_val prime"
proof -
  obtain r m where r: "bn_divide_base x prime = Some r" "normalized r" "0 \<le> m" "m < 2 ^ 29"
    "2 ^ 29 * bn_val r = bn_val x + m * bn_val prime"
    using bn_divide_base_eq [OF assms(1-3)] by auto
  let ?p = "bn_val prime"
  have p: "0 \<le> ?p" using bn_val_nonneg [OF assms(2)] by simp
  have "m * ?p \<le> (2 ^ 29 - 1) * ?p" using r(4) p by (intro mult_right_mono) simp_all
  also have "\<dots> \<le> (2 ^ 29 - 1) * (c * ?p)"
    using assms(5) p mult_right_mono [of 1 c ?p] by (intro mult_left_mono) simp_all
  finally have "2 ^ 29 * bn_val r < 2 ^ 29 * (c * ?p)"
    unfolding r(5) using assms(4) by (simp only: left_diff_distrib mult_1)
  then have "bn_val r < c * ?p" by simp
  moreover have "2 ^ 29 * bn_val r mod ?p = bn_val x mod ?p" unfolding r(5) by simp
  ultimately show ?thesis using r by auto
qed

section \<open>The almost inverse on integers\<close>

text \<open>One turn of the loop as the comment of \<open>bn_inverse_fast\<close> states it, on integers.\<close>

record alm_state =
  au :: int
  av :: int
  ar :: int
  as :: int
  ak :: nat

definition alm_step :: "alm_state \<Rightarrow> alm_state" where
  "alm_step a =
     (if even (au a) then a\<lparr>au := au a div 2, as := 2 * as a, ak := ak a + 1\<rparr>
      else if even (av a) then a\<lparr>av := av a div 2, ar := 2 * ar a, ak := ak a + 1\<rparr>
      else if av a < au a
        then a\<lparr>au := (au a - av a) div 2, ar := ar a + as a, as := 2 * as a, ak := ak a + 1\<rparr>
      else a\<lparr>av := (av a - au a) div 2, as := ar a + as a, ar := 2 * ar a, ak := ak a + 1\<rparr>)"

definition alm_inv :: "int \<Rightarrow> int \<Rightarrow> alm_state \<Rightarrow> bool" where
  "alm_inv p x a \<longleftrightarrow> 0 < au a \<and> 0 < av a \<and> 0 \<le> ar a \<and> 0 \<le> as a \<and> coprime (au a) (av a)
     \<and> au a * as a + av a * ar a = p
     \<and> p dvd x * as a - av a * 2 ^ ak a
     \<and> p dvd x * ar a + au a * 2 ^ ak a
     \<and> au a * av a * 2 ^ ak a \<le> p * x"

lemma alm_inv_bounds:
  assumes "alm_inv p x a"
  shows "as a \<le> p" "ar a \<le> p" "au a \<le> p \<or> as a = 0" "0 \<le> as a" "0 \<le> ar a"
proof -
  note i = assms [unfolded alm_inv_def]
  have nn: "0 \<le> au a * as a" "0 \<le> av a * ar a" using i by simp_all
  have "1 * as a \<le> au a * as a" "1 * ar a \<le> av a * ar a" using i by (intro mult_right_mono; simp)+
  then show "as a \<le> p" "ar a \<le> p" "0 \<le> as a" "0 \<le> ar a" using i nn by linarith+
  have "as a \<noteq> 0 \<Longrightarrow> au a * 1 \<le> au a * as a" using i by (intro mult_left_mono) simp_all
  then show "au a \<le> p \<or> as a = 0" using i nn by linarith
qed

lemma coprime_half_diff:
  fixes u v :: int
  assumes "coprime u v" "even (u - v)"
  shows "coprime ((u - v) div 2) v"
proof (rule coprimeI)
  fix c assume c: "c dvd (u - v) div 2" "c dvd v"
  then have "c dvd 2 * ((u - v) div 2) + v" by (intro dvd_add dvd_mult)
  then have "c dvd u" using assms(2) by simp
  then show "is_unit c" using assms(1) c(2) coprime_common_divisor by blast
qed

lemma alm_step_inv:
  assumes "alm_inv p x a" "av a \<noteq> 1"
  shows "alm_inv p x (alm_step a)"
proof -
  define u v r s k where d: "u = au a" "v = av a" "r = ar a" "s = as a" "k = ak a"
  have i: "0 < u" "0 < v" "0 \<le> r" "0 \<le> s" "coprime u v" "u * s + v * r = p"
    "p dvd x * s - v * 2 ^ k" "p dvd x * r + u * 2 ^ k" "u * v * 2 ^ k \<le> p * x"
    using assms(1) by (simp_all add: alm_inv_def d)
  obtain c1 where c1: "x * s - v * 2 ^ k = p * c1" using i(7) by (elim dvdE)
  obtain c2 where c2: "x * r + u * 2 ^ k = p * c2" using i(8) by (elim dvdE)
  consider (b1) h where "u = 2 * h" | (b2) h where "odd u" "v = 2 * h"
    | (b3) h where "odd u" "odd v" "v < u" "u - v = 2 * h"
    | (b4) h where "odd u" "odd v" "\<not> v < u" "v - u = 2 * h"
    by (metis evenE odd_even_add even_diff)
  then show ?thesis
  proof cases
    case b1
    then have st: "alm_step a = a\<lparr>au := h, as := 2 * s, ak := k + 1\<rparr>" by (simp add: alm_step_def d)
    have "coprime h v" using i(5) b1 by simp
    moreover have "x * (2 * s) - v * 2 ^ (k + 1) = p * (2 * c1)" using c1 by (simp add: algebra_simps)
    ultimately show ?thesis using i b1 by (simp add: alm_inv_def st flip: d) (simp add: mult_ac)
  next
    case b2
    then have st: "alm_step a = a\<lparr>av := h, ar := 2 * r, ak := k + 1\<rparr>" by (simp add: alm_step_def d)
    have "coprime u h" using i(5) b2 by simp
    moreover have "x * (2 * r) + u * 2 ^ (k + 1) = p * (2 * c2)" using c2 by (simp add: algebra_simps)
    ultimately show ?thesis using i b2 by (simp add: alm_inv_def st flip: d) (simp add: mult_ac)
  next
    case b3
    then have st: "alm_step a = a\<lparr>au := h, ar := r + s, as := 2 * s, ak := k + 1\<rparr>" by (simp add: alm_step_def d)
    have u: "u = v + 2 * h" using b3 by simp
    have "coprime h v" using coprime_half_diff [OF i(5)] b3 by simp
    moreover have "x * (2 * s) - v * 2 ^ (k + 1) = p * (2 * c1)" using c1 by (simp add: algebra_simps)
    moreover have "x * (r + s) + h * 2 ^ (k + 1) = p * (c1 + c2)" using c1 c2 u by (simp add: algebra_simps)
    moreover have "h * (2 * s) + v * (r + s) = p" using i(6) u by (simp add: algebra_simps)
    moreover have "h * v * 2 ^ (k + 1) \<le> p * x"
      by (rule order_trans [OF _ i(9)]) (use u i(2) in \<open>simp add: algebra_simps\<close>)
    ultimately show ?thesis using i b3 by (simp add: alm_inv_def st flip: d)
  next
    case b4
    then have st: "alm_step a = a\<lparr>av := h, as := r + s, ar := 2 * r, ak := k + 1\<rparr>" by (simp add: alm_step_def d)
    have v: "v = u + 2 * h" using b4 by simp
    have "u \<noteq> v" using i(1,5) assms(2) by (auto simp: d)
    then have "0 < h" using b4 by simp
    moreover have "coprime h u" using coprime_half_diff [of v u] i(5) b4 by (simp add: coprime_commute)
    moreover have "x * (2 * r) + u * 2 ^ (k + 1) = p * (2 * c2)" using c2 by (simp add: algebra_simps)
    moreover have "x * (r + s) - h * 2 ^ (k + 1) = p * (c1 + c2)" using c1 c2 v by (simp add: algebra_simps)
    moreover have "u * (r + s) + h * (2 * r) = p" using i(6) v by (simp add: algebra_simps)
    moreover have "u * h * 2 ^ (k + 1) \<le> p * x"
      by (rule order_trans [OF _ i(9)]) (use v i(1) in \<open>simp add: algebra_simps\<close>)
    ultimately show ?thesis using i by (simp add: alm_inv_def st coprime_commute flip: d)
  qed
qed

section \<open>The constant-time loop implements the almost inverse\<close>

definition inv_normalized :: "inv_state \<Rightarrow> bool" where
  "inv_normalized st \<longleftrightarrow> normalized (st_u st) \<and> normalized (st_v st) \<and> normalized (st_r st) \<and> normalized (st_s st)"

definition inv_abs :: "inv_state \<Rightarrow> alm_state" where
  "inv_abs st = \<lparr>au = bn_val (st_u st), av = bn_val (st_v st), ar = bn_val (st_r st), as = bn_val (st_s st), ak = st_k st\<rparr>"

lemma bn_unchanged:
  assumes "normalized x"
  shows "bn_add x bn_zero = x" "bn_subtract x bn_zero = x"
  using assms bn_add_mod [OF assms, of bn_zero] bn_subtract_mod [OF assms, of bn_zero]
    bn_val_nonneg [OF assms] bn_val_less [OF assms]
  by (auto intro: bn_val_inj [THEN iffD1])

lemma inv_normalized_step:
  assumes "inv_normalized st"
  shows "inv_normalized (bn_inverse_step st)"
  using assms
  by (auto simp: inv_normalized_def bn_inverse_step_def Let_def bn_unchanged
      bn_add_mod bn_subtract_mod bn_lshift_correct bn_rshift_correct)

lemma bn_inverse_step_finished:
  assumes "inv_normalized st" "st_finished st \<or> bn_val (st_v st) = 1"
  shows "st_finished (bn_inverse_step st)" "st_s (bn_inverse_step st) = st_s st" "st_k (bn_inverse_step st) = st_k st"
  using assms by (auto simp: inv_normalized_def bn_inverse_step_def Let_def bn_unchanged bn_is_one_iff)

lemma bn_inverse_step_refines:
  assumes "inv_normalized st" "\<not> st_finished st" "bn_val (st_v st) \<noteq> 1"
    and "alm_inv p x (inv_abs st)" "p \<le> 2 ^ 256"
  shows "inv_abs (bn_inverse_step st) = alm_step (inv_abs st)" "\<not> st_finished (bn_inverse_step st)"
proof -
  let ?u = "st_u st" and ?v = "st_v st" and ?r = "st_r st" and ?s = "st_s st"
  have n: "normalized ?u" "normalized ?v" "normalized ?r" "normalized ?s"
    using assms(1) by (simp_all add: inv_normalized_def)
  have rs: "bn_val ?s \<le> 2 ^ 256" "bn_val ?r \<le> 2 ^ 256" 
    using alm_inv_bounds [OF assms(4)] assms(5) by (simp_all add: inv_abs_def)
  have dbl: "bn_val (bn_lshift ?s) = 2 * bn_val ?s" "bn_val (bn_lshift ?r) = 2 * bn_val ?r"
    "bn_val (bn_add ?r ?s) = bn_val ?r + bn_val ?s" "bn_val (bn_add ?s ?r) = bn_val ?r + bn_val ?s"
    using n rs bn_val_nonneg [OF n(3)] bn_val_nonneg [OF n(4)]
    by (simp_all add: bn_lshift_correct bn_add_mod)
  have sub: "bn_val (bn_subtract a b) = bn_val a - bn_val b" if "normalized a" "normalized b" "bn_val b \<le> bn_val a" for a b
    using that bn_val_less [of a] bn_val_nonneg [of b] by (simp add: bn_subtract_mod)
  note eqs = bn_is_one_iff bn_is_even_iff bn_is_less_iff bn_unchanged
  show "\<not> st_finished (bn_inverse_step st)"
    using assms(2,3) n by (simp add: bn_inverse_step_def Let_def eqs)
  show "inv_abs (bn_inverse_step st) = alm_step (inv_abs st)"
    using assms(2,3) n dbl
    by (auto simp: bn_inverse_step_def alm_step_def inv_abs_def Let_def eqs sub bn_subtract_mod(1) bn_rshift_correct)
qed

text \<open>
  As long as the loop has not finished, \<open>k\<close> counts its turns; the product \<open>u * v\<close> is
  halved every time, so it finishes before \<open>2 ^ k\<close> reaches \<open>prime * x < 2 ^ 512\<close>.
\<close>

definition alm_result :: "int \<Rightarrow> int \<Rightarrow> nat \<Rightarrow> int \<Rightarrow> bool" where
  "alm_result p x k s \<longleftrightarrow> 0 \<le> s \<and> s \<le> p \<and> p dvd x * s - 2 ^ k \<and> k < 512"

lemma alm_inv_small:
  assumes "alm_inv p x a" "p \<le> 2 ^ 256" "x < 2 ^ 256" "0 < p" 
  shows "ak a < 512"
proof -
  note i = assms(1) [unfolded alm_inv_def]
  have "1 * 1 \<le> au a * av a" using i by (intro mult_mono) simp_all
  then have "1 * 2 ^ ak a \<le> au a * av a * 2 ^ ak a" by (intro mult_right_mono) simp_all
  also have "\<dots> \<le> p * x" using i by simp
  also have "\<dots> \<le> p * (2 ^ 256 - 1)" using assms(3,4) by (intro mult_left_mono) simp_all
  also have "\<dots> \<le> 2 ^ 256 * (2 ^ 256 - 1)" using assms(2) by (intro mult_right_mono) simp_all
  also have "\<dots> < 2 ^ 512" by simp
  finally have "(2 :: int) ^ ak a < 2 ^ 512" by simp
  then show ?thesis by (rule power_less_imp_less_exp [rotated]) simp
qed

lemma alm_finished:
  assumes "alm_inv p x a" "p \<le> 2 ^ 256" "x < 2 ^ 256" "0 < p" "av a = 1"
  shows "alm_result p x (ak a) (as a)"
  using alm_inv_bounds [OF assms(1)] alm_inv_small [OF assms(1-4)] assms(1,5)
  by (simp add: alm_result_def alm_inv_def)

lemma bn_inverse_loop:
  fixes n :: nat
  assumes "inv_normalized st" "\<not> st_finished st" "st_k st = 0" "alm_inv p x (inv_abs st)"
    and "p \<le> 2 ^ 256" "x < 2 ^ 256" "0 < p"
  defines "st' \<equiv> (bn_inverse_step ^^ n) st"
  shows "inv_normalized st'
    \<and> (if st_finished st' then alm_result p x (st_k st') (bn_val (st_s st'))
       else st_k st' = n \<and> alm_inv p x (inv_abs st'))"
  unfolding st'_def
proof (induction n)
  case 0
  then show ?case using assms by simp
next
  case (Suc n)
  let ?t = "(bn_inverse_step ^^ n) st"
  have n: "inv_normalized ?t" "inv_normalized (bn_inverse_step ?t)" using Suc inv_normalized_step by auto
  show ?case
  proof (cases "st_finished ?t \<or> bn_val (st_v ?t) = 1")
    case True
    have "alm_result p x (st_k ?t) (bn_val (st_s ?t))"
      using Suc True alm_finished [of p x "inv_abs ?t"] assms by (auto simp: inv_abs_def split: if_splits)
    then show ?thesis using bn_inverse_step_finished [OF n(1) True] n(2) by simp
  next
    case False
    then have i: "alm_inv p x (inv_abs ?t)" "st_k ?t = n" using Suc by auto
    note r = bn_inverse_step_refines [OF n(1) _ _ i(1) assms(5)]
    have "av (inv_abs ?t) \<noteq> 1" using False by (simp add: inv_abs_def)
    then have "alm_inv p x (alm_step (inv_abs ?t))" using i(1) by (rule alm_step_inv [rotated])
    moreover have "st_k (bn_inverse_step ?t) = ak (inv_abs (bn_inverse_step ?t))" by (simp add: inv_abs_def)
    moreover have "ak (alm_step (inv_abs ?t)) = Suc n" using i(2) by (simp add: alm_step_def inv_abs_def)
    moreover have "inv_abs (bn_inverse_step ?t) = alm_step (inv_abs ?t)" "\<not> st_finished (bn_inverse_step ?t)"
      using r False by simp_all
    ultimately show ?thesis using n(2) by (simp only: funpow.simps o_apply if_False simp_thms)
  qed
qed

section \<open>Removing the power of two, and the inverse\<close>

lemma power_mult_mod:
  fixes c r s p :: int
  assumes "c * r mod p = s mod p" "c ^ n * t mod p = r mod p"
  shows "c ^ Suc n * t mod p = s mod p"
proof -
  have "c ^ Suc n * t mod p = c * (c ^ n * t mod p) mod p" by (simp add: mod_mult_right_eq mult.assoc)
  also have "\<dots> = s mod p" unfolding assms(2) by (simp add: mod_mult_right_eq assms(1))
  finally show ?thesis .
qed

text \<open>Both loops run a fixed number of turns and keep the result of the first \<open>q\<close>.\<close>

lemma bn_inverse_div_loop_correct:
  assumes "normalized prime" "odd (bn_val prime)" "normalized s" "bn_val s < bn_val prime" "q - i \<le> n"
  shows "\<exists>t. bn_inverse_div_loop n i q s prime = Some t \<and> normalized t \<and> bn_val t < bn_val prime
    \<and> (2 ^ 29) ^ (q - i) * bn_val t mod bn_val prime = bn_val s mod bn_val prime"
  using assms(3-5)
proof (induction n arbitrary: i s)
  case 0
  then show ?case by simp
next
  case (Suc n)
  obtain r where r: "bn_divide_base s prime = Some r" "normalized r" "bn_val r < bn_val prime"
    "2 ^ 29 * bn_val r mod bn_val prime = bn_val s mod bn_val prime"
    using bn_divide_base_correct [OF Suc.prems(1) assms(1,2), of 1] Suc.prems(2) by auto
  let ?s = "if i < q then r else s"
  have q: "q - (i + 1) \<le> n" using Suc.prems(3) by simp
  have ss: "normalized ?s" "bn_val ?s < bn_val prime" using r Suc.prems by simp_all
  have l: "bn_inverse_div_loop (Suc n) i q s prime = bn_inverse_div_loop n (i + 1) q ?s prime"
    using r Suc.prems(1) by (simp add: bn_cmov_eq)
  obtain t where t: "bn_inverse_div_loop n (i + 1) q ?s prime = Some t" "normalized t" "bn_val t < bn_val prime"
    "(2 ^ 29) ^ (q - (i + 1)) * bn_val t mod bn_val prime = bn_val ?s mod bn_val prime"
    using Suc.IH [of ?s "i + 1"] ss q by blast
  have "(2 ^ 29) ^ (q - i) * bn_val t mod bn_val prime = bn_val s mod bn_val prime"
  proof (cases "i < q")
    case True
    then have "q - i = Suc (q - (i + 1))" by simp
    then show ?thesis using power_mult_mod [OF r(4)] t(4) True by (simp only: if_True)
  next
    case False
    then show ?thesis using t(4) by simp
  qed
  then show ?case using t l by auto
qed

lemma bn_mult_half_correct:
  assumes "normalized x" "normalized prime" "odd (bn_val prime)" "bn_val x < c * bn_val prime" "1 \<le> c"
  shows "bn_val (bn_mult_half x prime) < c * bn_val prime"
    and "2 * bn_val (bn_mult_half x prime) mod bn_val prime = bn_val x mod bn_val prime"
proof -
  note e = bn_mult_half_eq(2) [OF assms(1-3)]
  have "of_bool (odd (bn_val x)) * bn_val prime \<le> c * bn_val prime"
    using assms(5) bn_val_nonneg [OF assms(2)] by (intro mult_right_mono) simp_all
  then show "bn_val (bn_mult_half x prime) < c * bn_val prime" using e assms(4) by linarith
  show "2 * bn_val (bn_mult_half x prime) mod bn_val prime = bn_val x mod bn_val prime" unfolding e by simp
qed

lemma bn_inverse_half_loop_correct:
  assumes "normalized prime" "odd (bn_val prime)" "normalized s" "bn_val s < bn_val prime" "q - i \<le> n"
  shows "\<exists>t. bn_inverse_half_loop n i q s prime = Some t \<and> normalized t \<and> bn_val t < bn_val prime
    \<and> 2 ^ (q - i) * bn_val t mod bn_val prime = bn_val s mod bn_val prime"
  using assms(3-5)
proof (induction n arbitrary: i s)
  case 0
  then show ?case by simp
next
  case (Suc n)
  let ?r = "bn_mult_half s prime"
  have r: "normalized ?r" "bn_val ?r < bn_val prime" "2 * bn_val ?r mod bn_val prime = bn_val s mod bn_val prime"
    using bn_mult_half_eq [OF Suc.prems(1) assms(1,2)] bn_mult_half_correct [OF Suc.prems(1) assms(1,2), of 1]
      Suc.prems(2) by simp_all
  let ?s = "if i < q then ?r else s"
  have q: "q - (i + 1) \<le> n" using Suc.prems(3) by simp
  have ss: "normalized ?s" "bn_val ?s < bn_val prime" using r Suc.prems by simp_all
  have l: "bn_inverse_half_loop (Suc n) i q s prime = bn_inverse_half_loop n (i + 1) q ?s prime"
    using r Suc.prems(1) by (simp add: bn_cmov_eq)
  obtain t where t: "bn_inverse_half_loop n (i + 1) q ?s prime = Some t" "normalized t" "bn_val t < bn_val prime"
    "2 ^ (q - (i + 1)) * bn_val t mod bn_val prime = bn_val ?s mod bn_val prime"
    using Suc.IH [of ?s "i + 1"] ss q by blast
  have "2 ^ (q - i) * bn_val t mod bn_val prime = bn_val s mod bn_val prime"
  proof (cases "i < q")
    case True
    then have "q - i = Suc (q - (i + 1))" by simp
    then show ?thesis using power_mult_mod [OF r(3)] t(4) True by (simp only: if_True)
  next
    case False
    then show ?thesis using t(4) by simp
  qed
  then show ?case using t l by auto
qed

lemma inverse_from_almost:
  fixes p x s t :: int
  assumes "odd p" "1 < p" "p dvd x * s - 2 ^ k" "2 ^ k * t mod p = s mod p"
  shows "x * t mod p = 1"
proof -
  have "2 ^ k * (x * t) mod p = x * (2 ^ k * t mod p) mod p" by (simp add: mod_mult_right_eq mult.left_commute)
  also have "\<dots> = x * s mod p" unfolding assms(4) by (rule mod_mult_right_eq)
  also have "\<dots> = 2 ^ k mod p" using assms(3) by (simp add: mod_eq_dvd_iff)
  finally have "p dvd 2 ^ k * (x * t) - 2 ^ k * 1" by (simp add: mod_eq_dvd_iff)
  then have "p dvd 2 ^ k * (x * t - 1)" by (simp only: right_diff_distrib)
  moreover have "coprime p (2 ^ k)" using assms(1) by simp
  ultimately have "p dvd x * t - 1" by (simp add: coprime_dvd_mult_right_iff)
  then have "x * t mod p = 1 mod p" by (simp only: mod_eq_dvd_iff)
  then show ?thesis using assms(2) by simp
qed

definition bn_inverse_start :: "bignum256 \<Rightarrow> bignum256 \<Rightarrow> inv_state" where
  "bn_inverse_start y prime =
     \<lparr>st_u = prime, st_v = y, st_r = bn_zero, st_s = bn_one, st_k = 0, st_finished = False\<rparr>"

lemma bn_inverse_loop_result:
  assumes "prime_ok prime" "odd (bn_val prime)" "fully_reduced y prime" "coprime (bn_val y) (bn_val prime)"
  defines "st \<equiv> (bn_inverse_step ^^ 522) (bn_inverse_start y prime)"
  shows "normalized (st_s st)" "bn_val (st_s st) < bn_val prime" "st_k st < 512"
    and "bn_val prime dvd bn_val y * bn_val (st_s st) - 2 ^ st_k st"
proof -
  let ?p = "bn_val prime" and ?s0 = "bn_inverse_start y prime"
  have p: "1 < ?p" "?p \<le> 2 ^ 256" "normalized prime" using assms(1) by (simp_all add: prime_ok_def)
  have yn: "normalized y" "bn_val y < ?p" "0 \<le> bn_val y" "bn_val y \<noteq> 0"
    using assms(3,4) p(1) bn_val_nonneg by (auto simp: fully_reduced_def)
  have inv0: "alm_inv ?p (bn_val y) (inv_abs ?s0)"
    using p yn assms(4) by (simp add: alm_inv_def inv_abs_def bn_inverse_start_def coprime_commute)
  have st0: "inv_normalized ?s0" "\<not> st_finished ?s0" "st_k ?s0 = 0"
    using p yn by (simp_all add: bn_inverse_start_def inv_normalized_def)
  have L: "inv_normalized st"
    "if st_finished st then alm_result ?p (bn_val y) (st_k st) (bn_val (st_s st))
     else st_k st = 522 \<and> alm_inv ?p (bn_val y) (inv_abs st)"
    using bn_inverse_loop [OF st0 inv0 p(2), of 522, folded st_def] p yn by simp_all
  moreover have "st_k st = 522 \<Longrightarrow> \<not> alm_inv ?p (bn_val y) (inv_abs st)"
    using alm_inv_small [of ?p "bn_val y" "inv_abs st"] p yn by (auto simp: inv_abs_def)
  ultimately have res: "alm_result ?p (bn_val y) (st_k st) (bn_val (st_s st))" by (auto split: if_splits)
  have "bn_val (st_s st) \<noteq> ?p"
  proof
    assume "bn_val (st_s st) = ?p"
    then have "?p dvd bn_val y * ?p - 2 ^ st_k st" using res by (simp add: alm_result_def)
    then have "?p dvd 2 ^ st_k st" by (simp add: dvd_diff_right_iff)
    moreover have "coprime ?p (2 ^ st_k st)" using assms(2) by simp
    ultimately have "is_unit ?p" using coprime_common_divisor [of ?p "2 ^ st_k st" ?p] by simp
    then show False using p(1) by simp
  qed
  then show "normalized (st_s st)" "bn_val (st_s st) < ?p" "st_k st < 512"
    "?p dvd bn_val y * bn_val (st_s st) - 2 ^ st_k st"
    using res L(1) by (simp_all add: alm_result_def inv_normalized_def)
qed

lemma bn_inverse_scaling:
  assumes "normalized prime" "odd (bn_val prime)" "normalized s" "bn_val s < bn_val prime" "k < 512"
  shows "\<exists>t r. bn_inverse_div_loop 18 0 (k div 29) s prime = Some t
    \<and> bn_inverse_half_loop 29 0 (k mod 29) t prime = Some r
    \<and> normalized r \<and> bn_val r < bn_val prime \<and> 2 ^ k * bn_val r mod bn_val prime = bn_val s mod bn_val prime"
proof -
  let ?p = "bn_val prime"
  have q: "k div 29 \<le> 18" using assms(5) by simp
  obtain t where t: "bn_inverse_div_loop 18 0 (k div 29) s prime = Some t" "normalized t" "bn_val t < ?p"
    "(2 ^ 29) ^ (k div 29) * bn_val t mod ?p = bn_val s mod ?p"
    using bn_inverse_div_loop_correct [OF assms(1-4), of "k div 29" 0 18] q by auto
  obtain r where r: "bn_inverse_half_loop 29 0 (k mod 29) t prime = Some r" "normalized r" "bn_val r < ?p"
    "2 ^ (k mod 29) * bn_val r mod ?p = bn_val t mod ?p"
    using bn_inverse_half_loop_correct [OF assms(1,2) t(2,3), of "k mod 29" 0 29] by auto
  have "(2 :: int) ^ k = (2 ^ 29) ^ (k div 29) * 2 ^ (k mod 29)"
    by (simp only: power_mult [symmetric] power_add [symmetric]) simp
  then have "2 ^ k * bn_val r mod ?p = (2 ^ 29) ^ (k div 29) * (2 ^ (k mod 29) * bn_val r mod ?p) mod ?p"
    by (simp only: mod_mult_right_eq mult.assoc)
  then have "2 ^ k * bn_val r mod ?p = bn_val s mod ?p"
    unfolding r(4) by (simp only: mod_mult_right_eq t(4))
  with t r show ?thesis by auto
qed

text \<open>
  For \<open>x\<close> coprime to an odd modulus in the allowed range, the result is the inverse
  of \<open>x\<close>, fully reduced; the asserts of the code never fire.
\<close>

lemma bn_inverse_correct:
  assumes "prime_ok prime" "odd (bn_val prime)" "normalized x" "coprime (bn_val x) (bn_val prime)"
  shows "\<exists>r. bn_inverse x prime = Some r \<and> fully_reduced r prime
    \<and> bn_val x * bn_val r mod bn_val prime = 1"
proof -
  let ?p = "bn_val prime"
  have p: "1 < ?p" "normalized prime" using assms(1) by (simp_all add: prime_ok_def)
  note f = bn_fast_mod_correct [OF assms(1), of x]
  obtain y where y: "bn_mod (bn_fast_mod x prime) prime = Some y" "fully_reduced y prime"
    "bn_val y = bn_val x mod ?p"
    using bn_mod_correct [OF f(1)] f(2) assms(1,3) by auto
  have cop: "coprime (bn_val y) ?p" using assms(4) p(1) by (simp add: y(3) coprime_mod_left_iff)
  have yn: "normalized y" "bn_val y \<noteq> 0" using y(2) cop p(1) by (auto simp: fully_reduced_def)
  define st where "st = (bn_inverse_step ^^ 522) (bn_inverse_start y prime)"
  note res = bn_inverse_loop_result [OF assms(1,2) y(2) cop, folded st_def]
  obtain t r where r: "bn_inverse_div_loop 18 0 (st_k st div 29) (st_s st) prime = Some t"
    "bn_inverse_half_loop 29 0 (st_k st mod 29) t prime = Some r" "normalized r" "bn_val r < ?p"
    "2 ^ st_k st * bn_val r mod ?p = bn_val (st_s st) mod ?p"
    using bn_inverse_scaling [OF p(2) assms(2) res(1-3)] by auto
  have "bn_inverse x prime = Some r"
    using y r yn by (simp add: bn_inverse_def bn_inverse_fast_def bn_inverse_start_def [symmetric]
        st_def [symmetric] bn_is_zero_iff bn_cmov_eq [of _ _ False, simplified])
  moreover have "bn_val x * bn_val r mod ?p = bn_val y * bn_val r mod ?p"
    unfolding y(3) by (simp only: mod_mult_left_eq)
  moreover have "\<dots> = 1"
    using inverse_from_almost [OF assms(2) p(1) res(4) r(5)] .
  ultimately show ?thesis using r by (auto simp: fully_reduced_def)
qed

lemma bn_inverse_loops_defined:
  assumes "normalized prime" "odd (bn_val prime)" "normalized s"
  shows "\<exists>t. bn_inverse_div_loop n i q s prime = Some t \<and> normalized t"
    and "\<exists>t. bn_inverse_half_loop n i q s prime = Some t \<and> normalized t"
  using assms(3)
proof (induction n arbitrary: i s)
  case (Suc n)
  {
    case 1
    obtain r where "bn_divide_base s prime = Some r" "normalized r"
      using bn_divide_base_eq [OF 1 assms(1,2)] by auto
    with Suc.IH(1) 1 show ?case by (simp add: bn_cmov_eq)
  next
    case 2
    with Suc.IH(2) bn_mult_half_eq(1) [OF 2 assms(1,2)] show ?case by (simp add: bn_cmov_eq)
  }
qed simp_all

lemma inv_normalized_loop: "inv_normalized st \<Longrightarrow> inv_normalized ((bn_inverse_step ^^ n) st)"
  by (induction n) (simp_all add: inv_normalized_step)

lemma bn_inverse_zero:
  assumes "prime_ok prime" "odd (bn_val prime)" "normalized x" "bn_val prime dvd bn_val x"
  shows "bn_inverse x prime = Some bn_zero"
proof -
  have p: "normalized prime" using assms(1) by simp
  note f = bn_fast_mod_correct [OF assms(1), of x]
  obtain y where y: "bn_mod (bn_fast_mod x prime) prime = Some y" "normalized y" "bn_val y = 0"
    using bn_mod_correct [OF f(1)] f(2) assms by (auto simp: fully_reduced_def)
  define st where "st = (bn_inverse_step ^^ 522)
    \<lparr>st_u = prime, st_v = y, st_r = bn_zero, st_s = bn_one, st_k = 0, st_finished = False\<rparr>"
  have "inv_normalized st"
    unfolding st_def using p y by (intro inv_normalized_loop) (simp add: inv_normalized_def)
  then obtain t where t: "bn_inverse_div_loop 18 0 (st_k st div 29) (st_s st) prime = Some t" "normalized t"
    using bn_inverse_loops_defined(1) [OF p assms(2)] by (force simp: inv_normalized_def)
  obtain r where r: "bn_inverse_half_loop 29 0 (st_k st mod 29) t prime = Some r" "normalized r"
    using bn_inverse_loops_defined(2) [OF p assms(2) t(2)] by blast
  have "bn_inverse x prime = Some y"
    using y t r by (simp add: bn_inverse_def bn_inverse_fast_def st_def [symmetric] bn_is_zero_iff
        bn_cmov_eq [of _ _ True, simplified])
  moreover have "y = bn_zero" using y by (intro bn_val_inj [THEN iffD1]) simp_all
  ultimately show ?thesis by simp
qed

section \<open>Properties\<close>

text \<open>
  C2. Inversion: for an odd modulus in the allowed range, \<open>bn_inverse\<close> returns the fully
  reduced inverse of every \<open>x\<close> coprime to the modulus, and zero for a multiple of the
  modulus; its 522 turns always suffice and none of its assertions fails.
\<close>

theorem bn_inverse_spec:
  assumes "prime_ok prime" "odd (bn_val prime)" "normalized x"
    and "coprime (bn_val x) (bn_val prime) \<or> bn_val prime dvd bn_val x"
  shows "\<exists>r. bn_inverse x prime = Some r \<and> fully_reduced r prime
    \<and> (if bn_val prime dvd bn_val x then bn_val r = 0 else bn_val x * bn_val r mod bn_val prime = 1)"
proof (cases "bn_val prime dvd bn_val x")
  case True
  then show ?thesis using bn_inverse_zero [OF assms(1-3)] assms(1) by (simp add: fully_reduced_def)
next
  case False
  then show ?thesis using bn_inverse_correct [OF assms(1-3)] assms(4) by auto
qed

theorem bn_inverse_spec_witness:
  "\<exists>r. bn_inverse \<lparr>val = 3 # replicate 8 0\<rparr> secp256k1_prime = Some r \<and> fully_reduced r secp256k1_prime
    \<and> 3 * bn_val r mod bn_val secp256k1_prime = 1"
proof -
  let ?x = "\<lparr>val = 3 # replicate 8 0\<rparr>"
  have x: "normalized ?x" "bn_val ?x = 3" by (simp_all add: normalized_def bn_val_def digits_ok_def)
  have "coprime 3 (bn_val secp256k1_prime)" unfolding secp256k1_prime_ok(2) coprime_iff_gcd_eq_1
    by (simp add: gcd_non_0_int)
  moreover have "\<not> bn_val secp256k1_prime dvd 3" using zdvd_imp_le [of _ 3] by (auto simp: secp256k1_prime_ok(2))
  ultimately show ?thesis
    using bn_inverse_spec [of secp256k1_prime ?x] x secp256k1_prime_ok by simp
qed

text \<open>
  The inverse modulo a power of two: for an odd \<open>a\<close> and \<open>2 \<le> n \<le> 32\<close>,
  \<open>inverse_mod_power_two\<close> returns the inverse of \<open>a\<close> modulo \<open>2 ^ n\<close>, below \<open>2 ^ n\<close>.
\<close>

theorem inverse_mod_power_two_spec:
  assumes "odd (uint a)" "2 \<le> n" "n \<le> 32"
  shows "uint (inverse_mod_power_two a n) < 2 ^ n \<and> uint a * uint (inverse_mod_power_two a n) mod 2 ^ n = 1"
  using inverse_mod_power_two_correct [OF assms] by simp

theorem inverse_mod_power_two_spec_witness:
  "uint (inverse_mod_power_two 0x1ffffc2f 29) < 2 ^ 29
    \<and> uint (0x1ffffc2f :: u32) * uint (inverse_mod_power_two 0x1ffffc2f 29) mod 2 ^ 29 = 1"
  by (rule inverse_mod_power_two_spec) simp_all

text \<open>
  Division by the base and halving modulo an odd number: \<open>bn_divide_base\<close> and
  \<open>bn_mult_half\<close> return \<open>x / 2 ^ 29\<close> and \<open>x / 2\<close> modulo the prime and keep the bound of \<open>x\<close>,
  whether it is fully reduced (\<open>c = 1\<close>) or partly reduced (\<open>c = 2\<close>); the assertion of
  \<open>bn_divide_base\<close> holds.
\<close>

theorem bn_divide_base_mult_half_spec:
  assumes "normalized x" "normalized prime" "odd (bn_val prime)" "bn_val x < c * bn_val prime" "1 \<le> c"
  shows "(\<exists>r. bn_divide_base x prime = Some r \<and> normalized r \<and> bn_val r < c * bn_val prime
      \<and> 2 ^ 29 * bn_val r mod bn_val prime = bn_val x mod bn_val prime)
    \<and> normalized (bn_mult_half x prime) \<and> bn_val (bn_mult_half x prime) < c * bn_val prime
    \<and> 2 * bn_val (bn_mult_half x prime) mod bn_val prime = bn_val x mod bn_val prime"
  using bn_divide_base_correct [OF assms] bn_mult_half_eq(1) [OF assms(1-3)] bn_mult_half_correct [OF assms]
  by simp

theorem bn_divide_base_mult_half_spec_witness:
  "(\<exists>r. bn_divide_base bn_one secp256k1_prime = Some r \<and> normalized r \<and> bn_val r < 1 * bn_val secp256k1_prime
      \<and> 2 ^ 29 * bn_val r mod bn_val secp256k1_prime = bn_val bn_one mod bn_val secp256k1_prime)
    \<and> normalized (bn_mult_half bn_one secp256k1_prime)
    \<and> bn_val (bn_mult_half bn_one secp256k1_prime) < 1 * bn_val secp256k1_prime
    \<and> 2 * bn_val (bn_mult_half bn_one secp256k1_prime) mod bn_val secp256k1_prime
        = bn_val bn_one mod bn_val secp256k1_prime"
proof (rule bn_divide_base_mult_half_spec)
  show "normalized secp256k1_prime" "odd (bn_val secp256k1_prime)" "bn_val bn_one < 1 * bn_val secp256k1_prime"
    using secp256k1_prime_ok by simp_all
qed simp_all

end
