(* ===== verification/Bignum_Div.thy ===== *)
theory Bignum_Div
  imports Bignum_Mod
begin

text \<open>
  Division of a big number by a small one, from \<open>crypto/bignum.c\<close>.
\<close>

section \<open>Division by small numbers\<close>

text \<open>The limbs come most significant first; the quotient limbs are produced in the same order.\<close>

fun bn_long_division_loop :: "u32 \<Rightarrow> u32 \<Rightarrow> u32 list \<Rightarrow> u32 list \<times> u32" where
  "bn_long_division_loop d r [] = ([], r)"
| "bn_long_division_loop d r (x # xs) =
     (let acc = r * (BN_BASE mod d) + x;
          q = r * (BN_BASE div d) + acc div d;
          (qs, r) = bn_long_division_loop d (acc mod d) xs
      in (q # qs, r))"

definition bn_long_division :: "bignum256 \<Rightarrow> u32 \<Rightarrow> (bignum256 \<times> u32) option" where
  "bn_long_division x d =
     (if \<not> (1 \<le> d \<and> d < 61304) then None
      else let top = val x ! 8;
               (qs, r) = bn_long_division_loop d (top mod d) (tl (rev (val x)))
           in Some (\<lparr>val = rev (top div d # qs)\<rparr>, r))"

definition bn_divmod58 :: "bignum256 \<Rightarrow> (bignum256 \<times> u32) option" where
  "bn_divmod58 x = bn_long_division x 58"

definition bn_divmod1000 :: "bignum256 \<Rightarrow> (bignum256 \<times> u32) option" where
  "bn_divmod1000 x = bn_long_division x 1000"

definition bn_divmod10 :: "bignum256 \<Rightarrow> (bignum256 \<times> u32) option" where
  "bn_divmod10 x = bn_long_division x 10"

text \<open>
  \<open>bn_digitcount\<close> takes three decimal digits per turn, 27 turns for the at most
  79 digits of a number below \<open>2 ^ 261\<close>.
\<close>

fun bn_digitcount_loop :: "nat \<Rightarrow> nat \<Rightarrow> nat \<Rightarrow> bignum256 \<Rightarrow> nat option" where
  "bn_digitcount_loop 0 i digits v = Some digits"
| "bn_digitcount_loop (Suc n) i digits v = do {
     (v, limb) \<leftarrow> bn_divmod1000 v;
     let digits = (if limb \<ge> 100 then i + 3 else if limb \<ge> 10 then i + 2
                   else if limb \<ge> 1 then i + 1 else digits);
     bn_digitcount_loop n (i + 3) digits v }"

definition bn_digitcount :: "bignum256 \<Rightarrow> nat option" where
  "bn_digitcount x = bn_digitcount_loop 27 0 1 x"

section \<open>The quotient and the remainder\<close>

lemma bn_long_division_limb:
  fixes d r x :: u32
  assumes "1 \<le> uint d" "uint d < 61304" "uint r < uint d" "uint x < 2 ^ 29"
  defines "acc \<equiv> r * (BN_BASE mod d) + x"
  defines "q \<equiv> r * (BN_BASE div d) + acc div d"
  shows "uint (acc mod d) < uint d" "uint q < 2 ^ 29"
    and "uint r * 2 ^ 29 + uint x = uint d * uint q + uint (acc mod d)"
proof -
  let ?D = "uint d" and ?R = "uint r" and ?B = "2 ^ 29 :: int"
  have m: "uint (BN_BASE mod d) = ?B mod ?D" "uint (BN_BASE div d) = ?B div ?D"
    by (simp_all only: uint_mod uint_div) simp_all
  have "?R \<le> 61302" "?B mod ?D \<le> 61302"
    using assms(1-3) pos_mod_bound [of ?D ?B] by linarith+
  then have "?R * (?B mod ?D) \<le> 61302 * 61302"
    using assms(1) by (intro mult_mono) simp_all
  then have sm: "?R * (?B mod ?D) + uint x < 2 ^ 32" using assms(4) by simp
  then have "?R * (?B mod ?D) < 2 ^ 32" using uint_nonnegative [of x] by linarith
  then have "uint (r * (BN_BASE mod d)) = ?R * (?B mod ?D)"
    by (subst uint_mult_small) (simp_all add: m)
  then have acc: "uint acc = ?R * (?B mod ?D) + uint x"
    unfolding acc_def using sm by (subst uint_add_small) simp_all
  define Q where "Q = ?R * (?B div ?D) + uint acc div ?D"
  have "?R * ?B + uint x = ?R * (?D * (?B div ?D) + ?B mod ?D) + uint x" by simp
  also have "\<dots> = ?D * (?R * (?B div ?D)) + uint acc" by (simp only: acc algebra_simps)
  also have "\<dots> = ?D * Q + uint acc mod ?D"
    unfolding Q_def distrib_left by simp
  finally have eq: "?R * ?B + uint x = ?D * Q + uint acc mod ?D" .
  have "(?R + 1) * ?B \<le> ?D * ?B" using assms(3) by (intro mult_right_mono) simp_all
  then have "?R * ?B + uint x < ?D * ?B" using assms(4) by (simp add: distrib_right)
  then have "?D * Q < ?D * ?B" using eq pos_mod_sign [of ?D "uint acc"] assms(1) by linarith
  then have Q: "Q < ?B" using assms(1) by simp
  have nn: "0 \<le> ?R * (?B div ?D)" "0 \<le> uint acc div ?D" 
    using assms(1) by (simp_all add: pos_imp_zdiv_nonneg_iff)
  have "uint (r * (BN_BASE div d)) = ?R * (?B div ?D)"
    using nn Q unfolding Q_def by (subst uint_mult_small) (simp_all add: m)
  then have q: "uint q = Q"
    unfolding q_def using Q nn by (subst uint_add_small) (simp_all add: uint_div Q_def)
  show "uint (acc mod d) < ?D" using assms(1) by (simp add: uint_mod)
  show "uint q < ?B" using q Q by simp
  show "?R * ?B + uint x = ?D * uint q + uint (acc mod d)" using eq q by (simp add: uint_mod)
qed

lemma bn_long_division_loop_correct:
  assumes "1 \<le> uint d" "uint d < 61304" "uint r < uint d" "digits_ok (map uint xs)"
    and "bn_long_division_loop d r xs = (qs, r')"
  shows "length qs = length xs \<and> digits_ok (map uint qs) \<and> uint r' < uint d
    \<and> uint r * 2 ^ (29 * length xs) + rval (map uint (rev xs)) = uint d * rval (map uint (rev qs)) + uint r'"
  using assms(3-5)
proof (induction xs arbitrary: r qs)
  case Nil
  then show ?case by simp
next
  case (Cons x xs)
  define acc where "acc = r * (BN_BASE mod d) + x"
  define q where "q = r * (BN_BASE div d) + acc div d"
  obtain qs1 where l: "bn_long_division_loop d (acc mod d) xs = (qs1, r')" and qs: "qs = q # qs1"
    using Cons.prems(3) by (auto simp: acc_def q_def Let_def split: prod.splits)
  note st = bn_long_division_limb [OF assms(1,2) Cons.prems(1), of x, folded acc_def q_def]
  have x: "uint x < 2 ^ 29" using Cons.prems(2) by simp
  have IH: "length qs1 = length xs" "digits_ok (map uint qs1)" "uint r' < uint d"
    "uint (acc mod d) * 2 ^ (29 * length xs) + rval (map uint (rev xs)) = uint d * rval (map uint (rev qs1)) + uint r'"
    using Cons.IH [OF st(1) [OF x] _ l] Cons.prems(2) by simp_all
  let ?P = "2 ^ (29 * length xs) :: int"
  have "uint r * 2 ^ (29 * length (x # xs)) + rval (map uint (rev (x # xs)))
      = (uint r * 2 ^ 29 + uint x) * ?P + rval (map uint (rev xs))"
    by (simp add: rval_append power_add algebra_simps)
  also have "\<dots> = uint d * uint q * ?P + (uint (acc mod d) * ?P + rval (map uint (rev xs)))"
    unfolding st(3) [OF x] by (simp only: algebra_simps)
  also have "\<dots> = uint d * rval (map uint (rev qs)) + uint r'"
    unfolding IH(4) qs by (simp add: rval_append IH(1) algebra_simps)
  finally show ?case using IH st(2) [OF x] qs by simp
qed

lemma bn_long_division_correct:
  assumes "normalized x" "1 \<le> uint d" "uint d < 61304"
  shows "\<exists>q r. bn_long_division x d = Some (q, r) \<and> normalized q
    \<and> bn_val q = bn_val x div uint d \<and> uint r = bn_val x mod uint d"
proof -
  obtain lo top where x: "val x = lo @ [top]" "length lo = 8"
    using normalized_length [OF assms(1)] by (cases "val x" rule: rev_cases) auto
  have dig: "digits_ok (map uint (rev lo))" "uint top < 2 ^ 29"
    using assms(1) x by (auto simp: normalized_def digits_ok_def)
  obtain qs r where l: "bn_long_division_loop d (top mod d) (rev lo) = (qs, r)" by force
  have "uint (top mod d) < uint d" using assms(2) by (simp add: uint_mod)
  note c = bn_long_division_loop_correct [OF assms(2,3) this dig(1) l]
  let ?q = "\<lparr>val = rev (top div d # qs)\<rparr>"
  have "1 \<le> d" "d < 61304" using assms(2,3) by (simp_all add: word_le_def word_less_alt)
  then have eq: "bn_long_division x d = Some (?q, r)"
    using l x by (simp add: bn_long_division_def nth_append)
  have t: "uint top div uint d < 2 ^ 29" "0 \<le> uint top div uint d"
    using dig(2) assms(2) le_less_trans [OF zdiv_mono2 [of "uint top" 1 "uint d"]]
    by (simp_all add: pos_imp_zdiv_nonneg_iff)
  have "normalized ?q" using c x t by (auto simp: normalized_def uint_div digits_ok_def)
  moreover have "bn_val x = uint d * bn_val ?q + uint r"
  proof -
    have "bn_val x = rval (map uint lo) + 2 ^ 232 * uint top" using x by (simp add: bn_val_def rval_append)
    also have "uint top = uint d * uint (top div d) + uint (top mod d)" by (simp add: uint_div uint_mod)
    finally show ?thesis using c x by (simp add: bn_val_def rval_append algebra_simps)
  qed
  ultimately show ?thesis
    using eq c assms(2) by (auto simp: intro: int_div_pos_eq [symmetric] int_mod_pos_eq [symmetric])
qed

section \<open>Decimal digits\<close>

definition dec_length_of :: "int \<Rightarrow> nat \<Rightarrow> bool" where
  "dec_length_of v d \<longleftrightarrow> 0 < d \<and> 10 ^ (d - 1) \<le> v \<and> v < 10 ^ d"

lemma bn_divmod1000_correct:
  assumes "normalized x"
  obtains q r where "bn_divmod1000 x = Some (q, r)" "normalized q" "bn_val q = bn_val x div 1000"
    "uint r = bn_val x mod 1000"
  using bn_long_division_correct [OF assms, of 1000] by (auto simp: bn_divmod1000_def)

lemma dec_length_of_step:
  assumes "dec_length_of q d" "0 \<le> r" "r < 1000"
  shows "dec_length_of (r + 1000 * q) (d + 3)"
proof -
  have d: "0 < d" "10 ^ (d - 1) \<le> q" "q + 1 \<le> 10 ^ d" using assms(1) by (simp_all add: dec_length_of_def)
  have lo: "(10 :: int) ^ (d + 3 - 1) = 1000 * 10 ^ (d - 1)" using d(1) by (cases d) (simp_all add: power_add)
  have hi: "(10 :: int) ^ (d + 3) = 1000 * 10 ^ d" by (simp add: power_add)
  show ?thesis unfolding dec_length_of_def lo hi using d assms(2,3) by simp
qed

lemma dec_length_of_small:
  assumes "0 \<le> r" "r \<noteq> 0" "r < 1000"
  shows "dec_length_of r (if r \<ge> 100 then 3 else if r \<ge> 10 then 2 else 1)"
  using assms by (auto simp: dec_length_of_def)

lemma bn_digitcount_loop_correct:
  assumes "normalized v" "bn_val v < 1000 ^ n"
  shows "\<exists>d. bn_digitcount_loop n i digits v = Some d
    \<and> (if bn_val v = 0 then d = digits else i \<le> d \<and> dec_length_of (bn_val v) (d - i))"
  using assms
proof (induction n arbitrary: i digits v)
  case 0
  then have "bn_val v = 0" using bn_val_nonneg [of v] by simp
  then show ?case by simp
next
  case (Suc n)
  obtain q r where qr: "bn_divmod1000 v = Some (q, r)" "normalized q" "bn_val q = bn_val v div 1000"
    "uint r = bn_val v mod 1000" using Suc.prems(1) by (rule bn_divmod1000_correct)
  define e where "e = (if r \<ge> 100 then i + 3 else if r \<ge> 10 then i + 2 else if r \<ge> 1 then i + 1 else digits)"
  have le: "r \<ge> 100 \<longleftrightarrow> uint r \<ge> 100" "r \<ge> 10 \<longleftrightarrow> uint r \<ge> 10" "r \<ge> 1 \<longleftrightarrow> uint r \<noteq> 0"
    by (simp_all add: word_le_def) (use uint_nonnegative [of r] in presburger)
  have "bn_val q < 1000 ^ n" unfolding qr(3) using Suc.prems(2) by (intro int_div_less) simp_all
  then obtain d where d: "bn_digitcount_loop n (i + 3) e q = Some d"
    "if bn_val q = 0 then d = e else i + 3 \<le> d \<and> dec_length_of (bn_val q) (d - (i + 3))"
    using Suc.IH [OF qr(2)] by blast
  have run: "bn_digitcount_loop (Suc n) i digits v = Some d" using qr d by (simp add: e_def)
  have v: "bn_val v = uint r + 1000 * bn_val q" unfolding qr by simp
  have r: "0 \<le> uint r" "uint r < 1000" using qr(4) by simp_all
  show ?case
  proof (cases "bn_val q = 0")
    case True
    then have "d = e" "bn_val v = uint r" using d v by simp_all
    then show ?thesis
      using run r dec_length_of_small [of "uint r"] by (auto simp: e_def le split: if_splits)
  next
    case False
    then have d': "i + 3 \<le> d" "dec_length_of (bn_val q) (d - (i + 3))" using d by simp_all
    then have "dec_length_of (bn_val v) (d - (i + 3) + 3)" unfolding v using r by (intro dec_length_of_step)
    moreover have "d - (i + 3) + 3 = d - i" using d' by simp
    moreover have "bn_val v \<noteq> 0" using False v r bn_val_nonneg [OF qr(2)] by linarith
    ultimately show ?thesis using run d' by simp
  qed
qed

lemma bn_digitcount_correct:
  assumes "normalized x"
  shows "\<exists>d. bn_digitcount x = Some d \<and> (if bn_val x = 0 then d = 1 else dec_length_of (bn_val x) d)"
proof -
  have "bn_val x < 1000 ^ 27" using bn_val_less [OF assms] by (rule less_trans) simp
  then show ?thesis using bn_digitcount_loop_correct [OF assms, of 27 0 1] unfolding bn_digitcount_def by (cases "bn_val x = 0") simp_all
qed

section \<open>Properties\<close>

text \<open>
  Long division: for a divisor from 1 to 61303, \<open>bn_long_division\<close> returns the
  normalized quotient and the remainder; any other divisor fails its assertion.
\<close>

theorem bn_long_division_spec:
  assumes "normalized x"
  shows "case bn_long_division x d of
      Some (q, r) \<Rightarrow> 1 \<le> uint d \<and> uint d < 61304 \<and> normalized q
        \<and> bn_val q = bn_val x div uint d \<and> uint r = bn_val x mod uint d
    | None \<Rightarrow> uint d = 0 \<or> 61304 \<le> uint d"
proof (cases "1 \<le> uint d \<and> uint d < 61304")
  case True
  then show ?thesis using bn_long_division_correct [OF assms, of d] by auto
next
  case False
  then have "bn_long_division x d = None" by (auto simp: bn_long_division_def word_le_def word_less_alt)
  moreover have "uint d = 0 \<or> 61304 \<le> uint d" using False uint_nonnegative [of d] by linarith
  ultimately show ?thesis by simp
qed

theorem bn_long_division_spec_witness:
  "case bn_long_division secp256k1_prime 58 of
      Some (q, r) \<Rightarrow> 1 \<le> uint (58 :: u32) \<and> uint (58 :: u32) < 61304 \<and> normalized q
        \<and> bn_val q = bn_val secp256k1_prime div uint (58 :: u32) \<and> uint r = bn_val secp256k1_prime mod uint (58 :: u32)
    | None \<Rightarrow> uint (58 :: u32) = 0 \<or> 61304 \<le> uint (58 :: u32)"
  by (rule bn_long_division_spec) (simp add: secp256k1_prime_ok)

text \<open>
  Decimal length: \<open>bn_digitcount\<close> returns the number of decimal digits of the number,
  1 for zero.
\<close>

theorem bn_digitcount_spec:
  assumes "normalized x"
  shows "\<exists>d. bn_digitcount x = Some d
    \<and> (if bn_val x = 0 then d = 1 else 0 < d \<and> 10 ^ (d - 1) \<le> bn_val x \<and> bn_val x < 10 ^ d)"
  using bn_digitcount_correct [OF assms] unfolding dec_length_of_def .

theorem bn_digitcount_spec_witness:
  "\<exists>d. bn_digitcount bn_one = Some d \<and> 0 < d \<and> 10 ^ (d - 1) \<le> bn_val bn_one \<and> bn_val bn_one < 10 ^ d"
  using bn_digitcount_spec [of bn_one] by simp

end
