(* ===== verification/Bignum_Bytes.thy ===== *)
theory Bignum_Bytes
  imports Bignum
begin

text \<open>
  Conversions of \<open>crypto/bignum.c\<close> between big numbers, byte strings and machine
  words, and the routines on single bits. The value of a byte string is the
  Horner sum of its bytes in base 256, least significant first.
\<close>

section \<open>Bytes of a word\<close>

abbreviation le_val :: "u8 list \<Rightarrow> int" where
  "le_val bs \<equiv> horner_sum uint 256 bs"

abbreviation word_val :: "u32 list \<Rightarrow> int" where
  "word_val ws \<equiv> horner_sum uint (2 ^ 32) ws"

lemma uint_u8 [simp]: "uint (ucast (b :: u8) :: u32) = uint b"
  by (rule uint_ucast_small) (rule less_trans [OF uint_lt2p], simp)

lemma uint_u8_less: "uint (b :: u8) < 256"
  using uint_lt2p [of b] by simp

lemma uint_bytes_or:
  fixes a b c d :: u8
  shows "uint (push_bit 24 (ucast d) OR push_bit 16 (ucast c) OR push_bit 8 (ucast b) OR ucast a :: u32)
    = le_val [a, b, c, d]"
proof -
  note l = uint_u8_less [of a] uint_u8_less [of b] uint_u8_less [of c] uint_u8_less [of d]
  have 1: "uint (push_bit 24 (ucast d) OR (push_bit 16 (ucast c) OR (push_bit 8 (ucast b) OR ucast a)) :: u32)
      = uint a + uint b * 2 ^ 8 + uint c * 2 ^ 16 + uint d * 2 ^ 24"
    using l by (simp add: uint_push_or)
  then show ?thesis by (simp add: or.assoc)
qed

lemma read_le_val: "uint (read_le [a, b, c, d]) = le_val [a, b, c, d]"
  by (simp add: read_le_def uint_bytes_or del: horner_sum_simps)

lemma read_be_val: "uint (read_be [d, c, b, a]) = le_val [a, b, c, d]"
  by (simp add: read_be_def uint_bytes_or del: horner_sum_simps)

lemma uint_byte: "uint (ucast (drop_bit n (x :: u32)) :: u8) = uint x div 2 ^ n mod 256"
  by (simp only: unsigned_ucast_eq uint_drop_bit) (simp add: take_bit_int_def)

lemma base_256_digits:
  fixes X :: int
  shows "X mod 256 + 256 * (X div 256 mod 256 + 256 * (X div 256 div 256 mod 256 + 256 * (X div 256 div 256 div 256))) = X"
  by (simp only: mod_mult_div_eq)

lemma write_le_val: "le_val (write_le x) = uint x"
proof -
  define X where "X = uint x"
  have d: "X div 2 ^ 8 = X div 256" "X div 2 ^ 16 = X div 256 div 256" "X div 2 ^ 24 = X div 256 div 256 div 256"
    by (simp_all add: zdiv_zmult2_eq [symmetric])
  have "X div 2 ^ 24 < 256" using uint_lt2p [of x] unfolding X_def by (intro int_div_less) simp_all
  then have 4: "X div 2 ^ 24 mod 256 = X div 2 ^ 24"
    unfolding X_def by (intro mod_pos_pos_trivial) (simp_all add: pos_imp_zdiv_nonneg_iff)
  have "uint (ucast x :: u8) = X mod 256" using uint_byte [of 0 x] by (simp add: X_def)
  then have "le_val (write_le x) = X mod 256 + 256 * (X div 2 ^ 8 mod 256
      + 256 * (X div 2 ^ 16 mod 256 + 256 * (X div 2 ^ 24 mod 256)))"
    by (simp add: write_le_def uint_byte X_def)
  then show ?thesis unfolding 4 unfolding d base_256_digits by (simp add: X_def)
qed

lemma write_be_rev: "write_be x = rev (write_le x)"
  by (simp add: write_be_def write_le_def)

lemma horner_inj:
  fixes b :: int
  assumes "length xs = length ys" "\<And>x. x \<in> set xs \<union> set ys \<Longrightarrow> 0 \<le> f x \<and> f x < b" "inj f"
  shows "horner_sum f b xs = horner_sum f b ys \<longleftrightarrow> xs = ys"
  using assms(1,2)
proof (induction xs ys rule: list_induct2)
  case (Cons x xs y ys)
  have d: "0 \<le> f x" "f x < b" "0 \<le> f y" "f y < b" using Cons.prems by auto
  show ?case
    using digit_less_iff(2) [OF d] Cons assms(3) by (auto simp: inj_eq)
qed simp

lemma le_val_inj: "length bs = length cs \<Longrightarrow> le_val bs = le_val cs \<longleftrightarrow> bs = cs"
  by (rule horner_inj) (auto simp: uint_u8_less inj_unsigned)

lemma le_val_bounds: "0 \<le> le_val bs" "le_val bs < 256 ^ length bs"
proof (induction bs)
  case (Cons b bs)
  {
    case 1
    then show ?case using Cons.IH(1) by simp
  next
    case 2
    have "256 * (le_val bs + 1) \<le> 256 * 256 ^ length bs" using Cons.IH(2) by (intro mult_left_mono) simp_all
    then show ?case using uint_u8_less [of b] by simp
  }
qed simp_all

text \<open>A byte string of \<open>4 * n\<close> bytes as its 32-bit words.\<close>

lemma four_bytes:
  assumes "length bs = 4 * Suc n"
  obtains a b c d cs where "bs = a # b # c # d # cs" "length cs = 4 * n"
proof -
  have "length (take 4 bs) = Suc (Suc (Suc (Suc 0)))" using assms by simp
  then obtain a b c d where "take 4 bs = [a, b, c, d]" unfolding length_Suc_conv by auto
  then have "bs = a # b # c # d # drop 4 bs" using append_take_drop_id [of 4 bs] by simp
  moreover have "length (drop 4 bs) = 4 * n" using assms by simp
  ultimately show ?thesis by (rule that)
qed

lemma words_le_val:
  assumes "length bs = 4 * n"
  shows "word_val (map (\<lambda>i. read_le (drop (i * 4) bs)) [0..<n]) = le_val bs"
  using assms
proof (induction n arbitrary: bs)
  case (Suc n)
  obtain a b c d cs where bs: "bs = a # b # c # d # cs" "length cs = 4 * n"
    using Suc.prems by (rule four_bytes)
  have "drop (4 + i * 4) bs = drop (i * 4) cs" for i
    using drop_drop [of "i * 4" 4 bs] by (simp add: bs(1) add.commute)
  moreover have "[0..<Suc n] = 0 # map Suc [0..<n]" by (simp add: upt_conv_Cons map_Suc_upt del: upt_Suc)
  ultimately have "map (\<lambda>i. read_le (drop (i * 4) bs)) [0..<Suc n]
      = read_le bs # map (\<lambda>i. read_le (drop (i * 4) cs)) [0..<n]"
    by (simp del: upt_Suc)
  moreover have "uint (read_le bs) = le_val [a, b, c, d]"
    using read_le_val [of a b c d] by (simp add: bs read_le_def)
  ultimately show ?case using Suc.IH [OF bs(2)] by (simp add: bs)
qed simp

lemma le_val_concat_write_le: "le_val (concat (map write_le ws)) = word_val ws"
proof (induction ws)
  case (Cons w ws)
  have "length (write_le w) = 4" by (simp add: write_le_def)
  then show ?case using Cons by (simp add: horner_sum_append write_le_val)
qed simp

section \<open>Reading\<close>

lemma uint_or_push_trunc:
  fixes u v :: "'a::len word"
  assumes "uint u < 2 ^ n"
  shows "uint (u OR push_bit n v) = (uint u + uint v * 2 ^ n) mod 2 ^ LENGTH('a)"
proof -
  have "take_bit n u AND push_bit n v = 0" by (rule bit_eqI) (auto simp: bit_simps)
  then have "u AND push_bit n v = 0" by (simp only: take_bit_uint_self [OF assms])
  then have "u OR push_bit n v = u + push_bit n v" by (simp add: disjunctive_add_eq_or)
  moreover have "uint (push_bit n v) = uint v * 2 ^ n mod 2 ^ LENGTH('a)"
    by (simp only: unsigned_push_bit_eq) (simp add: push_bit_eq_mult take_bit_int_def)
  ultimately show ?thesis by (simp add: uint_word_ariths mod_add_right_eq)
qed

text \<open>Step \<open>i\<close> moves 29 bits to the output and carries the \<open>3 * (i + 1)\<close> bits that remain.\<close>

lemma bn_read_step:
  fixes temp limb :: u32
  assumes "uint temp < 2 ^ (3 * i)" "i \<le> 8"
  shows "uint ((temp OR push_bit (3 * i) limb) AND BN_LIMB_MASK) = (uint temp + uint limb * 2 ^ (3 * i)) mod 2 ^ 29"
    and "uint (drop_bit (29 - 3 * i) limb) = (uint temp + uint limb * 2 ^ (3 * i)) div 2 ^ 29"
    and "uint (drop_bit (29 - 3 * i) limb) < 2 ^ (3 * (i + 1))"
proof -
  show "uint ((temp OR push_bit (3 * i) limb) AND BN_LIMB_MASK) = (uint temp + uint limb * 2 ^ (3 * i)) mod 2 ^ 29"
    by (simp add: uint_or_push_trunc [OF assms(1)] mod_mod_cancel)
  have e: "(2 :: int) ^ 29 = 2 ^ (3 * i) * 2 ^ (29 - 3 * i)" using assms(2) by (simp flip: power_add)
  have "(uint temp + uint limb * 2 ^ (3 * i)) div 2 ^ (3 * i) = uint limb" using assms(1) by simp
  then show "uint (drop_bit (29 - 3 * i) limb) = (uint temp + uint limb * 2 ^ (3 * i)) div 2 ^ 29"
    unfolding e by (simp add: zdiv_zmult2_eq uint_drop_bit)
  have "uint limb div 2 ^ (29 - 3 * i) < 2 ^ (32 - (29 - 3 * i))"
    using uint_lt2p [of limb] by (intro div_power_less) simp_all
  moreover have "32 - (29 - 3 * i) = 3 * (i + 1)" using assms(2) by simp
  ultimately show "uint (drop_bit (29 - 3 * i) limb) < 2 ^ (3 * (i + 1))" by (simp only: uint_drop_bit)
qed

lemma bn_read_loop_correct:
  fixes word :: "nat \<Rightarrow> u32"
  assumes "uint temp < 2 ^ (3 * i)" "i + n \<le> 9"
  defines "out \<equiv> bn_read_loop word n i temp"
  shows "length out = Suc n \<and> digits_ok (map uint out)
    \<and> rval (map uint out) = uint temp + 2 ^ (3 * i) * word_val (map word [i..<i + n])"
  unfolding out_def using assms(1,2)
proof (induction n arbitrary: i temp)
  case 0
  have "(2 :: int) ^ (3 * i) \<le> 2 ^ 29" using 0 by (intro power_increasing) simp_all
  then show ?case using 0 by simp
next
  case (Suc n)
  have i: "i \<le> 8" using Suc.prems by simp
  note st = bn_read_step [OF Suc.prems(1) i, of "word i"]
  let ?t = "drop_bit (29 - 3 * i) (word i)" and ?s = "uint temp + uint (word i) * 2 ^ (3 * i)"
  let ?W = "word_val (map word [i + 1..<i + 1 + n])"
  have IH: "length (bn_read_loop word n (i + 1) ?t) = Suc n" "digits_ok (map uint (bn_read_loop word n (i + 1) ?t))"
    "rval (map uint (bn_read_loop word n (i + 1) ?t)) = uint ?t + 2 ^ (3 * (i + 1)) * ?W"
    using Suc.IH [OF st(3)] Suc.prems by simp_all
  have l: "bn_read_loop word (Suc n) i temp
      = ((temp OR push_bit (3 * i) (word i)) AND BN_LIMB_MASK) # bn_read_loop word n (i + 1) ?t"
    using i by (simp add: Let_def)
  have "rval (map uint (bn_read_loop word (Suc n) i temp))
      = ?s mod 2 ^ 29 + 2 ^ 29 * (?s div 2 ^ 29 + 2 ^ (3 * (i + 1)) * ?W)"
    unfolding l list.map rval.simps IH(3) st(1) st(2) ..
  also have "\<dots> = ?s + 2 ^ 29 * 2 ^ (3 * (i + 1)) * ?W"
    unfolding distrib_left add.assoc [symmetric] mod_mult_div_eq by simp
  also have "\<dots> = uint temp + 2 ^ (3 * i) * word_val (map word [i..<i + Suc n])"
    by (simp add: upt_conv_Cons distrib_left power_add del: upt_Suc)
  finally show ?case using IH st(1) unfolding l by simp
qed

lemma bn_read_le_correct:
  assumes "length bs = 32"
  shows "normalized (bn_read_le bs)" "bn_val (bn_read_le bs) = le_val bs"
  using bn_read_loop_correct [of 0 0 8 "\<lambda>i. read_le (drop (i * 4) bs)"] words_le_val [of bs 8] assms
  by (simp_all add: bn_read_le_def normalized_def bn_val_def)

lemma read_be_rev:
  assumes "length bs = 32" "i < 8"
  shows "read_be (drop ((7 - i) * 4) bs) = read_le (drop (i * 4) (rev bs))"
proof -
  have "drop ((7 - i) * 4) bs ! j = bs ! ((7 - i) * 4 + j)" "drop (i * 4) (rev bs) ! j = bs ! (31 - (i * 4 + j))"
    if "j < 4" for j
    using assms that by (simp_all add: rev_nth)
  moreover have "(7 - i) * 4 + j = 31 - (i * 4 + (3 - j))" if "j < 4" for j using assms(2) that by simp
  ultimately show ?thesis by (simp add: read_be_def read_le_def)
qed

lemma bn_read_loop_cong:
  "(\<And>j. i \<le> j \<Longrightarrow> j < i + n \<Longrightarrow> word j = word' j) \<Longrightarrow> bn_read_loop word n i temp = bn_read_loop word' n i temp"
  by (induction n arbitrary: i temp) (simp_all add: Let_def)

lemma bn_read_be_eq: "length bs = 32 \<Longrightarrow> bn_read_be bs = bn_read_le (rev bs)"
  unfolding bn_read_be_def bn_read_le_def
  by (intro arg_cong [where f = "\<lambda>l. \<lparr>val = l\<rparr>"] bn_read_loop_cong) (simp add: read_be_rev)

section \<open>Writing\<close>

lemma bn_write_step:
  fixes hi lo :: u32
  assumes "uint lo < 2 ^ 29" "i \<le> 8"
  shows "uint (push_bit (29 - 3 * i) hi OR drop_bit (3 * i) lo)
    = (uint lo + 2 ^ 29 * uint hi) div 2 ^ (3 * i) mod 2 ^ 32"
proof -
  have e: "(2 :: int) ^ 29 = 2 ^ (3 * i) * 2 ^ (29 - 3 * i)" using assms(2) by (simp flip: power_add)
  have "uint lo div 2 ^ (3 * i) < 2 ^ (29 - 3 * i)" using assms by (intro div_power_less) simp_all
  then have "uint (drop_bit (3 * i) lo OR push_bit (29 - 3 * i) hi)
      = (uint lo div 2 ^ (3 * i) + uint hi * 2 ^ (29 - 3 * i)) mod 2 ^ 32"
    by (subst uint_or_push_trunc) (simp_all add: uint_drop_bit)
  also have "uint lo div 2 ^ (3 * i) + uint hi * 2 ^ (29 - 3 * i) = (uint lo + 2 ^ 29 * uint hi) div 2 ^ (3 * i)"
    unfolding e mult.assoc by (simp add: mult.commute)
  finally show ?thesis by (simp only: or.commute)
qed

text \<open>The word written for limb \<open>i\<close> is bits \<open>32 * i\<close> to \<open>32 * i + 31\<close> of the number.\<close>

lemma bn_write_word:
  assumes "normalized x" "i < 8"
  shows "uint (push_bit (29 - 3 * i) (val x ! Suc i) OR drop_bit (3 * i) (val x ! i)) = bn_val x div 2 ^ (32 * i) mod 2 ^ 32"
proof -
  let ?ds = "map uint (val x)"
  define lo where "lo = take i ?ds"
  define R where "R = rval (drop (Suc (Suc i)) ?ds)"
  have len: "length ?ds = 9" "length lo = i" using assms by (simp_all add: lo_def)
  have dig: "digits_ok ?ds" using assms(1) by (simp add: normalized_def)
  have "drop i ?ds = uint (val x ! i) # uint (val x ! Suc i) # drop (Suc (Suc i)) ?ds"
    using Cons_nth_drop_Suc [of i ?ds] Cons_nth_drop_Suc [of "Suc i" ?ds] len(1) assms(2) by simp
  then have split: "?ds = lo @ uint (val x ! i) # uint (val x ! Suc i) # drop (Suc (Suc i)) ?ds"
    using append_take_drop_id [of i ?ds] by (simp add: lo_def)
  let ?l = "uint (val x ! i)" and ?h = "uint (val x ! Suc i)"
  have v: "bn_val x = rval lo + 2 ^ (29 * i) * (?l + 2 ^ 29 * ?h + 2 ^ 58 * R)"
    unfolding bn_val_def by (subst split) (simp add: rval_append len R_def)
  have "digits_ok lo" using dig by (subst (asm) split) simp
  then have lo: "0 \<le> rval lo" "rval lo < 2 ^ (29 * i)" using rval_nonneg rval_less len(2) by auto
  have l29: "?l < 2 ^ 29" using dig by (subst (asm) split) simp
  have "bn_val x div 2 ^ (29 * i) = ?l + 2 ^ 29 * ?h + 2 ^ 58 * R" unfolding v using lo by simp
  moreover have "(2 :: int) ^ (32 * i) = 2 ^ (29 * i) * 2 ^ (3 * i)" by (simp flip: power_add)
  ultimately have "bn_val x div 2 ^ (32 * i) = (?l + 2 ^ 29 * ?h + 2 ^ 58 * R) div 2 ^ (3 * i)"
    by (simp add: zdiv_zmult2_eq)
  also have "(2 :: int) ^ 58 = 2 ^ (3 * i) * (2 ^ 32 * 2 ^ (26 - 3 * i))"
    using assms(2) by (simp only: power_add [symmetric]) simp
  also have "(?l + 2 ^ 29 * ?h + 2 ^ (3 * i) * (2 ^ 32 * 2 ^ (26 - 3 * i)) * R) div 2 ^ (3 * i)
      = (?l + 2 ^ 29 * ?h) div 2 ^ (3 * i) + 2 ^ 32 * (2 ^ (26 - 3 * i) * R)"
    unfolding mult.assoc by simp
  finally have "bn_val x div 2 ^ (32 * i) mod 2 ^ 32 = (?l + 2 ^ 29 * ?h) div 2 ^ (3 * i) mod 2 ^ 32" by simp
  then show ?thesis using bn_write_step [OF l29, of i "val x ! Suc i"] assms(2) by simp
qed

lemma bn_write_loop_eq:
  assumes "normalized x" "n \<le> 8"
  shows "bn_write_loop (val x) n (val x ! n)
    = rev (map (\<lambda>i. push_bit (29 - 3 * i) (val x ! Suc i) OR drop_bit (3 * i) (val x ! i)) [0..<n])"
  using assms(2) by (induction n) (simp_all add: Let_def)

lemma horner_sum_map: "horner_sum f b (map g xs) = horner_sum (\<lambda>x. f (g x)) b xs"
  by (induction xs) simp_all

lemma horner_sum_cong: "(\<And>x. x \<in> set xs \<Longrightarrow> f x = g x) \<Longrightarrow> horner_sum f b xs = horner_sum g b xs"
  by (induction xs) simp_all

lemma horner_digits:
  fixes v :: int
  assumes "0 < b"
  shows "horner_sum (\<lambda>i. v div b ^ i mod b) b [0..<n] = v mod b ^ n"
proof (induction n arbitrary: v)
  case 0
  then show ?case by simp
next
  case (Suc n)
  have u: "[0..<Suc n] = 0 # map Suc [0..<n]" by (simp add: upt_conv_Cons map_Suc_upt del: upt_Suc)
  have "v div b ^ Suc i = v div b div b ^ i" for i using assms by (simp add: zdiv_zmult2_eq)
  then have "horner_sum (\<lambda>i. v div b ^ i mod b) b [0..<Suc n] = v mod b + b * (v div b mod b ^ n)"
    unfolding u using Suc.IH [of "v div b"] by (simp add: horner_sum_map)
  also have "\<dots> = v mod b ^ Suc n"
    using digit_mod [of "v mod b" b "b ^ n" "v div b"] assms by simp
  finally show ?case .
qed

lemma bn_write_le_correct:
  assumes "normalized x"
  shows "length (bn_write_le x) = 32" "le_val (bn_write_le x) = bn_val x mod 2 ^ 256"
proof -
  let ?ws = "map (\<lambda>i. push_bit (29 - 3 * i) (val x ! Suc i) OR drop_bit (3 * i) (val x ! i)) [0..<8]"
  have eq: "bn_write_le x = concat (map write_le ?ws)"
    unfolding bn_write_le_def using bn_write_loop_eq [OF assms, of 8] by (simp only: order_refl) simp
  have "length (write_le w) = 4" for w by (simp add: write_le_def)
  then show "length (bn_write_le x) = 32" unfolding eq by (simp add: length_concat comp_def sum_list_triv)
  have "le_val (bn_write_le x) = horner_sum (\<lambda>i. bn_val x div 2 ^ (32 * i) mod 2 ^ 32) (2 ^ 32) [0..<8]"
    unfolding eq le_val_concat_write_le horner_sum_map
    by (rule horner_sum_cong) (use bn_write_word [OF assms] in auto)
  also have "\<dots> = bn_val x mod 2 ^ 256"
    using horner_digits [of "2 ^ 32" "bn_val x" 8] by (simp only: power_mult [symmetric]) simp
  finally show "le_val (bn_write_le x) = bn_val x mod 2 ^ 256" .
qed

lemma bn_write_be_eq:
  assumes "normalized x"
  shows "bn_write_be x = rev (bn_write_le x)"
proof -
  have "concat (map write_be ws) = rev (concat (map write_le (rev ws)))" for ws
    by (induction ws) (simp_all add: write_be_rev)
  then show ?thesis by (simp add: bn_write_be_def bn_write_le_def)
qed

section \<open>Round trips\<close>

lemma bn_read_write_le:
  assumes "normalized x" "bn_val x < 2 ^ 256"
  shows "bn_read_le (bn_write_le x) = x"
proof -
  note w = bn_write_le_correct [OF assms(1)]
  note r = bn_read_le_correct [OF w(1)]
  have "bn_val (bn_read_le (bn_write_le x)) = bn_val x"
    using r(2) w(2) assms bn_val_nonneg [OF assms(1)] by simp
  then show ?thesis using bn_val_inj [OF r(1) assms(1)] by simp
qed

lemma bn_write_read_le:
  assumes "length bs = 32"
  shows "bn_write_le (bn_read_le bs) = bs"
proof -
  note r = bn_read_le_correct [OF assms]
  note w = bn_write_le_correct [OF r(1)]
  have "le_val bs < 2 ^ 256" using le_val_bounds(2) [of bs] assms by simp
  then have "le_val (bn_write_le (bn_read_le bs)) = le_val bs"
    using w(2) r(2) le_val_bounds(1) [of bs] by simp
  then show ?thesis using le_val_inj w(1) assms by simp
qed

section \<open>Machine words\<close>

lemma bn_read_uint32_correct: "normalized (bn_read_uint32 n)" "bn_val (bn_read_uint32 n) = uint n"
proof -
  have "uint n div 2 ^ 29 < 2 ^ 29" using uint_lt2p [of n] by (intro int_div_less) simp_all
  then show "normalized (bn_read_uint32 n)" "bn_val (bn_read_uint32 n) = uint n"
    by (simp_all add: bn_read_uint32_def normalized_def bn_val_def uint_drop_bit pos_imp_zdiv_nonneg_iff digits_ok_def)
qed

lemma bn_read_uint64_correct: "normalized (bn_read_uint64 n)" "bn_val (bn_read_uint64 n) = uint n"
proof -
  have d: "uint n div 2 ^ 29 div 2 ^ 29 < 2 ^ 29"
    using uint_lt2p [of n] by (intro int_div_less) simp_all
  then have u: "uint (ucast (drop_bit 29 (drop_bit 29 n)) :: u32) = uint n div 2 ^ 29 div 2 ^ 29"
    by (subst uint_ucast_small) (simp_all only: uint_drop_bit, simp_all)
  have v: "val (bn_read_uint64 n) = [ucast (n AND BN_LIMB_MASK), ucast (drop_bit 29 n AND BN_LIMB_MASK),
      ucast (drop_bit 29 (drop_bit 29 n))] @ replicate 6 0"
    by (simp only: bn_read_uint64_def Let_def bignum256.simps)
  show "normalized (bn_read_uint64 n)"
    using d unfolding normalized_def v list.map map_append u uint_limb
    by (simp add: digits_ok_def pos_imp_zdiv_nonneg_iff)
  have "bn_val (bn_read_uint64 n)
      = uint n mod 2 ^ 29 + 2 ^ 29 * (uint n div 2 ^ 29 mod 2 ^ 29 + 2 ^ 29 * (uint n div 2 ^ 29 div 2 ^ 29))"
    unfolding bn_val_def v list.map map_append u uint_limb rval_append by (simp add: uint_drop_bit)
  then show "bn_val (bn_read_uint64 n) = uint n" by (simp only: mod_mult_div_eq)
qed

lemma bn_val_low:
  assumes "normalized x"
  obtains R where "bn_val x = uint (val x ! 0) + 2 ^ 29 * (uint (val x ! 1) + 2 ^ 29 * (uint (val x ! 2) + 2 ^ 29 * R))"
    "uint (val x ! 0) < 2 ^ 29" "uint (val x ! 1) < 2 ^ 29" "uint (val x ! 2) < 2 ^ 29"
proof -
  have "length (take 3 (val x)) = Suc (Suc (Suc 0))" using assms by simp
  then obtain a b c where "take 3 (val x) = [a, b, c]" unfolding length_Suc_conv by auto
  then have v: "val x = a # b # c # drop 3 (val x)" using append_take_drop_id [of 3 "val x"] by simp
  have "bn_val x = uint a + 2 ^ 29 * (uint b + 2 ^ 29 * (uint c + 2 ^ 29 * rval (map uint (drop 3 (val x)))))"
    unfolding bn_val_def by (subst v) simp
  moreover have "val x ! 0 = a" "val x ! 1 = b" "val x ! 2 = c" by (subst v, simp)+
  moreover have "a \<in> set (val x)" "b \<in> set (val x)" "c \<in> set (val x)" by (subst v, simp)+
  ultimately show ?thesis using that normalized_limb [OF assms] by metis
qed

lemma bn_write_uint32_correct:
  assumes "normalized x"
  shows "uint (bn_write_uint32 x) = bn_val x mod 2 ^ 32"
proof -
  obtain R where x: "bn_val x = uint (val x ! 0) + 2 ^ 29 * (uint (val x ! 1) + 2 ^ 29 * (uint (val x ! 2) + 2 ^ 29 * R))"
    "uint (val x ! 0) < 2 ^ 29" using bn_val_low [OF assms] by metis
  have "bn_val x = (uint (val x ! 0) + uint (val x ! 1) * 2 ^ 29) + 2 ^ 32 * (2 ^ 26 * (uint (val x ! 2) + 2 ^ 29 * R))"
    unfolding x by simp
  then show ?thesis unfolding bn_write_uint32_def uint_or_push_trunc [OF x(2)]
    by (simp only: mod_mult_self2) simp
qed

lemma bn_write_uint64_correct:
  assumes "normalized x"
  shows "uint (bn_write_uint64 x) = bn_val x mod 2 ^ 64"
proof -
  let ?a = "uint (val x ! 0)" and ?b = "uint (val x ! 1)" and ?c = "uint (val x ! 2)"
  obtain R where x: "bn_val x = ?a + 2 ^ 29 * (?b + 2 ^ 29 * (?c + 2 ^ 29 * R))"
    "?a < 2 ^ 29" "?b < 2 ^ 29" "?c < 2 ^ 29" using bn_val_low [OF assms] by metis
  define w where "w = (push_bit 29 (ucast (val x ! 2)) OR ucast (val x ! 1) :: u64)"
  have u: "uint (ucast (a :: u32) :: u64) = uint a" for a
    by (rule uint_ucast_small) (rule less_trans [OF uint_lt2p], simp)
  have w: "uint w = ?b + ?c * 2 ^ 29" unfolding w_def using x by (subst uint_push_or) (simp_all add: u)
  have "uint (push_bit 29 w OR ucast (val x ! 0)) = (?a + (?b + ?c * 2 ^ 29) * 2 ^ 29) mod 2 ^ 64"
    unfolding or.commute [of "push_bit 29 w"] using x(2) by (subst uint_or_push_trunc) (simp_all add: u w)
  moreover have "bn_val x = ?a + (?b + ?c * 2 ^ 29) * 2 ^ 29 + 2 ^ 64 * (2 ^ 23 * R)"
    unfolding x by (simp add: algebra_simps)
  ultimately show ?thesis
    unfolding bn_write_uint64_def Let_def w_def [symmetric] by (simp only: mod_mult_self2)
qed

section \<open>Single bits\<close>

lemma bit_rval:
  assumes "digits_ok ds"
  shows "bit (rval ds) n \<longleftrightarrow> n div 29 < length ds \<and> bit (ds ! (n div 29)) (n mod 29)"
  using assms
proof (induction ds arbitrary: n)
  case Nil
  then show ?case by simp
next
  case (Cons d ds)
  have d: "0 \<le> d" "d < 2 ^ 29" "take_bit 29 d = d" using Cons.prems by (simp_all add: take_bit_int_eq_self)
  have "d AND push_bit 29 (rval ds) = 0"
    using d(3) by (metis (no_types, lifting) bit_and_iff bit_eqI bit_push_bit_iff bit_take_bit_iff bit_0_eq linorder_not_less bot_apply bot_bool_def)
  then have eq: "rval (d # ds) = d OR push_bit 29 (rval ds)"
    by (simp add: push_bit_eq_mult disjunctive_add_eq_or [symmetric])
  have db: "bit d n \<longleftrightarrow> n < 29 \<and> bit d n" for n using d(3) by (metis bit_take_bit_iff)
  show ?case
  proof (cases "n < 29")
    case True
    then show ?thesis unfolding eq by (simp add: bit_or_iff bit_push_bit_iff)
  next
    case False
    then have "n div 29 = Suc ((n - 29) div 29)" "(n - 29) mod 29 = n mod 29"
      by (simp_all add: le_div_geq le_mod_geq)
    then show ?thesis
      using False db Cons unfolding eq by (auto simp: bit_or_iff bit_push_bit_iff)
  qed
qed

lemma bit_bn_val:
  assumes "normalized x" "n < 261"
  shows "bit (bn_val x) n \<longleftrightarrow> bit (val x ! (n div 29)) (n mod 29)"
proof -
  have "n div 29 < 9" using assms(2) by (simp add: less_mult_imp_div_less)
  then show ?thesis
    using assms bit_rval [of "map uint (val x)" n] by (simp add: bn_val_def normalized_def bit_uint_iff less_trans [of _ 29 32])
qed

lemma bn_testbit_correct:
  assumes "normalized x"
  shows "bn_testbit x i = (if unat i < 261 then Some (of_bool (bit (bn_val x) (unat i))) else None)"
  using assms bit_bn_val [OF assms, of "unat i"]
  by (auto simp: bn_testbit_def Let_def and_one_eq mod_2_eq_odd even_drop_bit_iff_not_bit)

lemma limb_iff: "uint (w :: u32) < 2 ^ 29 \<longleftrightarrow> take_bit 29 w = w"
proof
  assume "take_bit 29 w = w"
  then have "uint w = uint w mod 2 ^ 29" using uint_take_bit [of 29 w] by metis
  also have "\<dots> < 2 ^ 29" by (rule pos_mod_bound) simp
  finally show "uint w < 2 ^ 29" .
qed (rule take_bit_uint_self)

lemma normalized_iff: "normalized x \<longleftrightarrow> length (val x) = 9 \<and> (\<forall>w \<in> set (val x). take_bit 29 w = w)"
  unfolding limb_iff [symmetric] normalized_def digits_ok_def by auto

lemma take_bit_limb_ops:
  fixes a :: u32
  shows "take_bit 29 a = a \<Longrightarrow> take_bit 29 (a AND b) = a AND b"
    and "k < 29 \<Longrightarrow> take_bit 29 (push_bit k 1 :: u32) = push_bit k 1"
proof -
  assume a: "take_bit 29 a = a"
  have "j < 29" if "bit a j" for j using that by (subst (asm) a [symmetric]) (simp add: bit_take_bit_iff)
  then show "take_bit 29 (a AND b) = a AND b"
    by (intro bit_word_eqI) (auto simp: bit_take_bit_iff bit_and_iff)
next
  assume "k < 29"
  then show "take_bit 29 (push_bit k 1 :: u32) = push_bit k 1"
    by (intro bit_word_eqI) (auto simp: bit_take_bit_iff bit_push_bit_iff bit_1_iff simp del: push_bit_of_1)
qed

lemma normalized_update:
  assumes "normalized x" "take_bit 29 w = w"
  shows "normalized \<lparr>val = (val x)[i := w]\<rparr>"
  using assms set_update_subset_insert [of "val x" i w] by (auto simp: normalized_iff)

lemma bit_bn_val_high: "normalized x \<Longrightarrow> 261 \<le> m \<Longrightarrow> \<not> bit (bn_val x) m"
  using bn_val_nonneg [of x] bn_val_less [of x] by (metis bit_take_bit_iff leD take_bit_int_eq_self)

lemma bit_update:
  assumes "normalized x" "take_bit 29 w = w" "n < 261"
    and "\<And>j. j < 29 \<Longrightarrow> bit w j \<longleftrightarrow> (if j = n mod 29 then b else bit (val x ! (n div 29)) j)"
  shows "bit (bn_val \<lparr>val = (val x)[n div 29 := w]\<rparr>) m \<longleftrightarrow> (if m = n then b else bit (bn_val x) m)"
proof (cases "m < 261")
  case True
  have q: "n div 29 < 9" "m div 29 < 9" using True assms(3) by (simp_all add: less_mult_imp_div_less)
  have "m = n \<longleftrightarrow> m div 29 = n div 29 \<and> m mod 29 = n mod 29" by (metis div_mult_mod_eq)
  then show ?thesis
    using q assms True normalized_update [OF assms(1,2)] by (auto simp: bit_bn_val nth_list_update)
next
  case False
  then show ?thesis
    using bit_bn_val_high [OF normalized_update [OF assms(1,2)], of m] bit_bn_val_high [OF assms(1), of m] assms(3)
    by simp
qed

lemma take_bit_limb:
  assumes "normalized x" "n < 261"
  shows "take_bit 29 (val x ! (n div 29)) = val x ! (n div 29)"
proof -
  have "n div 29 < 9" using assms(2) by (simp add: less_mult_imp_div_less)
  then show ?thesis using assms(1) by (simp add: normalized_iff)
qed

lemma bn_setbit_correct:
  assumes "normalized x" "unat i < 261"
  shows "\<exists>r. bn_setbit x i = Some r \<and> normalized r \<and> (\<forall>m. bit (bn_val r) m \<longleftrightarrow> m = unat i \<or> bit (bn_val x) m)"
proof -
  let ?n = "unat i" and ?w = "(val x ! (unat i div 29)) OR push_bit (unat i mod 29) 1"
  have w: "take_bit 29 ?w = ?w"
    using take_bit_limb [OF assms] take_bit_limb_ops(2) by (simp add: take_bit_or del: push_bit_of_1)
  have b: "bit (bn_val \<lparr>val = (val x)[?n div 29 := ?w]\<rparr>) m \<longleftrightarrow> m = ?n \<or> bit (bn_val x) m" for m
    by (subst bit_update [OF assms(1) w assms(2), of True]) (auto simp: bit_or_iff bit_push_bit_iff bit_1_iff simp del: push_bit_of_1)
  show ?thesis
    using assms normalized_update [OF assms(1) w] b by (simp add: bn_setbit_def Let_def)
qed

lemma bn_clearbit_correct:
  assumes "normalized x" "unat i < 261"
  shows "\<exists>r. bn_clearbit x i = Some r \<and> normalized r \<and> (\<forall>m. bit (bn_val r) m \<longleftrightarrow> m \<noteq> unat i \<and> bit (bn_val x) m)"
proof -
  let ?n = "unat i" and ?w = "(val x ! (unat i div 29)) AND NOT (push_bit (unat i mod 29) 1)"
  have w: "take_bit 29 ?w = ?w"
    using take_bit_limb [OF assms] by (rule take_bit_limb_ops)
  have b: "bit (bn_val \<lparr>val = (val x)[?n div 29 := ?w]\<rparr>) m \<longleftrightarrow> m \<noteq> ?n \<and> bit (bn_val x) m" for m
    by (subst bit_update [OF assms(1) w assms(2), of False]) (auto simp: bit_and_iff bit_not_iff bit_push_bit_iff bit_1_iff simp del: push_bit_of_1)
  show ?thesis
    using assms normalized_update [OF assms(1) w] b by (simp add: bn_clearbit_def Let_def)
qed

lemma bn_xor_correct:
  assumes "normalized x" "normalized y"
  shows "normalized (bn_xor x y)" "bn_val (bn_xor x y) = bn_val x XOR bn_val y"
proof -
  show n: "normalized (bn_xor x y)"
    using assms by (auto simp: normalized_iff bn_xor_def take_bit_xor in_set_zip dest!: nth_mem)
  show "bn_val (bn_xor x y) = bn_val x XOR bn_val y"
  proof (rule bit_eqI)
    fix m
    show "bit (bn_val (bn_xor x y)) m \<longleftrightarrow> bit (bn_val x XOR bn_val y) m"
    proof (cases "m < 261")
      case True
      then have "m div 29 < 9" by (simp add: less_mult_imp_div_less)
      then show ?thesis
        using True assms n by (simp add: bit_bn_val bit_xor_iff) (simp add: bn_xor_def bit_xor_iff)
    next
      case False
      then show ?thesis using assms n by (simp add: bit_bn_val_high bit_xor_iff)
    qed
  qed
qed

section \<open>Bit length\<close>

lemma clz32_bounds:
  assumes "w \<noteq> 0"
  shows "clz32 w < 32" "2 ^ (31 - clz32 w) \<le> uint w" "uint w < 2 ^ (32 - clz32 w)"
proof -
  let ?bs = "map (\<lambda>i. bit w (31 - i)) [0..<32]"
  let ?c = "clz32 w"
  have "\<exists>b \<in> set ?bs. b"
  proof (rule ccontr)
    assume "\<not> ?thesis"
    then have z: "\<not> bit w (31 - i)" if "i < 32" for i using that by auto
    have "\<not> bit w j" if "j < 32" for j using that z [of "31 - j"] by simp
    then have "w = 0" by (intro bit_word_eqI) simp
    then show False using assms by simp
  qed
  then have "takeWhile (\<lambda>b. \<not> b) ?bs \<noteq> ?bs" unfolding takeWhile_eq_all_conv by simp
  then have "length (takeWhile (\<lambda>b. \<not> b) ?bs) \<noteq> length ?bs"
    using takeWhile_eq_take [of "\<lambda>b. \<not> b" ?bs] by auto
  then have len: "?c < 32"
    using length_takeWhile_le [of "\<lambda>b. \<not> b" ?bs] by (simp add: clz32_def)
  then show "?c < 32" .
  have "\<not> (\<lambda>b. \<not> b) (?bs ! ?c)"
    unfolding clz32_def using len by (intro nth_length_takeWhile) (simp add: clz32_def)
  then have top: "bit w (31 - ?c)" using len by simp
  have low: "\<not> bit w (31 - i)" if "i < ?c" for i
  proof -
    have "takeWhile (\<lambda>b. \<not> b) ?bs ! i = ?bs ! i" using that by (intro takeWhile_nth) (simp add: clz32_def)
    moreover have "takeWhile (\<lambda>b. \<not> b) ?bs ! i \<in> set (takeWhile (\<lambda>b. \<not> b) ?bs)"
      using that by (intro nth_mem) (simp add: clz32_def)
    ultimately show ?thesis using set_takeWhileD [of _ "\<lambda>b. \<not> b" ?bs] that len by auto
  qed
  have "take_bit (32 - ?c) w = w"
  proof (rule bit_word_eqI)
    fix j assume "j < LENGTH(32)"
    moreover have "\<not> bit w j" if "32 - ?c \<le> j" "j < 32"
      using low [of "31 - j"] that len by simp
    ultimately show "bit (take_bit (32 - ?c) w) j \<longleftrightarrow> bit w j"
      by (cases "32 - ?c \<le> j") (simp_all add: bit_take_bit_iff)
  qed
  then have "uint w = uint w mod 2 ^ (32 - ?c)" using uint_take_bit by metis
  then show "uint w < 2 ^ (32 - ?c)" by (metis pos_mod_bound zero_less_numeral zero_less_power)
  have "bit (uint w) (31 - ?c)" using top by (simp add: bit_uint_iff)
  then have "take_bit (31 - ?c) (uint w) \<noteq> uint w" by (metis bit_take_bit_iff less_irrefl)
  then show "2 ^ (31 - ?c) \<le> uint w" by (simp add: take_bit_int_eq_self_iff)
qed

definition bit_length_of :: "int \<Rightarrow> nat \<Rightarrow> bool" where
  "bit_length_of v n \<longleftrightarrow> v = 0 \<and> n = 0 \<or> 0 < n \<and> 2 ^ (n - 1) \<le> v \<and> v < 2 ^ n"

lemma bn_bitcount_loop_correct:
  assumes "n \<le> length limbs" "digits_ok (map uint (take n limbs))"
  shows "bit_length_of (rval (map uint (take n limbs))) (bn_bitcount_loop limbs n)"
  using assms
proof (induction n)
  case 0
  then show ?case by (simp add: bit_length_of_def)
next
  case (Suc n)
  have t: "take (Suc n) limbs = take n limbs @ [limbs ! n]" using Suc.prems by (simp add: take_Suc_conv_app_nth)
  let ?lo = "rval (map uint (take n limbs))" and ?w = "limbs ! n"
  have lo: "0 \<le> ?lo" "?lo < 2 ^ (29 * n)" "digits_ok (map uint (take n limbs))"
    using Suc.prems rval_nonneg rval_less [of "map uint (take n limbs)"] by (simp_all add: t min_def)
  have v: "rval (map uint (take (Suc n) limbs)) = ?lo + 2 ^ (29 * n) * uint ?w"
    using Suc.prems by (simp add: t rval_append min_def)
  show ?case
  proof (cases "?w = 0")
    case True
    then show ?thesis using Suc lo v by (simp add: Let_def)
  next
    case False
    define c where "c = 32 - clz32 ?w"
    note z = clz32_bounds [OF False]
    have c: "0 < c" "2 ^ (c - 1) \<le> uint ?w" "uint ?w < 2 ^ c" using z by (simp_all add: c_def)
    have k: "bn_bitcount_loop limbs (Suc n) = 29 * n + c" using False by (simp add: Let_def c_def)
    have "2 ^ (29 * n) * 2 ^ (c - 1) \<le> 2 ^ (29 * n) * uint ?w" using c(2) by (intro mult_left_mono) simp_all
    moreover have "(2 :: int) ^ (29 * n + c - 1) = 2 ^ (29 * n) * 2 ^ (c - 1)"
      using c(1) by (simp flip: power_add)
    ultimately have 1: "2 ^ (29 * n + c - 1) \<le> ?lo + 2 ^ (29 * n) * uint ?w" using lo by linarith
    have "2 ^ (29 * n) * (uint ?w + 1) \<le> 2 ^ (29 * n) * 2 ^ c" using c(3) by (intro mult_left_mono) simp_all
    then have 2: "?lo + 2 ^ (29 * n) * uint ?w < 2 ^ (29 * n + c)"
      using lo by (simp add: power_add distrib_left)
    show ?thesis unfolding v k bit_length_of_def using 1 2 c(1) by simp
  qed
qed

lemma bn_bitcount_correct:
  assumes "normalized x"
  shows "bit_length_of (bn_val x) (bn_bitcount x)"
  using bn_bitcount_loop_correct [of 9 "val x"] assms
  by (simp add: bn_bitcount_def bn_val_def normalized_def)

section \<open>Properties\<close>

text \<open>
  C6. Byte strings: reading 32 bytes, in either byte order, gives a normalized number with
  the value of the string, and writing it back gives the same bytes; writing a normalized
  number below \<open>2 ^ 256\<close> gives 32 bytes that read back as the number.
\<close>

theorem bn_bytes_roundtrip:
  assumes "length bs = 32" "normalized x" "bn_val x < 2 ^ 256"
  shows "normalized (bn_read_be bs) \<and> bn_val (bn_read_be bs) = horner_sum uint 256 (rev bs)
    \<and> bn_write_be (bn_read_be bs) = bs \<and> bn_write_le (bn_read_le bs) = bs
    \<and> length (bn_write_be x) = 32 \<and> bn_read_be (bn_write_be x) = x \<and> bn_read_le (bn_write_le x) = x"
proof -
  have r: "bn_read_be bs = bn_read_le (rev bs)" using assms(1) by (rule bn_read_be_eq)
  have n: "normalized (bn_read_le (rev bs))" "bn_val (bn_read_le (rev bs)) = le_val (rev bs)"
    using bn_read_le_correct [of "rev bs"] assms(1) by simp_all
  have w: "bn_write_be x = rev (bn_write_le x)" "length (bn_write_le x) = 32"
    using bn_write_be_eq [OF assms(2)] bn_write_le_correct [OF assms(2)] by simp_all
  have "bn_read_be (bn_write_be x) = x"
    using bn_read_be_eq [of "bn_write_be x"] bn_read_write_le [OF assms(2,3)] w by simp
  moreover have "bn_write_be (bn_read_be bs) = bs"
    unfolding r bn_write_be_eq [OF n(1)] using bn_write_read_le [of "rev bs"] assms(1) by simp
  ultimately show ?thesis
    using n w bn_write_read_le [OF assms(1)] bn_read_write_le [OF assms(2,3)] by (simp add: r)
qed

theorem bn_bytes_roundtrip_witness:
  "bn_write_be (bn_read_be (replicate 31 7 @ [255])) = replicate 31 7 @ [255] \<and> bn_read_be (bn_write_be bn_one) = bn_one"
  using bn_bytes_roundtrip [of "replicate 31 7 @ [255]" bn_one] by simp

text \<open>
  Comparison: on normalized numbers the constant-time comparisons decide the order and
  equality of the values, and the bit count is the length of the value in bits.
\<close>

theorem bn_compare_spec:
  assumes "normalized x" "normalized y"
  shows "(bn_is_less x y \<longleftrightarrow> bn_val x < bn_val y) \<and> (bn_is_equal x y \<longleftrightarrow> bn_val x = bn_val y)
    \<and> (bn_is_zero x \<longleftrightarrow> bn_val x = 0) \<and> (bn_is_one x \<longleftrightarrow> bn_val x = 1)
    \<and> (bn_is_even x \<longleftrightarrow> even (bn_val x)) \<and> (bn_is_odd x \<longleftrightarrow> odd (bn_val x))
    \<and> (if bn_val x = 0 then bn_bitcount x = 0
       else 0 < bn_bitcount x \<and> 2 ^ (bn_bitcount x - 1) \<le> bn_val x \<and> bn_val x < 2 ^ bn_bitcount x)"
proof -
  have "bit_length_of (bn_val x) (bn_bitcount x)" using assms(1) by (rule bn_bitcount_correct)
  moreover have "\<not> (0 :: int) < 2 ^ n \<Longrightarrow> False" for n by simp
  ultimately have "if bn_val x = 0 then bn_bitcount x = 0
      else 0 < bn_bitcount x \<and> 2 ^ (bn_bitcount x - 1) \<le> bn_val x \<and> bn_val x < 2 ^ bn_bitcount x"
    unfolding bit_length_of_def by (metis linorder_not_less)
  then show ?thesis
    using assms bn_val_inj [OF assms]
    by (simp add: bn_is_less_iff bn_is_equal_iff bn_is_zero_iff bn_is_one_iff bn_is_even_iff bn_is_odd_iff del: if_split)
qed

theorem bn_compare_spec_witness:
  "bn_is_less bn_zero bn_one \<and> \<not> bn_is_equal bn_zero bn_one \<and> bn_bitcount bn_zero = 0"
  using bn_compare_spec [of bn_zero bn_one] by simp

text \<open>
  Single bits: on a normalized number and an index below 261, \<open>bn_testbit\<close> reads the bit
  of the value, \<open>bn_setbit\<close> and \<open>bn_clearbit\<close> change that bit and no other, and an index out
  of range fails the assertion; \<open>bn_xor\<close> is the bitwise exclusive or of the values.
\<close>

theorem bn_bits_spec:
  assumes "normalized x" "normalized y" "unat i < 261" "261 \<le> unat j"
  shows "bn_testbit x i = Some (of_bool (bit (bn_val x) (unat i)))
    \<and> (\<exists>r. bn_setbit x i = Some r \<and> normalized r
        \<and> (\<forall>m. bit (bn_val r) m \<longleftrightarrow> m = unat i \<or> bit (bn_val x) m))
    \<and> (\<exists>r. bn_clearbit x i = Some r \<and> normalized r
        \<and> (\<forall>m. bit (bn_val r) m \<longleftrightarrow> m \<noteq> unat i \<and> bit (bn_val x) m))
    \<and> bn_testbit x j = None \<and> bn_setbit x j = None \<and> bn_clearbit x j = None
    \<and> bn_val (bn_xor x y) = bn_val x XOR bn_val y"
  using assms bn_testbit_correct [OF assms(1)] bn_setbit_correct [OF assms(1,3)]
    bn_clearbit_correct [OF assms(1,3)] bn_xor_correct [OF assms(1,2)]
  by (simp add: bn_setbit_def bn_clearbit_def Let_def)

theorem bn_bits_spec_witness:
  "bn_testbit bn_one 0 = Some 1 \<and> bn_setbit bn_one 300 = None"
  using bn_bits_spec [of bn_one bn_one 0 300] by simp

end
