(* ===== verification/Byte_Queue.thy ===== *)
theory Byte_Queue
  imports Prelude
begin

text \<open>
  The interface of a bounded queue of packets, as the transport drivers use it: the bytes of a packet become visible to the
  reader when the whole packet is in. The abstract queue is a pair of byte strings, the bytes that the reader may take and the
  bytes that wait for the rest of their packet. The locale \<open>packet_queue\<close> states that an implementation simulates it step by
  step, and shows that it gives the same answers through every sequence of operations.
\<close>

type_synonym queue_view = "u8 list \<times> u8 list"

datatype queue_op = Put_Byte u8 | Set_Lock | Write_Packet "u8 list" | Read_Bytes nat | Flush_All

datatype queue_reply = Accepted bool | Bytes "u8 list" | Done

section \<open>The abstract queue\<close>

text \<open>
  A queue that fills up before the reader may take anything is handed over as it is: with both positions at the same place, the
  mark for a full buffer stands for a buffer full of visible bytes.
\<close>

definition hand_over :: "nat \<Rightarrow> queue_view \<Rightarrow> queue_view" where
  "hand_over cap = (\<lambda>(visible, waiting).
     if visible = [] \<and> length waiting = cap then (waiting, []) else (visible, waiting))"

definition room :: "nat \<Rightarrow> queue_view \<Rightarrow> nat" where
  "room cap = (\<lambda>(visible, waiting). cap - (length visible + length waiting))"

definition put_bytes :: "nat \<Rightarrow> queue_view \<Rightarrow> u8 list \<Rightarrow> queue_view" where
  "put_bytes cap v bs = hand_over cap (fst v, snd v @ take (room cap v) bs)"

fun queue_step :: "nat \<Rightarrow> queue_view \<Rightarrow> queue_op \<Rightarrow> queue_reply \<times> queue_view" where
  "queue_step cap v (Put_Byte b) = (Accepted (0 < room cap v), put_bytes cap v [b])"
| "queue_step cap v Set_Lock = (Done, (fst v @ snd v, []))"
| "queue_step cap v (Write_Packet bs) =
     (if length bs \<le> room cap v then (Accepted True, (fst v @ snd v @ bs, []))
      else (Accepted False, put_bytes cap v bs))"
| "queue_step cap v (Read_Bytes n) = (Bytes (take n (fst v)), (drop n (fst v), snd v))"
| "queue_step cap v Flush_All = (Done, ([], []))"

fun run_ops :: "('s \<Rightarrow> queue_op \<Rightarrow> queue_reply \<times> 's) \<Rightarrow> 's \<Rightarrow> queue_op list \<Rightarrow> queue_reply list" where
  "run_ops step s [] = []"
| "run_ops step s (x # xs) = (case step s x of (r, s') \<Rightarrow> r # run_ops step s' xs)"

section \<open>Implementations\<close>

fun op_step ::
  "('s \<Rightarrow> u8 \<Rightarrow> bool \<times> 's) \<Rightarrow> ('s \<Rightarrow> 's) \<Rightarrow> ('s \<Rightarrow> u8 list \<Rightarrow> bool \<times> 's) \<Rightarrow> ('s \<Rightarrow> nat \<Rightarrow> u8 list \<times> 's) \<Rightarrow> ('s \<Rightarrow> 's)
     \<Rightarrow> 's \<Rightarrow> queue_op \<Rightarrow> queue_reply \<times> 's" where
  "op_step qput qlock qwrite qread qflush s (Put_Byte b) = (case qput s b of (ok, s') \<Rightarrow> (Accepted ok, s'))"
| "op_step qput qlock qwrite qread qflush s Set_Lock = (Done, qlock s)"
| "op_step qput qlock qwrite qread qflush s (Write_Packet bs) = (case qwrite s bs of (ok, s') \<Rightarrow> (Accepted ok, s'))"
| "op_step qput qlock qwrite qread qflush s (Read_Bytes n) = (case qread s n of (bs, s') \<Rightarrow> (Bytes bs, s'))"
| "op_step qput qlock qwrite qread qflush s Flush_All = (Done, qflush s)"

locale packet_queue =
  fixes inv :: "nat \<Rightarrow> 's \<Rightarrow> bool"
    and view :: "'s \<Rightarrow> queue_view"
    and qput :: "'s \<Rightarrow> u8 \<Rightarrow> bool \<times> 's"
    and qlock :: "'s \<Rightarrow> 's"
    and qwrite :: "'s \<Rightarrow> u8 list \<Rightarrow> bool \<times> 's"
    and qread :: "'s \<Rightarrow> nat \<Rightarrow> u8 list \<times> 's"
    and qflush :: "'s \<Rightarrow> 's"
  assumes put_byte: "inv cap s \<Longrightarrow>
      \<exists>s'. qput s b = (0 < room cap (view s), s') \<and> inv cap s' \<and> view s' = put_bytes cap (view s) [b]"
    and set_lock: "inv cap s \<Longrightarrow> inv cap (qlock s) \<and> view (qlock s) = (fst (view s) @ snd (view s), [])"
    and write_fits: "inv cap s \<Longrightarrow> length bs \<le> room cap (view s) \<Longrightarrow>
      \<exists>s'. qwrite s bs = (True, s') \<and> inv cap s' \<and> view s' = (fst (view s) @ snd (view s) @ bs, [])"
    and write_refused: "inv cap s \<Longrightarrow> room cap (view s) < length bs \<Longrightarrow>
      \<exists>s'. qwrite s bs = (False, s') \<and> inv cap s' \<and> view s' = put_bytes cap (view s) bs"
    and read_bytes: "inv cap s \<Longrightarrow>
      \<exists>s'. qread s n = (take n (fst (view s)), s') \<and> inv cap s' \<and> view s' = (drop n (fst (view s)), snd (view s))"
    and flush_all: "inv cap s \<Longrightarrow> inv cap (qflush s) \<and> view (qflush s) = ([], [])"
begin

abbreviation step :: "'s \<Rightarrow> queue_op \<Rightarrow> queue_reply \<times> 's" where
  "step \<equiv> op_step qput qlock qwrite qread qflush"

lemma step_simulates:
  assumes "inv cap s"
  shows "\<exists>s'. step s x = (fst (queue_step cap (view s) x), s') \<and> inv cap s' \<and> view s' = snd (queue_step cap (view s) x)"
proof (cases x)
  case (Put_Byte b)
  then show ?thesis using put_byte [OF assms, of b] by auto
next
  case Set_Lock
  then show ?thesis using set_lock [OF assms] by simp
next
  case (Write_Packet bs)
  then show ?thesis using write_fits [OF assms, of bs] write_refused [OF assms, of bs] by (cases "length bs \<le> room cap (view s)") auto
next
  case (Read_Bytes n)
  then show ?thesis using read_bytes [OF assms, of n] by auto
next
  case Flush_All
  then show ?thesis using flush_all [OF assms] by simp
qed

lemma run_refines: "inv cap s \<Longrightarrow> run_ops step s xs = run_ops (queue_step cap) (view s) xs"
proof (induction xs arbitrary: s)
  case (Cons x xs)
  obtain s' where "step s x = (fst (queue_step cap (view s) x), s')" "inv cap s'" "view s' = snd (queue_step cap (view s) x)"
    using step_simulates [OF Cons.prems, of x] by blast
  with Cons.IH [of s'] show ?case by (simp add: case_prod_unfold)
qed simp

end

end
