(* ===== verification/Trans_Fifo.thy ===== *)
theory Trans_Fifo
  imports Byte_Queue
begin

text \<open>
  \<open>core/embed/trezorhal/trans_fifo.c\<close>: the ring buffer under the SPI, BLE and UART
  transports. A routine that fills a caller's buffer returns the bytes it copied.
  Positions are natural numbers below \<open>2 ^ 32\<close>. The sums that may pass this bound wrap as in the
  source; they do not for buffers up to \<open>2 ^ 31\<close> bytes, which the invariant asks for.
\<close>

record trans_fifo =
  p_buf :: "u8 list"
  buf_size :: nat
  over_pre :: bool
  read_pos :: nat
  write_pos :: nat
  lock_pos :: nat

section \<open>Operations\<close>

definition add32 :: "nat \<Rightarrow> nat \<Rightarrow> nat" where
  "add32 a b = (a + b) mod 2 ^ 32"

definition fifo_init :: "u8 list \<Rightarrow> nat \<Rightarrow> trans_fifo" where
  "fifo_init buf bufsz =
     \<lparr>p_buf = buf, buf_size = bufsz, over_pre = False, read_pos = 0, write_pos = 0, lock_pos = 0\<rparr>"

definition fifo_data_len :: "trans_fifo \<Rightarrow> nat" where
  "fifo_data_len f =
     (if read_pos f > write_pos f then buf_size f - read_pos f + write_pos f
      else write_pos f - read_pos f)"

definition fifo_lockdata_len :: "trans_fifo \<Rightarrow> nat" where
  "fifo_lockdata_len f =
     (if over_pre f \<and> read_pos f = lock_pos f then buf_size f
      else if read_pos f > lock_pos f then buf_size f - read_pos f + lock_pos f
      else lock_pos f - read_pos f)"

definition fifo_lockpos_set :: "trans_fifo \<Rightarrow> trans_fifo" where
  "fifo_lockpos_set f = f\<lparr>lock_pos := write_pos f\<rparr>"

definition fifo_lockpos_set_align :: "trans_fifo \<Rightarrow> nat \<Rightarrow> trans_fifo" where
  "fifo_lockpos_set_align f align =
     (let len = fifo_data_len f;
          len = (if len div align \<noteq> 0 then len - len mod align else len)
      in f\<lparr>lock_pos := add32 (lock_pos f) len mod buf_size f\<rparr>)"

definition fifo_put_overflow :: "trans_fifo \<Rightarrow> u8 \<Rightarrow> trans_fifo" where
  "fifo_put_overflow f onebyte =
     (let f = (if (write_pos f + 1) mod buf_size f = read_pos f then f\<lparr>over_pre := True\<rparr> else f);
          f = f\<lparr>p_buf := (p_buf f)[write_pos f := onebyte]\<rparr>
      in f\<lparr>write_pos := (write_pos f + 1) mod buf_size f\<rparr>)"

definition fifo_put_no_overflow :: "trans_fifo \<Rightarrow> u8 \<Rightarrow> bool \<times> trans_fifo" where
  "fifo_put_no_overflow f onebyte =
     (if over_pre f then (False, f)
      else let f = (if (write_pos f + 1) mod buf_size f = read_pos f then f\<lparr>over_pre := True\<rparr> else f);
               f = f\<lparr>p_buf := (p_buf f)[write_pos f := onebyte]\<rparr>
           in (True, f\<lparr>write_pos := (write_pos f + 1) mod buf_size f\<rparr>))"

text \<open>The copy of \<open>len\<close> bytes from the read position, in two pieces when it passes the end.\<close>

definition fifo_copy :: "trans_fifo \<Rightarrow> nat \<Rightarrow> u8 list" where
  "fifo_copy f len =
     (if add32 (read_pos f) len > buf_size f
      then let len1 = buf_size f - read_pos f
           in take len1 (drop (read_pos f) (p_buf f)) @ take (len - len1) (p_buf f)
      else take len (drop (read_pos f) (p_buf f)))"

definition fifo_read_lock :: "trans_fifo \<Rightarrow> nat \<Rightarrow> u8 list \<times> trans_fifo" where
  "fifo_read_lock f request_len =
     (let avaliable_len = fifo_lockdata_len f in
      if request_len = 0 then ([], f)
      else let f = (if over_pre f then f\<lparr>over_pre := False\<rparr> else f);
               len = min request_len avaliable_len;
               buf = fifo_copy f len
           in (buf, f\<lparr>read_pos := add32 (read_pos f) len mod buf_size f\<rparr>))"

definition fifo_read_peek :: "trans_fifo \<Rightarrow> nat \<Rightarrow> u8 list \<times> trans_fifo" where
  "fifo_read_peek f request_len =
     (let avaliable_len = fifo_lockdata_len f in
      if request_len = 0 then ([], f)
      else let f = (if over_pre f then f\<lparr>over_pre := False\<rparr> else f);
               len = min request_len avaliable_len
           in (fifo_copy f len, f))"

definition fifo_flush :: "trans_fifo \<Rightarrow> trans_fifo" where
  "fifo_flush f = f\<lparr>write_pos := 0, lock_pos := 0, read_pos := 0, over_pre := False\<rparr>"

fun fifo_put_loop :: "trans_fifo \<Rightarrow> u8 list \<Rightarrow> bool \<times> trans_fifo" where
  "fifo_put_loop f [] = (True, f)"
| "fifo_put_loop f (b # bs) =
     (case fifo_put_no_overflow f b of (ok, f) \<Rightarrow> if ok then fifo_put_loop f bs else (False, f))"

definition fifo_write_no_overflow :: "trans_fifo \<Rightarrow> u8 list \<Rightarrow> bool \<times> trans_fifo" where
  "fifo_write_no_overflow f buf =
     (case fifo_put_loop f buf of (ok, f) \<Rightarrow> if ok then (True, fifo_lockpos_set f) else (False, f))"

section \<open>The queue a ring buffer stands for\<close>

text \<open>\<open>over_pre\<close> tells a full buffer from an empty one; in both, the positions agree.\<close>

definition fifo_count :: "trans_fifo \<Rightarrow> nat" where
  "fifo_count f = (if over_pre f then buf_size f else fifo_data_len f)"

definition fifo_contents :: "trans_fifo \<Rightarrow> u8 list" where
  "fifo_contents f = map (\<lambda>i. p_buf f ! ((read_pos f + i) mod buf_size f)) [0..<fifo_count f]"

definition fifo_inv :: "trans_fifo \<Rightarrow> bool" where
  "fifo_inv f \<longleftrightarrow> length (p_buf f) = buf_size f \<and> buf_size f \<le> 2 ^ 31 \<and> read_pos f < buf_size f
     \<and> write_pos f < buf_size f \<and> lock_pos f < buf_size f \<and> (over_pre f \<longrightarrow> write_pos f = read_pos f)"

definition fifo_locked :: "trans_fifo \<Rightarrow> bool" where
  "fifo_locked f \<longleftrightarrow> lock_pos f = write_pos f"

lemma fifo_inv_pos: "fifo_inv f \<Longrightarrow> 0 < buf_size f"
  by (auto simp: fifo_inv_def)

lemma fifo_add32: "fifo_inv f \<Longrightarrow> len \<le> buf_size f \<Longrightarrow> add32 (read_pos f) len = read_pos f + len"
  by (simp add: fifo_inv_def add32_def)

lemma length_fifo_contents [simp]: "length (fifo_contents f) = fifo_count f"
  by (simp add: fifo_contents_def)

lemma fifo_count_le: "fifo_inv f \<Longrightarrow> fifo_count f \<le> buf_size f"
  by (auto simp: fifo_inv_def fifo_count_def fifo_data_len_def)

lemma fifo_count_full: "fifo_inv f \<Longrightarrow> fifo_count f = buf_size f \<longleftrightarrow> over_pre f"
  by (auto simp: fifo_inv_def fifo_count_def fifo_data_len_def)

lemma fifo_write_pos:
  assumes "fifo_inv f"
  shows "write_pos f = (read_pos f + fifo_count f) mod buf_size f"
  using assms by (auto simp: fifo_inv_def fifo_count_def fifo_data_len_def mod_if)

lemma fifo_lockdata_len_locked:
  "fifo_inv f \<Longrightarrow> fifo_locked f \<Longrightarrow> fifo_lockdata_len f = fifo_count f"
  by (auto simp: fifo_inv_def fifo_locked_def fifo_lockdata_len_def fifo_count_def fifo_data_len_def)

text \<open>A ring of size \<open>n\<close> with \<open>c\<close> bytes from \<open>r\<close>, as the record fields determine it.\<close>

lemma fifo_contents_eqI:
  assumes "fifo_count f = length q" "\<And>i. i < length q \<Longrightarrow> p_buf f ! ((read_pos f + i) mod buf_size f) = q ! i"
  shows "fifo_contents f = q"
  using assms by (intro nth_equalityI) (simp_all add: fifo_contents_def)

lemma fifo_contents_nth:
  "i < fifo_count f \<Longrightarrow> fifo_contents f ! i = p_buf f ! ((read_pos f + i) mod buf_size f)"
  by (simp add: fifo_contents_def)

lemma mod_ring_inj:
  fixes r i j n :: nat
  assumes "(r + i) mod n = (r + j) mod n" "i \<le> j" "j < n"
  shows "i = j"
proof -
  have "(r + j - (r + i)) mod n = 0" using assms(1,2) by (metis add_le_cancel_left mod_eq_dvd_iff_nat dvd_imp_mod_0)
  then show ?thesis using assms(2,3) by simp
qed

lemma fifo_put_correct:
  fixes b :: u8
  assumes "fifo_inv f" "\<not> over_pre f"
  defines "f' \<equiv> fifo_put_overflow f b"
  shows "fifo_put_no_overflow f b = (True, f')" "fifo_inv f'" "fifo_contents f' = fifo_contents f @ [b]"
    and "buf_size f' = buf_size f" "lock_pos f' = lock_pos f" "read_pos f' = read_pos f"
proof -
  let ?n = "buf_size f" and ?r = "read_pos f" and ?w = "write_pos f" and ?c = "fifo_count f"
  show "fifo_put_no_overflow f b = (True, f')" "buf_size f' = ?n" "lock_pos f' = lock_pos f" "read_pos f' = ?r"
    using assms(2) by (simp_all add: f'_def fifo_put_no_overflow_def fifo_put_overflow_def Let_def)
  have i: "length (p_buf f) = ?n" "?r < ?n" "?w < ?n" "lock_pos f < ?n" "?n \<le> 2 ^ 31"
    using assms(1) by (simp_all add: fifo_inv_def)
  have c: "?c < ?n" using fifo_count_le [OF assms(1)] fifo_count_full [OF assms(1)] assms(2) by linarith
  have w: "?w = (?r + ?c) mod ?n" using assms(1) by (rule fifo_write_pos)
  have f': "over_pre f' \<longleftrightarrow> (?w + 1) mod ?n = ?r" "p_buf f' = (p_buf f)[?w := b]"
    "write_pos f' = (?w + 1) mod ?n" "buf_size f' = ?n" "lock_pos f' = lock_pos f" "read_pos f' = ?r"
    using assms(2) by (simp_all add: f'_def fifo_put_overflow_def Let_def)
  show inv: "fifo_inv f'" using i f' by (auto simp: fifo_inv_def)
  have "(?w + 1) mod ?n = (?r + (?c + 1)) mod ?n" unfolding w by (simp add: mod_Suc_eq)
  moreover have "(?r + (?c + 1)) mod ?n = ?r \<longleftrightarrow> ?c + 1 = ?n"
    using mod_ring_inj [of ?r 0 ?n "?c + 1"] c i(2) by (cases "?c + 1 = ?n") auto
  ultimately have ov: "over_pre f' \<longleftrightarrow> ?c + 1 = ?n" using f' by simp
  have "fifo_count f' = ?c + 1"
  proof (cases "over_pre f'")
    case True
    then show ?thesis using ov f' by (simp add: fifo_count_def)
  next
    case False
    then have "fifo_count f' < ?n" using fifo_count_le [OF inv] fifo_count_full [OF inv] f'(4) by linarith
    moreover have "(?r + fifo_count f') mod ?n = (?r + (?c + 1)) mod ?n"
      using fifo_write_pos [OF inv] f' \<open>(?w + 1) mod ?n = (?r + (?c + 1)) mod ?n\<close> by simp
    moreover have "?c + 1 < ?n" using c False ov by linarith
    ultimately show ?thesis using mod_ring_inj by (metis nat_le_linear)
  qed
  then show "fifo_contents f' = fifo_contents f @ [b]"
  proof (intro fifo_contents_eqI)
    fix j assume j: "j < length (fifo_contents f @ [b])"
    show "p_buf f' ! ((read_pos f' + j) mod buf_size f') = (fifo_contents f @ [b]) ! j"
    proof (cases "j = ?c")
      case True
      then show ?thesis using f' w i by (simp add: nth_append)
    next
      case False
      then have "j < ?c" using j by simp
      then have "(?r + j) mod ?n \<noteq> ?w" using mod_ring_inj [of ?r j ?n ?c] c w by auto
      then show ?thesis using f' \<open>j < ?c\<close> by (simp add: nth_append fifo_contents_nth)
    qed
  qed simp
qed

lemma fifo_put_full:
  "over_pre f \<Longrightarrow> fifo_put_no_overflow f b = (False, f)"
  by (simp add: fifo_put_no_overflow_def)

lemma fifo_put_loop_correct:
  assumes "fifo_inv f"
  shows "\<exists>f'. fifo_put_loop f bs = (length bs \<le> buf_size f - fifo_count f, f') \<and> fifo_inv f'
    \<and> fifo_contents f' = fifo_contents f @ take (buf_size f - fifo_count f) bs
    \<and> buf_size f' = buf_size f \<and> lock_pos f' = lock_pos f \<and> read_pos f' = read_pos f"
  using assms
proof (induction bs arbitrary: f)
  case (Cons b bs)
  show ?case
  proof (cases "over_pre f")
    case True
    then show ?thesis using Cons.prems fifo_count_full [OF Cons.prems] by (simp add: fifo_put_full)
  next
    case False
    define g where "g = fifo_put_overflow f b"
    note g = fifo_put_correct [OF Cons.prems False, of b, folded g_def]
    have "fifo_count f < buf_size f"
      using fifo_count_le [OF Cons.prems] fifo_count_full [OF Cons.prems] False by linarith
    moreover have "fifo_count g = Suc (fifo_count f)" using arg_cong [OF g(3), of length] by simp
    ultimately have n: "buf_size f - fifo_count f = Suc (buf_size g - fifo_count g)" using g(4) by simp
    obtain f' where f': "fifo_put_loop g bs = (length bs \<le> buf_size g - fifo_count g, f')" "fifo_inv f'"
      "fifo_contents f' = fifo_contents g @ take (buf_size g - fifo_count g) bs"
      "buf_size f' = buf_size g" "lock_pos f' = lock_pos g" "read_pos f' = read_pos g"
      using Cons.IH [OF g(2)] by auto
    then show ?thesis unfolding n using g by simp
  qed
qed simp

lemma fifo_locked_set: "fifo_inv f \<Longrightarrow> fifo_inv (fifo_lockpos_set f) \<and> fifo_locked (fifo_lockpos_set f)
    \<and> fifo_contents (fifo_lockpos_set f) = fifo_contents f"
  by (simp add: fifo_inv_def fifo_locked_def fifo_lockpos_set_def fifo_contents_def fifo_count_def fifo_data_len_def)

lemma fifo_write_correct:
  assumes "fifo_inv f" "fifo_count f + length bs \<le> buf_size f"
  shows "\<exists>f'. fifo_write_no_overflow f bs = (True, f') \<and> fifo_inv f' \<and> fifo_locked f'
    \<and> fifo_contents f' = fifo_contents f @ bs \<and> buf_size f' = buf_size f"
proof -
  obtain f' where f': "fifo_put_loop f bs = (length bs \<le> buf_size f - fifo_count f, f')" "fifo_inv f'"
    "fifo_contents f' = fifo_contents f @ take (buf_size f - fifo_count f) bs" "buf_size f' = buf_size f"
    using fifo_put_loop_correct [OF assms(1), of bs] by auto
  then show ?thesis
    using fifo_locked_set [OF f'(2)] assms(2) by (simp add: fifo_write_no_overflow_def) (simp add: fifo_lockpos_set_def)
qed

lemma fifo_write_overflow:
  assumes "fifo_inv f" "buf_size f < fifo_count f + length bs"
  shows "\<exists>f'. fifo_write_no_overflow f bs = (False, f') \<and> fifo_inv f' \<and> over_pre f'
    \<and> fifo_contents f' = fifo_contents f @ take (buf_size f - fifo_count f) bs \<and> lock_pos f' = lock_pos f
    \<and> read_pos f' = read_pos f \<and> buf_size f' = buf_size f"
proof -
  obtain f' where f': "fifo_put_loop f bs = (length bs \<le> buf_size f - fifo_count f, f')" "fifo_inv f'"
    "fifo_contents f' = fifo_contents f @ take (buf_size f - fifo_count f) bs" "buf_size f' = buf_size f"
    "lock_pos f' = lock_pos f" "read_pos f' = read_pos f"
    using fifo_put_loop_correct [OF assms(1), of bs] by auto
  have "fifo_count f' = buf_size f'"
    using arg_cong [OF f'(3), of length] f'(4) assms fifo_count_le [OF assms(1)] by simp
  then show ?thesis
    using f' fifo_count_full [OF f'(2)] fifo_count_le [OF assms(1)] assms(2)
    by (auto simp: fifo_write_no_overflow_def)
qed

lemma fifo_copy_correct:
  assumes "fifo_inv f" "len \<le> buf_size f"
  shows "fifo_copy f len = map (\<lambda>i. p_buf f ! ((read_pos f + i) mod buf_size f)) [0..<len]"
proof (rule nth_equalityI)
  note eq = fifo_copy_def [of f len, unfolded fifo_add32 [OF assms]]
  have i: "length (p_buf f) = buf_size f" "read_pos f < buf_size f" using assms(1) by (simp_all add: fifo_inv_def)
  then show "length (fifo_copy f len) = length (map (\<lambda>i. p_buf f ! ((read_pos f + i) mod buf_size f)) [0..<len])"
    using assms(2) by (auto simp: eq Let_def)
  fix j assume "j < length (fifo_copy f len)"
  then have j: "j < len" using i assms(2) by (auto simp: eq Let_def split: if_splits)
  have "(read_pos f + j) mod buf_size f = (if read_pos f + j < buf_size f then read_pos f + j else read_pos f + j - buf_size f)"
    using i j assms(2) by (simp add: mod_if)
  then show "fifo_copy f len ! j = map (\<lambda>i. p_buf f ! ((read_pos f + i) mod buf_size f)) [0..<len] ! j"
    using i j assms(2) by (auto simp: eq Let_def nth_append add.commute)
qed

lemma fifo_advance:
  assumes inv: "fifo_inv f" and len: "len \<le> fifo_count f" "over_pre f \<longrightarrow> 0 < len"
  defines "f' \<equiv> f\<lparr>over_pre := False, read_pos := (read_pos f + len) mod buf_size f\<rparr>"
  shows "fifo_inv f'" "fifo_contents f' = drop len (fifo_contents f)"
proof -
  let ?s = "buf_size f" and ?r = "read_pos f" and ?c = "fifo_count f"
  have c: "?c \<le> ?s" using fifo_count_le [OF inv] .
  have i: "length (p_buf f) = ?s" "?r < ?s" "write_pos f < ?s" "lock_pos f < ?s" "?s \<le> 2 ^ 31"
    using inv by (simp_all add: fifo_inv_def)
  show inv': "fifo_inv f'" using i by (simp add: fifo_inv_def f'_def)
  have less: "?c - len < ?s" using c i len fifo_count_full [OF inv] by (cases "over_pre f") auto
  have w: "write_pos f = (?r + ?c) mod ?s" using inv by (rule fifo_write_pos)
  have "fifo_count f' = ?c - len"
  proof -
    have "fifo_count f' < ?s"
      using fifo_count_le [OF inv'] fifo_count_full [OF inv'] by (simp add: f'_def le_less)
    moreover have "((?r + len) mod ?s + fifo_count f') mod ?s = ((?r + len) mod ?s + (?c - len)) mod ?s"
    proof -
      have "((?r + len) mod ?s + fifo_count f') mod ?s = write_pos f" using fifo_write_pos [OF inv'] by (simp add: f'_def)
      also have "\<dots> = (?r + len + (?c - len)) mod ?s" using w len(1) by simp
      finally show ?thesis by (simp only: mod_add_left_eq)
    qed
    ultimately show ?thesis using mod_ring_inj less by (metis nat_le_linear)
  qed
  moreover have "((?r + len) mod ?s + j) mod ?s = (?r + (len + j)) mod ?s" for j
    by (simp add: mod_add_left_eq add.assoc)
  ultimately show "fifo_contents f' = drop len (fifo_contents f)"
    by (intro fifo_contents_eqI) (auto simp: f'_def fifo_contents_nth)
qed

section \<open>The ring buffer as a queue of packets\<close>

text \<open>The reader may take the bytes before the lock position.\<close>

definition fifo_view :: "trans_fifo \<Rightarrow> queue_view" where
  "fifo_view f = (take (fifo_lockdata_len f) (fifo_contents f), drop (fifo_lockdata_len f) (fifo_contents f))"

definition fifo_ok :: "nat \<Rightarrow> trans_fifo \<Rightarrow> bool" where
  "fifo_ok cap f \<longleftrightarrow> fifo_inv f \<and> fifo_lockdata_len f \<le> fifo_count f \<and> buf_size f = cap"

lemma fifo_view_append: "fst (fifo_view f) @ snd (fifo_view f) = fifo_contents f"
  by (simp add: fifo_view_def)

lemma fifo_view_lengths: "fifo_ok cap f \<Longrightarrow> length (fst (fifo_view f)) = fifo_lockdata_len f"
  "room cap (fifo_view f) = cap - fifo_count f"
  by (simp_all add: fifo_view_def fifo_ok_def room_def)

lemma lockdata_zero: "fifo_inv f \<Longrightarrow> fifo_lockdata_len f = 0 \<longleftrightarrow> read_pos f = lock_pos f \<and> \<not> over_pre f"
  by (auto simp: fifo_lockdata_len_def fifo_inv_def)

lemma fifo_lock_pos: "fifo_inv f \<Longrightarrow> lock_pos f = (read_pos f + fifo_lockdata_len f) mod buf_size f"
  by (auto simp: fifo_inv_def fifo_lockdata_len_def mod_if)

lemma lockdata_len_advance:
  assumes inv: "fifo_inv f" and inv': "fifo_inv f'" and len: "len \<le> fifo_lockdata_len f" "fifo_lockdata_len f - len < buf_size f"
    and f': "\<not> over_pre f'" "read_pos f' = (read_pos f + len) mod buf_size f" "lock_pos f' = lock_pos f" "buf_size f' = buf_size f"
  shows "fifo_lockdata_len f' = fifo_lockdata_len f - len"
proof -
  have "fifo_lockdata_len f' < buf_size f" using inv' f' by (auto simp: fifo_inv_def fifo_lockdata_len_def)
  moreover have "(read_pos f' + fifo_lockdata_len f') mod buf_size f = (read_pos f' + (fifo_lockdata_len f - len)) mod buf_size f"
  proof -
    have "(read_pos f' + fifo_lockdata_len f') mod buf_size f = (read_pos f + len + (fifo_lockdata_len f - len)) mod buf_size f"
      using fifo_lock_pos [OF inv'] fifo_lock_pos [OF inv] f'(3,4) len(1) by simp
    then show ?thesis unfolding f'(2) by (simp only: mod_add_left_eq)
  qed
  ultimately show ?thesis using mod_ring_inj len(2) by (metis nat_le_linear)
qed

lemma locked_view:
  assumes "fifo_inv f" "fifo_locked f" "buf_size f = cap"
  shows "fifo_ok cap f" "fifo_view f = (fifo_contents f, [])"
  using assms fifo_lockdata_len_locked [OF assms(1,2)] by (simp_all add: fifo_ok_def fifo_view_def)

text \<open>New bytes behind the lock position.\<close>

lemma appended_view:
  assumes ok: "fifo_ok cap f" and inv: "fifo_inv f'" and c: "fifo_contents f' = fifo_contents f @ bs"
    and same: "lock_pos f' = lock_pos f" "read_pos f' = read_pos f" "buf_size f' = buf_size f"
  shows "fifo_ok cap f'" "fifo_view f' = hand_over cap (fst (fifo_view f), snd (fifo_view f) @ bs)"
proof -
  have inv0: "fifo_inv f" and le: "fifo_lockdata_len f \<le> fifo_count f" and cap: "buf_size f = cap" using ok by (simp_all add: fifo_ok_def)
  have n: "fifo_count f' = fifo_count f + length bs" using arg_cong [OF c, of length] by simp
  note full = fifo_count_full [OF inv0] fifo_count_full [OF inv]
  have pos: "0 < cap" using fifo_inv_pos [OF inv0] cap by simp
  have "fifo_ok cap f' \<and> fifo_view f' = hand_over cap (fst (fifo_view f), snd (fifo_view f) @ bs)"
  proof (cases "over_pre f' \<and> read_pos f = lock_pos f \<and> \<not> over_pre f")
    case True
    then have l: "fifo_lockdata_len f = 0" "fifo_lockdata_len f' = fifo_count f'"
      using lockdata_zero [OF inv0] same cap full(2) by (simp_all add: fifo_lockdata_len_def)
    moreover have "length (fifo_contents f') = cap" using True full(2) same(3) cap by simp
    ultimately show ?thesis using inv same(3) cap c n by (simp add: fifo_ok_def fifo_view_def hand_over_def)
  next
    case False
    have l: "fifo_lockdata_len f' = fifo_lockdata_len f"
    proof (cases "over_pre f")
      case True
      then have "over_pre f'" using n full fifo_count_le [OF inv] same(3) by simp
      then show ?thesis using True same by (simp add: fifo_lockdata_len_def)
    next
      case no: False
      then show ?thesis using False same by (auto simp: fifo_lockdata_len_def)
    qed
    have "\<not> (fifo_lockdata_len f = 0 \<and> fifo_count f' = cap)"
      using False lockdata_zero [OF inv0] full(2) same(3) cap by auto
    then have "\<not> (fst (fifo_view f) = [] \<and> length (snd (fifo_view f) @ bs) = cap)"
    proof (rule contrapos_nn)
      assume h: "fst (fifo_view f) = [] \<and> length (snd (fifo_view f) @ bs) = cap"
      then have "fifo_lockdata_len f = 0" using fifo_view_lengths(1) [OF ok] by simp
      then show "fifo_lockdata_len f = 0 \<and> fifo_count f' = cap" using h n by (simp add: fifo_view_def)
    qed
    then have "hand_over cap (fst (fifo_view f), snd (fifo_view f) @ bs) = (fst (fifo_view f), snd (fifo_view f) @ bs)"
      by (auto simp: hand_over_def)
    moreover have "fifo_view f' = (fst (fifo_view f), snd (fifo_view f) @ bs)"
      using le unfolding fifo_view_def l c by simp
    moreover have "fifo_ok cap f'" using inv same(3) cap n le l by (simp add: fifo_ok_def)
    ultimately show ?thesis by simp
  qed
  then show "fifo_ok cap f'" "fifo_view f' = hand_over cap (fst (fifo_view f), snd (fifo_view f) @ bs)" by blast+
qed

lemma fifo_put_view:
  assumes ok: "fifo_ok cap f"
  shows "\<exists>f'. fifo_put_no_overflow f b = (0 < room cap (fifo_view f), f') \<and> fifo_ok cap f' \<and> fifo_view f' = put_bytes cap (fifo_view f) [b]"
proof -
  have inv: "fifo_inv f" and cap: "buf_size f = cap" using ok by (simp_all add: fifo_ok_def)
  have r: "0 < room cap (fifo_view f) \<longleftrightarrow> \<not> over_pre f"
    using fifo_count_full [OF inv] fifo_count_le [OF inv] cap by (auto simp: fifo_view_lengths(2))
  show ?thesis
  proof (cases "over_pre f")
    case True
    then have "put_bytes cap (fifo_view f) [b] = fifo_view f" using r appended_view(2) [OF ok inv, of "[]"] by (simp add: put_bytes_def)
    then show ?thesis using True r ok by (simp add: fifo_put_full)
  next
    case False
    note p = fifo_put_correct [OF inv False, of b]
    have "take (room cap (fifo_view f)) [b] = [b]" using r False by (cases "room cap (fifo_view f)") simp_all
    then show ?thesis using p(1) r False appended_view [OF ok p(2,3) p(5,6,4)] by (simp add: put_bytes_def)
  qed
qed

lemma fifo_read_view:
  assumes ok: "fifo_ok cap f"
  shows "\<exists>f'. fifo_read_lock f n = (take n (fst (fifo_view f)), f') \<and> fifo_ok cap f' \<and> fifo_view f' = (drop n (fst (fifo_view f)), snd (fifo_view f))"
proof (cases "n = 0")
  case True
  then show ?thesis using ok by (simp add: fifo_read_lock_def fifo_view_def)
next
  case False
  have inv: "fifo_inv f" and le: "fifo_lockdata_len f \<le> fifo_count f" and cap: "buf_size f = cap" using ok by (simp_all add: fifo_ok_def)
  define len where "len = min n (fifo_lockdata_len f)"
  define f' where "f' = f\<lparr>over_pre := False, read_pos := (read_pos f + len) mod buf_size f\<rparr>"
  have len: "len \<le> fifo_count f" "over_pre f \<longrightarrow> 0 < len" "len \<le> buf_size f"
    using le lockdata_zero [OF inv] False fifo_count_le [OF inv] by (auto simp: len_def)
  note adv = fifo_advance [OF inv len(1,2), folded f'_def]
  have "fifo_copy f len = take len (fifo_contents f)"
    unfolding fifo_copy_correct [OF inv len(3)] fifo_contents_def using len(1) by (simp add: take_map)
  moreover have "fifo_copy (f\<lparr>over_pre := False\<rparr>) len = fifo_copy f len" by (simp add: fifo_copy_def)
  ultimately have read: "fifo_read_lock f n = (take len (fifo_contents f), f')"
    using False fifo_add32 [OF inv len(3)] by (auto simp: fifo_read_lock_def Let_def f'_def len_def)
  have "fifo_lockdata_len f - len < buf_size f"
    using len le fifo_count_le [OF inv] fifo_count_full [OF inv] fifo_inv_pos [OF inv] by (cases "over_pre f") auto
  then have l: "fifo_lockdata_len f' = fifo_lockdata_len f - len"
    by (intro lockdata_len_advance [OF inv adv(1)]) (simp_all add: f'_def len_def)
  have "fifo_count f' = fifo_count f - len" using arg_cong [OF adv(2), of length] by simp
  then have "fifo_ok cap f'" using adv(1) le cap l by (simp add: fifo_ok_def) (simp add: f'_def)
  moreover have "take len (fifo_contents f) = take n (fst (fifo_view f))" by (simp add: fifo_view_def len_def min_def)
  moreover have "fifo_view f' = (drop n (fst (fifo_view f)), snd (fifo_view f))"
    using le unfolding fifo_view_def adv(2) l by (auto simp: len_def min_def drop_take)
  ultimately show ?thesis using read by auto
qed

lemma fifo_write_view:
  assumes ok: "fifo_ok cap f"
  shows "length bs \<le> room cap (fifo_view f) \<Longrightarrow>
      \<exists>f'. fifo_write_no_overflow f bs = (True, f') \<and> fifo_ok cap f' \<and> fifo_view f' = (fst (fifo_view f) @ snd (fifo_view f) @ bs, [])"
    "room cap (fifo_view f) < length bs \<Longrightarrow>
      \<exists>f'. fifo_write_no_overflow f bs = (False, f') \<and> fifo_ok cap f' \<and> fifo_view f' = put_bytes cap (fifo_view f) bs"
proof -
  have inv: "fifo_inv f" and cap: "buf_size f = cap" using ok by (simp_all add: fifo_ok_def)
  note r = fifo_view_lengths(2) [of cap f] and le = fifo_count_le [OF inv]
  { assume "length bs \<le> room cap (fifo_view f)"
    then have "fifo_count f + length bs \<le> buf_size f" using r le cap by simp
    then obtain f' where "fifo_write_no_overflow f bs = (True, f')" "fifo_inv f'" "fifo_locked f'" "fifo_contents f' = fifo_contents f @ bs" "buf_size f' = buf_size f"
      using fifo_write_correct [OF inv, of bs] by blast
    then show "\<exists>f'. fifo_write_no_overflow f bs = (True, f') \<and> fifo_ok cap f' \<and> fifo_view f' = (fst (fifo_view f) @ snd (fifo_view f) @ bs, [])"
      using locked_view [of f' cap] cap fifo_view_append [of f] by (metis append_assoc) }
  { assume "room cap (fifo_view f) < length bs"
    then have "buf_size f < fifo_count f + length bs" using r le cap by simp
    then obtain f' where w: "fifo_write_no_overflow f bs = (False, f')" "fifo_inv f'"
      "fifo_contents f' = fifo_contents f @ take (buf_size f - fifo_count f) bs" "lock_pos f' = lock_pos f" "read_pos f' = read_pos f" "buf_size f' = buf_size f"
      using fifo_write_overflow [OF inv, of bs] by blast
    then show "\<exists>f'. fifo_write_no_overflow f bs = (False, f') \<and> fifo_ok cap f' \<and> fifo_view f' = put_bytes cap (fifo_view f) bs"
      using appended_view [OF ok w(2-6)] r cap by (auto simp: put_bytes_def) }
qed

interpretation fifo: packet_queue fifo_ok fifo_view fifo_put_no_overflow fifo_lockpos_set fifo_write_no_overflow fifo_read_lock fifo_flush
proof
  fix cap and f :: trans_fifo
  assume ok: "fifo_ok cap f"
  have inv: "fifo_inv f" and cap: "buf_size f = cap" using ok by (simp_all add: fifo_ok_def)
  show "fifo_ok cap (fifo_lockpos_set f) \<and> fifo_view (fifo_lockpos_set f) = (fst (fifo_view f) @ snd (fifo_view f), [])"
    using fifo_locked_set [OF inv] locked_view [of "fifo_lockpos_set f" cap] cap fifo_view_append [of f] by (simp add: fifo_lockpos_set_def)
  have "fifo_inv (fifo_flush f)" "fifo_locked (fifo_flush f)" "buf_size (fifo_flush f) = cap" "fifo_contents (fifo_flush f) = []"
    using inv cap by (auto simp: fifo_inv_def fifo_locked_def fifo_flush_def fifo_contents_def fifo_count_def fifo_data_len_def)
  then show "fifo_ok cap (fifo_flush f) \<and> fifo_view (fifo_flush f) = ([], [])" using locked_view [of "fifo_flush f" cap] by simp
qed (rule fifo_put_view fifo_write_view fifo_read_view; assumption)+

lemma fifo_init_ok:
  assumes "length buf = n" "0 < n" "n \<le> 2 ^ 31"
  shows "fifo_inv (fifo_init buf n)" "fifo_locked (fifo_init buf n)" "fifo_contents (fifo_init buf n) = []"
  using assms by (simp_all add: fifo_inv_def fifo_locked_def fifo_init_def fifo_contents_def fifo_count_def fifo_data_len_def)

section \<open>Properties\<close>

text \<open>
  C7. The ring buffer refines a bounded queue of packets: from \<open>fifo_init\<close> on, every sequence of single bytes, locks, packets,
  reads and flushes gives the answers of the abstract queue, in particular the bytes of the accepted packets in their order,
  however the positions wrap around. A packet is refused exactly when it does not fit; what fits of it stays in the queue.
\<close>

theorem fifo_refines_queue:
  assumes "length buf = n" "0 < n" "n \<le> 2 ^ 31"
  shows "run_ops (op_step fifo_put_no_overflow fifo_lockpos_set fifo_write_no_overflow fifo_read_lock fifo_flush) (fifo_init buf n) xs =
    run_ops (queue_step n) ([], []) xs"
proof -
  have "buf_size (fifo_init buf n) = n" by (simp add: fifo_init_def)
  from locked_view [OF fifo_init_ok(1,2) [OF assms] this] fifo_init_ok(3) [OF assms] fifo.run_refines show ?thesis by metis
qed

theorem fifo_refines_queue_witness:
  "run_ops (op_step fifo_put_no_overflow fifo_lockpos_set fifo_write_no_overflow fifo_read_lock fifo_flush) (fifo_init [0, 0, 0] 3)
     [Write_Packet [1, 2], Read_Bytes 1, Write_Packet [3, 4], Write_Packet [5], Read_Bytes 3] =
   [Accepted True, Bytes [1], Accepted True, Accepted False, Bytes [2, 3, 4]]"
  using fifo_refines_queue [of "[0, 0, 0]" 3 "[Write_Packet [1, 2], Read_Bytes 1, Write_Packet [3, 4], Write_Packet [5], Read_Bytes 3]"]
  by (simp add: room_def put_bytes_def hand_over_def)

text \<open>
  Every write keeps the ring buffer invariant and only appends: a packet that fits is
  accepted whole and locked for reading; one that does not fit is refused, the part that
  fits stays in the buffer, and the lock position does not move.
\<close>

theorem fifo_write_spec:
  assumes "fifo_inv f"
  shows "\<exists>f'. fifo_write_no_overflow f bs = (fifo_count f + length bs \<le> buf_size f, f') \<and> fifo_inv f'
    \<and> fifo_contents f' = fifo_contents f @ take (buf_size f - fifo_count f) bs
    \<and> (if fifo_count f + length bs \<le> buf_size f then lock_pos f' = write_pos f'
       else lock_pos f' = lock_pos f \<and> over_pre f')"
proof (cases "fifo_count f + length bs \<le> buf_size f")
  case True
  then show ?thesis using fifo_write_correct [OF assms True] by (auto simp: fifo_locked_def)
next
  case False
  then show ?thesis using fifo_write_overflow [OF assms, of bs] by auto
qed

theorem fifo_write_spec_witness:
  "\<exists>f'. fifo_write_no_overflow (fifo_init [0, 0] 2) [7, 8, 9] = (False, f')
    \<and> fifo_contents f' = [7, 8] \<and> lock_pos f' = 0"
  using fifo_write_spec [of "fifo_init [0, 0] 2" "[7, 8, 9]"] fifo_init_ok [of "[0, 0]" 2]
  by (auto simp: fifo_init_def fifo_count_def fifo_data_len_def)

text \<open>
  C8. Peeking at a full buffer loses it: the bytes returned are right, but \<open>fifo_read_peek\<close>
  clears the full mark without moving the read position, so afterwards the buffer counts as
  empty. Below capacity a peek changes nothing.
\<close>

theorem fifo_read_peek_spec:
  assumes "fifo_inv f" "fifo_locked f" "0 < n"
  shows "fst (fifo_read_peek f n) = take n (fifo_contents f)
    \<and> (if over_pre f then fifo_contents (snd (fifo_read_peek f n)) = []
       else snd (fifo_read_peek f n) = f)"
proof -
  let ?len = "min n (fifo_count f)"
  have "fifo_copy f ?len = take n (fifo_contents f)"
    using fifo_count_le [OF assms(1)] fifo_copy_correct [OF assms(1), of ?len]
    unfolding fifo_contents_def by (simp add: take_map min_def)
  moreover have "fifo_copy (f\<lparr>over_pre := False\<rparr>) len = fifo_copy f len" for len by (simp add: fifo_copy_def)
  moreover have "over_pre f \<Longrightarrow> fifo_contents (f\<lparr>over_pre := False\<rparr>) = []"
    using assms(1) by (simp add: fifo_contents_def fifo_count_def fifo_data_len_def fifo_inv_def)
  ultimately show ?thesis
    using assms(3) fifo_lockdata_len_locked [OF assms(1,2)] by (simp add: fifo_read_peek_def Let_def)
qed

theorem fifo_read_peek_spec_witness:
  "fst (fifo_read_peek (snd (fifo_write_no_overflow (fifo_init [0, 0] 2) [7, 8])) 2) = [7, 8]
    \<and> fifo_contents (snd (fifo_read_peek (snd (fifo_write_no_overflow (fifo_init [0, 0] 2) [7, 8])) 2)) = []"
proof -
  define f where "f = snd (fifo_write_no_overflow (fifo_init [0, 0] 2) [7, 8])"
  have f: "f = \<lparr>p_buf = [7, 8], buf_size = 2, over_pre = True, read_pos = 0, write_pos = 0, lock_pos = 0\<rparr>"
    by (simp add: f_def fifo_write_no_overflow_def fifo_put_no_overflow_def fifo_lockpos_set_def fifo_init_def Let_def)
  then have "fifo_inv f" "fifo_locked f" "over_pre f" "fifo_contents f = [7, 8]"
    by (simp_all add: fifo_inv_def fifo_locked_def fifo_contents_def fifo_count_def upt_rec)
  then show ?thesis using fifo_read_peek_spec [of f 2] unfolding f_def by simp
qed

end
