(* ===== verification/Tlv.thy ===== *)
theory Tlv
  imports Prelude
begin

text \<open>
  \<open>core/embed/lite_card/tlv.c\<close>: the tag and length fields of the BER-TLV objects a
  OneKey Lite card returns. \<open>data\<close> is the bytes from the pointer up to \<open>end\<close>; \<open>None\<close> is a
  read past \<open>end\<close>, which the code does not check before it dereferences.
\<close>

section \<open>Operations\<close>

definition byte_at :: "u8 list \<Rightarrow> nat \<Rightarrow> u8 option" where
  "byte_at data i = (if i < length data then Some (data ! i) else None)"

definition tlv_parse_tag :: "u8 list \<Rightarrow> (u16 \<times> nat) option" where
  "tlv_parse_tag data = do {
     b0 \<leftarrow> byte_at data 0;
     if b0 AND 0x1f = 0x1f
     then do { b1 \<leftarrow> byte_at data 1; Some (push_bit 8 (ucast b0) OR ucast b1, 2) }
     else Some (ucast b0, 1) }"

fun tlv_length_loop :: "u8 list \<Rightarrow> nat \<Rightarrow> nat \<Rightarrow> u16 \<Rightarrow> u16 option" where
  "tlv_length_loop data 0 i acc = Some acc"
| "tlv_length_loop data (Suc n) i acc = do {
     b \<leftarrow> byte_at data (1 + i);
     tlv_length_loop data n (i + 1) (push_bit 8 acc OR ucast b) }"

text \<open>The result is \<open>None\<close> for a read past the end, and otherwise the returned flag, length and offset.\<close>

definition tlv_parse_length :: "u8 list \<Rightarrow> (bool \<times> u16 \<times> nat) option" where
  "tlv_parse_length data = do {
     b0 \<leftarrow> byte_at data 0;
     if b0 AND 0x80 \<noteq> 0
     then let len_bytes = unat (b0 AND 0x7f) in
          if len_bytes > 2 then Some (False, 0, 0)
          else do {
            len \<leftarrow> tlv_length_loop data len_bytes 0 0;
            let offset = len_bytes + 1;
            Some (\<not> offset + unat len > length data, len, offset) }
     else Some (\<not> 1 + unat b0 > length data, ucast b0, 1) }"

section \<open>Encoding\<close>

text \<open>The shortest definite length field of a value of less than \<open>2 ^ 16\<close> bytes.\<close>

definition tlv_encode_length :: "u16 \<Rightarrow> u8 list" where
  "tlv_encode_length len =
     (if len < 0x80 then [ucast len]
      else if len < 0x100 then [0x81, ucast len]
      else [0x82, ucast (drop_bit 8 len), ucast len])"

lemma uint_ucast_u16_u8: "uint (w :: u16) < 256 \<Longrightarrow> uint (ucast w :: u8) = uint w"
  by (rule uint_ucast_small) simp

lemma u16_bytes: "push_bit 8 (ucast (ucast (drop_bit 8 w) :: u8)) OR ucast (ucast w :: u8) = (w :: u16)"
  by (rule bit_word_eqI) (auto simp: bit_or_iff bit_push_bit_iff bit_ucast_iff bit_drop_bit_eq)

lemma u16_low_byte: "uint (w :: u16) < 256 \<Longrightarrow> ucast (ucast w :: u8) = w"
  by (rule word_uint_eqI) (simp add: uint_ucast_u16_u8 uint_ucast_small)

lemma unat_u8_u16: "unat (ucast (b :: u8) :: u16) = unat b"
proof -
  have "uint (ucast b :: u16) = uint b" using uint_lt2p [of b] by (intro uint_ucast_small) simp
  then show ?thesis by (simp only: unat_eq_nat_uint)
qed

lemma and_0x80:
  assumes "uint (b :: u8) < 128"
  shows "b AND 0x80 = 0"
proof -
  have "take_bit 7 b = b" using assms by (intro take_bit_uint_self) simp
  moreover have "take_bit 7 b AND 0x80 = 0" by (simp add: take_bit_eq_mask and.assoc mask_eq_exp_minus_1)
  ultimately show ?thesis by simp
qed

lemma tlv_parse_long:
  assumes "b AND 0x80 \<noteq> 0" "unat (b AND 0x7f) = n" "n \<le> 2" "tlv_length_loop (b # bs) n 0 0 = Some len"
  shows "tlv_parse_length (b # bs) = Some (n + 1 + unat len \<le> length (b # bs), len, n + 1)"
  using assms by (simp add: tlv_parse_length_def byte_at_def not_less)

lemma tlv_length_loop_1: "tlv_length_loop (b # c # bs) 1 0 0 = Some (ucast c)"
  by (simp add: byte_at_def)

lemma tlv_length_loop_2: "tlv_length_loop (b # c # d # bs) 2 0 0 = Some (push_bit 8 (ucast c) OR ucast d)"
  by (simp only: numeral_2_eq_2 tlv_length_loop.simps) (simp add: byte_at_def)

lemma tlv_length_roundtrip:
  "tlv_parse_length (tlv_encode_length len @ rest)
     = Some (unat len \<le> length rest, len, length (tlv_encode_length len))"
proof -
  consider (a) "len < 0x80" | (b) "\<not> len < 0x80" "len < 0x100" | (c) "\<not> len < 0x80" "\<not> len < 0x100" by blast
  then show ?thesis
  proof cases
    case a
    then have u: "uint len < 128" by (simp add: word_less_alt)
    then have l: "uint (ucast len :: u8) = uint len" by (intro uint_ucast_u16_u8) simp
    have "(ucast len :: u8) AND 0x80 = 0" using u l by (intro and_0x80) simp
    moreover have "unat (ucast len :: u8) = unat len" using l by (simp only: unat_eq_nat_uint)
    moreover have "ucast (ucast len :: u8) = len" using u by (intro u16_low_byte) simp
    ultimately show ?thesis
      using a unfolding tlv_encode_length_def
      by (simp add: tlv_parse_length_def byte_at_def not_less)
  next
    case b
    have "ucast (ucast len :: u8) = len" using b by (intro u16_low_byte) (simp add: word_less_alt)
    then have "tlv_parse_length (0x81 # ucast len # rest) = Some (1 + 1 + unat len \<le> length (0x81 # ucast len # rest), len, 1 + 1)"
      using tlv_length_loop_1 [of "0x81" "ucast len" rest] by (intro tlv_parse_long) simp_all
    then show ?thesis using b unfolding tlv_encode_length_def by simp
  next
    case c
    have "tlv_parse_length (0x82 # ucast (drop_bit 8 len) # ucast len # rest)
        = Some (2 + 1 + unat len \<le> length (0x82 # ucast (drop_bit 8 len) # ucast len # rest), len, 2 + 1)"
      using tlv_length_loop_2 [of "0x82" "ucast (drop_bit 8 len)" "ucast len" rest]
      unfolding u16_bytes by (intro tlv_parse_long) simp_all
    then show ?thesis using c unfolding tlv_encode_length_def by simp
  qed
qed

section \<open>Properties\<close>

text \<open>
  Length fields: parsing the encoding of a length returns the length and the size of
  the field, and the flag says whether the value fits in what follows. Whatever the
  bytes, an accepted length keeps the value inside the data.
\<close>

theorem tlv_parse_length_spec:
  "tlv_parse_length (tlv_encode_length len @ rest)
     = Some (unat len \<le> length rest, len, length (tlv_encode_length len))
   \<and> (case tlv_parse_length data of
        Some (ok, l, offset) \<Rightarrow> ok = False \<or> offset + unat l \<le> length data
      | None \<Rightarrow> True)"
proof -
  have "tlv_parse_length data = Some (True, l, offset) \<Longrightarrow> offset + unat l \<le> length data" for l offset
    by (auto simp: tlv_parse_length_def Let_def byte_at_def unat_u8_u16 split: if_splits bind_splits)
  then show ?thesis using tlv_length_roundtrip [of len rest] by (auto split: option.splits)
qed

end
