(* ===== verification/Flash.thy ===== *)
theory Flash
  imports Prelude
begin

text \<open>
  \<open>core/embed/unix/flash.c\<close>: the emulator's flash, a memory-mapped byte buffer divided into
  sectors. Bits can be cleared but not set again except by erasing a whole sector. The
  buffer is a function from its index to a byte; an address is an index into it. Offsets
  are natural numbers and the 32-bit sums of \<open>flash_get_address\<close> are written out modulo
  \<open>2 ^ 32\<close>. A function that returns a \<open>secbool\<close> returns \<open>None\<close> for \<open>secfalse\<close>.
\<close>

type_synonym flash = "nat \<Rightarrow> u8"

section \<open>Layout\<close>

definition FLASH_SECTOR_TABLE :: "nat list" where
  "FLASH_SECTOR_TABLE =
     [0x08000000, 0x08004000, 0x08008000, 0x0800C000, 0x08010000, 0x08020000, 0x08040000, 0x08060000,
      0x08080000, 0x080A0000, 0x080C0000, 0x080E0000, 0x08100000, 0x08104000, 0x08108000, 0x0810C000,
      0x08110000, 0x08120000, 0x08140000, 0x08160000, 0x08180000, 0x081A0000, 0x081C0000, 0x081E0000,
      0x08200000]"

abbreviation (input) FLASH_SECTOR_COUNT :: nat where "FLASH_SECTOR_COUNT \<equiv> 24"

definition flash_get_address :: "nat \<Rightarrow> nat \<Rightarrow> nat \<Rightarrow> nat option" where
  "flash_get_address sector offset bytes =
     (if sector \<ge> FLASH_SECTOR_COUNT then None
      else let addr = (FLASH_SECTOR_TABLE ! sector + offset) mod 2 ^ 32;
               nxt = FLASH_SECTOR_TABLE ! (sector + 1)
           in if (addr + bytes) mod 2 ^ 32 > nxt then None
              else Some (addr - FLASH_SECTOR_TABLE ! 0))"

definition flash_sector_size :: "nat \<Rightarrow> nat" where
  "flash_sector_size sector =
     (if sector \<ge> FLASH_SECTOR_COUNT then 0
      else FLASH_SECTOR_TABLE ! (sector + 1) - FLASH_SECTOR_TABLE ! sector)"

section \<open>Operations\<close>

definition flash_unlock_write :: bool where "flash_unlock_write = True"

definition flash_lock_write :: bool where "flash_lock_write = True"

definition flash_memset :: "flash \<Rightarrow> nat \<Rightarrow> u8 \<Rightarrow> nat \<Rightarrow> flash" where
  "flash_memset fl a b n = (\<lambda>i. if a \<le> i \<and> i < a + n then b else fl i)"

fun flash_erase_sectors :: "flash \<Rightarrow> nat list \<Rightarrow> flash" where
  "flash_erase_sectors fl [] = fl"
| "flash_erase_sectors fl (sector # sectors) =
     (let offset = FLASH_SECTOR_TABLE ! sector - FLASH_SECTOR_TABLE ! 0;
          bytes = FLASH_SECTOR_TABLE ! (sector + 1) - FLASH_SECTOR_TABLE ! sector
      in flash_erase_sectors (flash_memset fl offset 0xFF bytes) sectors)"

definition flash_erase :: "flash \<Rightarrow> nat \<Rightarrow> flash" where
  "flash_erase fl sector = flash_erase_sectors fl [sector]"

definition flash_write_byte :: "flash \<Rightarrow> nat \<Rightarrow> nat \<Rightarrow> u8 \<Rightarrow> flash option" where
  "flash_write_byte fl sector offset data =
     (case flash_get_address sector offset 1 of
        None \<Rightarrow> None
      | Some a \<Rightarrow> if fl a AND data \<noteq> data then None else Some (fl(a := data)))"

text \<open>The host is little-endian.\<close>

definition flash_load32 :: "flash \<Rightarrow> nat \<Rightarrow> u32" where
  "flash_load32 fl a = ucast (fl a) OR push_bit 8 (ucast (fl (a + 1)))
     OR push_bit 16 (ucast (fl (a + 2))) OR push_bit 24 (ucast (fl (a + 3)))"

definition flash_store32 :: "flash \<Rightarrow> nat \<Rightarrow> u32 \<Rightarrow> flash" where
  "flash_store32 fl a w = fl(a := ucast w, a + 1 := ucast (drop_bit 8 w),
     a + 2 := ucast (drop_bit 16 w), a + 3 := ucast (drop_bit 24 w))"

definition flash_write_word :: "flash \<Rightarrow> nat \<Rightarrow> nat \<Rightarrow> u32 \<Rightarrow> flash option" where
  "flash_write_word fl sector offset data =
     (if offset mod 4 \<noteq> 0 then None
      else case flash_get_address sector offset 4 of
        None \<Rightarrow> None
      | Some a \<Rightarrow> if flash_load32 fl a AND data \<noteq> data then None else Some (flash_store32 fl a data))"

section \<open>A sector as a byte string\<close>

definition sector_base :: "nat \<Rightarrow> nat" where
  "sector_base sector = FLASH_SECTOR_TABLE ! sector - FLASH_SECTOR_TABLE ! 0"

definition sector_bytes :: "flash \<Rightarrow> nat \<Rightarrow> u8 list" where
  "sector_bytes fl sector = map (\<lambda>i. fl (sector_base sector + i)) [0..<flash_sector_size sector]"

lemma length_sector_bytes [simp]: "length (sector_bytes fl sector) = flash_sector_size sector"
  by (simp add: sector_bytes_def)

lemma sector_bytes_nth: "i < flash_sector_size sector \<Longrightarrow> sector_bytes fl sector ! i = fl (sector_base sector + i)"
  by (simp add: sector_bytes_def)

lemma sector_table:
  assumes "sector < 24"
  shows "0x08000000 \<le> FLASH_SECTOR_TABLE ! sector"
    and "FLASH_SECTOR_TABLE ! sector < FLASH_SECTOR_TABLE ! (sector + 1)"
    and "FLASH_SECTOR_TABLE ! (sector + 1) \<le> 0x08200000"
proof -
  have "sector \<in> set [0..<24]" using assms by simp
  then have "0x08000000 \<le> FLASH_SECTOR_TABLE ! sector
    \<and> FLASH_SECTOR_TABLE ! sector < FLASH_SECTOR_TABLE ! (sector + 1)
    \<and> FLASH_SECTOR_TABLE ! (sector + 1) \<le> 0x08200000"
    unfolding FLASH_SECTOR_TABLE_def by (simp add: upt_rec) (elim disjE; simp)
  then show "0x08000000 \<le> FLASH_SECTOR_TABLE ! sector"
    "FLASH_SECTOR_TABLE ! sector < FLASH_SECTOR_TABLE ! (sector + 1)"
    "FLASH_SECTOR_TABLE ! (sector + 1) \<le> 0x08200000" by auto
qed

lemma sector_table_0: "FLASH_SECTOR_TABLE ! 0 = 0x08000000"
  by (simp add: FLASH_SECTOR_TABLE_def)

lemma flash_get_address_eq:
  assumes "sector < 24" "offset + bytes < 2 ^ 31"
  shows "flash_get_address sector offset bytes
    = (if offset + bytes \<le> flash_sector_size sector then Some (sector_base sector + offset) else None)"
proof -
  note t = sector_table [OF assms(1)]
  have m: "(FLASH_SECTOR_TABLE ! sector + offset) mod 2 ^ 32 = FLASH_SECTOR_TABLE ! sector + offset"
    "(FLASH_SECTOR_TABLE ! sector + offset + bytes) mod 2 ^ 32 = FLASH_SECTOR_TABLE ! sector + offset + bytes"
    using t assms(2) by simp_all
  show ?thesis
    using t assms(1) unfolding flash_get_address_def Let_def m
    by (auto simp: flash_sector_size_def sector_base_def sector_table_0)
qed

section \<open>Operations on the byte strings\<close>

lemma sector_table_mono:
  assumes "s \<le> t" "t \<le> 24"
  shows "FLASH_SECTOR_TABLE ! s \<le> FLASH_SECTOR_TABLE ! t"
proof -
  have "sorted FLASH_SECTOR_TABLE" "length FLASH_SECTOR_TABLE = 25" by (simp_all add: FLASH_SECTOR_TABLE_def)
  then show ?thesis using assms sorted_nth_mono [of FLASH_SECTOR_TABLE s t] by simp
qed

lemma sector_disjoint:
  assumes "s < 24" "t < 24" "s \<noteq> t" "i < flash_sector_size s" "j < flash_sector_size t"
  shows "sector_base s + i \<noteq> sector_base t + j"
proof -
  have "sector_base s + i < sector_base t + j" if "s < t" "t < 24" "i < flash_sector_size s" for s t i j
    using that sector_table [of s] sector_table [of t] sector_table_mono [of "Suc s" t]
    by (simp add: sector_base_def flash_sector_size_def sector_table_0)
  from this [of s t i j] this [of t s j i] show ?thesis using assms by (cases "s < t") auto
qed

lemma sector_bytes_other:
  assumes "s < 24" "t < 24" "t \<noteq> s"
    and "\<And>i. fl' i \<noteq> fl i \<Longrightarrow> \<exists>j < flash_sector_size s. i = sector_base s + j"
  shows "sector_bytes fl' t = sector_bytes fl t"
  unfolding sector_bytes_def
proof (intro map_cong refl)
  fix i assume "i \<in> set [0..<flash_sector_size t]"
  then have "\<not> (\<exists>j < flash_sector_size s. sector_base t + i = sector_base s + j)"
    using sector_disjoint [OF assms(1,2)] assms(3) by (metis atLeastLessThan_iff set_upt)
  then show "fl' (sector_base t + i) = fl (sector_base t + i)" using assms(4) by blast
qed

definition word_bytes :: "u32 \<Rightarrow> u8 list" where
  "word_bytes w = [ucast w, ucast (drop_bit 8 w), ucast (drop_bit 16 w), ucast (drop_bit 24 w)]"

lemma length_word_bytes [simp]: "length (word_bytes w) = 4"
  by (simp add: word_bytes_def)

lemma flash_write_byte_correct:
  assumes "sector < 24" "offset < flash_sector_size sector" "flash_sector_size sector < 2 ^ 31"
    and "sector_bytes fl sector ! offset AND data = data"
  shows "\<exists>fl'. flash_write_byte fl sector offset data = Some fl'
    \<and> sector_bytes fl' sector = (sector_bytes fl sector)[offset := data]
    \<and> (\<forall>t < 24. t \<noteq> sector \<longrightarrow> sector_bytes fl' t = sector_bytes fl t)"
proof -
  let ?a = "sector_base sector + offset"
  have "flash_get_address sector offset 1 = Some ?a" using assms by (simp add: flash_get_address_eq)
  then have "flash_write_byte fl sector offset data = Some (fl(?a := data))"
    using assms(2,4) by (simp add: flash_write_byte_def sector_bytes_nth)
  moreover have "sector_bytes (fl(?a := data)) sector = (sector_bytes fl sector)[offset := data]"
    using assms(2) by (auto simp: list_eq_iff_nth_eq sector_bytes_nth nth_list_update)
  moreover have "sector_bytes (fl(?a := data)) t = sector_bytes fl t" if "t < 24" "t \<noteq> sector" for t
    using that assms(1,2) by (intro sector_bytes_other) (auto split: if_splits)
  ultimately show ?thesis by blast
qed

lemma flash_write_byte_refused:
  assumes "sector < 24" "offset < flash_sector_size sector" "flash_sector_size sector < 2 ^ 31"
    and "sector_bytes fl sector ! offset AND data \<noteq> data"
  shows "flash_write_byte fl sector offset data = None"
  using assms by (simp add: flash_write_byte_def flash_get_address_eq sector_bytes_nth)

lemma load32_and:
  assumes "fl a AND ucast w = ucast w" "fl (a + 1) AND ucast (drop_bit 8 w) = ucast (drop_bit 8 w)"
    "fl (a + 2) AND ucast (drop_bit 16 w) = ucast (drop_bit 16 w)"
    "fl (a + 3) AND ucast (drop_bit 24 w) = ucast (drop_bit 24 w)"
  shows "flash_load32 fl a AND w = w"
proof -
  have b: "bit x j" if "x AND y = y" "bit y j" for x y :: u8 and j using that by (metis bit_and_iff)
  have "bit (flash_load32 fl a) n" if "bit w n" "n < 32" for n
  proof -
    consider "n < 8" | "8 \<le> n" "n < 16" | "16 \<le> n" "n < 24" | "24 \<le> n" by linarith
    then show ?thesis
    proof cases
      case 1
      then show ?thesis using that b [OF assms(1), of n]
        by (auto simp: flash_load32_def bit_or_iff bit_push_bit_iff bit_ucast_iff)
    next
      case 2
      then show ?thesis using that b [OF assms(2), of "n - 8"]
        by (auto simp: flash_load32_def bit_or_iff bit_push_bit_iff bit_ucast_iff bit_drop_bit_eq)
    next
      case 3
      then show ?thesis using that b [OF assms(3), of "n - 16"]
        by (auto simp: flash_load32_def bit_or_iff bit_push_bit_iff bit_ucast_iff bit_drop_bit_eq)
    next
      case 4
      then show ?thesis using that b [OF assms(4), of "n - 24"]
        by (auto simp: flash_load32_def bit_or_iff bit_push_bit_iff bit_ucast_iff bit_drop_bit_eq)
    qed
  qed
  then show ?thesis by (intro bit_word_eqI) (auto simp: bit_and_iff)
qed

lemma nth_word_bytes:
  "word_bytes w ! 0 = ucast w" "word_bytes w ! 1 = ucast (drop_bit 8 w)"
  "word_bytes w ! 2 = ucast (drop_bit 16 w)" "word_bytes w ! 3 = ucast (drop_bit 24 w)"
  by (simp_all add: word_bytes_def numeral_2_eq_2 numeral_3_eq_3)

lemma flash_write_word_correct:
  assumes "sector < 24" "flash_sector_size sector < 2 ^ 31" "length pre mod 4 = 0" "length old = 4"
    and "sector_bytes fl sector = pre @ old @ post"
    and "\<forall>i < 4. old ! i AND word_bytes data ! i = word_bytes data ! i"
  shows "\<exists>fl'. flash_write_word fl sector (length pre) data = Some fl'
    \<and> sector_bytes fl' sector = pre @ word_bytes data @ post
    \<and> (\<forall>t < 24. t \<noteq> sector \<longrightarrow> sector_bytes fl' t = sector_bytes fl t)"
proof -
  let ?o = "length pre" and ?s = "flash_sector_size sector"
  let ?a = "sector_base sector + ?o"
  have len: "?s = ?o + 4 + length post" using arg_cong [OF assms(5), of length] assms(4) by simp
  have a: "flash_get_address sector ?o 4 = Some ?a" using assms(1,2) len by (simp add: flash_get_address_eq)
  have old: "fl (?a + i) = old ! i" if "i < 4" for i
    using sector_bytes_nth [of "?o + i" sector fl] that len assms(4) unfolding assms(5)
    by (simp add: nth_append add.assoc)
  have c: "fl (?a + i) AND word_bytes data ! i = word_bytes data ! i" if "i < 4" for i
    using old [OF that] assms(6) that by simp
  have "flash_load32 fl ?a AND data = data"
    using c [of 0] c [of 1] c [of 2] c [of 3]
    by (intro load32_and) (simp_all add: nth_word_bytes nth_word_bytes [unfolded One_nat_def])
  then have w: "flash_write_word fl sector ?o data = Some (flash_store32 fl ?a data)"
    using a assms(3) by (simp add: flash_write_word_def)
  have st: "flash_store32 fl ?a data i = (if ?a \<le> i \<and> i < ?a + 4 then word_bytes data ! (i - ?a) else fl i)" for i
  proof -
    have "i = ?a \<or> i = ?a + 1 \<or> i = ?a + 2 \<or> i = ?a + 3 \<or> \<not> (?a \<le> i \<and> i < ?a + 4)" by linarith
    then show ?thesis
      by (elim disjE) (auto simp: flash_store32_def nth_word_bytes [unfolded One_nat_def])
  qed
  have "sector_bytes (flash_store32 fl ?a data) sector = pre @ word_bytes data @ post"
  proof (rule nth_equalityI)
    show "length (sector_bytes (flash_store32 fl ?a data) sector) = length (pre @ word_bytes data @ post)"
      using len by simp
    fix i assume "i < length (sector_bytes (flash_store32 fl ?a data) sector)"
    then have i: "i < ?s" by simp
    have "(pre @ old @ post) ! i = fl (sector_base sector + i)"
      using sector_bytes_nth [OF i, of fl] unfolding assms(5) .
    then show "sector_bytes (flash_store32 fl ?a data) sector ! i = (pre @ word_bytes data @ post) ! i"
      unfolding sector_bytes_nth [OF i] st using assms(4) i len by (auto simp: nth_append)
  qed
  moreover have "sector_bytes (flash_store32 fl ?a data) t = sector_bytes fl t" if "t < 24" "t \<noteq> sector" for t
  proof (rule sector_bytes_other [OF assms(1) that])
    fix i assume "flash_store32 fl ?a data i \<noteq> fl i"
    then have "?a \<le> i \<and> i < ?a + 4" unfolding st by (simp split: if_splits)
    then have "i - sector_base sector < ?s \<and> i = sector_base sector + (i - sector_base sector)" using len by linarith
    then show "\<exists>j < ?s. i = sector_base sector + j" by blast
  qed
  ultimately show ?thesis using w by blast
qed

lemma flash_erase_correct:
  assumes "sector < 24"
  shows "sector_bytes (flash_erase fl sector) sector = replicate (flash_sector_size sector) 0xFF"
    and "\<And>t. t < 24 \<Longrightarrow> t \<noteq> sector \<Longrightarrow> sector_bytes (flash_erase fl sector) t = sector_bytes fl t"
proof -
  have e: "flash_erase fl sector = flash_memset fl (sector_base sector) 0xFF (flash_sector_size sector)"
    using assms by (simp add: flash_erase_def sector_base_def flash_sector_size_def)
  show "sector_bytes (flash_erase fl sector) sector = replicate (flash_sector_size sector) 0xFF"
    unfolding e by (auto simp: list_eq_iff_nth_eq sector_bytes_nth flash_memset_def)
  fix t assume t: "t < 24" "t \<noteq> sector"
  show "sector_bytes (flash_erase fl sector) t = sector_bytes fl t"
  proof (rule sector_bytes_other [OF assms t])
    fix i assume "flash_erase fl sector i \<noteq> fl i"
    then have "sector_base sector \<le> i \<and> i < sector_base sector + flash_sector_size sector"
      unfolding e flash_memset_def by (simp split: if_splits)
    then have "i - sector_base sector < flash_sector_size sector \<and> i = sector_base sector + (i - sector_base sector)"
      by linarith
    then show "\<exists>j < flash_sector_size sector. i = sector_base sector + j" by blast
  qed
qed

end
