(* ===== verification/Norcow.thy ===== *)
theory Norcow
  imports Flash
begin

text \<open>
  \<open>storage/norcow.c\<close>: a log-structured key-value store over two flash sectors. An item is
  a 16-bit key, a 16-bit length, the value, and zeros up to a word boundary; a free key is
  \<open>0xFFFF\<close>, a deleted one \<open>0\<close>. The sectors are 4 and 16 of the flash and have no header, as in
  \<open>storage/tests/c/norcow_config.h\<close>.

  The static variables of the file are the record \<open>norcow\<close>, with the flash. The outer option
  is \<open>None\<close> when the code does not return: a failed \<open>ensure\<close>, or a loop that runs forever
  (the loops are partial functions). Within it \<open>secfalse\<close> is \<open>False\<close> or \<open>None\<close>, a null pointer
  is \<open>None\<close>, and a pointer into the flash is its index. Offsets are natural numbers; they stay
  below \<open>2 ^ 18\<close>, so the 32-bit sums of the source do not wrap.
\<close>

section \<open>Constants\<close>

abbreviation (input) NORCOW_SECTOR_COUNT :: nat where "NORCOW_SECTOR_COUNT \<equiv> 2"
abbreviation (input) NORCOW_SECTOR_SIZE :: nat where "NORCOW_SECTOR_SIZE \<equiv> 65536"
abbreviation (input) NORCOW_PREFIX_LEN :: nat where "NORCOW_PREFIX_LEN \<equiv> 4"
abbreviation (input) NORCOW_STORAGE_START :: nat where "NORCOW_STORAGE_START \<equiv> 8"
abbreviation (input) NORCOW_KEY_FREE :: u16 where "NORCOW_KEY_FREE \<equiv> 0xFFFF"
abbreviation (input) NORCOW_KEY_DELETED :: u16 where "NORCOW_KEY_DELETED \<equiv> 0"

definition NORCOW_MAGIC :: u32 where "NORCOW_MAGIC = 0x3243524e"
definition NORCOW_MAGIC_V0 :: u32 where "NORCOW_MAGIC_V0 = 0x5743524e"
definition NORCOW_VERSION :: u32 where "NORCOW_VERSION = 3"

definition norcow_sectors :: "nat list" where "norcow_sectors = [4, 16]"

record norcow =
  nc_flash :: flash
  norcow_active_sector :: nat
  norcow_write_sector :: nat
  norcow_active_version :: u32
  norcow_free_offset :: nat

definition ensure :: "bool \<Rightarrow> unit option" where
  "ensure b = (if b then Some () else None)"

definition align4 :: "nat \<Rightarrow> nat" where
  "align4 x = (x + 3) div 4 * 4"

section \<open>Sectors and items\<close>

definition norcow_ptr :: "nat \<Rightarrow> nat \<Rightarrow> nat \<Rightarrow> nat option option" where
  "norcow_ptr sector offset bytes = do {
     ensure (sector \<le> NORCOW_SECTOR_COUNT);
     Some (flash_get_address (norcow_sectors ! sector) offset bytes) }"

fun flash_write_bytes :: "flash \<Rightarrow> nat \<Rightarrow> nat \<Rightarrow> u8 list \<Rightarrow> flash option" where
  "flash_write_bytes fl s offset [] = Some fl"
| "flash_write_bytes fl s offset (b # bs) = do {
     fl \<leftarrow> flash_write_byte fl s offset b;
     flash_write_bytes fl s (offset + 1) bs }"

definition norcow_write ::
  "flash \<Rightarrow> nat \<Rightarrow> nat \<Rightarrow> u32 \<Rightarrow> u8 list option \<Rightarrow> nat \<Rightarrow> (bool \<times> flash) option" where
  "norcow_write fl sector offset prefix data len =
     (if sector \<ge> NORCOW_SECTOR_COUNT then Some (False, fl)
      else if offset + NORCOW_PREFIX_LEN + len > NORCOW_SECTOR_SIZE then Some (False, fl)
      else do {
        ensure flash_unlock_write;
        fl \<leftarrow> flash_write_word fl (norcow_sectors ! sector) offset prefix;
        let offset = offset + NORCOW_PREFIX_LEN;
        fl \<leftarrow> (case data of
                Some d \<Rightarrow> flash_write_bytes fl (norcow_sectors ! sector) offset (take len d)
              | None \<Rightarrow> Some fl);
        let offset = offset + len;
        fl \<leftarrow> flash_write_bytes fl (norcow_sectors ! sector) offset (replicate (align4 offset - offset) 0);
        ensure flash_lock_write;
        Some (True, fl) })"

definition erase_sector :: "flash \<Rightarrow> nat \<Rightarrow> bool \<Rightarrow> flash option" where
  "erase_sector fl sector set_magic =
     (let fl = flash_erase fl (norcow_sectors ! sector) in
      if set_magic then do {
        (ok, fl) \<leftarrow> norcow_write fl sector 0 NORCOW_MAGIC None 0;
        ensure ok;
        (ok, fl) \<leftarrow> norcow_write fl sector 4 (NOT NORCOW_VERSION) None 0;
        ensure ok;
        Some fl }
      else Some fl)"

definition flash_load16 :: "flash \<Rightarrow> nat \<Rightarrow> u16" where
  "flash_load16 fl a = ucast (fl a) OR push_bit 8 (ucast (fl (a + 1)))"

text \<open>An item read: its key, the address of its value, its length, and the offset after it.\<close>

definition read_item :: "flash \<Rightarrow> nat \<Rightarrow> nat \<Rightarrow> (u16 \<times> nat \<times> nat \<times> nat) option option" where
  "read_item fl sector offset = do {
     k \<leftarrow> norcow_ptr sector offset 2;
     case k of None \<Rightarrow> Some None | Some k \<Rightarrow>
       let key = flash_load16 fl k; pos = offset + 2 in
       if key = NORCOW_KEY_FREE then Some None
       else do {
         l \<leftarrow> norcow_ptr sector pos 2;
         case l of None \<Rightarrow> Some None | Some l \<Rightarrow>
           let len = unat (flash_load16 fl l); pos = pos + 2 in do {
             v \<leftarrow> norcow_ptr sector pos len;
             case v of None \<Rightarrow> Some None | Some v \<Rightarrow>
               Some (Some (key, v, len, align4 (pos + len))) } } }"

definition write_item ::
  "flash \<Rightarrow> nat \<Rightarrow> nat \<Rightarrow> u16 \<Rightarrow> u8 list option \<Rightarrow> nat \<Rightarrow> (bool \<times> flash \<times> nat) option" where
  "write_item fl sector offset key v len =
     (let prefix = push_bit 16 (word_of_nat len) OR ucast key;
          pos = align4 (offset + NORCOW_PREFIX_LEN + len)
      in do {
        (ok, fl) \<leftarrow> norcow_write fl sector offset prefix v len;
        Some (ok, fl, pos) })"

definition find_start_offset :: "flash \<Rightarrow> nat \<Rightarrow> (nat \<times> u32) option option" where
  "find_start_offset fl sector = do {
     magic \<leftarrow> norcow_ptr sector 0 8;
     Some (case magic of None \<Rightarrow> None | Some magic \<Rightarrow>
       if flash_load32 fl magic = NORCOW_MAGIC
       then Some (NORCOW_STORAGE_START, NOT (flash_load32 fl (magic + 4)))
       else if flash_load32 fl magic = NORCOW_MAGIC_V0 then Some (4, 0)
       else None) }"

partial_function (option) find_item_loop ::
  "flash \<Rightarrow> nat \<Rightarrow> u16 \<Rightarrow> nat \<Rightarrow> (nat \<times> nat) option \<Rightarrow> (nat \<times> nat) option option" where
  "find_item_loop fl sector key offset found = do {
     r \<leftarrow> read_item fl sector offset;
     case r of None \<Rightarrow> Some found
     | Some (k, v, l, pos) \<Rightarrow>
         find_item_loop fl sector key pos (if key = k then Some (v, l) else found) }"

definition find_item :: "flash \<Rightarrow> nat \<Rightarrow> u16 \<Rightarrow> (nat \<times> nat) option option" where
  "find_item fl sector key = do {
     st \<leftarrow> find_start_offset fl sector;
     case st of None \<Rightarrow> Some None
     | Some (offset, version) \<Rightarrow> find_item_loop fl sector key offset None }"

partial_function (option) find_free_loop :: "flash \<Rightarrow> nat \<Rightarrow> nat \<Rightarrow> nat option" where
  "find_free_loop fl sector offset = do {
     r \<leftarrow> read_item fl sector offset;
     case r of None \<Rightarrow> Some offset
     | Some (k, v, l, pos) \<Rightarrow> find_free_loop fl sector pos }"

text \<open>Without a valid magic the code returns \<open>secfalse\<close>, that is 0, as the offset.\<close>

definition find_free_offset :: "flash \<Rightarrow> nat \<Rightarrow> nat option" where
  "find_free_offset fl sector = do {
     st \<leftarrow> find_start_offset fl sector;
     case st of None \<Rightarrow> Some 0
     | Some (offset, version) \<Rightarrow> find_free_loop fl sector offset }"

definition flash_bytes :: "flash \<Rightarrow> nat \<Rightarrow> nat \<Rightarrow> u8 list" where
  "flash_bytes fl a n = map (\<lambda>i. fl (a + i)) [0..<n]"

section \<open>The store\<close>

text \<open>
  \<open>compact\<close> in its stages: the other sector is erased and stamped, the loop copies one item a turn
  (\<open>None\<close> is its \<open>break\<close>), and then the old sector is erased. \<open>compact_turns n\<close> is the loop cut after
  \<open>n\<close> turns.
\<close>

definition compact_begin :: "norcow \<Rightarrow> (nat \<times> norcow) option option" where
  "compact_begin st = do {
     start \<leftarrow> find_start_offset (nc_flash st) (norcow_active_sector st);
     case start of None \<Rightarrow> Some None
     | Some (offsetr, version) \<Rightarrow>
         let ws = (norcow_active_sector st + 1) mod NORCOW_SECTOR_COUNT in do {
           fl \<leftarrow> erase_sector (nc_flash st) ws True;
           Some (Some (offsetr, st\<lparr>nc_flash := fl, norcow_write_sector := ws\<rparr>)) } }"

definition compact_turn ::
  "flash \<Rightarrow> nat \<Rightarrow> nat \<Rightarrow> nat \<Rightarrow> nat \<Rightarrow> (flash \<times> nat \<times> nat) option option" where
  "compact_turn fl active wsec offsetr offsetw = do {
     r \<leftarrow> read_item fl active offsetr;
     case r of None \<Rightarrow> Some None
     | Some (k, v, l, posr) \<Rightarrow>
         if k = NORCOW_KEY_DELETED then Some (Some (fl, posr, offsetw))
         else do {
           (ok, fl, posw) \<leftarrow> write_item fl wsec offsetw k (Some (flash_bytes fl v l)) l;
           ensure ok;
           Some (Some (fl, posr, posw)) } }"

partial_function (option) compact_loop ::
  "flash \<Rightarrow> nat \<Rightarrow> nat \<Rightarrow> nat \<Rightarrow> nat \<Rightarrow> flash option" where
  "compact_loop fl active wsec offsetr offsetw = do {
     t \<leftarrow> compact_turn fl active wsec offsetr offsetw;
     case t of None \<Rightarrow> Some fl
     | Some (fl, offsetr, offsetw) \<Rightarrow> compact_loop fl active wsec offsetr offsetw }"

fun compact_turns ::
  "nat \<Rightarrow> flash \<Rightarrow> nat \<Rightarrow> nat \<Rightarrow> nat \<Rightarrow> nat \<Rightarrow> (flash \<times> nat \<times> nat) option" where
  "compact_turns 0 fl active wsec offsetr offsetw = Some (fl, offsetr, offsetw)"
| "compact_turns (Suc n) fl active wsec offsetr offsetw = do {
     t \<leftarrow> compact_turn fl active wsec offsetr offsetw;
     case t of None \<Rightarrow> Some (fl, offsetr, offsetw)
     | Some (fl, offsetr, offsetw) \<Rightarrow> compact_turns n fl active wsec offsetr offsetw }"

definition compact :: "norcow \<Rightarrow> norcow option" where
  "compact st = do {
     start \<leftarrow> compact_begin st;
     case start of None \<Rightarrow> Some st
     | Some (offsetr, st) \<Rightarrow>
         let active = norcow_active_sector st; ws = norcow_write_sector st in do {
           fl \<leftarrow> compact_loop (nc_flash st) active ws offsetr NORCOW_STORAGE_START;
           fl \<leftarrow> erase_sector fl active False;
           free \<leftarrow> find_free_offset fl ws;
           Some (st\<lparr>nc_flash := fl, norcow_active_sector := ws,
                    norcow_active_version := NORCOW_VERSION, norcow_free_offset := free\<rparr>) } }"

definition norcow_wipe :: "norcow \<Rightarrow> norcow option" where
  "norcow_wipe st = do {
     fl \<leftarrow> erase_sector (nc_flash st) (norcow_active_sector st) True;
     fl \<leftarrow> foldl (\<lambda>r i. do { fl \<leftarrow> r; if i \<noteq> norcow_active_sector st then erase_sector fl i False else Some fl })
             (Some fl) [0..<NORCOW_SECTOR_COUNT];
     Some (st\<lparr>nc_flash := fl, norcow_active_version := NORCOW_VERSION,
              norcow_write_sector := norcow_active_sector st, norcow_free_offset := NORCOW_STORAGE_START\<rparr>) }"

fun norcow_init_loop ::
  "norcow \<Rightarrow> nat list \<Rightarrow> bool \<Rightarrow> u32 \<Rightarrow> (norcow \<times> bool \<times> u32) option" where
  "norcow_init_loop st [] found version = Some (st, found, version)"
| "norcow_init_loop st (i # is) found version = do {
     r \<leftarrow> find_start_offset (nc_flash st) i;
     case r of None \<Rightarrow> norcow_init_loop st is found version
     | Some (offset, v) \<Rightarrow>
         let st = st\<lparr>norcow_active_version := v\<rparr> in
         if v \<ge> version then norcow_init_loop (st\<lparr>norcow_active_sector := i\<rparr>) is True v
         else norcow_init_loop st is found version }"

definition norcow_init :: "norcow \<Rightarrow> (norcow \<times> u32) option" where
  "norcow_init st = do {
     (st, found, version) \<leftarrow> norcow_init_loop (st\<lparr>norcow_active_sector := 0\<rparr>) [0..<NORCOW_SECTOR_COUNT] False 0;
     if \<not> found \<or> version > NORCOW_VERSION then do {
       st \<leftarrow> norcow_wipe st;
       Some (st, NORCOW_VERSION) }
     else if version < NORCOW_VERSION then
       let ws = (norcow_active_sector st + 1) mod NORCOW_SECTOR_COUNT in do {
         fl \<leftarrow> erase_sector (nc_flash st) ws True;
         free \<leftarrow> find_free_offset fl ws;
         Some (st\<lparr>nc_flash := fl, norcow_write_sector := ws, norcow_free_offset := free\<rparr>, version) }
     else do {
       free \<leftarrow> find_free_offset (nc_flash st) (norcow_active_sector st);
       Some (st\<lparr>norcow_write_sector := norcow_active_sector st, norcow_free_offset := free\<rparr>, version) } }"

definition norcow_get :: "norcow \<Rightarrow> u16 \<Rightarrow> (nat \<times> nat) option option" where
  "norcow_get st key = find_item (nc_flash st) (norcow_active_sector st) key"

text \<open>In version 0 a key may occur several times; only its last instance counts.\<close>

partial_function (option) newer_loop :: "flash \<Rightarrow> nat \<Rightarrow> u16 \<Rightarrow> nat \<Rightarrow> bool option" where
  "newer_loop fl sector key offsetr = do {
     r \<leftarrow> read_item fl sector offsetr;
     case r of None \<Rightarrow> Some False
     | Some (k, v, l, pos) \<Rightarrow> if key = k then Some True else newer_loop fl sector key pos }"

partial_function (option) get_next_loop ::
  "norcow \<Rightarrow> nat \<Rightarrow> (nat \<times> u16 \<times> nat \<times> nat) option option" where
  "get_next_loop st offset = do {
     r \<leftarrow> read_item (nc_flash st) (norcow_active_sector st) offset;
     case r of None \<Rightarrow> Some None
     | Some (key, v, l, pos) \<Rightarrow>
         if key = NORCOW_KEY_DELETED then get_next_loop st pos
         else if norcow_active_version st = 0 then do {
           newer \<leftarrow> newer_loop (nc_flash st) (norcow_active_sector st) key pos;
           if newer then get_next_loop st pos else Some (Some (pos, key, v, l)) }
         else Some (Some (pos, key, v, l)) }"

definition norcow_get_next :: "norcow \<Rightarrow> nat \<Rightarrow> (nat \<times> u16 \<times> nat \<times> nat) option option" where
  "norcow_get_next st offset =
     (if offset = 0 then do {
        start \<leftarrow> find_start_offset (nc_flash st) (norcow_active_sector st);
        case start of None \<Rightarrow> Some None
        | Some (offset, version) \<Rightarrow> get_next_loop st offset }
      else get_next_loop st offset)"

text \<open>The in-place update stops at the first byte the flash refuses; what it wrote stays.\<close>

fun update_bytes_loop :: "flash \<Rightarrow> nat \<Rightarrow> nat \<Rightarrow> u8 list \<Rightarrow> bool \<times> flash" where
  "update_bytes_loop fl s offset [] = (True, fl)"
| "update_bytes_loop fl s offset (b # bs) =
     (case flash_write_byte fl s offset b of
        None \<Rightarrow> (False, fl)
      | Some fl \<Rightarrow> update_bytes_loop fl s (offset + 1) bs)"

text \<open>Clearing a value: words of zeros from \<open>offset\<close> while it is below \<open>end\<close>.\<close>

fun zero_words :: "flash \<Rightarrow> nat \<Rightarrow> nat \<Rightarrow> nat \<Rightarrow> flash option" where
  "zero_words fl s offset 0 = Some fl"
| "zero_words fl s offset (Suc n) = do {
     fl \<leftarrow> flash_write_word fl s offset 0;
     zero_words fl s (offset + 4) n }"

definition delete_item :: "flash \<Rightarrow> nat \<Rightarrow> nat \<Rightarrow> nat \<Rightarrow> flash option" where
  "delete_item fl s offset len = do {
     ensure flash_unlock_write;
     fl \<leftarrow> flash_write_word fl s (offset - NORCOW_PREFIX_LEN) (push_bit 16 (word_of_nat len));
     fl \<leftarrow> zero_words fl s offset ((len + 3) div 4);
     ensure flash_lock_write;
     Some fl }"

definition sector_offset :: "nat \<Rightarrow> nat \<Rightarrow> nat option" where
  "sector_offset sector p = do {
     base \<leftarrow> norcow_ptr sector 0 NORCOW_SECTOR_SIZE;
     base \<leftarrow> base;
     Some (p - base) }"

definition norcow_set_ex :: "norcow \<Rightarrow> u16 \<Rightarrow> u8 list option \<Rightarrow> nat \<Rightarrow> (bool \<times> bool \<times> norcow) option" where
  "norcow_set_ex st key v len =
     (if key = NORCOW_KEY_FREE then Some (False, False, st)
      else let sector_num = norcow_sectors ! norcow_write_sector st in do {
        item \<leftarrow> find_item (nc_flash st) (norcow_write_sector st) key;
        (ret, fl) \<leftarrow> (case item of
            Some (p, len_old) \<Rightarrow> do {
              offset \<leftarrow> sector_offset (norcow_write_sector st) p;
              Some (case v of
                  Some d \<Rightarrow> if len_old = len then update_bytes_loop (nc_flash st) sector_num offset (take len d)
                            else (False, nc_flash st)
                | None \<Rightarrow> (False, nc_flash st)) }
          | None \<Rightarrow> Some (False, nc_flash st));
        if ret then Some (True, item \<noteq> None, st\<lparr>nc_flash := fl\<rparr>)
        else do {
          fl \<leftarrow> (case item of
              Some (p, len_old) \<Rightarrow> do {
                offset \<leftarrow> sector_offset (norcow_write_sector st) p;
                delete_item fl sector_num offset len_old }
            | None \<Rightarrow> Some fl);
          st \<leftarrow> (if norcow_free_offset st + NORCOW_PREFIX_LEN + len > NORCOW_SECTOR_SIZE
                 then compact (st\<lparr>nc_flash := fl\<rparr>) else Some (st\<lparr>nc_flash := fl\<rparr>));
          (ret, fl, pos) \<leftarrow> write_item (nc_flash st) (norcow_write_sector st) (norcow_free_offset st) key v len;
          Some (ret, item \<noteq> None,
            (if ret then st\<lparr>nc_flash := fl, norcow_free_offset := pos\<rparr> else st\<lparr>nc_flash := fl\<rparr>)) } })"

definition norcow_set :: "norcow \<Rightarrow> u16 \<Rightarrow> u8 list option \<Rightarrow> nat \<Rightarrow> (bool \<times> norcow) option" where
  "norcow_set st key v len = do { (ret, found, st) \<leftarrow> norcow_set_ex st key v len; Some (ret, st) }"

definition norcow_delete :: "norcow \<Rightarrow> u16 \<Rightarrow> (bool \<times> norcow) option" where
  "norcow_delete st key =
     (if key = NORCOW_KEY_FREE then Some (False, st)
      else do {
        item \<leftarrow> find_item (nc_flash st) (norcow_write_sector st) key;
        case item of None \<Rightarrow> Some (False, st)
        | Some (p, len) \<Rightarrow> do {
            offset \<leftarrow> sector_offset (norcow_write_sector st) p;
            fl \<leftarrow> delete_item (nc_flash st) (norcow_sectors ! norcow_write_sector st) offset len;
            Some (True, st\<lparr>nc_flash := fl\<rparr>) } })"

definition norcow_update_word :: "norcow \<Rightarrow> u16 \<Rightarrow> nat \<Rightarrow> u32 \<Rightarrow> (bool \<times> norcow) option" where
  "norcow_update_word st key offset v = do {
     item \<leftarrow> find_item (nc_flash st) (norcow_write_sector st) key;
     case item of None \<Rightarrow> Some (False, st)
     | Some (p, len) \<Rightarrow>
         if offset mod 4 \<noteq> 0 \<or> offset \<ge> len then Some (False, st)
         else do {
           base \<leftarrow> sector_offset (norcow_write_sector st) p;
           ensure flash_unlock_write;
           fl \<leftarrow> flash_write_word (nc_flash st) (norcow_sectors ! norcow_write_sector st) (base + offset) v;
           ensure flash_lock_write;
           Some (True, st\<lparr>nc_flash := fl\<rparr>) } }"

definition norcow_update_bytes :: "norcow \<Rightarrow> u16 \<Rightarrow> nat \<Rightarrow> u8 list \<Rightarrow> (bool \<times> norcow) option" where
  "norcow_update_bytes st key offset data = do {
     item \<leftarrow> find_item (nc_flash st) (norcow_write_sector st) key;
     case item of None \<Rightarrow> Some (False, st)
     | Some (p, allocated_len) \<Rightarrow>
         if offset + length data > allocated_len then Some (False, st)
         else do {
           base \<leftarrow> sector_offset (norcow_write_sector st) p;
           ensure flash_unlock_write;
           fl \<leftarrow> flash_write_bytes (nc_flash st) (norcow_sectors ! norcow_write_sector st) (base + offset) data;
           ensure flash_lock_write;
           Some (True, st\<lparr>nc_flash := fl\<rparr>) } }"

definition norcow_upgrade_finish :: "norcow \<Rightarrow> (bool \<times> norcow) option" where
  "norcow_upgrade_finish st = do {
     fl \<leftarrow> erase_sector (nc_flash st) (norcow_active_sector st) False;
     Some (True, st\<lparr>nc_flash := fl, norcow_active_sector := norcow_write_sector st,
                     norcow_active_version := NORCOW_VERSION\<rparr>) }"

end
