(* ===== verification/Norcow_Log.thy ===== *)
theory Norcow_Log
  imports Norcow
begin

text \<open>
  The contents of a norcow sector as a list of items, and the effect of the sector-level
  routines of \<open>storage/norcow.c\<close> on it.
\<close>

section \<open>Encoded items\<close>

type_synonym item = "u16 \<times> u8 list"

definition item_prefix :: "u16 \<Rightarrow> nat \<Rightarrow> u32" where
  "item_prefix key len = push_bit 16 (word_of_nat len) OR ucast key"

fun enc_item :: "item \<Rightarrow> u8 list" where
  "enc_item (k, v) = word_bytes (item_prefix k (length v)) @ v @ replicate (align4 (length v) - length v) 0"

abbreviation enc_items :: "item list \<Rightarrow> u8 list" where
  "enc_items its \<equiv> concat (map enc_item its)"

definition nsec :: "flash \<Rightarrow> nat \<Rightarrow> u8 list" where
  "nsec fl i = sector_bytes fl (norcow_sectors ! i)"

definition nbase :: "nat \<Rightarrow> nat" where
  "nbase i = sector_base (norcow_sectors ! i)"

lemma norcow_sector:
  assumes "i < 2"
  shows "norcow_sectors ! i < 24" "flash_sector_size (norcow_sectors ! i) = 65536"
proof -
  have "i = 0 \<or> i = 1" using assms by auto
  then show "norcow_sectors ! i < 24" "flash_sector_size (norcow_sectors ! i) = 65536"
    by (auto simp: norcow_sectors_def flash_sector_size_def FLASH_SECTOR_TABLE_def)
qed

lemma norcow_sector_neq: "i < 2 \<Longrightarrow> j < 2 \<Longrightarrow> norcow_sectors ! j = norcow_sectors ! i \<longleftrightarrow> j = i"
  by (auto simp: norcow_sectors_def less_Suc_eq numeral_2_eq_2)

lemma length_nsec [simp]: "i < 2 \<Longrightarrow> length (nsec fl i) = 65536"
  by (simp add: nsec_def norcow_sector)

lemma nsec_nth: "i < 2 \<Longrightarrow> o' < 65536 \<Longrightarrow> fl (nbase i + o') = nsec fl i ! o'"
  by (simp add: nsec_def nbase_def sector_bytes_nth norcow_sector)

lemma norcow_ptr_eq:
  assumes "i < 2" "o' + n < 2 ^ 31"
  shows "norcow_ptr i o' n = Some (if o' + n \<le> 65536 then Some (nbase i + o') else None)"
  using assms by (simp add: norcow_ptr_def ensure_def flash_get_address_eq norcow_sector nbase_def)

lemma flash_bytes_nsec:
  assumes "i < 2" "o' + n \<le> 65536"
  shows "flash_bytes fl (nbase i + o') n = take n (drop o' (nsec fl i))"
  using assms nsec_nth [OF assms(1), of _ fl]
  by (intro nth_equalityI) (simp_all add: flash_bytes_def add.assoc)

lemma align4_ge: "n \<le> align4 n" "align4 n < n + 4" "4 dvd align4 n"
  by (simp_all add: align4_def)

lemma align4_add: "4 dvd m \<Longrightarrow> align4 (m + n) = m + align4 n"
  by (elim dvdE) (simp add: align4_def, presburger)

lemma length_enc_item: "length (enc_item (k, v)) = 4 + align4 (length v)"
  using align4_ge(1) [of "length v"] by simp

lemma enc_item_dvd [simp]: "4 dvd length (enc_item it)"
  using align4_ge(3) by (cases it) (simp add: length_enc_item del: enc_item.simps)

lemma enc_items_dvd [simp]: "4 dvd length (enc_items its)"
  by (induction its) simp_all

section \<open>Reading items\<close>

lemma item_prefix_bytes:
  "word_bytes (item_prefix k n)
     = [ucast k, ucast (drop_bit 8 k), ucast (word_of_nat n :: u16), ucast (drop_bit 8 (word_of_nat n :: u16))]"
proof -
  have "ucast (item_prefix k n) = (ucast k :: u8)"
    by (rule bit_word_eqI) (auto simp: item_prefix_def bit_or_iff bit_push_bit_iff bit_ucast_iff)
  moreover have "ucast (drop_bit 8 (item_prefix k n)) = (ucast (drop_bit 8 k) :: u8)"
    by (rule bit_word_eqI) (auto simp: item_prefix_def bit_or_iff bit_push_bit_iff bit_ucast_iff bit_drop_bit_eq)
  moreover have "ucast (drop_bit 16 (item_prefix k n)) = (ucast (word_of_nat n :: u16) :: u8)"
    by (rule bit_word_eqI) (auto simp: item_prefix_def bit_or_iff bit_push_bit_iff bit_ucast_iff bit_drop_bit_eq bit_of_nat_iff
        dest: bit_imp_le_length)
  moreover have "ucast (drop_bit 24 (item_prefix k n)) = (ucast (drop_bit 8 (word_of_nat n :: u16)) :: u8)"
    by (rule bit_word_eqI) (auto simp: item_prefix_def bit_or_iff bit_push_bit_iff bit_ucast_iff bit_drop_bit_eq bit_of_nat_iff
        dest: bit_imp_le_length)
  ultimately show ?thesis by (simp add: word_bytes_def)
qed

lemma u16_of_bytes: "ucast (ucast w :: u8) OR push_bit 8 (ucast (ucast (drop_bit 8 w) :: u8)) = (w :: u16)"
  by (rule bit_word_eqI) (auto simp: bit_or_iff bit_push_bit_iff bit_ucast_iff bit_drop_bit_eq)

lemma read_item_enc:
  assumes "i < 2" "nsec fl i = pre @ enc_item (k, v) @ post" "k \<noteq> 0xFFFF" "length v < 65536" "4 dvd length pre"
  shows "read_item fl i (length pre)
    = Some (Some (k, nbase i + length pre + 4, length v, length pre + length (enc_item (k, v))))"
proof -
  let ?o = "length pre" and ?l = "word_of_nat (length v) :: u16"
  have len: "65536 = ?o + 4 + align4 (length v) + length post"
    using arg_cong [OF assms(2), of length] assms(1) by (simp add: length_enc_item del: enc_item.simps)
  have "nsec fl i = pre @ [ucast k, ucast (drop_bit 8 k), ucast ?l, ucast (drop_bit 8 ?l)] @ v
      @ replicate (align4 (length v) - length v) 0 @ post"
    using assms(2) by (simp add: item_prefix_bytes)
  then have b: "fl (nbase i + ?o) = ucast k" "fl (nbase i + ?o + 1) = ucast (drop_bit 8 k)"
    "fl (nbase i + ?o + 2) = ucast ?l" "fl (nbase i + ?o + 3) = ucast (drop_bit 8 ?l)"
    using nsec_nth [OF assms(1), of ?o fl] nsec_nth [OF assms(1), of "?o + 1" fl]
      nsec_nth [OF assms(1), of "?o + 2" fl] nsec_nth [OF assms(1), of "?o + 3" fl] len
    by (simp_all add: nth_append numeral_2_eq_2 numeral_3_eq_3)
  have k: "flash_load16 fl (nbase i + ?o) = k" using b u16_of_bytes [of k] by (simp add: flash_load16_def)
  have l: "flash_load16 fl (nbase i + (?o + 2)) = ?l"
    using b u16_of_bytes [of ?l] by (simp add: flash_load16_def numeral_2_eq_2 numeral_3_eq_3)
  have u: "unat ?l = length v" using assms(4) by (simp add: unat_of_nat take_bit_nat_def)
  have p: "norcow_ptr i ?o 2 = Some (Some (nbase i + ?o))" "norcow_ptr i (?o + 2) 2 = Some (Some (nbase i + (?o + 2)))"
    "norcow_ptr i (?o + 4) (length v) = Some (Some (nbase i + (?o + 4)))"
    using len align4_ge(1) [of "length v"] by (subst norcow_ptr_eq [OF assms(1)]; simp)+
  have "?o + 2 + 2 + length v = ?o + 4 + length v" by simp
  then have "align4 (?o + 2 + 2 + length v) = ?o + (4 + align4 (length v))"
    using align4_add [of "?o + 4" "length v"] assms(5) by (simp only:) simp
  then show ?thesis
    using assms(3) by (simp add: read_item_def p k l u Let_def length_enc_item add.assoc del: enc_item.simps add_2_eq_Suc add_2_eq_Suc')
qed

lemma read_item_free:
  assumes "i < 2" "nsec fl i = pre @ replicate n 0xFF" "4 dvd length pre"
  shows "read_item fl i (length pre) = Some None"
proof -
  let ?o = "length pre"
  have len: "65536 = ?o + n" using arg_cong [OF assms(2), of length] assms(1) by simp
  show ?thesis
  proof (cases "n = 0")
    case True
    then have "norcow_ptr i ?o 2 = Some None" using len by (simp add: norcow_ptr_eq [OF assms(1)])
    then show ?thesis by (simp add: read_item_def)
  next
    case False
    have "4 dvd n" using len assms(3) by (metis dvd_add_right_iff dvd_triv_left numeral_Bit0 mult_2 dvd_def mult.commute nat_dvd_not_less)
    then have n: "4 \<le> n" using False by (auto simp: dvd_imp_le)
    then have "norcow_ptr i ?o 2 = Some (Some (nbase i + ?o))" using len by (simp add: norcow_ptr_eq [OF assms(1)])
    moreover have "fl (nbase i + ?o) = 0xFF" "fl (nbase i + ?o + 1) = 0xFF"
      using nsec_nth [OF assms(1), of ?o fl] nsec_nth [OF assms(1), of "?o + 1" fl] len n unfolding assms(2)
      by (simp_all add: nth_append)
    ultimately show ?thesis by (simp add: read_item_def flash_load16_def Let_def)
  qed
qed

section \<open>A sector as a log\<close>

definition item_ok :: "item \<Rightarrow> bool" where
  "item_ok it \<longleftrightarrow> fst it \<noteq> 0xFFFF \<and> length (snd it) < 65536"

definition header :: "u8 list" where
  "header = word_bytes NORCOW_MAGIC @ word_bytes (NOT NORCOW_VERSION)"

lemma length_header [simp]: "length header = 8"
  by (simp add: header_def)

definition log_ok :: "flash \<Rightarrow> nat \<Rightarrow> item list \<Rightarrow> bool" where
  "log_ok fl i its \<longleftrightarrow> (\<forall>it \<in> set its. item_ok it) \<and>
     (\<exists>n. nsec fl i = header @ enc_items its @ replicate n 0xFF)"

definition log_end :: "item list \<Rightarrow> nat" where
  "log_end its = 8 + length (enc_items its)"

lemma log_end_simps [simp]: "log_end [] = 8" "log_end (its @ jts) = log_end its + length (enc_items jts)"
  by (simp_all add: log_end_def)

lemma log_end_dvd [simp]: "4 dvd log_end its"
  unfolding log_end_def using enc_items_dvd by (metis dvd_add dvd_add_right_iff dvd_refl numeral_Bit0)

lemma log_end_le:
  assumes "log_ok fl i its" "i < 2"
  shows "log_end its \<le> 65536"
proof -
  obtain n where "nsec fl i = header @ enc_items its @ replicate n 0xFF" using assms(1) by (auto simp: log_ok_def)
  from arg_cong [OF this, of length] assms(2) show ?thesis by (simp add: log_end_def)
qed

lemma log_split:
  assumes "log_ok fl i (as @ it # bs)"
  shows "\<exists>pre post. nsec fl i = pre @ enc_item it @ post \<and> length pre = log_end as \<and> item_ok it
    \<and> 4 dvd length pre"
proof -
  obtain n where n: "nsec fl i = header @ enc_items (as @ it # bs) @ replicate n 0xFF"
    using assms by (auto simp: log_ok_def)
  have "nsec fl i = (header @ enc_items as) @ enc_item it @ (enc_items bs @ replicate n 0xFF)" using n by simp
  moreover have "length (header @ enc_items as) = log_end as" by (simp add: log_end_def)
  moreover have "item_ok it" using assms by (simp add: log_ok_def)
  ultimately show ?thesis using log_end_dvd [of as] by metis
qed

lemma read_item_log:
  assumes "log_ok fl i (as @ (k, v) # bs)" "i < 2"
  shows "read_item fl i (log_end as) = Some (Some (k, nbase i + log_end as + 4, length v, log_end (as @ [(k, v)])))"
    and "flash_bytes fl (nbase i + log_end as + 4) (length v) = v"
proof -
  obtain pre post where p: "nsec fl i = pre @ enc_item (k, v) @ post" "length pre = log_end as"
    "item_ok (k, v)" "4 dvd length pre" using log_split [OF assms(1)] by auto
  show "read_item fl i (log_end as) = Some (Some (k, nbase i + log_end as + 4, length v, log_end (as @ [(k, v)])))"
    using read_item_enc [OF assms(2) p(1) _ _ p(4)] p(2,3) by (simp add: item_ok_def del: enc_item.simps)
  have len: "65536 = length pre + 4 + align4 (length v) + length post"
    using arg_cong [OF p(1), of length] assms(2) by (simp add: length_enc_item del: enc_item.simps)
  have "take (length v) (drop (length pre + 4) (nsec fl i)) = v" unfolding p(1) by simp
  then show "flash_bytes fl (nbase i + log_end as + 4) (length v) = v"
    using flash_bytes_nsec [OF assms(2), of "length pre + 4" "length v" fl] p(2) len align4_ge(1) [of "length v"]
    by (simp add: add.assoc)
qed

lemma read_item_log_end:
  assumes "log_ok fl i its" "i < 2"
  shows "read_item fl i (log_end its) = Some None"
proof -
  obtain n where n: "nsec fl i = (header @ enc_items its) @ replicate n 0xFF" using assms(1) by (auto simp: log_ok_def)
  have "length (header @ enc_items its) = log_end its" by (simp add: log_end_def)
  then show ?thesis using read_item_free [OF assms(2) n] log_end_dvd [of its] by simp
qed

lemma u32_of_bytes:
  "ucast (ucast w :: u8) OR push_bit 8 (ucast (ucast (drop_bit 8 w) :: u8))
     OR push_bit 16 (ucast (ucast (drop_bit 16 w) :: u8)) OR push_bit 24 (ucast (ucast (drop_bit 24 w) :: u8)) = (w :: u32)"
  (is "?l = w")
proof (rule bit_word_eqI)
  fix n assume n: "n < LENGTH(32)"
  consider "n < 8" | "8 \<le> n" "n < 16" | "16 \<le> n" "n < 24" | "24 \<le> n" by linarith
  then show "bit ?l n \<longleftrightarrow> bit w n"
    by cases (use n in \<open>simp_all add: bit_or_iff bit_push_bit_iff bit_ucast_iff bit_drop_bit_eq less_diff_conv2\<close>)
qed

lemma nsec_word_le:
  assumes "i < 2" "nsec fl i = pre @ word_bytes w @ post"
  shows "flash_load32 fl (nbase i + length pre) = w"
proof -
  let ?o = "length pre"
  have len: "65536 = ?o + 4 + length post" using arg_cong [OF assms(2), of length] assms(1) by simp
  have b: "fl (nbase i + ?o + j) = word_bytes w ! j" if "j < 4" for j
    using nsec_nth [OF assms(1), of "?o + j" fl] that len unfolding assms(2) by (simp add: nth_append add.assoc)
  have "flash_load32 fl (nbase i + ?o) = ucast (ucast w :: u8) OR push_bit 8 (ucast (ucast (drop_bit 8 w) :: u8))
      OR push_bit 16 (ucast (ucast (drop_bit 16 w) :: u8)) OR push_bit 24 (ucast (ucast (drop_bit 24 w) :: u8))"
    using b [of 0] b [of 1] b [of 2] b [of 3] by (simp add: flash_load32_def nth_word_bytes nth_word_bytes [unfolded One_nat_def])
  also have "\<dots> = w" by (rule u32_of_bytes)
  finally show ?thesis .
qed

lemma find_start_log:
  assumes "log_ok fl i its" "i < 2"
  shows "find_start_offset fl i = Some (Some (log_end [], NORCOW_VERSION))"
proof -
  obtain n where n: "nsec fl i = header @ enc_items its @ replicate n 0xFF" using assms(1) by (auto simp: log_ok_def)
  then have "flash_load32 fl (nbase i) = NORCOW_MAGIC" "flash_load32 fl (nbase i + 4) = NOT NORCOW_VERSION"
    using nsec_word_le [OF assms(2), of fl "[]" NORCOW_MAGIC] nsec_word_le [OF assms(2), of fl "word_bytes NORCOW_MAGIC" "NOT NORCOW_VERSION"]
    by (simp_all add: header_def)
  then show ?thesis using assms(2) by (simp add: find_start_offset_def norcow_ptr_eq)
qed

section \<open>Loops over the log\<close>

text \<open>The position of the last item with a key, as the loop computes it.\<close>

primrec find_pos :: "nat \<Rightarrow> u16 \<Rightarrow> item list \<Rightarrow> item list \<Rightarrow> (nat \<times> nat) option \<Rightarrow> (nat \<times> nat) option" where
  "find_pos i key [] as found = found"
| "find_pos i key (it # bs) as found =
     find_pos i key bs (as @ [it])
       (if key = fst it then Some (nbase i + log_end as + 4, length (snd it)) else found)"

lemma find_pos_absent: "key \<notin> fst ` set bs \<Longrightarrow> find_pos i key bs as found = found"
  by (induction bs arbitrary: as) auto

lemma find_pos_present:
  "key \<notin> fst ` set ds \<Longrightarrow>
     find_pos i key (cs @ (key, v) # ds) as found = Some (nbase i + log_end (as @ cs) + 4, length v)"
  by (induction cs arbitrary: as found) (auto simp: find_pos_absent)

lemma find_item_loop_log:
  assumes "log_ok fl i (as @ bs)" "i < 2"
  shows "find_item_loop fl i key (log_end as) found = Some (find_pos i key bs as found)"
  using assms
proof (induction bs arbitrary: as found)
  case Nil
  then show ?case using read_item_log_end [of fl i as] by (subst find_item_loop.simps) simp
next
  case (Cons it bs)
  have "read_item fl i (log_end as) = Some (Some (fst it, nbase i + log_end as + 4, length (snd it), log_end (as @ [it])))"
    using read_item_log(1) [of fl i as "fst it" "snd it" bs] Cons.prems by simp
  then show ?case using Cons.IH [of "as @ [it]"] Cons.prems by (subst find_item_loop.simps) simp
qed

lemma find_item_log:
  assumes "log_ok fl i its" "i < 2"
  shows "find_item fl i key = Some (find_pos i key its [] None)"
  using find_start_log [OF assms] find_item_loop_log [of fl i "[]" its] assms by (simp add: find_item_def)

lemma find_free_log:
  assumes "log_ok fl i its" "i < 2"
  shows "find_free_offset fl i = Some (log_end its)"
proof -
  have "find_free_loop fl i (log_end as) = Some (log_end (as @ bs))" if "log_ok fl i (as @ bs)" for as bs
    using that
  proof (induction bs arbitrary: as)
    case Nil
    then show ?case using read_item_log_end [of fl i as] assms(2) by (subst find_free_loop.simps) simp
  next
    case (Cons it bs)
    have "read_item fl i (log_end as) = Some (Some (fst it, nbase i + log_end as + 4, length (snd it), log_end (as @ [it])))"
      using read_item_log(1) [of fl i as "fst it" "snd it" bs] Cons.prems assms(2) by simp
    then show ?case using Cons.IH [of "as @ [it]"] Cons.prems by (subst find_free_loop.simps) simp
  qed
  from this [of "[]" its] show ?thesis using assms find_start_log [OF assms] by (simp add: find_free_offset_def)
qed

section \<open>Writing\<close>

text \<open>\<open>only fl fl' i\<close>: a change of the flash that leaves the other norcow sector alone.\<close>

definition only_sector :: "nat \<Rightarrow> flash \<Rightarrow> flash \<Rightarrow> bool" where
  "only_sector i fl fl' \<longleftrightarrow> (\<forall>j < 2. j \<noteq> i \<longrightarrow> nsec fl' j = nsec fl j)"

lemma only_sector_refl [simp]: "only_sector i fl fl"
  by (simp add: only_sector_def)

lemma only_sector_trans: "only_sector i fl fl' \<Longrightarrow> only_sector i fl' fl'' \<Longrightarrow> only_sector i fl fl''"
  by (simp add: only_sector_def)

lemma write_byte_nsec:
  assumes "i < 2" "nsec fl i = pre @ b # post" "b AND d = d"
  shows "\<exists>fl'. flash_write_byte fl (norcow_sectors ! i) (length pre) d = Some fl'
    \<and> nsec fl' i = pre @ d # post \<and> only_sector i fl fl'"
proof -
  have len: "65536 = length pre + 1 + length post" using arg_cong [OF assms(2), of length] assms(1) by simp
  have "sector_bytes fl (norcow_sectors ! i) ! length pre AND d = d"
    using assms(2,3) by (simp add: nsec_def nth_append)
  then obtain fl' where "flash_write_byte fl (norcow_sectors ! i) (length pre) d = Some fl'"
    "sector_bytes fl' (norcow_sectors ! i) = (sector_bytes fl (norcow_sectors ! i))[length pre := d]"
    "\<forall>t < 24. t \<noteq> norcow_sectors ! i \<longrightarrow> sector_bytes fl' t = sector_bytes fl t"
    using flash_write_byte_correct [of "norcow_sectors ! i" "length pre" fl d] norcow_sector [OF assms(1)] len by auto
  then show ?thesis
    using assms(1,2) norcow_sector by (auto simp: nsec_def only_sector_def norcow_sector_neq list_update_append)
qed

lemma write_byte_nsec_refused:
  assumes "i < 2" "nsec fl i = pre @ b # post" "b AND d \<noteq> d"
  shows "flash_write_byte fl (norcow_sectors ! i) (length pre) d = None"
proof -
  have len: "65536 = length pre + 1 + length post" using arg_cong [OF assms(2), of length] assms(1) by simp
  have "sector_bytes fl (norcow_sectors ! i) ! length pre AND d \<noteq> d"
    using assms(2,3) by (simp add: nsec_def nth_append)
  then show ?thesis
    using flash_write_byte_refused [of "norcow_sectors ! i" "length pre" fl d] norcow_sector [OF assms(1)] len by simp
qed

lemma write_word_nsec:
  assumes "i < 2" "nsec fl i = pre @ old @ post" "length old = 4" "4 dvd length pre"
    and "\<forall>j < 4. old ! j AND word_bytes w ! j = word_bytes w ! j"
  shows "\<exists>fl'. flash_write_word fl (norcow_sectors ! i) (length pre) w = Some fl'
    \<and> nsec fl' i = pre @ word_bytes w @ post \<and> only_sector i fl fl'"
proof -
  obtain fl' where "flash_write_word fl (norcow_sectors ! i) (length pre) w = Some fl'"
    "sector_bytes fl' (norcow_sectors ! i) = pre @ word_bytes w @ post"
    "\<forall>t < 24. t \<noteq> norcow_sectors ! i \<longrightarrow> sector_bytes fl' t = sector_bytes fl t"
    using flash_write_word_correct [of "norcow_sectors ! i" pre old fl post w] assms norcow_sector [OF assms(1)]
    by (auto simp: nsec_def dvd_eq_mod_eq_0)
  then show ?thesis
    using assms(1) norcow_sector by (auto simp: nsec_def only_sector_def norcow_sector_neq)
qed

lemma write_bytes_nsec:
  assumes "i < 2" "nsec fl i = pre @ old @ post" "length old = length bs"
    and "\<forall>(a, d) \<in> set (zip old bs). a AND d = d"
  shows "\<exists>fl'. flash_write_bytes fl (norcow_sectors ! i) (length pre) bs = Some fl'
    \<and> nsec fl' i = pre @ bs @ post \<and> only_sector i fl fl'"
  using assms(2-4)
proof (induction bs arbitrary: fl pre old)
  case Nil
  then show ?case by simp
next
  case (Cons d bs)
  obtain a old' where old: "old = a # old'" using Cons.prems(2) by (cases old) auto
  obtain fl1 where f1: "flash_write_byte fl (norcow_sectors ! i) (length pre) d = Some fl1"
    "nsec fl1 i = (pre @ [d]) @ old' @ post" "only_sector i fl fl1"
    using write_byte_nsec [OF assms(1), of fl pre a "old' @ post" d] Cons.prems old by auto
  obtain fl2 where "flash_write_bytes fl1 (norcow_sectors ! i) (length (pre @ [d])) bs = Some fl2"
    "nsec fl2 i = (pre @ [d]) @ bs @ post" "only_sector i fl1 fl2"
    using Cons.IH [OF f1(2)] Cons.prems old by auto
  then show ?case using f1 only_sector_trans by auto
qed

section \<open>Sector-level routines on the log\<close>

lemma and_FF [simp]: "(0xFF :: u8) AND d = d"
proof -
  have "(0xFF :: u8) = - 1" by simp
  then show ?thesis by (simp only: and.left_neutral)
qed

lemma zip_FF: "\<forall>(a, d) \<in> set (zip (replicate n (0xFF :: u8)) bs). a AND d = d"
  by (auto dest: set_zip_leftD)

lemma align4_le: "4 dvd m \<Longrightarrow> n \<le> m \<Longrightarrow> align4 n \<le> m"
proof (elim dvdE)
  fix k assume "n \<le> m" "m = 4 * k"
  then have "(n + 3) div 4 \<le> (4 * k + 3) div 4" by (intro div_le_mono) simp
  also have "(4 * k + 3) div 4 = k" by simp
  finally show "align4 n \<le> m" using \<open>m = 4 * k\<close> by (simp add: align4_def)
qed

lemma norcow_write_FF:
  assumes "i < 2" "nsec fl i = pre @ replicate n 0xFF" "4 dvd length pre"
    and "length pre + 4 + len \<le> 65536" "\<forall>d. v = Some d \<longrightarrow> length d = len"
  shows "\<exists>fl'. norcow_write fl i (length pre) w v len = Some (True, fl')
    \<and> nsec fl' i = pre @ word_bytes w @ (case v of Some d \<Rightarrow> d | None \<Rightarrow> replicate len 0xFF)
        @ replicate (align4 len - len) 0 @ replicate (n - 4 - align4 len) 0xFF
    \<and> only_sector i fl fl'"
proof -
  let ?s = "norcow_sectors ! i" and ?p = "align4 len - len" and ?r = "n - 4 - align4 len"
  let ?d = "case v of Some d \<Rightarrow> d | None \<Rightarrow> replicate len 0xFF"
  have d: "length ?d = len" using assms(5) by (auto split: option.splits)
  have N: "65536 = length pre + n" using arg_cong [OF assms(2), of length] assms(1) by simp
  have "4 dvd (65536 :: nat)" by (rule dvdI [of _ _ 16384]) simp
  then have "4 dvd 65536 - length pre - 4" using assms(3) by (intro dvd_diff_nat) simp_all
  then have "align4 len \<le> 65536 - length pre - 4" using assms(4) by (intro align4_le) simp_all
  then have n: "n = 4 + (len + (?p + ?r))" using N assms(4) align4_ge(1) [of len] by simp
  have "nsec fl i = pre @ replicate 4 0xFF @ replicate (len + (?p + ?r)) 0xFF"
    unfolding assms(2) using n by (metis replicate_add)
  then obtain fl1 where 1: "flash_write_word fl ?s (length pre) w = Some fl1"
    "nsec fl1 i = pre @ word_bytes w @ replicate (len + (?p + ?r)) 0xFF" "only_sector i fl fl1"
    using write_word_nsec [OF assms(1) _ _ assms(3), of fl "replicate 4 0xFF" _ w] by auto
  have e1: "nsec fl1 i = (pre @ word_bytes w) @ replicate len 0xFF @ replicate (?p + ?r) 0xFF"
    using 1(2) by (simp add: replicate_add)
  obtain fl2 where 2: "(case v of Some d \<Rightarrow> flash_write_bytes fl1 ?s (length pre + 4) (take len d) | None \<Rightarrow> Some fl1) = Some fl2"
    "nsec fl2 i = (pre @ word_bytes w) @ ?d @ replicate (?p + ?r) 0xFF" "only_sector i fl1 fl2"
  proof (cases v)
    case None
    then show ?thesis using that [of fl1] e1 by simp
  next
    case (Some e)
    then show ?thesis
      using that write_bytes_nsec [OF assms(1) e1, of e] zip_FF [of len e] assms(5) by auto
  qed
  have "nsec fl2 i = (pre @ word_bytes w @ ?d) @ replicate ?p 0xFF @ replicate ?r 0xFF"
    using 2(2) by (simp add: replicate_add)
  then obtain fl3 where 3: "flash_write_bytes fl2 ?s (length (pre @ word_bytes w @ ?d)) (replicate ?p 0) = Some fl3"
    "nsec fl3 i = (pre @ word_bytes w @ ?d) @ replicate ?p 0 @ replicate ?r 0xFF" "only_sector i fl2 fl3"
    using write_bytes_nsec [OF assms(1), of fl2 _ "replicate ?p 0xFF" "replicate ?r 0xFF" "replicate ?p 0"] zip_FF by auto
  have "length (pre @ word_bytes w @ ?d) = length pre + 4 + len" using d by simp
  then have e3: "flash_write_bytes fl2 ?s (length pre + 4 + len) (replicate ?p 0) = Some fl3" using 3(1) by (simp only:)
  have "align4 (length pre + 4 + len) - (length pre + 4 + len) = ?p"
    using align4_add [of "length pre + 4" len] assms(3) by simp
  then have "norcow_write fl i (length pre) w v len = Some (True, fl3)"
    using assms(1,4) 1(1) 2(1) e3
    by (simp add: norcow_write_def ensure_def flash_unlock_write_def flash_lock_write_def Let_def)
  moreover have "only_sector i fl fl3" using 1(3) 2(3) 3(3) only_sector_trans by blast
  ultimately show ?thesis using 3(2) by auto
qed

lemma log_okI:
  assumes "\<forall>it \<in> set its. item_ok it" "nsec fl i = header @ enc_items its @ replicate n 0xFF"
  shows "log_ok fl i its"
  using assms by (auto simp: log_ok_def)

lemma write_item_log:
  assumes "log_ok fl i its" "i < 2" "k \<noteq> 0xFFFF" "len < 65536"
    and "log_end its + 4 + len \<le> 65536" "\<forall>d. v = Some d \<longrightarrow> length d = len"
  defines "it \<equiv> (k, case v of Some d \<Rightarrow> d | None \<Rightarrow> replicate len 0xFF)"
  shows "\<exists>fl'. write_item fl i (log_end its) k v len = Some (True, fl', log_end (its @ [it]))
    \<and> log_ok fl' i (its @ [it]) \<and> only_sector i fl fl'"
proof -
  obtain n where n: "nsec fl i = (header @ enc_items its) @ replicate n 0xFF" and ok: "\<forall>it \<in> set its. item_ok it"
    using assms(1) by (auto simp: log_ok_def)
  let ?d = "case v of Some d \<Rightarrow> d | None \<Rightarrow> replicate len 0xFF"
  have d: "length ?d = len" using assms(6) by (auto split: option.splits)
  have pre: "length (header @ enc_items its) = log_end its" by (simp add: log_end_def)
  obtain fl' where f: "norcow_write fl i (log_end its) (item_prefix k len) v len = Some (True, fl')"
    "nsec fl' i = (header @ enc_items its) @ word_bytes (item_prefix k len) @ ?d
        @ replicate (align4 len - len) 0 @ replicate (n - 4 - align4 len) 0xFF" "only_sector i fl fl'"
    using norcow_write_FF [OF assms(2) n _ _ assms(6), of "item_prefix k len"] pre assms(5) by auto
  have "log_ok fl' i (its @ [it])"
    using f(2) d ok assms(3,4) by (intro log_okI) (auto simp: it_def item_ok_def)
  moreover have "align4 (log_end its + 4 + len) = log_end (its @ [it])"
    using align4_add [of "log_end its + 4" len] d by (simp add: it_def length_enc_item del: enc_item.simps)
  ultimately show ?thesis using f by (simp add: write_item_def Let_def item_prefix_def)
qed

lemma write_item_no_space:
  "i < 2 \<Longrightarrow> o' + 4 + len > 65536 \<Longrightarrow> \<exists>pos. write_item fl i o' k v len = Some (False, fl, pos)"
  by (simp add: write_item_def norcow_write_def Let_def)

lemma word_bytes_0: "word_bytes 0 = replicate 4 0"
  by (simp add: word_bytes_def numeral_eq_Suc)

lemma zero_words_nsec:
  assumes "i < 2" "nsec fl i = pre @ old @ post" "length old = 4 * n" "4 dvd length pre"
  shows "\<exists>fl'. zero_words fl (norcow_sectors ! i) (length pre) n = Some fl'
    \<and> nsec fl' i = pre @ replicate (4 * n) 0 @ post \<and> only_sector i fl fl'"
  using assms(2-4)
proof (induction n arbitrary: fl pre old)
  case 0
  then show ?case by simp
next
  case (Suc n)
  have "nsec fl i = pre @ take 4 old @ (drop 4 old @ post)" using Suc.prems by simp
  moreover have "length (take 4 old) = 4" using Suc.prems by simp
  ultimately obtain fl1 where 1: "flash_write_word fl (norcow_sectors ! i) (length pre) 0 = Some fl1"
    "nsec fl1 i = (pre @ word_bytes 0) @ drop 4 old @ post" "only_sector i fl fl1"
    using write_word_nsec [OF assms(1) _ _ Suc.prems(3), of fl "take 4 old" _ 0] by (auto simp: word_bytes_0)
  then obtain fl2 where 2: "zero_words fl1 (norcow_sectors ! i) (length (pre @ word_bytes 0)) n = Some fl2"
    "nsec fl2 i = (pre @ word_bytes 0) @ replicate (4 * n) 0 @ post" "only_sector i fl1 fl2"
    using Suc.IH [OF 1(2)] Suc.prems by auto
  have "word_bytes 0 @ replicate (4 * n) 0 = replicate (4 * Suc n) 0" by (simp add: word_bytes_0 replicate_add [symmetric])
  moreover have "nsec fl2 i = pre @ (word_bytes 0 @ replicate (4 * n) 0) @ post" using 2(2) by simp
  ultimately have "nsec fl2 i = pre @ replicate (4 * Suc n) 0 @ post" by (simp only:)
  moreover have "zero_words fl (norcow_sectors ! i) (length pre) (Suc n) = Some fl2" using 1(1) 2(1) by simp
  ultimately show ?case using 1(3) 2(3) only_sector_trans by blast
qed

lemma delete_item_log:
  assumes "log_ok fl i (as @ (k, v) # bs)" "i < 2"
  shows "\<exists>fl'. delete_item fl (norcow_sectors ! i) (log_end as + 4) (length v) = Some fl'
    \<and> log_ok fl' i (as @ (0, replicate (length v) 0) # bs) \<and> only_sector i fl fl'"
proof -
  let ?l = "length v" and ?s = "norcow_sectors ! i"
  obtain n where n: "nsec fl i = header @ enc_items (as @ (k, v) # bs) @ replicate n 0xFF"
    and ok: "\<forall>it \<in> set (as @ (k, v) # bs). item_ok it"
    using assms(1) by (auto simp: log_ok_def)
  define pre where "pre = header @ enc_items as"
  define post where "post = enc_items bs @ replicate n 0xFF"
  let ?data = "v @ replicate (align4 ?l - ?l) 0"
  have pre: "length pre = log_end as" "4 dvd length pre" using log_end_dvd [of as] by (simp_all add: pre_def log_end_def)
  have s: "nsec fl i = pre @ word_bytes (item_prefix k ?l) @ ?data @ post" using n by (simp add: pre_def post_def)
  have w: "word_bytes (item_prefix k ?l) ! j AND word_bytes (item_prefix 0 ?l) ! j = word_bytes (item_prefix 0 ?l) ! j"
    if "j < 4" for j
    using that by (auto simp: item_prefix_bytes less_Suc_eq numeral_eq_Suc)
  then obtain fl1 where 1: "flash_write_word fl ?s (log_end as) (item_prefix 0 ?l) = Some fl1"
    "nsec fl1 i = (pre @ word_bytes (item_prefix 0 ?l)) @ ?data @ post" "only_sector i fl fl1"
    using write_word_nsec [OF assms(2) s _ pre(2), of "item_prefix 0 ?l"] pre(1) by auto
  have "length ?data = 4 * ((?l + 3) div 4)" using align4_ge(1) [of ?l] by (simp add: align4_def)
  then obtain fl2 where 2: "zero_words fl1 ?s (length (pre @ word_bytes (item_prefix 0 ?l))) ((?l + 3) div 4) = Some fl2"
    "nsec fl2 i = (pre @ word_bytes (item_prefix 0 ?l)) @ replicate (4 * ((?l + 3) div 4)) 0 @ post" "only_sector i fl1 fl2"
    using zero_words_nsec [OF assms(2) 1(2)] pre(2) by auto
  have z: "replicate (4 * ((?l + 3) div 4)) (0 :: u8) = replicate ?l 0 @ replicate (align4 ?l - ?l) 0"
    using align4_ge(1) [of ?l] by (simp add: replicate_add [symmetric] align4_def mult.commute)
  have "delete_item fl ?s (log_end as + 4) ?l = Some fl2"
    using 1(1) 2(1) pre(1) by (simp add: delete_item_def ensure_def flash_unlock_write_def flash_lock_write_def item_prefix_def)
  moreover have "log_ok fl2 i (as @ (0, replicate ?l 0) # bs)"
    using 2(2) ok unfolding z by (intro log_okI) (auto simp: pre_def post_def item_ok_def)
  moreover have "only_sector i fl fl2" using 1(3) 2(3) only_sector_trans by blast
  ultimately show ?thesis by blast
qed

lemma update_bytes_log:
  assumes "log_ok fl i (as @ (k, v) # bs)" "i < 2" "length d = length v"
    and "update_bytes_loop fl (norcow_sectors ! i) (log_end as + 4) d = (ret, fl')"
  shows "\<exists>v'. length v' = length v \<and> (ret \<longrightarrow> v' = d) \<and> log_ok fl' i (as @ (k, v') # bs) \<and> only_sector i fl fl'"
proof -
  obtain n where n: "nsec fl i = header @ enc_items (as @ (k, v) # bs) @ replicate n 0xFF"
    and ok: "\<forall>it \<in> set (as @ (k, v) # bs). item_ok it"
    using assms(1) by (auto simp: log_ok_def)
  define pre where "pre = header @ enc_items as @ word_bytes (item_prefix k (length v))"
  define post where "post = replicate (align4 (length v) - length v) 0 @ enc_items bs @ replicate n 0xFF"
  have pre: "length pre = log_end as + 4" by (simp add: pre_def log_end_def)
  have s: "nsec fl i = pre @ v @ post" using n by (simp add: pre_def post_def)
  have loop: "\<exists>v'. length v' = length v \<and> (ret \<longrightarrow> v' = d) \<and> nsec fl' i = pre @ v' @ post \<and> only_sector i fl fl'"
    if "nsec fl i = pre @ v @ post" "length d = length v"
      "update_bytes_loop fl (norcow_sectors ! i) (length pre) d = (ret, fl')" for fl pre v d
    using that
  proof (induction d arbitrary: fl pre v)
    case Nil
    then show ?case by auto
  next
    case (Cons b d)
    obtain a v1 where v: "v = a # v1" using Cons.prems(2) by (cases v) auto
    show ?case
    proof (cases "a AND b = b")
      case True
      then obtain fl1 where 1: "flash_write_byte fl (norcow_sectors ! i) (length pre) b = Some fl1"
        "nsec fl1 i = (pre @ [b]) @ v1 @ post" "only_sector i fl fl1"
        using write_byte_nsec [OF assms(2), of fl pre a "v1 @ post" b] Cons.prems(1) v by auto
      obtain v' where "length v' = length v1" "ret \<longrightarrow> v' = d" "nsec fl' i = (pre @ [b]) @ v' @ post" "only_sector i fl1 fl'"
        using Cons.IH [OF 1(2)] Cons.prems v 1(1) by auto
      then show ?thesis using v 1(3) only_sector_trans by (intro exI [of _ "b # v'"]) auto
    next
      case False
      then have "flash_write_byte fl (norcow_sectors ! i) (length pre) b = None"
        using write_byte_nsec_refused [OF assms(2), of fl pre a "v1 @ post" b] Cons.prems(1) v by auto
      then show ?thesis using Cons.prems by auto
    qed
  qed
  obtain v' where v': "length v' = length v" "ret \<longrightarrow> v' = d" "nsec fl' i = pre @ v' @ post" "only_sector i fl fl'"
    using loop [OF s assms(3)] assms(4) pre by auto
  have "log_ok fl' i (as @ (k, v') # bs)"
    using v' ok by (intro log_okI) (auto simp: pre_def post_def item_ok_def)
  then show ?thesis using v' by blast
qed

lemma erase_log:
  assumes "i < 2"
  shows "\<exists>fl'. erase_sector fl i True = Some fl' \<and> log_ok fl' i [] \<and> only_sector i fl fl'"
    and "\<exists>fl'. erase_sector fl i False = Some fl' \<and> nsec fl' i = replicate 65536 0xFF \<and> only_sector i fl fl'"
proof -
  define fl0 where "fl0 = flash_erase fl (norcow_sectors ! i)"
  have 0: "nsec fl0 i = [] @ replicate 65536 0xFF" "only_sector i fl fl0"
    using flash_erase_correct [OF norcow_sector(1) [OF assms], where fl = fl] norcow_sector assms
    by (auto simp: fl0_def nsec_def only_sector_def norcow_sector_neq)
  then show "\<exists>fl'. erase_sector fl i False = Some fl' \<and> nsec fl' i = replicate 65536 0xFF \<and> only_sector i fl fl'"
    by (simp add: erase_sector_def fl0_def)
  obtain fl1 where 1: "norcow_write fl0 i 0 NORCOW_MAGIC None 0 = Some (True, fl1)"
    "nsec fl1 i = word_bytes NORCOW_MAGIC @ replicate 65532 0xFF" "only_sector i fl0 fl1"
    using norcow_write_FF [OF assms 0(1), where len = 0 and v = None and w = NORCOW_MAGIC] by (auto simp: align4_def)
  obtain fl2 where 2: "norcow_write fl1 i 4 (NOT NORCOW_VERSION) None 0 = Some (True, fl2)"
    "nsec fl2 i = header @ replicate 65528 0xFF" "only_sector i fl1 fl2"
    using norcow_write_FF [OF assms 1(2), where len = 0 and v = None and w = "NOT NORCOW_VERSION"] by (auto simp: align4_def header_def)
  have "erase_sector fl i True = Some fl2" using 1(1) 2(1) by (simp add: erase_sector_def ensure_def fl0_def [symmetric])
  moreover have "log_ok fl2 i []" using 2(2) by (intro log_okI) auto
  moreover have "only_sector i fl fl2" using 0(2) 1(3) 2(3) only_sector_trans by blast
  ultimately show "\<exists>fl'. erase_sector fl i True = Some fl' \<and> log_ok fl' i [] \<and> only_sector i fl fl'" by blast
qed

end
