(* ===== verification/Kv_Store.thy ===== *)
theory Kv_Store
  imports Prelude
begin

text \<open>
  The interface of the key-value store the storage layer is written against: what a
  lookup returns after a set and after a delete. Operations return \<open>None\<close> if they do not
  return at all. A set that fails leaves the key without a value, as in
  \<open>storage/norcow.c\<close>, where the old item is deleted before the new one is written.
\<close>

text \<open>A sequence of updates, each a set or a delete; it stops at the first that fails.\<close>

primrec run_updates :: "('s \<Rightarrow> 'k \<Rightarrow> 'v \<Rightarrow> (bool \<times> 's) option) \<Rightarrow> ('s \<Rightarrow> 'k \<Rightarrow> (bool \<times> 's) option) \<Rightarrow>
    's \<Rightarrow> ('k \<times> 'v option) list \<Rightarrow> (bool \<times> 's) option" where
  "run_updates kset kdel s [] = Some (True, s)"
| "run_updates kset kdel s (u # us) =
     (case (case snd u of Some v \<Rightarrow> kset s (fst u) v | None \<Rightarrow> kdel s (fst u)) of
        None \<Rightarrow> None
      | Some (b, s') \<Rightarrow> if b \<or> snd u = None then run_updates kset kdel s' us else Some (False, s'))"

locale kv_store =
  fixes inv :: "'s \<Rightarrow> bool"
    and okkey :: "'k \<Rightarrow> bool"
    and okval :: "'v \<Rightarrow> bool"
    and kget :: "'s \<Rightarrow> 'k \<Rightarrow> 'v option option"
    and kset :: "'s \<Rightarrow> 'k \<Rightarrow> 'v \<Rightarrow> (bool \<times> 's) option"
    and kdel :: "'s \<Rightarrow> 'k \<Rightarrow> (bool \<times> 's) option"
  assumes get_total: "inv s \<Longrightarrow> okkey k \<Longrightarrow> \<exists>r. kget s k = Some r"
    and set_law: "inv s \<Longrightarrow> okkey k \<Longrightarrow> okval v \<Longrightarrow> \<exists>b s'. kset s k v = Some (b, s') \<and> inv s'
      \<and> kget s' k = Some (if b then Some v else None)
      \<and> (\<forall>k'. okkey k' \<longrightarrow> k' \<noteq> k \<longrightarrow> kget s' k' = kget s k')"
    and del_law: "inv s \<Longrightarrow> okkey k \<Longrightarrow> \<exists>s'. kdel s k = Some (kget s k \<noteq> Some None, s') \<and> inv s'
      \<and> kget s' k = Some None
      \<and> (\<forall>k'. okkey k' \<longrightarrow> k' \<noteq> k \<longrightarrow> kget s' k' = kget s k')"
begin

text \<open>After a sequence of updates that succeeded, every key has the value of its last update.\<close>

lemma run_last_write:
  assumes "inv s" "\<forall>(k, r) \<in> set us. okkey k \<and> (\<forall>v. r = Some v \<longrightarrow> okval v)"
  shows "\<exists>b s'. run_updates kset kdel s us = Some (b, s') \<and> inv s'
    \<and> (b \<longrightarrow> (\<forall>k. okkey k \<longrightarrow> kget s' k = (case map_of (rev us) k of Some r \<Rightarrow> Some r | None \<Rightarrow> kget s k)))"
  using assms
proof (induction us arbitrary: s)
  case Nil
  then show ?case by auto
next
  case (Cons u us)
  obtain k r where u: "u = (k, r)" by force
  have ok: "okkey k" "\<forall>v. r = Some v \<longrightarrow> okval v" "\<forall>(k, r) \<in> set us. okkey k \<and> (\<forall>v. r = Some v \<longrightarrow> okval v)"
    using Cons.prems(2) u by auto
  obtain b s1 where s1: "(case r of Some v \<Rightarrow> kset s k v | None \<Rightarrow> kdel s k) = Some (b, s1)" "inv s1"
    "kget s1 k = Some (if b then r else None)" "\<forall>k'. okkey k' \<longrightarrow> k' \<noteq> k \<longrightarrow> kget s1 k' = kget s k'"
  proof (cases r)
    case None
    then show ?thesis using del_law [OF Cons.prems(1) ok(1)] that by auto
  next
    case (Some v)
    then show ?thesis using set_law [OF Cons.prems(1) ok(1), of v] ok(2) that by auto
  qed
  show ?case
  proof (cases "b \<or> r = None")
    case True
    obtain b2 s2 where s2: "run_updates kset kdel s1 us = Some (b2, s2)" "inv s2"
      "b2 \<longrightarrow> (\<forall>k. okkey k \<longrightarrow> kget s2 k = (case map_of (rev us) k of Some r \<Rightarrow> Some r | None \<Rightarrow> kget s1 k))"
      using Cons.IH [OF s1(2) ok(3)] by auto
    have k: "kget s1 k = Some r" using s1(3) True by auto
    have "run_updates kset kdel s (u # us) = Some (b2, s2)" using s1(1) s2(1) True u by (cases r) auto
    moreover have "kget s2 k' = (case map_of (rev (u # us)) k' of Some r \<Rightarrow> Some r | None \<Rightarrow> kget s k')"
      if "b2" "okkey k'" for k'
    proof (cases "map_of (rev us) k'")
      case None
      then have "kget s2 k' = kget s1 k'" using s2(3) that by simp
      then show ?thesis using None k s1(4) that(2) u by (cases "k' = k") (simp_all add: map_add_def)
    next
      case (Some x)
      then have "kget s2 k' = Some x" using s2(3) that by simp
      then show ?thesis using Some by (simp add: map_add_def)
    qed
    ultimately show ?thesis using s2(2) by blast
  next
    case False
    then show ?thesis using s1 u by (cases r) auto
  qed
qed

end

end
