(* ===== verification/Norcow_Store.thy ===== *)
theory Norcow_Store
  imports Norcow_Log Kv_Store
begin

text \<open>
  The public operations of \<open>storage/norcow.c\<close> implement a key-value map. The map is read off
  the items of the active sector; the other sector is erased between operations.
\<close>

section \<open>The map a log stands for\<close>

definition live :: "item list \<Rightarrow> item list" where
  "live its = filter (\<lambda>it. fst it \<noteq> 0) its"

definition kv :: "item list \<Rightarrow> u16 \<Rightarrow> u8 list option" where
  "kv its = map_of (live its)"

definition nc_log :: "norcow \<Rightarrow> item list \<Rightarrow> bool" where
  "nc_log st its \<longleftrightarrow> norcow_active_sector st < 2 \<and> norcow_write_sector st = norcow_active_sector st
     \<and> norcow_active_version st = NORCOW_VERSION \<and> log_ok (nc_flash st) (norcow_active_sector st) its
     \<and> nsec (nc_flash st) (1 - norcow_active_sector st) = replicate 65536 0xFF
     \<and> distinct (map fst (live its))"

definition nc_inv :: "norcow \<Rightarrow> item list \<Rightarrow> bool" where
  "nc_inv st its \<longleftrightarrow> nc_log st its \<and> norcow_free_offset st = log_end its"

lemma live_simps [simp]:
  "live [] = []" "live (as @ bs) = live as @ live bs"
  "live ((k, v) # bs) = (if k = 0 then live bs else (k, v) # live bs)"
  by (simp_all add: live_def)

lemma live_live [simp]: "live (live its) = live its"
  by (simp add: live_def)

lemma kv_live: "kv (live its) = kv its"
  by (simp add: kv_def)

lemma length_enc_live: "length (enc_items (live its)) \<le> length (enc_items its)"
  by (induction its) (auto simp: live_def)

lemma live_keys: "k \<noteq> 0 \<Longrightarrow> k \<in> fst ` set (live its) \<longleftrightarrow> k \<in> fst ` set its"
  by (auto simp: live_def)

lemma kv_None: "k \<noteq> 0 \<Longrightarrow> kv its k = None \<longleftrightarrow> k \<notin> fst ` set its"
  using live_keys by (auto simp: kv_def map_of_eq_None_iff)

lemma kv_Some_split:
  assumes "kv its k = Some v" "distinct (map fst (live its))" "k \<noteq> 0"
  obtains as bs where "its = as @ (k, v) # bs" "k \<notin> fst ` set as" "k \<notin> fst ` set bs"
proof -
  have "(k, v) \<in> set (live its)" using assms(1) by (simp add: kv_def map_of_SomeD)
  then have "(k, v) \<in> set its" by (simp add: live_def)
  then obtain as bs where s: "its = as @ (k, v) # bs" by (meson split_list)
  then have "k \<notin> fst ` set (live as)" "k \<notin> fst ` set (live bs)" using assms(2,3) by auto
  then show ?thesis using that [OF s] assms(3) by (simp add: live_keys)
qed

lemma kv_delete:
  assumes "k \<noteq> 0" "k \<notin> fst ` set as" "k \<notin> fst ` set bs"
  shows "kv (as @ (0, z) # bs) = (kv (as @ (k, v) # bs))(k := None)"
    and "kv (as @ (k, v') # bs) = (kv (as @ (k, v) # bs))(k \<mapsto> v')"
proof -
  have "map_of (live as) k = None" "map_of (live bs) k = None"
    using assms live_keys by (auto simp: map_of_eq_None_iff)
  then show "kv (as @ (0, z) # bs) = (kv (as @ (k, v) # bs))(k := None)"
    "kv (as @ (k, v') # bs) = (kv (as @ (k, v) # bs))(k \<mapsto> v')"
    using assms(1) by (auto simp: kv_def map_add_def fun_eq_iff split: option.splits)
qed

lemma kv_append:
  assumes "k \<noteq> 0" "k \<notin> fst ` set its"
  shows "kv (its @ [(k, v)]) = (kv its)(k \<mapsto> v)"
proof -
  have "map_of (live its) k = None" using assms live_keys by (auto simp: map_of_eq_None_iff)
  then show ?thesis using assms(1) by (auto simp: kv_def map_add_def fun_eq_iff split: option.splits)
qed

section \<open>Lookup\<close>

text \<open>A lookup followed by reading the bytes it points to, as the callers do.\<close>

definition norcow_read :: "norcow \<Rightarrow> u16 \<Rightarrow> u8 list option option" where
  "norcow_read st key = do {
     r \<leftarrow> norcow_get st key;
     Some (case r of None \<Rightarrow> None | Some (p, l) \<Rightarrow> Some (flash_bytes (nc_flash st) p l)) }"

lemma find_item_kv:
  assumes "log_ok fl i its" "i < 2" "distinct (map fst (live its))" "k \<noteq> 0"
  shows "kv its k = None \<Longrightarrow> find_item fl i k = Some None"
    and "\<And>as v bs. its = as @ (k, v) # bs \<Longrightarrow> k \<notin> fst ` set bs \<Longrightarrow>
      find_item fl i k = Some (Some (nbase i + log_end as + 4, length v))"
  using find_item_log [OF assms(1,2), of k] assms(4)
  by (auto simp: kv_None find_pos_absent find_pos_present)

lemma norcow_read_log:
  assumes l: "log_ok (nc_flash st) (norcow_active_sector st) its" and a: "norcow_active_sector st < 2"
    and d: "distinct (map fst (live its))" and k: "k \<noteq> 0"
  shows "norcow_read st k = Some (kv its k)"
proof (cases "kv its k")
  case None
  then show ?thesis using find_item_kv(1) [OF l a d k] by (simp add: norcow_read_def norcow_get_def)
next
  case (Some v)
  obtain as bs where s: "its = as @ (k, v) # bs" "k \<notin> fst ` set bs"
    using kv_Some_split [OF Some d k] by metis
  show ?thesis
    using find_item_kv(2) [OF l a d k s] read_item_log(2) [OF l [unfolded s(1)] a] Some
    by (simp add: norcow_read_def norcow_get_def)
qed

lemma norcow_read_kv: "nc_log st its \<Longrightarrow> k \<noteq> 0 \<Longrightarrow> norcow_read st k = Some (kv its k)"
  using norcow_read_log by (simp add: nc_log_def)

section \<open>Compaction\<close>

lemma log_ok_cong: "nsec fl' i = nsec fl i \<Longrightarrow> log_ok fl' i its = log_ok fl i its"
  by (simp add: log_ok_def)

lemma log_ok_item:
  assumes "log_ok fl i (as @ (k, v) # bs)"
  shows "k \<noteq> 0xFFFF" "length v < 65536"
proof -
  have "item_ok (k, v)" using assms unfolding log_ok_def by (meson in_set_conv_decomp)
  then show "k \<noteq> 0xFFFF" "length v < 65536" by (simp_all add: item_ok_def)
qed

text \<open>One turn of the copying loop over an item, and the turn after the last one.\<close>

lemma compact_turn_end:
  assumes "a < 2" "log_ok fl a as"
  shows "compact_turn fl a w (log_end as) o' = Some None"
  using read_item_log_end [OF assms(2,1)] by (simp add: compact_turn_def)

lemma compact_turn_log:
  assumes "a < 2" "w < 2" "a \<noteq> w"
    and l: "log_ok fl a (as @ it # bs)" and lw: "log_ok fl w ws"
    and sp: "log_end ws + length (enc_items (live (it # bs))) \<le> 65536"
  shows "\<exists>fl'. compact_turn fl a w (log_end as) (log_end ws) = Some (Some (fl', log_end (as @ [it]), log_end (ws @ live [it])))
    \<and> log_ok fl' a ((as @ [it]) @ bs) \<and> log_ok fl' w (ws @ live [it]) \<and> only_sector w fl fl'
    \<and> log_end (ws @ live [it]) + length (enc_items (live bs)) \<le> 65536"
proof -
  obtain k v where it: "it = (k, v)" by force
  note r = read_item_log [OF l [unfolded it] assms(1)]
  show ?thesis
  proof (cases "k = 0")
    case True
    then have lv: "live [it] = []" "live (it # bs) = live bs" using it by simp_all
    have "compact_turn fl a w (log_end as) (log_end ws) = Some (Some (fl, log_end (as @ [it]), log_end ws))"
      using r(1) True it by (simp add: compact_turn_def del: log_end_simps)
    moreover have "log_ok fl a ((as @ [it]) @ bs)" using l by simp
    ultimately show ?thesis using lw sp only_sector_refl [of w fl] unfolding lv append_Nil2 by (intro exI conjI)
  next
    case False
    have ok: "k \<noteq> 0xFFFF" "length v < 65536" using log_ok_item [OF l [unfolded it]] .
    have lv: "live [it] = [it]" using it False by simp
    have sp': "log_end (ws @ [it]) + length (enc_items (live bs)) \<le> 65536" using sp it False by simp
    have "log_end (ws @ [it]) = log_end ws + 4 + align4 (length v)"
      by (simp add: it length_enc_item del: enc_item.simps)
    then have "log_end ws + 4 + length v \<le> 65536" using sp' align4_ge(1) [of "length v"] by linarith
    note wi = write_item_log [OF lw assms(2) ok this, of "Some v", unfolded option.case it [symmetric]]
    have "\<forall>d. Some v = Some d \<longrightarrow> length d = length v" by blast
    from wi [OF this] obtain fl1 where 1: "write_item fl w (log_end ws) k (Some v) (length v) = Some (True, fl1, log_end (ws @ [it]))"
      and l1: "log_ok fl1 w (ws @ [it])" and o1: "only_sector w fl fl1" by blast
    have "nsec fl1 a = nsec fl a" using o1 assms(1,3) unfolding only_sector_def by blast
    from log_ok_cong [OF this] have "log_ok fl1 a ((as @ [it]) @ bs)" using l by simp
    moreover have "compact_turn fl a w (log_end as) (log_end ws) = Some (Some (fl1, log_end (as @ [it]), log_end (ws @ [it])))"
      using r 1 False it by (simp add: compact_turn_def ensure_def del: log_end_simps)
    ultimately show ?thesis using l1 o1 sp' unfolding lv by (intro exI conjI)
  qed
qed

lemma compact_loop_log:
  assumes "a < 2" "w < 2" "a \<noteq> w"
    and "log_ok fl a (as @ bs)" "log_ok fl w ws" "log_end ws + length (enc_items (live bs)) \<le> 65536"
  shows "\<exists>fl'. compact_loop fl a w (log_end as) (log_end ws) = Some fl'
    \<and> log_ok fl' w (ws @ live bs) \<and> only_sector w fl fl'"
  using assms(4-6)
proof (induction bs arbitrary: fl as ws)
  case Nil
  then show ?case using compact_turn_end [OF assms(1), of fl as] by (subst compact_loop.simps) simp
next
  case (Cons it bs)
  from compact_turn_log [OF assms(1-3) Cons.prems] obtain fl1 where t:
    "compact_turn fl a w (log_end as) (log_end ws) = Some (Some (fl1, log_end (as @ [it]), log_end (ws @ live [it])))"
    "log_ok fl1 a ((as @ [it]) @ bs)" "log_ok fl1 w (ws @ live [it])" "only_sector w fl fl1"
    "log_end (ws @ live [it]) + length (enc_items (live bs)) \<le> 65536" by blast
  from Cons.IH [OF t(2,3,5)] obtain fl2 where 2:
    "compact_loop fl1 a w (log_end (as @ [it])) (log_end (ws @ live [it])) = Some fl2"
    "log_ok fl2 w ((ws @ live [it]) @ live bs)" "only_sector w fl1 fl2" by blast
  have "compact_loop fl a w (log_end as) (log_end ws) = Some fl2"
    using t(1) 2(1) by (subst compact_loop.simps) (simp del: log_end_simps)
  moreover have "log_ok fl2 w (ws @ live (it # bs))" using 2(2) by (cases it) (simp split: if_splits)
  moreover have "only_sector w fl fl2" using t(4) 2(3) by (rule only_sector_trans)
  ultimately show ?case by blast
qed

lemma compact_turns_log:
  assumes "a < 2" "w < 2" "a \<noteq> w"
    and "log_ok fl a (as @ bs)" "log_ok fl w ws" "log_end ws + length (enc_items (live bs)) \<le> 65536"
  shows "\<exists>fl' r o'. compact_turns n fl a w (log_end as) (log_end ws) = Some (fl', r, o')
    \<and> log_ok fl' a (as @ bs) \<and> log_ok fl' w (ws @ live (take n bs))
    \<and> compact_loop fl a w (log_end as) (log_end ws) = compact_loop fl' a w r o'"
  using assms(4-6)
proof (induction n arbitrary: fl as bs ws)
  case 0
  then show ?case by simp
next
  case (Suc n)
  show ?case
  proof (cases bs)
    case Nil
    then show ?thesis using compact_turn_end [OF assms(1), of fl as] Suc.prems by simp
  next
    case (Cons it cs)
    from compact_turn_log [OF assms(1-3) Suc.prems [unfolded Cons]] obtain fl1 where t:
      "compact_turn fl a w (log_end as) (log_end ws) = Some (Some (fl1, log_end (as @ [it]), log_end (ws @ live [it])))"
      "log_ok fl1 a ((as @ [it]) @ cs)" "log_ok fl1 w (ws @ live [it])"
      "log_end (ws @ live [it]) + length (enc_items (live cs)) \<le> 65536" by blast
    from Suc.IH [OF t(2-4)] obtain fl2 r o' where 2:
      "compact_turns n fl1 a w (log_end (as @ [it])) (log_end (ws @ live [it])) = Some (fl2, r, o')"
      "log_ok fl2 a ((as @ [it]) @ cs)" "log_ok fl2 w ((ws @ live [it]) @ live (take n cs))"
      "compact_loop fl1 a w (log_end (as @ [it])) (log_end (ws @ live [it])) = compact_loop fl2 a w r o'" by blast
    have "compact_turns (Suc n) fl a w (log_end as) (log_end ws) = Some (fl2, r, o')"
      using t(1) 2(1) by (simp del: log_end_simps)
    moreover have "compact_loop fl a w (log_end as) (log_end ws) = compact_loop fl2 a w r o'"
      using t(1) 2(4) by (subst compact_loop.simps) (simp del: log_end_simps)
    moreover have "log_ok fl2 w (ws @ live (take (Suc n) bs))" using 2(3) Cons by (cases it) (simp split: if_splits)
    ultimately show ?thesis using 2(2) Cons by auto
  qed
qed

text \<open>The first stage: the old sector is as it was, and the other holds an empty log.\<close>

lemma compact_begin_log:
  assumes "nc_log st its"
  shows "\<exists>fl. compact_begin st = Some (Some (log_end [], st\<lparr>nc_flash := fl, norcow_write_sector := 1 - norcow_active_sector st\<rparr>))
    \<and> log_ok fl (norcow_active_sector st) its \<and> log_ok fl (1 - norcow_active_sector st) []"
proof -
  let ?a = "norcow_active_sector st"
  have a: "?a < 2" "log_ok (nc_flash st) ?a its" using assms by (simp_all add: nc_log_def)
  have w: "(?a + 1) mod 2 = 1 - ?a" "1 - ?a < 2" "1 - ?a \<noteq> ?a" using a(1) by (auto simp: less_Suc_eq numeral_2_eq_2)
  obtain fl where 1: "erase_sector (nc_flash st) (1 - ?a) True = Some fl" "log_ok fl (1 - ?a) []"
    "only_sector (1 - ?a) (nc_flash st) fl" using erase_log(1) [OF w(2)] by blast
  have "nsec fl ?a = nsec (nc_flash st) ?a" using 1(3) w(3) a(1) unfolding only_sector_def by metis
  then have "log_ok fl ?a its" using a(2) log_ok_cong by blast
  moreover have "compact_begin st = Some (Some (log_end [], st\<lparr>nc_flash := fl, norcow_write_sector := 1 - ?a\<rparr>))"
    using find_start_log [OF a(2,1)] 1(1) unfolding compact_begin_def by (simp add: w(1) [simplified] Let_def del: log_end_simps)
  ultimately show ?thesis using 1(2) by blast
qed

lemma live_fits:
  assumes "log_ok fl a its" "a < 2"
  shows "log_end [] + length (enc_items (live its)) \<le> 65536"
  using log_end_le [OF assms] length_enc_live [of its] by (simp add: log_end_def)

lemma compact_log:
  assumes "nc_log st its"
  shows "\<exists>st'. compact st = Some st' \<and> nc_inv st' (live its)"
proof -
  let ?a = "norcow_active_sector st" and ?w = "1 - norcow_active_sector st"
  have a: "?a < 2" "distinct (map fst (live its))" using assms by (simp_all add: nc_log_def)
  have w: "?w < 2" "?a \<noteq> ?w" "1 - ?w = ?a" using a(1) by (auto simp: less_Suc_eq numeral_2_eq_2)
  obtain fl1 where 1: "compact_begin st = Some (Some (log_end [], st\<lparr>nc_flash := fl1, norcow_write_sector := ?w\<rparr>))"
    "log_ok fl1 ?a ([] @ its)" "log_ok fl1 ?w []" using compact_begin_log [OF assms] by auto
  obtain fl2 where 2: "compact_loop fl1 ?a ?w 8 8 = Some fl2" "log_ok fl2 ?w (live its)"
    using compact_loop_log [OF a(1) w(1,2) 1(2,3) live_fits [OF 1(2) a(1), simplified append_Nil]] by auto
  obtain fl3 where 3: "erase_sector fl2 ?a False = Some fl3" "nsec fl3 ?a = replicate 65536 0xFF" "only_sector ?a fl2 fl3"
    using erase_log(2) [OF a(1)] by blast
  have "nsec fl3 ?w = nsec fl2 ?w" using 3(3) w(1,2) unfolding only_sector_def by metis
  then have l3: "log_ok fl3 ?w (live its)" using 2(2) log_ok_cong by blast
  define st' where "st' = st\<lparr>nc_flash := fl3, norcow_active_sector := ?w, norcow_write_sector := ?w,
    norcow_active_version := NORCOW_VERSION, norcow_free_offset := log_end (live its)\<rparr>"
  have "compact st = Some st'"
    using 1(1) 2(1) 3(1) find_free_log [OF l3 w(1)] by (simp add: compact_def st'_def Let_def)
  moreover have "nc_inv st' (live its)"
    using w l3 3(2) a(2) by (simp add: nc_inv_def nc_log_def st'_def)
  ultimately show ?thesis by blast
qed

section \<open>Setting and deleting\<close>

lemma sector_offset_eq [simp]: "i < 2 \<Longrightarrow> sector_offset i (nbase i + o') = Some o'"
  by (simp add: sector_offset_def norcow_ptr_eq)

text \<open>What a step in one sector does to the invariant.\<close>

lemma nc_inv_step:
  assumes "nc_inv st its" "log_ok fl (norcow_active_sector st) its'" "only_sector (norcow_active_sector st) (nc_flash st) fl"
    and "distinct (map fst (live its'))"
  shows "nc_inv (st\<lparr>nc_flash := fl, norcow_free_offset := log_end its'\<rparr>) its'"
    and "log_end its' = norcow_free_offset st \<Longrightarrow> nc_inv (st\<lparr>nc_flash := fl\<rparr>) its'"
proof -
  have "nsec fl (1 - norcow_active_sector st) = nsec (nc_flash st) (1 - norcow_active_sector st)"
    using assms(1,3) unfolding only_sector_def nc_inv_def nc_log_def
    by (auto simp: less_Suc_eq numeral_2_eq_2)
  then show "nc_inv (st\<lparr>nc_flash := fl, norcow_free_offset := log_end its'\<rparr>) its'"
    "log_end its' = norcow_free_offset st \<Longrightarrow> nc_inv (st\<lparr>nc_flash := fl\<rparr>) its'"
    using assms(1,2,4) by (simp_all add: nc_inv_def nc_log_def)
qed

lemma nc_inv_cases:
  assumes "nc_inv st its"
  shows "norcow_active_sector st < 2" "norcow_write_sector st = norcow_active_sector st"
    "log_ok (nc_flash st) (norcow_active_sector st) its" "distinct (map fst (live its))"
    "norcow_free_offset st = log_end its" "nc_log st its"
  using assms by (simp_all add: nc_inv_def nc_log_def)

text \<open>The value an item gets: the bytes given, or erased flash when none are.\<close>

definition set_value :: "u8 list option \<Rightarrow> nat \<Rightarrow> u8 list" where
  "set_value v len = (case v of Some d \<Rightarrow> d | None \<Rightarrow> replicate len 0xFF)"

lemma set_append:
  assumes inv: "nc_inv st its" and k: "k \<noteq> 0" "k \<noteq> 0xFFFF" "k \<notin> fst ` set its"
    and len: "len < 65536" "\<forall>d. v = Some d \<longrightarrow> length d = len"
  shows "\<exists>ret st' its' st1 fl pos. (if norcow_free_offset st + 4 + len > 65536 then compact st else Some st) = Some st1
    \<and> write_item (nc_flash st1) (norcow_write_sector st1) (norcow_free_offset st1) k v len = Some (ret, fl, pos)
    \<and> st' = (if ret then st1\<lparr>nc_flash := fl, norcow_free_offset := pos\<rparr> else st1\<lparr>nc_flash := fl\<rparr>)
    \<and> nc_inv st' its' \<and> kv its' = (if ret then (kv its)(k \<mapsto> set_value v len) else kv its)
    \<and> (ret \<longleftrightarrow> 12 + length (enc_items (live its)) + len \<le> 65536 \<or> norcow_free_offset st + 4 + len \<le> 65536)"
proof -
  obtain st1 its1 where 1: "(if norcow_free_offset st + 4 + len > 65536 then compact st else Some st) = Some st1"
    "nc_inv st1 its1" "kv its1 = kv its" "k \<notin> fst ` set its1"
    "norcow_free_offset st + 4 + len > 65536 \<Longrightarrow> its1 = live its" "\<not> norcow_free_offset st + 4 + len > 65536 \<Longrightarrow> st1 = st"
  proof (cases "norcow_free_offset st + 4 + len > 65536")
    case True
    obtain st1 where "compact st = Some st1" "nc_inv st1 (live its)" using compact_log [OF nc_inv_cases(6) [OF inv]] by blast
    then show ?thesis using that [of st1 "live its"] True kv_live live_keys [OF k(1)] k(3) by auto
  next
    case False
    then show ?thesis using that [of st its] inv k(3) by simp
  qed
  note i1 = nc_inv_cases [OF 1(2)]
  have sp: "norcow_free_offset st1 + 4 + len \<le> 65536
    \<longleftrightarrow> 12 + length (enc_items (live its)) + len \<le> 65536 \<or> norcow_free_offset st + 4 + len \<le> 65536"
    using 1(5,6) i1(5) nc_inv_cases(5) [OF inv] length_enc_live [of its] by (cases "norcow_free_offset st + 4 + len > 65536") (auto simp: log_end_def)
  show ?thesis
  proof (cases "norcow_free_offset st1 + 4 + len \<le> 65536")
    case True
    define it where "it = (k, set_value v len)"
    obtain fl where w: "write_item (nc_flash st1) (norcow_write_sector st1) (norcow_free_offset st1) k v len
        = Some (True, fl, log_end (its1 @ [it]))"
      "log_ok fl (norcow_active_sector st1) (its1 @ [it])" "only_sector (norcow_active_sector st1) (nc_flash st1) fl"
      using write_item_log [OF i1(3,1) k(2) len(1) True [unfolded i1(5)] len(2)] i1(2,5)
      unfolding it_def set_value_def by metis
    have "k \<notin> fst ` set (live its1)" using 1(4) live_keys [OF k(1)] by blast
    then have "distinct (map fst (live (its1 @ [it])))" using i1(4) k(1) by (simp add: it_def)
    from nc_inv_step(1) [OF 1(2) w(2,3) this] show ?thesis
      using 1(1) w(1) kv_append [OF k(1) 1(4), of "set_value v len"] 1(3) True sp unfolding it_def by auto
  next
    case False
    then obtain pos where w: "write_item (nc_flash st1) (norcow_write_sector st1) (norcow_free_offset st1) k v len
      = Some (False, nc_flash st1, pos)"
      using write_item_no_space [of "norcow_write_sector st1" "norcow_free_offset st1" len] i1(1,2) by (metis not_le)
    then show ?thesis using 1(1,2,3) False sp by auto
  qed
qed


definition space_needed :: "item list \<Rightarrow> u16 \<Rightarrow> nat \<Rightarrow> nat" where
  "space_needed its k len = 12 + length (enc_items (filter (\<lambda>it. fst it \<noteq> k) (live its))) + len"

lemma norcow_flash_id [simp]: "st\<lparr>nc_flash := nc_flash st\<rparr> = st"
  by (cases st) simp

lemma filter_absent: "k \<notin> fst ` set xs \<Longrightarrow> filter (\<lambda>it. fst it \<noteq> k) xs = xs"
  by (induction xs) auto

lemma norcow_set_new:
  assumes inv: "nc_inv st its" and k: "k \<noteq> 0" "k \<noteq> 0xFFFF"
    and len: "len < 65536" "\<forall>d. v = Some d \<longrightarrow> length d = len"
    and None: "kv its k = None"
  shows "\<exists>ret st' its'. norcow_set_ex st k v len = Some (ret, kv its k \<noteq> None, st') \<and> nc_inv st' its'
    \<and> kv its' = (if ret then (kv its)(k \<mapsto> set_value v len) else (kv its)(k := None))
    \<and> (space_needed its k len \<le> 65536 \<longrightarrow> ret)"
proof -
  note i = nc_inv_cases [OF inv]
  have nk: "k \<notin> fst ` set its" using None kv_None [OF k(1)] by blast
  have fi: "find_item (nc_flash st) (norcow_write_sector st) k = Some None"
    using find_item_kv(1) [OF i(3,1,4) k(1) None] i(2) by simp
  have "filter (\<lambda>it. fst it \<noteq> k) (live its) = live its" using nk live_keys [OF k(1)] by (intro filter_absent) blast
  then have sp: "space_needed its k len = 12 + length (enc_items (live its)) + len" by (simp add: space_needed_def)
  obtain ret st' its' st1 fl pos where a: "(if norcow_free_offset st + 4 + len > 65536 then compact st else Some st) = Some st1"
    "write_item (nc_flash st1) (norcow_write_sector st1) (norcow_free_offset st1) k v len = Some (ret, fl, pos)"
    "st' = (if ret then st1\<lparr>nc_flash := fl, norcow_free_offset := pos\<rparr> else st1\<lparr>nc_flash := fl\<rparr>)"
    "nc_inv st' its'" "kv its' = (if ret then (kv its)(k \<mapsto> set_value v len) else kv its)"
    "ret \<longleftrightarrow> 12 + length (enc_items (live its)) + len \<le> 65536 \<or> norcow_free_offset st + 4 + len \<le> 65536"
    using set_append [OF inv k nk len] by (elim exE conjE) (rule that)
  have "norcow_set_ex st k v len = Some (ret, False, st')"
    using fi a(1-3) k(2) by (simp add: norcow_set_ex_def cong: if_cong split del: if_split)
  moreover have "(kv its)(k := None) = kv its" using None by (simp add: fun_upd_idem)
  ultimately show ?thesis using a(4-6) None sp by auto
qed

lemma set_in_place:
  assumes "log_ok fl i (as @ (k, old) # bs)" "i < 2" "\<forall>d. v = Some d \<longrightarrow> length d = len"
    and "(case v of Some d \<Rightarrow> if length old = len then update_bytes_loop fl (norcow_sectors ! i) (log_end as + 4) (take len d)
      else (False, fl) | None \<Rightarrow> (False, fl)) = (r, fl')"
  shows "\<exists>v'. log_ok fl' i (as @ (k, v') # bs) \<and> length v' = length old \<and> only_sector i fl fl' \<and> (r \<longrightarrow> v' = set_value v len)"
proof (cases "\<exists>d. v = Some d \<and> length old = len")
  case True
  then obtain d where d: "v = Some d" "length old = len" by blast
  then have "update_bytes_loop fl (norcow_sectors ! i) (log_end as + 4) d = (r, fl')" "length d = length old"
    using assms(3,4) by simp_all
  from update_bytes_log [OF assms(1,2) this(2,1)] show ?thesis unfolding d(1) set_value_def by auto
next
  case False
  then have "r = False" "fl' = fl" using assms(4) by (auto split: option.splits if_splits)
  then show ?thesis using assms(1) by auto
qed

lemma delete_inv:
  assumes inv: "nc_inv st its" and s: "its = as @ (k, v) # bs" "k \<notin> fst ` set as" "k \<notin> fst ` set bs" and k: "k \<noteq> 0"
    and fl: "log_ok fl (norcow_active_sector st) (as @ (k, v') # bs)" "length v' = length v"
      "only_sector (norcow_active_sector st) (nc_flash st) fl"
  shows "\<exists>fl2 its2. delete_item fl (norcow_sectors ! norcow_active_sector st) (log_end as + 4) (length v) = Some fl2
    \<and> nc_inv (st\<lparr>nc_flash := fl2\<rparr>) its2 \<and> kv its2 = (kv its)(k := None) \<and> k \<notin> fst ` set its2
    \<and> filter (\<lambda>it. fst it \<noteq> k) (live its) = live its2"
proof -
  let ?i = "norcow_active_sector st" and ?its2 = "as @ (0, replicate (length v) 0) # bs"
  note i = nc_inv_cases [OF inv]
  obtain fl2 where d: "delete_item fl (norcow_sectors ! ?i) (log_end as + 4) (length v) = Some fl2"
    "log_ok fl2 ?i ?its2" "only_sector ?i fl fl2"
    using delete_item_log [OF fl(1) i(1)] fl(2) by auto
  have "log_end ?its2 = norcow_free_offset st" using i(5) s by (simp add: length_enc_item del: enc_item.simps)
  moreover have "distinct (map fst (live ?its2))" using i(4) s(1) k by simp
  ultimately have "nc_inv (st\<lparr>nc_flash := fl2\<rparr>) ?its2"
    using nc_inv_step(2) [OF inv d(2) only_sector_trans [OF fl(3) d(3)]] by simp
  moreover have "k \<notin> fst ` set ?its2" using s k by auto
  moreover have "kv ?its2 = (kv its)(k := None)" using kv_delete(1) [OF k s(2,3)] s(1) by simp
  moreover have "filter (\<lambda>it. fst it \<noteq> k) (live its) = live ?its2"
    using s k live_keys [OF k] by (simp add: filter_absent)
  ultimately show ?thesis using d(1) by blast
qed

lemma norcow_set_old:
  assumes inv: "nc_inv st its" and k: "k \<noteq> 0" "k \<noteq> 0xFFFF"
    and len: "len < 65536" "\<forall>d. v = Some d \<longrightarrow> length d = len"
    and Some: "kv its k = Some old"
  shows "\<exists>ret st' its'. norcow_set_ex st k v len = Some (ret, kv its k \<noteq> None, st') \<and> nc_inv st' its'
    \<and> kv its' = (if ret then (kv its)(k \<mapsto> set_value v len) else (kv its)(k := None))
    \<and> (space_needed its k len \<le> 65536 \<longrightarrow> ret)"
proof -
  note i = nc_inv_cases [OF inv]
  obtain as bs where s: "its = as @ (k, old) # bs" "k \<notin> fst ` set as" "k \<notin> fst ` set bs"
    by (rule kv_Some_split [OF Some i(4) k(1)])
  have fi: "find_item (nc_flash st) (norcow_write_sector st) k = Some (Some (nbase (norcow_write_sector st) + (log_end as + 4), length old))"
    using find_item_kv(2) [OF i(3,1,4) k(1) s(1,3)] i(2) by (simp add: add.assoc)
  let ?i = "norcow_active_sector st"
  define upd where "upd = (case v of Some d \<Rightarrow> if length old = len then update_bytes_loop (nc_flash st) (norcow_sectors ! ?i) (log_end as + 4) (take len d)
      else (False, nc_flash st) | None \<Rightarrow> (False, nc_flash st))"
  obtain r fl where u: "upd = (r, fl)" by force
  obtain v' where v': "log_ok fl ?i (as @ (k, v') # bs)" "length v' = length old" "only_sector ?i (nc_flash st) fl"
    "r \<longrightarrow> v' = set_value v len"
    using set_in_place [OF i(3,1) [unfolded s(1)] len(2) u [unfolded upd_def]] by blast
  have so: "sector_offset (norcow_write_sector st) (nbase (norcow_write_sector st) + (log_end as + 4)) = Some (log_end as + 4)"
    using i(1,2) by simp
  show ?thesis
  proof (cases r)
    case True
    have "log_end (as @ (k, v') # bs) = norcow_free_offset st" using i(5) s v'(2) by (simp add: length_enc_item del: enc_item.simps)
    moreover have "distinct (map fst (live (as @ (k, v') # bs)))" using i(4) s(1) by (simp split: if_splits)
    ultimately have "nc_inv (st\<lparr>nc_flash := fl\<rparr>) (as @ (k, v') # bs)" using nc_inv_step(2) [OF inv v'(1,3)] by blast
    moreover have "norcow_set_ex st k v len = Some (True, True, st\<lparr>nc_flash := fl\<rparr>)"
      using fi so u True k(2) i(2) unfolding norcow_set_ex_def upd_def by simp
    moreover have "kv (as @ (k, v') # bs) = (kv its)(k \<mapsto> set_value v len)"
      using kv_delete(2) [OF k(1) s(2,3)] v'(4) True s(1) by simp
    ultimately show ?thesis using Some by auto
  next
    case False
    obtain fl2 its2 where d: "delete_item fl (norcow_sectors ! ?i) (log_end as + 4) (length old) = Some fl2"
      "nc_inv (st\<lparr>nc_flash := fl2\<rparr>) its2" "kv its2 = (kv its)(k := None)" "k \<notin> fst ` set its2"
      "filter (\<lambda>it. fst it \<noteq> k) (live its) = live its2"
      using delete_inv [OF inv s k(1) v'(1-3)] by blast
    define st2 where "st2 = st\<lparr>nc_flash := fl2\<rparr>"
    note inv2 = d(2) [folded st2_def] and nk = d(4) and kv2 = d(3)
    have "filter (\<lambda>it. fst it \<noteq> k) (live its) = live its2" by (rule d(5))
    then have sp: "space_needed its k len = 12 + length (enc_items (live its2)) + len" by (simp add: space_needed_def)
    obtain ret st' its' st1 fl' pos where a: "(if norcow_free_offset st2 + 4 + len > 65536 then compact st2 else Some st2) = Some st1"
      "write_item (nc_flash st1) (norcow_write_sector st1) (norcow_free_offset st1) k v len = Some (ret, fl', pos)"
      "st' = (if ret then st1\<lparr>nc_flash := fl', norcow_free_offset := pos\<rparr> else st1\<lparr>nc_flash := fl'\<rparr>)"
      "nc_inv st' its'" "kv its' = (if ret then (kv its2)(k \<mapsto> set_value v len) else kv its2)"
      "ret \<longleftrightarrow> 12 + length (enc_items (live its2)) + len \<le> 65536 \<or> norcow_free_offset st2 + 4 + len \<le> 65536"
      using set_append [OF inv2 k nk len] by (elim exE conjE) (rule that)
    have "norcow_set_ex st k v len = Some (ret, True, st')"
      using fi so u False d(1) a(1-3) k(2) i(2) unfolding norcow_set_ex_def upd_def st2_def
      by (simp split del: if_split)
    then show ?thesis using a(4-6) Some sp kv2 by auto
  qed
qed

lemma norcow_set_log:
  assumes inv: "nc_inv st its" and k: "k \<noteq> 0" "k \<noteq> 0xFFFF"
    and len: "len < 65536" "\<forall>d. v = Some d \<longrightarrow> length d = len"
  shows "\<exists>ret st' its'. norcow_set_ex st k v len = Some (ret, kv its k \<noteq> None, st') \<and> nc_inv st' its'
    \<and> kv its' = (if ret then (kv its)(k \<mapsto> set_value v len) else (kv its)(k := None))
    \<and> (space_needed its k len \<le> 65536 \<longrightarrow> ret)"
  using norcow_set_new [OF inv k len] norcow_set_old [OF inv k len] by (cases "kv its k") simp_all

lemma norcow_delete_log:
  assumes inv: "nc_inv st its" and k: "k \<noteq> 0" "k \<noteq> 0xFFFF"
  shows "\<exists>st' its'. norcow_delete st k = Some (kv its k \<noteq> None, st') \<and> nc_inv st' its' \<and> kv its' = (kv its)(k := None)"
proof (cases "kv its k")
  case None
  note i = nc_inv_cases [OF inv]
  have "find_item (nc_flash st) (norcow_write_sector st) k = Some None"
    using find_item_kv(1) [OF i(3,1,4) k(1) None] i(2) by simp
  then have "norcow_delete st k = Some (False, st)" using k(2) by (simp add: norcow_delete_def)
  moreover have "(kv its)(k := None) = kv its" using None by (simp add: fun_upd_idem)
  ultimately show ?thesis using None inv by auto
next
  case (Some v)
  note i = nc_inv_cases [OF inv]
  obtain as bs where s: "its = as @ (k, v) # bs" "k \<notin> fst ` set as" "k \<notin> fst ` set bs"
    by (rule kv_Some_split [OF Some i(4) k(1)])
  have fi: "find_item (nc_flash st) (norcow_write_sector st) k = Some (Some (nbase (norcow_write_sector st) + (log_end as + 4), length v))"
    using find_item_kv(2) [OF i(3,1,4) k(1) s(1,3)] i(2) by (simp add: add.assoc)
  have so: "sector_offset (norcow_write_sector st) (nbase (norcow_write_sector st) + (log_end as + 4)) = Some (log_end as + 4)"
    using i(1,2) by simp
  obtain fl2 its2 where d: "delete_item (nc_flash st) (norcow_sectors ! norcow_active_sector st) (log_end as + 4) (length v) = Some fl2"
    "nc_inv (st\<lparr>nc_flash := fl2\<rparr>) its2" "kv its2 = (kv its)(k := None)"
    using delete_inv [OF inv s k(1) i(3) [unfolded s(1)]] by auto
  have "norcow_delete st k = Some (True, st\<lparr>nc_flash := fl2\<rparr>)"
    using fi so d(1) k(2) i(2) by (simp add: norcow_delete_def)
  then show ?thesis using d(2,3) Some by auto
qed

section \<open>Start-up, wiping, upgrading\<close>

lemma upt_2: "[0..<2] = [0, 1 :: nat]"
  by (simp add: upt_rec)

lemma find_start_erased:
  assumes "i < 2" "nsec fl i = replicate 65536 0xFF"
  shows "find_start_offset fl i = Some None"
proof -
  have b: "fl (nbase i + j) = 0xFF" if "j < 4" for j using that nsec_nth [OF assms(1), of j fl] assms(2) by simp
  have "flash_load32 fl (nbase i) = 0xFFFFFFFF"
    using b [of 0] b [of 1] b [of 2] b [of 3] by (simp add: flash_load32_def)
  then show ?thesis
    using assms(1) by (simp add: find_start_offset_def norcow_ptr_eq [of i 0 8, simplified] NORCOW_MAGIC_def NORCOW_MAGIC_V0_def)
qed

lemma norcow_wipe_log:
  assumes "norcow_active_sector st < 2"
  shows "\<exists>st'. norcow_wipe st = Some st' \<and> nc_inv st' []"
proof -
  define a where "a = norcow_active_sector st"
  have a: "a = 0 \<or> a = 1" using assms by (auto simp: a_def)
  obtain fl1 where 1: "erase_sector (nc_flash st) a True = Some fl1" "log_ok fl1 a []"
    using erase_log(1) [of a] assms a_def by blast
  obtain fl2 where 2: "erase_sector fl1 (1 - a) False = Some fl2" "nsec fl2 (1 - a) = replicate 65536 0xFF" "only_sector (1 - a) fl1 fl2"
    using erase_log(2) [of "1 - a" fl1] a by fastforce
  have "nsec fl2 a = nsec fl1 a" using 2(3) a unfolding only_sector_def by auto
  then have "log_ok fl2 a []" using 1(2) log_ok_cong by blast
  moreover have "norcow_wipe st = Some (st\<lparr>nc_flash := fl2, norcow_active_version := NORCOW_VERSION,
      norcow_write_sector := a, norcow_free_offset := 8\<rparr>)"
    using a 1(1) 2(1) unfolding norcow_wipe_def a_def [symmetric] upt_2 by auto
  ultimately show ?thesis using assms 2(2) by (auto simp: nc_inv_def nc_log_def a_def)
qed

lemma norcow_init_log:
  assumes inv: "nc_inv st its" and fl: "nc_flash st0 = nc_flash st"
  shows "\<exists>st'. norcow_init st0 = Some (st', NORCOW_VERSION) \<and> nc_inv st' its"
proof -
  note i = nc_inv_cases [OF inv]
  define a where "a = norcow_active_sector st"
  have a: "a = 0 \<or> a = 1" using i(1) by (auto simp: a_def)
  have e: "nsec (nc_flash st) (1 - a) = replicate 65536 0xFF" using inv by (simp add: nc_inv_def nc_log_def a_def)
  have f: "find_start_offset (nc_flash st0) a = Some (Some (8, NORCOW_VERSION))"
    "find_start_offset (nc_flash st0) (1 - a) = Some None"
    using find_start_log [OF i(3,1)] find_start_erased [of "1 - a", OF _ e] by (simp_all add: a_def fl)
  let ?st = "st0\<lparr>norcow_active_sector := a, norcow_active_version := NORCOW_VERSION\<rparr>"
  have "norcow_init_loop (st0\<lparr>norcow_active_sector := 0\<rparr>) [0..<2] False 0 = Some (?st, True, NORCOW_VERSION)"
    unfolding upt_2 using a f by auto
  moreover have "find_free_offset (nc_flash st0) a = Some (log_end its)"
    using find_free_log [OF i(3,1)] by (simp add: a_def fl)
  ultimately have "norcow_init st0 = Some (?st\<lparr>norcow_write_sector := a, norcow_free_offset := log_end its\<rparr>, NORCOW_VERSION)"
    by (simp add: norcow_init_def)
  then show ?thesis using inv by (simp add: nc_inv_def nc_log_def a_def fl)
qed


text \<open>The scan of \<open>norcow_get_next\<close>, repeated as the upgrade of the storage does it.\<close>

partial_function (option) enum_items :: "norcow \<Rightarrow> nat \<Rightarrow> item list option" where
  "enum_items st offset = do {
     r \<leftarrow> norcow_get_next st offset;
     case r of None \<Rightarrow> Some []
     | Some (pos, key, p, l) \<Rightarrow> do {
         rest \<leftarrow> enum_items st pos;
         Some ((key, flash_bytes (nc_flash st) p l) # rest) } }"

lemma get_next_log:
  assumes "log_ok (nc_flash st) (norcow_active_sector st) (as @ bs)" "norcow_active_sector st < 2"
    and "norcow_active_version st \<noteq> 0"
  shows "live bs = [] \<Longrightarrow> get_next_loop st (log_end as) = Some None"
    and "live bs = (k, v) # ls \<Longrightarrow> \<exists>cs ds p. bs = cs @ ds \<and> live ds = ls
      \<and> get_next_loop st (log_end as) = Some (Some (log_end (as @ cs), k, p, length v))
      \<and> flash_bytes (nc_flash st) p (length v) = v"
  using assms(1)
proof (induction bs arbitrary: as)
  case Nil
  { case 1 then show ?case using read_item_log_end [of "nc_flash st" _ as] assms(2) by (subst get_next_loop.simps) simp }
  { case 2 then show ?case by simp }
next
  case (Cons it bs)
  obtain k' v' where it: "it = (k', v')" by force
  { case 1
    have z: "k' = 0" "live bs = []" using 1(1) it by (auto split: if_splits)
    have l: "log_ok (nc_flash st) (norcow_active_sector st) ((as @ [it]) @ bs)" using 1(2) by simp
    have "get_next_loop st (log_end as) = get_next_loop st (log_end (as @ [it]))"
      using read_item_log(1) [OF 1(2) [unfolded it] assms(2)] z(1) it
      by (subst get_next_loop.simps) (simp del: log_end_simps)
    then show ?case using Cons.IH(1) [OF z(2) l] by simp }
  { case 2
    have l: "log_ok (nc_flash st) (norcow_active_sector st) ((as @ [it]) @ bs)" using 2(2) by simp
    note r = read_item_log [OF 2(2) [unfolded it] assms(2)]
    show ?case
    proof (cases "k' = 0")
      case True
      have "get_next_loop st (log_end as) = get_next_loop st (log_end (as @ [it]))"
        using r(1) True it by (subst get_next_loop.simps) (simp del: log_end_simps)
      moreover obtain cs ds p where "bs = cs @ ds" "live ds = ls"
        "get_next_loop st (log_end (as @ [it])) = Some (Some (log_end ((as @ [it]) @ cs), k, p, length v))"
        "flash_bytes (nc_flash st) p (length v) = v"
        using Cons.IH(2) [OF _ l] 2(1) it True by auto
      ultimately show ?thesis
        by (intro exI [of _ "it # cs"] exI [of _ ds] exI [of _ p]) simp
    next
      case False
      then have kv: "k' = k" "v' = v" "live bs = ls" using 2(1) it by auto
      have "get_next_loop st (log_end as) = Some (Some (log_end (as @ [it]), k, nbase (norcow_active_sector st) + log_end as + 4, length v))"
        using r(1) False kv it assms(3) by (subst get_next_loop.simps) (simp del: log_end_simps)
      then show ?thesis using kv r(2) by (intro exI [of _ "[it]"] exI [of _ bs]) auto
    qed }
qed

lemma enum_items_log:
  assumes "nc_log st (as @ bs)"
  shows "enum_items st (log_end as) = Some (live bs)"
  using assms
proof (induction "length (live bs)" arbitrary: as bs)
  case 0
  have "norcow_get_next st (log_end as) = get_next_loop st (log_end as)"
    by (simp add: norcow_get_next_def log_end_def)
  then show ?case using get_next_log(1) [of st as bs] 0 by (subst enum_items.simps) (simp add: nc_log_def NORCOW_VERSION_def)
next
  case (Suc n)
  then obtain k v ls where ls: "live bs = (k, v) # ls" by (metis length_Suc_conv surj_pair)
  have g: "norcow_get_next st (log_end as) = get_next_loop st (log_end as)"
    by (simp add: norcow_get_next_def log_end_def)
  obtain cs ds p where n: "bs = cs @ ds" "live ds = ls"
    "get_next_loop st (log_end as) = Some (Some (log_end (as @ cs), k, p, length v))"
    "flash_bytes (nc_flash st) p (length v) = v"
    using get_next_log(2) [OF _ _ _ ls, of st as] Suc.prems by (auto simp: nc_log_def NORCOW_VERSION_def)
  have "enum_items st (log_end (as @ cs)) = Some (live ds)"
    using Suc.hyps(1) [of ds "as @ cs"] Suc.hyps(2) Suc.prems n(1,2) ls by simp
  then show ?case using g n ls by (subst enum_items.simps) (simp del: log_end_simps)
qed

lemma enum_items_start:
  assumes "nc_inv st its"
  shows "enum_items st 0 = Some (live its)"
proof -
  note i = nc_inv_cases [OF assms]
  have "norcow_get_next st 0 = norcow_get_next st (log_end [])"
    using find_start_log [OF i(3,1)] by (simp add: norcow_get_next_def)
  then have "enum_items st 0 = enum_items st (log_end [])"
    by (simp add: enum_items.simps [of st 0] enum_items.simps [of st 8])
  then show ?thesis using enum_items_log [of st "[]" its] i(6) by simp
qed

section \<open>Updates in place\<close>

lemma log_value_split:
  assumes "log_ok fl i (as @ (k, v) # bs)"
  shows "\<exists>pre post. length pre = log_end as + 4 \<and> nsec fl i = pre @ v @ post
    \<and> (\<forall>fl' v'. length v' = length v \<longrightarrow> nsec fl' i = pre @ v' @ post \<longrightarrow> log_ok fl' i (as @ (k, v') # bs))"
proof -
  obtain n where n: "nsec fl i = header @ enc_items (as @ (k, v) # bs) @ replicate n 0xFF"
    and ok: "\<forall>it \<in> set (as @ (k, v) # bs). item_ok it"
    using assms by (auto simp: log_ok_def)
  let ?pre = "header @ enc_items as @ word_bytes (item_prefix k (length v))"
  let ?post = "replicate (align4 (length v) - length v) 0 @ enc_items bs @ replicate n 0xFF"
  have "log_ok fl' i (as @ (k, v') # bs)" if "length v' = length v" "nsec fl' i = ?pre @ v' @ ?post" for fl' v'
    using that ok by (intro log_okI) (auto simp: item_ok_def)
  moreover have "length ?pre = log_end as + 4" by (simp add: log_end_def)
  moreover have "nsec fl i = ?pre @ v @ ?post" using n by simp
  ultimately show ?thesis by blast
qed

text \<open>A value with the bytes from an offset on replaced, and when flash can do it.\<close>

definition overwrite :: "u8 list \<Rightarrow> nat \<Rightarrow> u8 list \<Rightarrow> u8 list" where
  "overwrite v off d = take off v @ d @ drop (off + length d) v"

definition only_clears :: "u8 list \<Rightarrow> nat \<Rightarrow> u8 list \<Rightarrow> bool" where
  "only_clears v off d \<longleftrightarrow> off + length d \<le> length v \<and> (\<forall>j < length d. v ! (off + j) AND d ! j = d ! j)"

lemma length_overwrite: "off + length d \<le> length v \<Longrightarrow> length (overwrite v off d) = length v"
  by (simp add: overwrite_def)

text \<open>Writing into the value of a key: the common part of the two updates.\<close>

lemma update_inv:
  assumes inv: "nc_inv st its" and k: "k \<noteq> 0" and v: "kv its k = Some v" and c: "only_clears v off d"
  obtains as pre post where
    "find_item (nc_flash st) (norcow_write_sector st) k = Some (Some (nbase (norcow_write_sector st) + (log_end as + 4), length v))"
    "length pre = log_end as + 4 + off" "nsec (nc_flash st) (norcow_write_sector st) = pre @ take (length d) (drop off v) @ post"
    "\<forall>fl'. nsec fl' (norcow_write_sector st) = pre @ d @ post \<longrightarrow> only_sector (norcow_write_sector st) (nc_flash st) fl' \<longrightarrow>
       (\<exists>its'. nc_inv (st\<lparr>nc_flash := fl'\<rparr>) its' \<and> kv its' = (kv its)(k \<mapsto> overwrite v off d))"
proof -
  note i = nc_inv_cases [OF inv]
  obtain as bs where s: "its = as @ (k, v) # bs" "k \<notin> fst ` set as" "k \<notin> fst ` set bs"
    by (rule kv_Some_split [OF v i(4) k])
  have fi: "find_item (nc_flash st) (norcow_write_sector st) k = Some (Some (nbase (norcow_write_sector st) + (log_end as + 4), length v))"
    using find_item_kv(2) [OF i(3,1,4) k s(1,3)] i(2) by (simp add: add.assoc)
  obtain pre post where p: "length pre = log_end as + 4" "nsec (nc_flash st) (norcow_active_sector st) = pre @ v @ post"
    and ok: "\<And>fl' v'. length v' = length v \<Longrightarrow> nsec fl' (norcow_active_sector st) = pre @ v' @ post \<Longrightarrow>
      log_ok fl' (norcow_active_sector st) (as @ (k, v') # bs)"
    using log_value_split [OF i(3) [unfolded s(1)]] by blast
  have len: "off + length d \<le> length v" using c by (simp add: only_clears_def)
  have "v = take off v @ take (length d) (drop off v) @ drop (off + length d) v"
    by (metis append_take_drop_id drop_drop add.commute)
  then have n: "nsec (nc_flash st) (norcow_write_sector st)
      = (pre @ take off v) @ take (length d) (drop off v) @ (drop (off + length d) v @ post)"
    using p(2) i(2) by simp
  have "\<exists>its'. nc_inv (st\<lparr>nc_flash := fl'\<rparr>) its' \<and> kv its' = (kv its)(k \<mapsto> overwrite v off d)"
    if "nsec fl' (norcow_write_sector st) = (pre @ take off v) @ d @ (drop (off + length d) v @ post)"
      "only_sector (norcow_write_sector st) (nc_flash st) fl'" for fl'
  proof -
    let ?its = "as @ (k, overwrite v off d) # bs"
    have l: "log_ok fl' (norcow_active_sector st) ?its"
      using that(1) i(2) len by (intro ok) (simp_all add: overwrite_def)
    have "log_end ?its = norcow_free_offset st"
      using i(5) s length_overwrite [OF len] by (simp add: length_enc_item del: enc_item.simps)
    moreover have "distinct (map fst (live ?its))" using i(4) s(1) by (simp split: if_splits)
    ultimately have "nc_inv (st\<lparr>nc_flash := fl'\<rparr>) ?its" using nc_inv_step(2) [OF inv l] that(2) i(2) by simp
    then show ?thesis using kv_delete(2) [OF k s(2,3)] s(1) by blast
  qed
  then show ?thesis using that [of as "pre @ take off v" "drop (off + length d) v @ post"] fi n p(1) len by simp
qed

lemma only_clears_zip:
  assumes "only_clears v off d"
  shows "\<forall>(a, b) \<in> set (zip (take (length d) (drop off v)) d). a AND b = b"
  using assms by (auto simp: only_clears_def in_set_zip)

lemma norcow_update_bytes_log:
  assumes inv: "nc_inv st its" and k: "k \<noteq> 0" and v: "kv its k = Some v" and c: "only_clears v off d"
  shows "\<exists>st' its'. norcow_update_bytes st k off d = Some (True, st') \<and> nc_inv st' its'
    \<and> kv its' = (kv its)(k \<mapsto> overwrite v off d)"
proof -
  let ?i = "norcow_write_sector st"
  have i: "?i < 2" using nc_inv_cases(1,2) [OF inv] by simp
  obtain as pre post where u:
    "find_item (nc_flash st) ?i k = Some (Some (nbase ?i + (log_end as + 4), length v))"
    "length pre = log_end as + 4 + off" "nsec (nc_flash st) ?i = pre @ take (length d) (drop off v) @ post"
    and fin: "\<forall>fl'. nsec fl' ?i = pre @ d @ post \<longrightarrow> only_sector ?i (nc_flash st) fl' \<longrightarrow>
       (\<exists>its'. nc_inv (st\<lparr>nc_flash := fl'\<rparr>) its' \<and> kv its' = (kv its)(k \<mapsto> overwrite v off d))"
    by (rule update_inv [OF inv k v c]) (rule that)
  have len: "off + length d \<le> length v" using c by (simp add: only_clears_def)
  obtain fl' where w: "flash_write_bytes (nc_flash st) (norcow_sectors ! ?i) (length pre) d = Some fl'"
    "nsec fl' ?i = pre @ d @ post" "only_sector ?i (nc_flash st) fl'"
    using write_bytes_nsec [OF i u(3) _ only_clears_zip [OF c]] len by auto
  have "norcow_update_bytes st k off d = Some (True, st\<lparr>nc_flash := fl'\<rparr>)"
    using u(1) w(1) len i unfolding u(2) norcow_update_bytes_def
    by (simp add: ensure_def flash_unlock_write_def flash_lock_write_def)
  then show ?thesis using fin w(2,3) by blast
qed

text \<open>A byte that would set a bit stops the loop, and with it the device.\<close>

lemma write_bytes_nsec_refused:
  assumes "i < 2" "nsec fl i = pre @ old @ post" "length old = length bs"
    and "\<not> (\<forall>(a, d) \<in> set (zip old bs). a AND d = d)"
  shows "flash_write_bytes fl (norcow_sectors ! i) (length pre) bs = None"
  using assms(2-4)
proof (induction bs arbitrary: fl pre old)
  case Nil
  then show ?case by simp
next
  case (Cons b bs)
  then obtain a old' where o: "old = a # old'" by (metis length_Suc_conv)
  show ?case
  proof (cases "a AND b = b")
    case True
    obtain fl1 where 1: "flash_write_byte fl (norcow_sectors ! i) (length pre) b = Some fl1"
      "nsec fl1 i = pre @ b # old' @ post" using write_byte_nsec [OF assms(1) _ True] Cons.prems(1) o by force
    then show ?thesis using Cons.IH [of fl1 "pre @ [b]" old'] Cons.prems(2,3) o True by simp
  next
    case False
    then show ?thesis using write_byte_nsec_refused [OF assms(1) _ False] Cons.prems(1) o by force
  qed
qed

lemma norcow_update_bytes_halts:
  assumes inv: "nc_inv st its" and k: "k \<noteq> 0" and v: "kv its k = Some v"
    and len: "off + length d \<le> length v" and c: "\<not> only_clears v off d"
  shows "norcow_update_bytes st k off d = None"
proof -
  let ?i = "norcow_write_sector st"
  note i = nc_inv_cases [OF inv]
  obtain as bs where s: "its = as @ (k, v) # bs" "k \<notin> fst ` set bs"
    using kv_Some_split [OF v i(4) k] by metis
  have fi: "find_item (nc_flash st) ?i k = Some (Some (nbase ?i + (log_end as + 4), length v))"
    using find_item_kv(2) [OF i(3,1,4) k s] i(2) by (simp add: add.assoc)
  obtain pre post where p: "length pre = log_end as + 4" "nsec (nc_flash st) ?i = pre @ v @ post"
    using log_value_split [OF i(3) [unfolded s(1)]] i(2) by auto
  have "v = take off v @ take (length d) (drop off v) @ drop (off + length d) v"
    by (metis append_take_drop_id drop_drop add.commute)
  then have n: "nsec (nc_flash st) ?i = (pre @ take off v) @ take (length d) (drop off v) @ (drop (off + length d) v @ post)"
    using p(2) by simp
  obtain j where j: "j < length d" "v ! (off + j) AND d ! j \<noteq> d ! j" using c len by (auto simp: only_clears_def)
  then have "(v ! (off + j), d ! j) \<in> set (zip (take (length d) (drop off v)) d)"
    using len by (auto simp: in_set_zip intro!: exI [of _ j])
  then have "\<not> (\<forall>(a, b) \<in> set (zip (take (length d) (drop off v)) d). a AND b = b)" using j(2) by blast
  from write_bytes_nsec_refused [OF _ n _ this] i(1,2) len
  have "flash_write_bytes (nc_flash st) (norcow_sectors ! ?i) (log_end as + 4 + off) d = None"
    using p(1) by simp
  then show ?thesis using fi len i(1,2) unfolding norcow_update_bytes_def by (simp add: ensure_def)
qed

lemma norcow_update_word_log:
  assumes inv: "nc_inv st its" and k: "k \<noteq> 0" and v: "kv its k = Some v" and c: "only_clears v off (word_bytes w)"
    and off: "off mod 4 = 0"
  shows "\<exists>st' its'. norcow_update_word st k off w = Some (True, st') \<and> nc_inv st' its'
    \<and> kv its' = (kv its)(k \<mapsto> overwrite v off (word_bytes w))"
proof -
  let ?i = "norcow_write_sector st" and ?d = "word_bytes w"
  have i: "?i < 2" using nc_inv_cases(1,2) [OF inv] by simp
  obtain as pre post where u:
    "find_item (nc_flash st) ?i k = Some (Some (nbase ?i + (log_end as + 4), length v))"
    "length pre = log_end as + 4 + off" "nsec (nc_flash st) ?i = pre @ take (length ?d) (drop off v) @ post"
    and fin: "\<forall>fl'. nsec fl' ?i = pre @ ?d @ post \<longrightarrow> only_sector ?i (nc_flash st) fl' \<longrightarrow>
       (\<exists>its'. nc_inv (st\<lparr>nc_flash := fl'\<rparr>) its' \<and> kv its' = (kv its)(k \<mapsto> overwrite v off ?d))"
    by (rule update_inv [OF inv k v c]) (rule that)
  have len: "off + 4 \<le> length v" and cl: "\<forall>j < 4. v ! (off + j) AND ?d ! j = ?d ! j"
    using c by (simp_all add: only_clears_def)
  have dv: "4 dvd length pre" using off log_end_dvd [of as] unfolding u(2) by presburger
  have "\<forall>j < 4. take (length ?d) (drop off v) ! j AND ?d ! j = ?d ! j" using cl len by simp
  then obtain fl' where w: "flash_write_word (nc_flash st) (norcow_sectors ! ?i) (length pre) w = Some fl'"
    "nsec fl' ?i = pre @ ?d @ post" "only_sector ?i (nc_flash st) fl'"
    using write_word_nsec [OF i u(3) _ dv] len by auto
  have "norcow_update_word st k off w = Some (True, st\<lparr>nc_flash := fl'\<rparr>)"
    using u(1) w(1) len i off unfolding u(2) norcow_update_word_def
    by (simp add: ensure_def flash_unlock_write_def flash_lock_write_def mod_eq_0_iff_dvd)
  then show ?thesis using fin w(2,3) by blast
qed

lemma norcow_update_refused:
  assumes inv: "nc_inv st its" and k: "k \<noteq> 0"
    and r: "kv its k = None \<or> (\<exists>v. kv its k = Some v \<and> off + length d > length v)"
  shows "norcow_update_bytes st k off d = Some (False, st)"
proof (cases "kv its k")
  case None
  note i = nc_inv_cases [OF inv]
  have "find_item (nc_flash st) (norcow_write_sector st) k = Some None"
    using find_item_kv(1) [OF i(3,1,4) k None] i(2) by simp
  then show ?thesis by (simp add: norcow_update_bytes_def)
next
  case (Some v)
  note i = nc_inv_cases [OF inv]
  obtain as bs where s: "its = as @ (k, v) # bs" "k \<notin> fst ` set bs"
    using kv_Some_split [OF Some i(4) k] by metis
  have "find_item (nc_flash st) (norcow_write_sector st) k = Some (Some (nbase (norcow_write_sector st) + (log_end as + 4), length v))"
    using find_item_kv(2) [OF i(3,1,4) k s] i(2) by (simp add: add.assoc)
  then show ?thesis using r Some by (simp add: norcow_update_bytes_def)
qed

end
