(* ===== verification/Norcow_Spec.thy ===== *)
theory Norcow_Spec
  imports Norcow_Store
begin

text \<open>
  The store of \<open>storage/norcow.c\<close> as an instance of the key-value interface, and its properties:
  what set, delete, update and the scan do to the map, that the map survives a restart, and what
  a power loss in the middle of a compaction does.
\<close>

section \<open>The store implements the interface\<close>

definition store_inv :: "norcow \<Rightarrow> bool" where
  "store_inv st \<longleftrightarrow> (\<exists>its. nc_inv st its)"

definition store_key :: "u16 \<Rightarrow> bool" where
  "store_key k \<longleftrightarrow> k \<noteq> 0 \<and> k \<noteq> 0xFFFF"

definition store_set :: "norcow \<Rightarrow> u16 \<Rightarrow> u8 list \<Rightarrow> (bool \<times> norcow) option" where
  "store_set st k v = norcow_set st k (Some v) (length v)"

lemma norcow_read_inv: "nc_inv st its \<Longrightarrow> k \<noteq> 0 \<Longrightarrow> norcow_read st k = Some (kv its k)"
  by (rule norcow_read_kv [OF nc_inv_cases(6)])

lemma norcow_read_upd:
  assumes "nc_inv s its" "nc_inv s' its'" "kv its' = (kv its)(k := r)" "store_key k"
  shows "norcow_read s' k = Some r \<and> (\<forall>k'. store_key k' \<longrightarrow> k' \<noteq> k \<longrightarrow> norcow_read s' k' = norcow_read s k')"
  using norcow_read_inv [OF assms(1)] norcow_read_inv [OF assms(2)] assms(3,4) by (simp add: store_key_def)

lemma store_set_law:
  assumes i: "nc_inv s its" and k: "store_key k" and v: "length v < 65536"
  shows "\<exists>b s'. store_set s k v = Some (b, s') \<and> store_inv s' \<and> norcow_read s' k = Some (if b then Some v else None)
    \<and> (\<forall>k'. store_key k' \<longrightarrow> k' \<noteq> k \<longrightarrow> norcow_read s' k' = norcow_read s k')"
proof -
  have "k \<noteq> 0" "k \<noteq> 0xFFFF" "\<forall>d. Some v = Some d \<longrightarrow> length d = length v" using k by (simp_all add: store_key_def)
  from norcow_set_log [OF i this(1,2) v this(3)] obtain ret st' its' where
    d: "norcow_set_ex s k (Some v) (length v) = Some (ret, kv its k \<noteq> None, st')" "nc_inv st' its'"
    "kv its' = (if ret then (kv its)(k \<mapsto> set_value (Some v) (length v)) else (kv its)(k := None))" by blast
  have u: "kv its' = (kv its)(k := if ret then Some v else None)" using d(3) by (simp add: set_value_def)
  have "store_set s k v = Some (ret, st')" using d(1) by (simp add: store_set_def norcow_set_def)
  moreover have "store_inv st'" using d(2) unfolding store_inv_def by (rule exI)
  ultimately show ?thesis using conjunct1 [OF norcow_read_upd [OF i d(2) u k]] conjunct2 [OF norcow_read_upd [OF i d(2) u k]]
    by (intro exI conjI)
qed

lemma store_delete_law:
  assumes i: "nc_inv s its" and k: "store_key k"
  shows "\<exists>s'. norcow_delete s k = Some (norcow_read s k \<noteq> Some None, s') \<and> store_inv s' \<and> norcow_read s' k = Some None
    \<and> (\<forall>k'. store_key k' \<longrightarrow> k' \<noteq> k \<longrightarrow> norcow_read s' k' = norcow_read s k')"
proof -
  have k0: "k \<noteq> 0" "k \<noteq> 0xFFFF" using k by (simp_all add: store_key_def)
  from norcow_delete_log [OF i this] obtain st' its' where
    d: "norcow_delete s k = Some (kv its k \<noteq> None, st')" "nc_inv st' its'" "kv its' = (kv its)(k := None)" by blast
  have "norcow_delete s k = Some (norcow_read s k \<noteq> Some None, st')" using d(1) norcow_read_inv [OF i k0(1)] by simp
  moreover have "store_inv st'" using d(2) unfolding store_inv_def by (rule exI)
  ultimately show ?thesis using conjunct1 [OF norcow_read_upd [OF i d(2,3) k]] conjunct2 [OF norcow_read_upd [OF i d(2,3) k]]
    by (intro exI conjI)
qed

lemma store_get_total: "store_inv s \<Longrightarrow> store_key k \<Longrightarrow> \<exists>r. norcow_read s k = Some r"
  using norcow_read_inv by (auto simp: store_inv_def store_key_def)

interpretation nc: kv_store store_inv store_key "\<lambda>v :: u8 list. length v < 65536" norcow_read store_set norcow_delete
proof
  fix s k assume s: "store_inv s" and k: "store_key k"
  show "\<exists>r. norcow_read s k = Some r" using s k by (rule store_get_total)
  from s obtain its where i: "nc_inv s its" unfolding store_inv_def by (rule exE)
  note store_delete_law [OF i k]
  then show "\<exists>s'. norcow_delete s k = Some (norcow_read s k \<noteq> Some None, s') \<and> store_inv s' \<and> norcow_read s' k = Some None
    \<and> (\<forall>k'. store_key k' \<longrightarrow> k' \<noteq> k \<longrightarrow> norcow_read s' k' = norcow_read s k')" .
  fix v :: "u8 list" assume "length v < 65536"
  from store_set_law [OF i k this]
  show "\<exists>b s'. store_set s k v = Some (b, s') \<and> store_inv s' \<and> norcow_read s' k = Some (if b then Some v else None)
    \<and> (\<forall>k'. store_key k' \<longrightarrow> k' \<noteq> k \<longrightarrow> norcow_read s' k' = norcow_read s k')" .
qed

section \<open>Properties\<close>

text \<open>C9. \<open>norcow_set\<close> implements a map update. On a store that holds the map \<open>kv its\<close> it returns,
  reports whether the key was there, and keeps the store well formed. If it succeeds the key has the
  new value (erased bytes when no value is given); if it fails the key has no value, and every other
  key is as before. It succeeds whenever the live items and the new one fit a sector.\<close>

theorem norcow_set_spec:
  assumes "nc_inv st its" "k \<noteq> 0" "k \<noteq> 0xFFFF" "len < 65536" "\<forall>d. v = Some d \<longrightarrow> length d = len"
  shows "\<exists>ret st' its'. norcow_set_ex st k v len = Some (ret, kv its k \<noteq> None, st') \<and> nc_inv st' its'
    \<and> kv its' = (if ret then (kv its)(k \<mapsto> set_value v len) else (kv its)(k := None))
    \<and> (space_needed its k len \<le> 65536 \<longrightarrow> ret)"
  by (rule norcow_set_log [OF assms])

lemma wiped_store: "\<exists>st. norcow_wipe \<lparr>nc_flash = \<lambda>_. 0xFF, norcow_active_sector = 0, norcow_write_sector = 0,
    norcow_active_version = 0, norcow_free_offset = 0\<rparr> = Some st \<and> nc_inv st []"
  by (rule norcow_wipe_log) simp

lemma wiped_sector:
  assumes "norcow_wipe st0 = Some st"
  shows "norcow_active_sector st = norcow_active_sector st0"
  using assms by (auto simp: norcow_wipe_def bind_eq_Some_conv)

theorem norcow_set_spec_witness:
  "\<exists>st st' its'. nc_inv st [] \<and> norcow_set_ex st 7 (Some [1, 2, 3]) 3 = Some (True, False, st')
    \<and> nc_inv st' its' \<and> kv its' 7 = Some [1, 2, 3]"
proof -
  obtain st where st: "nc_inv st []" using wiped_store by blast
  from norcow_set_spec [OF st, of 7 3 "Some [1, 2, 3]"] obtain ret st' its' where
    "norcow_set_ex st 7 (Some [1, 2, 3]) 3 = Some (ret, False, st')" "nc_inv st' its'"
    "kv its' = (if ret then (kv [])(7 \<mapsto> [1, 2, 3]) else (kv [])(7 := None))" "ret"
    by (auto simp: set_value_def space_needed_def kv_def)
  then have "norcow_set_ex st 7 (Some [1, 2, 3]) 3 = Some (True, False, st')" "nc_inv st' its'" "kv its' 7 = Some [1, 2, 3]"
    by simp_all
  then show ?thesis using st by blast
qed

text \<open>C10. What was written is read back, across restarts. Run any sequence of sets and deletes on a
  wiped store and restart the device: the static variables get arbitrary values and only the flash
  is kept. If every set reported success, then after \<open>norcow_init\<close> each key has the value of its
  last update, and a key with none is absent.\<close>

theorem norcow_persistent:
  assumes "norcow_active_sector st0 < 2" "norcow_wipe st0 = Some st"
    and "\<forall>(k, r) \<in> set us. store_key k \<and> (\<forall>v. r = Some v \<longrightarrow> length v < 65536)"
  shows "\<exists>b st1. run_updates store_set norcow_delete st us = Some (b, st1)
    \<and> (b \<longrightarrow> (\<forall>st2. nc_flash st2 = nc_flash st1 \<longrightarrow> (\<exists>st3. norcow_init st2 = Some (st3, NORCOW_VERSION)
         \<and> (\<forall>k. store_key k \<longrightarrow> norcow_read st3 k = Some (case map_of (rev us) k of Some r \<Rightarrow> r | None \<Rightarrow> None)))))"
proof -
  have st: "nc_inv st []" using norcow_wipe_log [OF assms(1)] assms(2) by simp
  then have "store_inv st" by (auto simp: store_inv_def)
  from nc.run_last_write [OF this assms(3)] obtain b st1 its where r:
    "run_updates store_set norcow_delete st us = Some (b, st1)" "nc_inv st1 its"
    "b \<longrightarrow> (\<forall>k. store_key k \<longrightarrow> norcow_read st1 k = (case map_of (rev us) k of Some r \<Rightarrow> Some r | None \<Rightarrow> norcow_read st k))"
    by (auto simp: store_inv_def)
  have e: "norcow_read st k = Some None" if "store_key k" for k
    using norcow_read_inv [OF st] that by (simp add: store_key_def kv_def)
  have "\<exists>st3. norcow_init st2 = Some (st3, NORCOW_VERSION)
      \<and> (\<forall>k. store_key k \<longrightarrow> norcow_read st3 k = Some (case map_of (rev us) k of Some r \<Rightarrow> r | None \<Rightarrow> None))"
    if b: "b" and fl: "nc_flash st2 = nc_flash st1" for st2
  proof -
    obtain st3 where 3: "norcow_init st2 = Some (st3, NORCOW_VERSION)" "nc_inv st3 its"
      using norcow_init_log [OF r(2) fl] by blast
    have "norcow_read st3 k = norcow_read st1 k" if "store_key k" for k
      using norcow_read_inv [OF r(2)] norcow_read_inv [OF 3(2)] that by (simp add: store_key_def)
    then show ?thesis using 3(1) r(3) b e by (auto split: option.splits)
  qed
  then show ?thesis using r(1) by blast
qed

theorem norcow_persistent_witness:
  "\<exists>st b st1. norcow_wipe \<lparr>nc_flash = \<lambda>_. 0xFF, norcow_active_sector = 0, norcow_write_sector = 0,
      norcow_active_version = 0, norcow_free_offset = 0\<rparr> = Some st
    \<and> run_updates store_set norcow_delete st [(1, Some [9]), (2, Some []), (1, None)] = Some (b, st1)
    \<and> (b \<longrightarrow> (\<exists>st3. norcow_init st1 = Some (st3, NORCOW_VERSION)
         \<and> norcow_read st3 1 = Some None \<and> norcow_read st3 2 = Some (Some [])))"
proof -
  let ?us = "[(1, Some [9]), (2, Some []), (1, None)] :: (u16 \<times> u8 list option) list"
  obtain st where st: "norcow_wipe \<lparr>nc_flash = \<lambda>_. 0xFF, norcow_active_sector = 0, norcow_write_sector = 0,
      norcow_active_version = 0, norcow_free_offset = 0\<rparr> = Some st" using wiped_store by blast
  have "\<forall>(k, r) \<in> set ?us. store_key k \<and> (\<forall>v. r = Some v \<longrightarrow> length v < 65536)" by (simp add: store_key_def)
  from norcow_persistent [OF _ st this] obtain b st1 where b: "run_updates store_set norcow_delete st ?us = Some (b, st1)"
    "b \<Longrightarrow> \<exists>st3. norcow_init st1 = Some (st3, NORCOW_VERSION)
         \<and> (\<forall>k. store_key k \<longrightarrow> norcow_read st3 k = Some (case map_of (rev ?us) k of Some r \<Rightarrow> r | None \<Rightarrow> None))"
    by auto
  have "b \<longrightarrow> (\<exists>st3. norcow_init st1 = Some (st3, NORCOW_VERSION)
         \<and> norcow_read st3 1 = Some None \<and> norcow_read st3 2 = Some (Some []))"
    using b(2) by (auto simp: store_key_def)
  then show ?thesis using st b(1) by blast
qed


text \<open>C11. \<open>norcow_delete\<close> removes exactly the key, reports whether it was there, and keeps the store
  well formed.\<close>

theorem norcow_delete_spec:
  assumes "nc_inv st its" "k \<noteq> 0" "k \<noteq> 0xFFFF"
  shows "\<exists>st' its'. norcow_delete st k = Some (kv its k \<noteq> None, st') \<and> nc_inv st' its' \<and> kv its' = (kv its)(k := None)"
  by (rule norcow_delete_log [OF assms])

theorem norcow_delete_spec_witness:
  "\<exists>st st' its'. nc_inv st [] \<and> norcow_delete st 5 = Some (False, st') \<and> nc_inv st' its'"
proof -
  obtain st where st: "nc_inv st []" using wiped_store by blast
  from norcow_delete_spec [OF this, of 5] st show ?thesis by (auto simp: kv_def)
qed

text \<open>C12. Repeating \<open>norcow_get_next\<close> from offset 0 ends and yields the live items of the store, each
  once and in the order they were written, skipping the deleted ones.\<close>

theorem norcow_get_next_spec:
  assumes "nc_inv st its"
  shows "enum_items st 0 = Some (live its) \<and> distinct (map fst (live its)) \<and> map_of (live its) = kv its"
  using enum_items_start [OF assms] nc_inv_cases(4) [OF assms] by (simp add: kv_def)

theorem norcow_get_next_spec_witness: "\<exists>st. nc_inv st [] \<and> enum_items st 0 = Some []"
proof -
  obtain st where st: "nc_inv st []" using wiped_store by blast
  from norcow_get_next_spec [OF this] st show ?thesis by auto
qed

text \<open>A restart with a log in each sector: the scan takes the later of two sectors of one version.\<close>

lemma norcow_init_two_logs:
  assumes "log_ok (nc_flash st0) 0 as" "log_ok (nc_flash st0) 1 bs" "distinct (map fst (live bs))"
  shows "\<exists>st'. norcow_init st0 = Some (st', NORCOW_VERSION) \<and> (\<forall>k. k \<noteq> 0 \<longrightarrow> norcow_read st' k = Some (kv bs k))"
proof -
  let ?st = "st0\<lparr>norcow_active_sector := 1, norcow_active_version := NORCOW_VERSION\<rparr>"
  let ?st' = "?st\<lparr>norcow_write_sector := 1, norcow_free_offset := log_end bs\<rparr>"
  have "norcow_init_loop (st0\<lparr>norcow_active_sector := 0\<rparr>) [0..<2] False 0 = Some (?st, True, NORCOW_VERSION)"
    unfolding upt_2 using find_start_log [OF assms(1)] find_start_log [OF assms(2)] by simp
  moreover have "find_free_offset (nc_flash st0) 1 = Some (log_end bs)" using find_free_log [OF assms(2)] by simp
  ultimately have "norcow_init st0 = Some (?st', NORCOW_VERSION)" by (simp add: norcow_init_def)
  moreover have "norcow_read ?st' k = Some (kv bs k)" if "k \<noteq> 0" for k
    using assms(2,3) that by (intro norcow_read_log) simp_all
  ultimately show ?thesis by blast
qed

lemma live_take_distinct: "distinct (map fst (live its)) \<Longrightarrow> distinct (map fst (live (take n its)))"
  by (metis append_take_drop_id distinct_append live_simps(2) map_append)

text \<open>A store with one value, for the examples.\<close>

lemma store_with_value:
  assumes "store_key k" "length v < 60000"
  obtains st its where "nc_inv st its" "norcow_active_sector st = 0" "kv its = [k \<mapsto> v]"
proof -
  obtain st0 where w: "norcow_wipe \<lparr>nc_flash = \<lambda>_. 0xFF, norcow_active_sector = 0, norcow_write_sector = 0,
      norcow_active_version = 0, norcow_free_offset = 0\<rparr> = Some st0" and st0: "nc_inv st0 []" using wiped_store by blast
  note i = nc_inv_cases [OF st0]
  have a: "norcow_active_sector st0 = 0" using wiped_sector [OF w] by simp
  have p: "k \<noteq> 0xFFFF" "length v < 65536" "log_end [] + 4 + length v \<le> 65536" "\<forall>d. Some v = Some d \<longrightarrow> length d = length v"
    using assms by (simp_all add: store_key_def)
  from write_item_log [OF i(3,1) p(1-3), of "Some v", unfolded option.case append_Nil, OF p(4)] obtain fl where
    fl: "log_ok fl (norcow_active_sector st0) [(k, v)]" "only_sector (norcow_active_sector st0) (nc_flash st0) fl"
    by blast
  from nc_inv_step(1) [OF st0 fl]
  have "nc_inv (st0\<lparr>nc_flash := fl, norcow_free_offset := log_end [(k, v)]\<rparr>) [(k, v)]" by simp
  moreover have "kv [(k, v)] = [k \<mapsto> v]" using assms(1) by (simp add: kv_def store_key_def)
  ultimately show ?thesis using that a by simp
qed

text \<open>C13. What \<open>norcow_update_bytes\<close> does, in every case. It fails without touching the flash if the key
  is absent or the bytes would pass the end of its value. In range, if the bytes only clear bits of
  the value, they replace its bytes from the offset on and nothing else changes; if some byte would
  set a bit, the flash refuses it and the function does not return: \<open>ensure\<close> halts the device.\<close>

theorem norcow_update_bytes_spec:
  assumes "nc_inv st its" "k \<noteq> 0"
  shows "case kv its k of
      None \<Rightarrow> norcow_update_bytes st k off d = Some (False, st)
    | Some v \<Rightarrow>
        if off + length d > length v then norcow_update_bytes st k off d = Some (False, st)
        else if only_clears v off d then \<exists>st' its'. norcow_update_bytes st k off d = Some (True, st') \<and> nc_inv st' its'
             \<and> kv its' = (kv its)(k \<mapsto> overwrite v off d)
        else norcow_update_bytes st k off d = None"
  using norcow_update_bytes_log [OF assms] norcow_update_refused [OF assms, of off d] norcow_update_bytes_halts [OF assms]
  by (auto split: option.splits)

theorem norcow_update_bytes_spec_witness:
  "\<exists>st its. nc_inv st its \<and> kv its 7 = Some [0xF0, 0x0F]
    \<and> (\<exists>st' its'. norcow_update_bytes st 7 1 [0x05] = Some (True, st') \<and> nc_inv st' its' \<and> kv its' 7 = Some [0xF0, 0x05])
    \<and> norcow_update_bytes st 7 1 [0x10] = None
    \<and> norcow_update_bytes st 7 1 [0x05, 0] = Some (False, st) \<and> norcow_update_bytes st 5 0 [1] = Some (False, st)"
proof -
  obtain st its where st: "nc_inv st its" and m: "kv its = [7 \<mapsto> [0xF0, 0x0F]]"
    by (rule store_with_value [of 7 "[0xF0, 0x0F]"]) (simp_all add: store_key_def)
  have c: "only_clears [0xF0, 0x0F] 1 [0x05]" by (simp add: only_clears_def)
  have "\<not> [0xF0, 0x0F :: u8] ! (1 + 0) AND [0x10] ! 0 = [0x10] ! 0" by simp
  then have h: "\<not> only_clears [0xF0, 0x0F] 1 [0x10]" unfolding only_clears_def by fastforce
  note u = norcow_update_bytes_spec [OF st, of 7]
  obtain st' its' where "norcow_update_bytes st 7 1 [0x05] = Some (True, st')" "nc_inv st' its'" "kv its' 7 = Some [0xF0, 0x05]"
    using u [of 1 "[0x05]"] c m by (auto simp: overwrite_def)
  moreover have "norcow_update_bytes st 7 1 [0x10] = None" using u [of 1 "[0x10]"] h m by simp
  moreover have "norcow_update_bytes st 7 1 [0x05, 0] = Some (False, st)" using u [of 1 "[0x05, 0]"] m by simp
  moreover have "norcow_update_bytes st 5 0 [1] = Some (False, st)"
    using norcow_update_bytes_spec [OF st, of 5 0 "[1]"] m by simp
  ultimately show ?thesis using st m by (intro exI conjI) auto
qed

text \<open>C14. A power loss in \<open>compact\<close>. Run to its end, \<open>compact\<close> keeps the map. Cut it after the other
  sector is erased and stamped (\<open>compact_begin\<close>) and \<open>n\<close> turns of the copying loop, restart the device with
  that flash, and let \<open>norcow_init\<close> choose a sector. If the items were moving out of sector 1, the old sector
  is chosen and the map is whole. If they were moving out of sector 0, the new sector is chosen, since
  it carries its version from the start: the store then holds only the first \<open>n\<close> items, and with
  \<open>n = 0\<close> none.\<close>

theorem compact_power_loss:
  assumes "nc_inv st its"
  shows "\<exists>offsetr st1 st2. compact_begin st = Some (Some (offsetr, st1)) \<and> compact st = Some st2
    \<and> (\<forall>k. k \<noteq> 0 \<longrightarrow> norcow_read st2 k = Some (kv its k))
    \<and> (\<forall>n. \<exists>fl r w. compact_turns n (nc_flash st1) (norcow_active_sector st1) (norcow_write_sector st1) offsetr NORCOW_STORAGE_START
           = Some (fl, r, w)
         \<and> (\<forall>st0. nc_flash st0 = fl \<longrightarrow> (\<exists>st'. norcow_init st0 = Some (st', NORCOW_VERSION)
              \<and> (\<forall>k. k \<noteq> 0 \<longrightarrow> norcow_read st' k
                   = Some (kv (if norcow_active_sector st = 0 then take n its else its) k)))))"
proof -
  let ?a = "norcow_active_sector st" and ?w = "1 - norcow_active_sector st"
  note i = nc_inv_cases [OF assms]
  have w: "?w < 2" "?a \<noteq> ?w" "?a = 0 \<or> ?a = 1" using i(1) by (auto simp: less_Suc_eq numeral_2_eq_2)
  obtain fl1 where 1: "compact_begin st = Some (Some (log_end [], st\<lparr>nc_flash := fl1, norcow_write_sector := ?w\<rparr>))"
    "log_ok fl1 ?a ([] @ its)" "log_ok fl1 ?w []" using compact_begin_log [OF i(6)] by auto
  obtain st2 where 2: "compact st = Some st2" "nc_inv st2 (live its)" using compact_log [OF i(6)] by blast
  have "\<exists>fl r w. compact_turns n fl1 ?a ?w (log_end []) NORCOW_STORAGE_START = Some (fl, r, w)
      \<and> (\<forall>st0. nc_flash st0 = fl \<longrightarrow> (\<exists>st'. norcow_init st0 = Some (st', NORCOW_VERSION)
           \<and> (\<forall>k. k \<noteq> 0 \<longrightarrow> norcow_read st' k = Some (kv (if ?a = 0 then take n its else its) k))))" for n
  proof -
    obtain fl r o' where t: "compact_turns n fl1 ?a ?w (log_end []) NORCOW_STORAGE_START = Some (fl, r, o')"
      "log_ok fl ?a its" "log_ok fl ?w (live (take n its))"
      using compact_turns_log [OF i(1) w(1,2) 1(2,3) live_fits [OF 1(2) i(1), simplified append_Nil], of n] by auto
    have "\<exists>st'. norcow_init st0 = Some (st', NORCOW_VERSION)
        \<and> (\<forall>k. k \<noteq> 0 \<longrightarrow> norcow_read st' k = Some (kv (if ?a = 0 then take n its else its) k))" if "nc_flash st0 = fl" for st0
      using norcow_init_two_logs [of st0 its "live (take n its)"] norcow_init_two_logs [of st0 "live (take n its)" its]
        t(2,3) w(3) that live_take_distinct [OF i(4), of n] i(4) by (auto simp: kv_live)
    then show ?thesis using t(1) by blast
  qed
  moreover have "norcow_read st2 k = Some (kv its k)" if "k \<noteq> 0" for k
    using norcow_read_inv [OF 2(2) that] by (simp add: kv_live)
  moreover have "nc_flash (st\<lparr>nc_flash := fl1, norcow_write_sector := ?w\<rparr>) = fl1"
    "norcow_active_sector (st\<lparr>nc_flash := fl1, norcow_write_sector := ?w\<rparr>) = ?a"
    "norcow_write_sector (st\<lparr>nc_flash := fl1, norcow_write_sector := ?w\<rparr>) = ?w" by simp_all
  ultimately show ?thesis using 1(1) 2(1) by metis
qed

theorem compact_power_loss_witness:
  "\<exists>st its offsetr st1 st2 st'. nc_inv st its \<and> norcow_read st 7 = Some (Some [1, 2])
    \<and> compact st = Some st2 \<and> norcow_read st2 7 = Some (Some [1, 2])
    \<and> compact_begin st = Some (Some (offsetr, st1)) \<and> norcow_init st1 = Some (st', NORCOW_VERSION)
    \<and> norcow_read st' 7 = Some None"
proof -
  obtain st its where st: "nc_inv st its" "norcow_active_sector st = 0" and m: "kv its = [7 \<mapsto> [1, 2]]"
    by (rule store_with_value [of 7 "[1, 2]"]) (simp_all add: store_key_def)
  obtain offsetr st1 st2 where c: "compact_begin st = Some (Some (offsetr, st1))" "compact st = Some st2"
    "\<forall>k. k \<noteq> 0 \<longrightarrow> norcow_read st2 k = Some (kv its k)"
    "\<forall>n. \<exists>fl r w. compact_turns n (nc_flash st1) (norcow_active_sector st1) (norcow_write_sector st1) offsetr NORCOW_STORAGE_START
       = Some (fl, r, w) \<and> (\<forall>st0. nc_flash st0 = fl \<longrightarrow> (\<exists>st'. norcow_init st0 = Some (st', NORCOW_VERSION)
            \<and> (\<forall>k. k \<noteq> 0 \<longrightarrow> norcow_read st' k = Some (kv (if norcow_active_sector st = 0 then take n its else its) k))))"
    using compact_power_loss [OF st(1)] by blast
  have "\<exists>st'. norcow_init st1 = Some (st', NORCOW_VERSION)
      \<and> (\<forall>k. k \<noteq> 0 \<longrightarrow> norcow_read st' k = Some (kv (if norcow_active_sector st = 0 then take 0 its else its) k))"
    using spec [OF c(4), of 0] by auto
  then obtain st' where s: "norcow_init st1 = Some (st', NORCOW_VERSION)"
    "\<forall>k. k \<noteq> 0 \<longrightarrow> norcow_read st' k = Some (kv [] k)" using st(2) by auto
  have "norcow_read st' 7 = Some None" using spec [OF s(2), of 7] by (simp add: kv_def)
  moreover have "norcow_read st 7 = Some (Some [1, 2])" using norcow_read_inv [OF st(1), of 7] m by simp
  moreover have "norcow_read st2 7 = Some (Some [1, 2])" using spec [OF c(3), of 7] m by simp
  ultimately show ?thesis using st(1) c(1,2) s(1) by blast
qed

end
