(* ===== verification/Polymod.thy ===== *)
theory Polymod
  imports Prelude
begin

text \<open>
  The checksum interface shared by \<open>crypto/segwit_addr.c\<close> and \<open>crypto/cash_addr.c\<close>: a linear
  step over a register of \<open>n\<close> symbols of 5 bits. Appending the symbols of the register after
  \<open>n\<close> empty steps, combined with a constant, makes the checksum come out as that constant.
\<close>

unbundle bit_operations_syntax

locale polymod =
  fixes pstep :: "'a::len word \<Rightarrow> 'a word" and n :: nat
  assumes linear: "pstep (x XOR y) = pstep x XOR pstep y"
    and shift: "drop_bit (5 * (n - 1)) y = 0 \<Longrightarrow> pstep y = push_bit 5 y"
    and range: "drop_bit (5 * n) (pstep x) = 0"
    and size: "0 < n" "5 * n \<le> LENGTH('a)"
begin

text \<open>The symbols of a register, from the top, and the register above a position.\<close>

lemma symbol_step:
  assumes "k < n" "drop_bit (5 * n) (w :: 'a word) = 0"
  shows "push_bit 5 (drop_bit (5 * (n - k)) w) XOR (drop_bit (5 * (n - 1 - k)) w AND 31) = drop_bit (5 * (n - Suc k)) w"
proof (rule bit_word_eqI)
  fix i assume i: "i < LENGTH('a)"
  have w: "\<not> bit w j" if "5 * n \<le> j" for j
    using drop_bit_zeroD [OF assms(2) that] .
  have m: "bit (31 :: 'a word) i \<longleftrightarrow> i < 5" using i bit_mask_iff [of 5 i, where 'a = "'a word"] by (simp add: mask_numeral)
  have "5 * (n - Suc k) + i = 5 * (n - k) + (i - 5)" if "5 \<le> i" using that assms(1) by linarith
  then show "bit (push_bit 5 (drop_bit (5 * (n - k)) w) XOR (drop_bit (5 * (n - 1 - k)) w AND 31)) i
      \<longleftrightarrow> bit (drop_bit (5 * (n - Suc k)) w) i"
    using i m by (cases "i < 5") (simp_all add: bit_simps)
qed

lemma register_after:
  assumes "k \<le> n" "drop_bit (5 * n) w = 0"
  shows "foldl (\<lambda>c v. pstep c XOR v) c (map (\<lambda>i. drop_bit (5 * (n - 1 - i)) w AND 31) [0..<k])
    = (pstep ^^ k) c XOR drop_bit (5 * (n - k)) w"
  using assms(1)
proof (induction k)
  case 0
  then show ?case using assms(2) by simp
next
  case (Suc k)
  have "drop_bit (5 * (n - 1)) (drop_bit (5 * (n - k)) w) = 0"
  proof -
    obtain m where "5 * (n - 1) + 5 * (n - k) = m + 5 * n" using Suc.prems
      by (intro that [of "5 * (n - 1 - k)"]) simp
    then have "drop_bit (5 * (n - 1)) (drop_bit (5 * (n - k)) w) = drop_bit m (drop_bit (5 * n) w)"
      by (simp add: drop_bit_drop_bit)
    then show ?thesis using assms(2) by simp
  qed
  then have "pstep (drop_bit (5 * (n - k)) w) = push_bit 5 (drop_bit (5 * (n - k)) w)" by (rule shift)
  moreover have "k < n" using Suc.prems by simp
  ultimately show ?case using Suc symbol_step [OF _ assms(2), of k]
    by (simp add: linear xor.assoc)
qed

lemma checksum_verifies:
  assumes "drop_bit (5 * n) (K :: 'a word) = 0"
  shows "foldl (\<lambda>c v. pstep c XOR v) c (map (\<lambda>i. drop_bit (5 * (n - 1 - i)) ((pstep ^^ n) c XOR K) AND 31) [0..<n]) = K"
proof -
  have "drop_bit (5 * n) ((pstep ^^ n) c) = 0" using range size(1) by (cases n) simp_all
  then have "drop_bit (5 * n) ((pstep ^^ n) c XOR K) = 0" using assms by simp
  from register_after [OF le_refl this] show ?thesis by (simp flip: xor.assoc)
qed

end

text \<open>
  A step that maps no other register to zero: then a changed symbol changes the register, and
  steps on equal symbols keep it changed.
\<close>

locale polymod_detect = polymod +
  assumes kernel: "drop_bit (5 * n) x = 0 \<Longrightarrow> pstep x = 0 \<Longrightarrow> x = 0"
begin

lemma differs_after:
  assumes "drop_bit (5 * n) c = 0" "drop_bit (5 * n) c' = 0" "c \<noteq> c'" "\<forall>v \<in> set vs. drop_bit (5 * n) v = 0"
  shows "foldl (\<lambda>c v. pstep c XOR v) c vs \<noteq> foldl (\<lambda>c v. pstep c XOR v) c' vs"
  using assms
proof (induction vs arbitrary: c c')
  case (Cons v vs)
  have "c XOR c' \<noteq> 0" "drop_bit (5 * n) (c XOR c') = 0" using Cons.prems by simp_all
  then have "pstep (c XOR c') \<noteq> 0" using kernel by blast
  then have "pstep c \<noteq> pstep c'" unfolding linear by auto
  then have "pstep c XOR v \<noteq> pstep c' XOR v" by simp
  then show ?case using Cons.IH [of "pstep c XOR v" "pstep c' XOR v"] Cons.prems range by simp
qed simp

lemma detects_substitution:
  assumes "drop_bit (5 * n) v = 0" "drop_bit (5 * n) v' = 0" "v \<noteq> v'" "\<forall>v \<in> set vs. drop_bit (5 * n) v = 0"
  shows "foldl (\<lambda>c v. pstep c XOR v) c (us @ v # vs) \<noteq> foldl (\<lambda>c v. pstep c XOR v) c (us @ v' # vs)"
proof -
  let ?c = "foldl (\<lambda>c v. pstep c XOR v) c us"
  have "pstep ?c XOR v \<noteq> pstep ?c XOR v'" using assms(3) by simp
  then show ?thesis using differs_after [of "pstep ?c XOR v" "pstep ?c XOR v'" vs] assms range by simp
qed

end

end
