(* ===== verification/Convert_Bits.thy ===== *)
theory Convert_Bits
  imports Prelude
begin

text \<open>
  \<open>convert_bits\<close>, the regrouping of bits shared by \<open>crypto/segwit_addr.c\<close> and
  \<open>crypto/cash_addr.c\<close> (the two copies are the same text). The counts \<open>bits\<close>, \<open>inbits\<close> and
  \<open>outbits\<close> are small non-negative integers; the accumulator is 32 bits wide and loses its top.
\<close>

section \<open>The function\<close>

fun out_loop :: "u32 \<Rightarrow> nat \<Rightarrow> nat \<Rightarrow> u8 list \<Rightarrow> u8 list \<times> nat" where
  "out_loop val bits outbits out =
     (if outbits = 0 \<or> bits < outbits then (out, bits)
      else out_loop val (bits - outbits) outbits
             (out @ [ucast (drop_bit (bits - outbits) val AND (push_bit outbits 1 - 1))]))"

fun convert_loop :: "nat \<Rightarrow> nat \<Rightarrow> u8 list \<Rightarrow> u32 \<Rightarrow> nat \<Rightarrow> u8 list \<Rightarrow> u8 list \<times> u32 \<times> nat" where
  "convert_loop outbits inbits [] val bits out = (out, val, bits)"
| "convert_loop outbits inbits (d # ds) val bits out =
     (let val = push_bit inbits val OR ucast d in
      case out_loop val (bits + inbits) outbits out of (out, bits) \<Rightarrow> convert_loop outbits inbits ds val bits out)"

text \<open>The result: whether the call succeeds, and the symbols written to \<open>out\<close>.\<close>

definition convert_bits :: "nat \<Rightarrow> u8 list \<Rightarrow> nat \<Rightarrow> bool \<Rightarrow> bool \<times> u8 list" where
  "convert_bits outbits ins inbits pad =
     (case convert_loop outbits inbits ins 0 0 [] of (out, val, bits) \<Rightarrow>
        let maxv = push_bit outbits 1 - 1; rest = push_bit (outbits - bits) val AND maxv in
        if pad then (True, if bits \<noteq> 0 then out @ [ucast rest] else out)
        else if rest \<noteq> 0 \<or> bits \<ge> inbits then (False, out)
        else (True, out))"

section \<open>Bit strings\<close>

text \<open>The low \<open>w\<close> bits of a word, most significant first.\<close>

definition bstr :: "nat \<Rightarrow> 'a::len word \<Rightarrow> bool list" where
  "bstr w x = map (\<lambda>i. bit x (w - 1 - i)) [0..<w]"

abbreviation bstrs :: "nat \<Rightarrow> u8 list \<Rightarrow> bool list" where
  "bstrs w xs \<equiv> concat (map (bstr w) xs)"

lemma length_bstr [simp]: "length (bstr w x) = w"
  by (simp add: bstr_def)

lemma length_bstrs [simp]: "length (bstrs w xs) = w * length xs"
  by (induction xs) simp_all

lemma bstr_0 [simp]: "bstr 0 x = []"
  by (simp add: bstr_def)

lemma nth_bstr: "i < w \<Longrightarrow> bstr w x ! i = bit x (w - 1 - i)"
  by (simp add: bstr_def)

lemma bstr_split:
  assumes "b \<le> w"
  shows "bstr w x = bstr (w - b) (drop_bit b x) @ bstr b x"
  using assms by (intro nth_equalityI) (auto simp: nth_bstr nth_append bit_drop_bit_eq)

lemma bstr_push:
  assumes "i \<le> 8" "b + i \<le> 32" "drop_bit i d = 0"
  shows "bstr (b + i) (push_bit i (val :: u32) OR ucast (d :: u8)) = bstr b val @ bstr i d"
proof (rule nth_equalityI)
  show "length (bstr (b + i) (push_bit i val OR ucast d)) = length (bstr b val @ bstr i d)" by simp
  fix j assume "j < length (bstr (b + i) (push_bit i val OR ucast d))"
  then have j: "j < b + i" by simp
  have d: "\<not> bit d k" if "i \<le> k" for k
    using drop_bit_zeroD [OF assms(3) that] .
  show "bstr (b + i) (push_bit i val OR ucast d) ! j = (bstr b val @ bstr i d) ! j"
    using j assms(1,2) d by (auto simp: nth_bstr nth_append bit_or_iff bit_push_bit_iff bit_ucast_iff less_diff_conv2 add.commute [of b i])
qed

lemma bstr_mask:
  assumes "w \<le> 8"
  shows "bstr w (ucast ((x :: u32) AND (push_bit w 1 - 1)) :: u8) = bstr w x"
    and "drop_bit w (ucast ((x :: u32) AND (push_bit w 1 - 1)) :: u8) = 0"
proof -
  have m: "push_bit w 1 - 1 = (mask w :: u32)" by (simp add: mask_eq_exp_minus_1 push_bit_eq_mult)
  show "bstr w (ucast (x AND (push_bit w 1 - 1)) :: u8) = bstr w x" unfolding m
    using assms by (intro nth_equalityI) (auto simp: nth_bstr bit_ucast_iff bit_and_iff bit_mask_iff)
  show "drop_bit w (ucast (x AND (push_bit w 1 - 1)) :: u8) = 0" unfolding m
    by (rule bit_word_eqI) (auto simp: bit_drop_bit_eq bit_ucast_iff bit_and_iff bit_mask_iff)
qed

lemma bstrs_inject:
  assumes "length xs = length ys" "bstrs w xs = bstrs w ys" "w \<le> 8"
    and "\<forall>x \<in> set xs. drop_bit w x = 0" "\<forall>x \<in> set ys. drop_bit w x = 0"
  shows "xs = ys"
  using assms
proof (induction xs ys rule: list_induct2)
  case (Cons x xs y ys)
  then have "bstr w x = bstr w y" "bstrs w xs = bstrs w ys" by auto
  moreover have "x = y" if "bstr w x = bstr w y"
  proof (rule bit_word_eqI)
    fix n assume n: "n < LENGTH(8)"
    have "bit x k = False" "bit y k = False" if "w \<le> k" for k
      using Cons.prems(3,4) that drop_bit_zeroD [of w x k] drop_bit_zeroD [of w y k] by simp_all
    moreover have "bit x n = bit y n" if "n < w"
      using that \<open>bstr w x = bstr w y\<close> nth_bstr [of "w - 1 - n" w x] nth_bstr [of "w - 1 - n" w y] by simp
    ultimately show "bit x n = bit y n" by (cases "n < w") auto
  qed
  ultimately show ?case using Cons by simp
qed simp


lemma bstr_push_zero: "b \<le> w \<Longrightarrow> w \<le> LENGTH('a) \<Longrightarrow> bstr w (push_bit (w - b) (x :: 'a::len word)) = bstr b x @ replicate (w - b) False"
  by (intro nth_equalityI) (auto simp: nth_bstr nth_append bit_push_bit_iff)

section \<open>What the loops compute\<close>

declare out_loop.simps [simp del]

lemma out_loop_bits:
  assumes "out_loop val bits ob out = (out', b')" "0 < ob" "ob \<le> 8"
  shows "b' < ob \<and> bstrs ob out' @ bstr b' val = bstrs ob out @ bstr bits val
    \<and> ((\<forall>x \<in> set out. drop_bit ob x = 0) \<longrightarrow> (\<forall>x \<in> set out'. drop_bit ob x = 0))"
  using assms
proof (induction val bits ob out rule: out_loop.induct)
  case (1 val bits ob out)
  show ?case
  proof (cases "bits < ob")
    case True
    then have "out_loop val bits ob out = (out, bits)" by (subst out_loop.simps) simp
    then have "out' = out" "b' = bits" using 1(2) by simp_all
    then show ?thesis using True by simp
  next
    case False
    let ?x = "ucast (drop_bit (bits - ob) val AND (push_bit ob 1 - 1)) :: u8"
    have c: "\<not> (ob = 0 \<or> bits < ob)" using 1(3) False by simp
    then have "out_loop val bits ob out = out_loop val (bits - ob) ob (out @ [?x])"
      by (subst out_loop.simps) (simp only: if_False)
    then have "out_loop val (bits - ob) ob (out @ [?x]) = (out', b')" using 1(2) by simp
    note ih = 1(1) [OF c this 1(3,4)]
    have "bstr bits val = bstr ob (drop_bit (bits - ob) val) @ bstr (bits - ob) val"
      using bstr_split [of "bits - ob" bits val] False by simp
    then have e: "bstrs ob (out @ [?x]) @ bstr (bits - ob) val = bstrs ob out @ bstr bits val"
      using bstr_mask(1) [OF 1(4), of "drop_bit (bits - ob) val"] by simp
    have m: "(\<forall>x \<in> set (out @ [?x]). drop_bit ob x = 0) \<longleftrightarrow> (\<forall>x \<in> set out. drop_bit ob x = 0)"
      using bstr_mask(2) [OF 1(4)] by (simp only: set_append list.set ball_Un ball_simps simp_thms)
    show ?thesis using ih unfolding e m .
  qed
qed

lemma convert_loop_bits:
  assumes "convert_loop ob ib ds val b out = (out', val', b')" "0 < ob" "ob \<le> 8" "ib \<le> 8" "b < ob"
    and "\<forall>d \<in> set ds. drop_bit ib d = 0" "\<forall>x \<in> set out. drop_bit ob x = 0"
  shows "b' < ob \<and> bstrs ob out' @ bstr b' val' = bstrs ob out @ bstr b val @ bstrs ib ds \<and> (\<forall>x \<in> set out'. drop_bit ob x = 0)"
  using assms
proof (induction ds arbitrary: val b out)
  case Nil
  then show ?case by simp
next
  case (Cons d ds)
  let ?val = "push_bit ib val OR ucast d"
  obtain out1 b1 where o: "out_loop ?val (b + ib) ob out = (out1, b1)" by force
  note b1 = out_loop_bits [OF o Cons.prems(2,3)]
  have "convert_loop ob ib ds ?val b1 out1 = (out', val', b')" using Cons.prems(1) o by simp
  from Cons.IH [OF this Cons.prems(2-4)] b1 Cons.prems(6,7)
  have ih: "b' < ob" "bstrs ob out' @ bstr b' val' = (bstrs ob out1 @ bstr b1 ?val) @ bstrs ib ds" "\<forall>x \<in> set out'. drop_bit ob x = 0"
    by auto
  have "bstr (b + ib) ?val = bstr b val @ bstr ib d" using Cons.prems(3-6) by (intro bstr_push) auto
  then show ?case using ih b1 by simp
qed

text \<open>Padding to whole output symbols, and dropping a zero padding shorter than an input symbol.\<close>

lemma convert_bits_pad:
  assumes "0 < ob" "ob \<le> 8" "ib \<le> 8" "\<forall>d \<in> set ds. drop_bit ib d = 0"
  shows "\<exists>out p. convert_bits ob ds ib True = (True, out) \<and> p < ob \<and> bstrs ob out = bstrs ib ds @ replicate p False
    \<and> (\<forall>x \<in> set out. drop_bit ob x = 0)"
proof -
  obtain out val b where c: "convert_loop ob ib ds 0 0 [] = (out, val, b)" by (metis prod_cases3)
  from convert_loop_bits [OF this assms(1-3,1,4)]
  have l: "b < ob" "bstrs ob out @ bstr b val = bstrs ib ds" "\<forall>x \<in> set out. drop_bit ob x = 0" by auto
  show ?thesis
  proof (cases "b = 0")
    case True
    then show ?thesis using c l assms(1) by (auto simp: convert_bits_def)
  next
    case False
    let ?r = "ucast (push_bit (ob - b) val AND (push_bit ob 1 - 1)) :: u8"
    have "bstr ob ?r = bstr b val @ replicate (ob - b) False"
      using bstr_mask(1) [OF assms(2), of "push_bit (ob - b) val"] bstr_push_zero [of b ob val] l(1) assms(2) by simp
    then have "bstrs ob (out @ [?r]) = bstrs ib ds @ replicate (ob - b) False" using l(2) by simp
    moreover have "convert_bits ob ds ib True = (True, out @ [?r])" using c False by (simp add: convert_bits_def Let_def)
    moreover have "\<forall>x \<in> set (out @ [?r]). drop_bit ob x = 0" using l(3) bstr_mask(2) [OF assms(2)] by auto
    ultimately show ?thesis using False l(1) by (intro exI [of _ "out @ [?r]"] exI [of _ "ob - b"]) auto
  qed
qed

lemma push_mask_zero:
  assumes "b \<le> w" "w \<le> 8"
  shows "push_bit (w - b) (val :: u32) AND (push_bit w 1 - 1) = 0 \<longleftrightarrow> bstr b val = replicate b False"
proof -
  have m: "push_bit w 1 - 1 = (mask w :: u32)" by (simp add: mask_eq_exp_minus_1 push_bit_eq_mult)
  have "push_bit (w - b) val AND mask w = 0 \<longleftrightarrow> (\<forall>i < b. \<not> bit val i)"
  proof
    assume z: "push_bit (w - b) val AND mask w = 0"
    have "\<not> bit val i" if "i < b" for i
    proof -
      have "\<not> bit (push_bit (w - b) val AND mask w) (w - b + i)" unfolding z by simp
      then show ?thesis using that assms by (auto simp: bit_and_iff bit_push_bit_iff bit_mask_iff)
    qed
    then show "\<forall>i < b. \<not> bit val i" by blast
  next
    assume z: "\<forall>i < b. \<not> bit val i"
    then show "push_bit (w - b) val AND mask w = 0"
      using assms by (intro bit_word_eqI) (auto simp: bit_and_iff bit_push_bit_iff bit_mask_iff)
  qed
  also have "\<dots> \<longleftrightarrow> bstr b val = replicate b False"
  proof
    assume "\<forall>i < b. \<not> bit val i"
    then show "bstr b val = replicate b False" by (intro nth_equalityI) (auto simp: nth_bstr)
  next
    assume e: "bstr b val = replicate b False"
    have "\<not> bit val i" if "i < b" for i
      using that arg_cong [OF e, of "\<lambda>l. l ! (b - 1 - i)"] by (simp add: nth_bstr)
    then show "\<forall>i < b. \<not> bit val i" by blast
  qed
  finally show ?thesis unfolding m .
qed

lemma convert_bits_nopad:
  assumes "0 < ob" "ob \<le> 8" "ib \<le> 8" "\<forall>d \<in> set ds. drop_bit ib d = 0"
  shows "convert_bits ob ds ib False = (True, out) \<longleftrightarrow> (\<exists>p < min ob ib. bstrs ib ds = bstrs ob out @ replicate p False)
    \<and> (\<forall>x \<in> set out. drop_bit ob x = 0)"
proof -
  obtain out1 val b where c: "convert_loop ob ib ds 0 0 [] = (out1, val, b)" by (metis prod_cases3)
  from convert_loop_bits [OF this assms(1-3,1,4)]
  have l: "b < ob" "bstrs ob out1 @ bstr b val = bstrs ib ds" "\<forall>x \<in> set out1. drop_bit ob x = 0" by auto
  have e: "convert_bits ob ds ib False = (True, out) \<longleftrightarrow> out = out1 \<and> b < ib \<and> bstr b val = replicate b False"
    using c push_mask_zero [of b ob val] l(1) assms(2) by (auto simp: convert_bits_def Let_def)
  show ?thesis unfolding e
  proof
    assume "out = out1 \<and> b < ib \<and> bstr b val = replicate b False"
    then show "(\<exists>p < min ob ib. bstrs ib ds = bstrs ob out @ replicate p False) \<and> (\<forall>x \<in> set out. drop_bit ob x = 0)"
      using l by auto
  next
    assume "(\<exists>p < min ob ib. bstrs ib ds = bstrs ob out @ replicate p False) \<and> (\<forall>x \<in> set out. drop_bit ob x = 0)"
    then obtain p where p: "p < ob" "p < ib" "bstrs ib ds = bstrs ob out @ replicate p False" "\<forall>x \<in> set out. drop_bit ob x = 0" by auto
    have q: "bstrs ob out1 @ bstr b val = bstrs ob out @ replicate p False" using l(2) p(3) by simp
    from arg_cong [OF this, of length] have len: "ob * length out1 + b = ob * length out + p" by simp
    then have "(ob * length out1 + b) div ob = (ob * length out + p) div ob" by simp
    then have n: "length out1 = length out" using assms(1) l(1) p(1) by simp
    then have "b = p" using len by simp
    moreover have "bstrs ob out1 = bstrs ob out" "bstr b val = replicate p False" using q n by simp_all
    ultimately show "out = out1 \<and> b < ib \<and> bstr b val = replicate b False"
      using bstrs_inject [OF n _ assms(2) l(3) p(4)] p(2) by simp
  qed
qed

text \<open>Regrouping bytes into symbols of 5 bits and back.\<close>

lemma drop_bit_8 [simp]: "drop_bit 8 (x :: u8) = 0"
  by (rule bit_word_eqI) (auto simp: bit_drop_bit_eq dest: bit_imp_le_length)

lemma convert_8_5:
  "\<exists>ys p. convert_bits 5 xs 8 True = (True, ys) \<and> p < 5 \<and> 5 * length ys = 8 * length xs + p
    \<and> (\<forall>y \<in> set ys. drop_bit 5 y = 0) \<and> convert_bits 8 ys 5 False = (True, xs)"
proof -
  obtain ys p where y: "convert_bits 5 xs 8 True = (True, ys)" "p < 5" "bstrs 5 ys = bstrs 8 xs @ replicate p False"
    "\<forall>y \<in> set ys. drop_bit 5 y = 0"
    using convert_bits_pad [of 5 8 xs] by auto
  moreover have "convert_bits 8 ys 5 False = (True, xs)"
    using convert_bits_nopad [of 8 5 ys xs] y by auto
  moreover have "5 * length ys = 8 * length xs + p" using arg_cong [OF y(3), of length] by simp
  ultimately show ?thesis by blast
qed

lemma convert_5_8:
  assumes "convert_bits 8 ys 5 False = (True, xs)" "\<forall>y \<in> set ys. drop_bit 5 y = 0"
  shows "convert_bits 5 xs 8 True = (True, ys)"
proof -
  obtain p where p: "p < 5" "bstrs 5 ys = bstrs 8 xs @ replicate p False"
    using convert_bits_nopad [of 8 5 ys xs] assms by auto
  obtain ys' q where y: "convert_bits 5 xs 8 True = (True, ys')" "q < 5" "bstrs 5 ys' = bstrs 8 xs @ replicate q False"
    "\<forall>y \<in> set ys'. drop_bit 5 y = 0"
    using convert_bits_pad [of 5 8 xs] by auto
  have "5 * length ys = 8 * length xs + p" "5 * length ys' = 8 * length xs + q"
    using arg_cong [OF p(2), of length] arg_cong [OF y(3), of length] by simp_all
  then have "length ys' * 5 + p = length ys * 5 + q" by linarith
  then have "length ys' = length ys" "p = q" using digit_unique [of "length ys'" 5 p "length ys" q] p(1) y(2) by simp_all
  then have "ys' = ys" using bstrs_inject [of ys' ys 5] p(2) y(3,4) assms(2) by simp
  then show ?thesis using y(1) by simp
qed

end
