(* ===== verification/Symbol_Strings.thy ===== *)
theory Symbol_Strings
  imports Polymod Convert_Bits
begin

text \<open>
  What \<open>crypto/segwit_addr.c\<close> and \<open>crypto/cash_addr.c\<close> have in common beside \<open>convert_bits\<close>: the alphabet
  of 32 characters with its inverse table (the same text in both files), and the loops over the
  data part, with the checksum step and the number of checksum symbols as parameters.
\<close>

section \<open>Alphabet\<close>

definition charset :: "u8 list" where
  "charset = map of_char ''qpzry9x8gf2tvdw0s3jn54khce6mua7l''"

definition charset_rev :: "int list" where
  "charset_rev = [
    -1, -1, -1, -1, -1, -1, -1, -1, -1, -1, -1, -1, -1, -1, -1, -1,
    -1, -1, -1, -1, -1, -1, -1, -1, -1, -1, -1, -1, -1, -1, -1, -1,
    -1, -1, -1, -1, -1, -1, -1, -1, -1, -1, -1, -1, -1, -1, -1, -1,
    15, -1, 10, 17, 21, 20, 26, 30,  7,  5, -1, -1, -1, -1, -1, -1,
    -1, 29, -1, 24, 13, 25,  9,  8, 23, -1, 18, 22, 31, 27, 19, -1,
     1,  0,  3, 16, 11, 28, 12, 14,  6,  4,  2, -1, -1, -1, -1, -1,
    -1, 29, -1, 24, 13, 25,  9,  8, 23, -1, 18, 22, 31, 27, 19, -1,
     1,  0,  3, 16, 11, 28, 12, 14,  6,  4,  2, -1, -1, -1, -1, -1]"

definition is_lower :: "u8 \<Rightarrow> bool" where "is_lower ch \<longleftrightarrow> 97 \<le> ch \<and> ch \<le> 122"
definition is_upper :: "u8 \<Rightarrow> bool" where "is_upper ch \<longleftrightarrow> 65 \<le> ch \<and> ch \<le> 90"

section \<open>The loops over the data\<close>

fun encode_data_loop :: "('a::len word \<Rightarrow> 'a word) \<Rightarrow> 'a word \<Rightarrow> u8 list \<Rightarrow> u8 list \<Rightarrow> ('a word \<times> u8 list) option" where
  "encode_data_loop pstep chk [] out = Some (chk, out)"
| "encode_data_loop pstep chk (d # ds) out =
     (if drop_bit 5 d \<noteq> 0 then None
      else encode_data_loop pstep (pstep chk XOR ucast d) ds (out @ [charset ! unat d]))"

fun decode_data_loop :: "('a::len word \<Rightarrow> 'a word) \<Rightarrow> nat \<Rightarrow> 'a word \<Rightarrow> bool \<Rightarrow> bool \<Rightarrow> u8 list \<Rightarrow> u8 list \<Rightarrow> ('a word \<times> bool \<times> bool \<times> u8 list) option" where
  "decode_data_loop pstep csum chk have_lower have_upper data [] = Some (chk, have_lower, have_upper, data)"
| "decode_data_loop pstep csum chk have_lower have_upper data (c # cs) =
     (let v = (if c AND 0x80 \<noteq> 0 then -1 else charset_rev ! unat c) in
      if v = -1 then None
      else decode_data_loop pstep csum (pstep chk XOR word_of_int v) (have_lower \<or> is_lower c) (have_upper \<or> is_upper c)
             (if length cs \<ge> csum then data @ [word_of_int v] else data) cs)"

section \<open>What the loops compute\<close>

lemma bit_select: "- ucast (drop_bit i (b :: u8) AND 1) AND (K :: 'a::len word) = (if bit b i then K else 0)"
proof -
  have "drop_bit i b AND 1 = of_bool (bit b i)"
    by (rule bit_word_eqI) (auto simp: bit_and_iff bit_drop_bit_eq bit_1_iff bit_of_bool_iff)
  then show ?thesis by simp
qed

definition hrp_char :: "u8 \<Rightarrow> bool" where
  "hrp_char ch \<longleftrightarrow> 33 \<le> ch \<and> ch \<le> 126 \<and> \<not> is_upper ch"

lemma charset_codes: "charset = [113, 112, 122, 114, 121, 57, 120, 56, 103, 102, 50, 116, 118, 100, 119, 48, 115, 51, 106, 110, 53, 52, 107, 104, 99, 101, 54, 109, 117, 97, 55, 108]"
  by (simp add: charset_def of_char_def)

lemma charset_all:
  "list_all (\<lambda>c. c \<noteq> 49 \<and> c \<noteq> 58 \<and> \<not> is_upper c \<and> c AND 0x80 = 0) charset"
  "map (\<lambda>c. charset_rev ! unat c) charset = map int [0..<32]"
  by (simp_all add: charset_codes is_upper_def charset_rev_def upt_rec)

lemma charset_nth:
  assumes "drop_bit 5 (v :: 'a::len word) = 0"
  shows "charset ! unat v \<noteq> 49" "\<not> is_upper (charset ! unat v)" "charset ! unat v AND 0x80 = 0"
    "charset_rev ! unat (charset ! unat v) = uint v" "charset ! unat v \<noteq> 58"
proof -
  have "unat v < 32" using drop_bit_zero_less(2) [OF assms] by simp
  moreover have l: "length charset = 32" by (simp add: charset_codes)
  ultimately have "charset ! unat v \<in> set charset" and "unat v < 32" using nth_mem [of "unat v" charset] by simp_all
  then show "charset ! unat v \<noteq> 49" "\<not> is_upper (charset ! unat v)" "charset ! unat v AND 0x80 = 0"
    "charset_rev ! unat (charset ! unat v) = uint v" "charset ! unat v \<noteq> 58"
    using charset_all(1) arg_cong [OF charset_all(2), of "\<lambda>l. l ! unat v"]
    by (auto simp: list_all_iff l)
qed

lemma encode_data_eq:
  "encode_data_loop pstep chk ds out = (if \<forall>d \<in> set ds. drop_bit 5 d = 0
     then Some (foldl (\<lambda>chk d. pstep chk XOR d) chk (map ucast ds), out @ map (\<lambda>d. charset ! unat d) ds) else None)"
  by (induction pstep chk ds out rule: encode_data_loop.induct) auto

lemma decode_data_eq:
  fixes pstep :: "'a::len word \<Rightarrow> 'a word"
  assumes "\<forall>d \<in> set ds. drop_bit 5 (d :: u8) = 0"
  shows "\<exists>l'. decode_data_loop pstep csum chk l u data (map (\<lambda>d. charset ! unat d) ds)
     = Some (foldl (\<lambda>chk d. pstep chk XOR d) chk (map ucast ds), l', u, data @ take (length ds - csum) ds)"
  using assms
proof (induction ds arbitrary: chk l data)
  case (Cons d ds)
  have c: "charset_rev ! unat (charset ! unat d) = uint d" "charset ! unat d AND 0x80 = 0" "\<not> is_upper (charset ! unat d)"
    using charset_nth [of d] Cons.prems by auto
  have v: "uint d \<noteq> -1" using uint_nonnegative [of d] by linarith
  have w: "word_of_int (uint d) = (ucast d :: 'a word)" "word_of_int (uint d) = d" by simp_all
  let ?data = "if csum \<le> length ds then data @ [d] else data"
  have s: "decode_data_loop pstep csum chk l u data (map (\<lambda>d. charset ! unat d) (d # ds))
      = decode_data_loop pstep csum (pstep chk XOR ucast d) (l \<or> is_lower (charset ! unat d)) u ?data (map (\<lambda>d. charset ! unat d) ds)"
    unfolding list.map decode_data_loop.simps Let_def c(2) using c(1,3) v w by simp
  have t: "?data @ take (length ds - csum) ds = data @ take (length (d # ds) - csum) (d # ds)"
    by (auto simp: take_Cons' not_le)
  obtain l' where "decode_data_loop pstep csum (pstep chk XOR ucast d) (l \<or> is_lower (charset ! unat d)) u ?data (map (\<lambda>d. charset ! unat d) ds)
      = Some (foldl (\<lambda>chk d. pstep chk XOR d) (pstep chk XOR ucast d) (map ucast ds), l', u, ?data @ take (length ds - csum) ds)"
    using Cons.IH Cons.prems by (meson list.set_intros(2))
  then show ?case unfolding s t by auto
qed simp


lemma separator:
  assumes "sep \<notin> set ds"
  shows "takeWhile (\<lambda>c. c \<noteq> sep) (rev (hrp @ [sep] @ ds)) = rev ds"
proof -
  have "\<And>x. x \<in> set (rev ds) \<Longrightarrow> x \<noteq> sep" using assms by auto
  from takeWhile_append2 [of "rev ds" "\<lambda>c. c \<noteq> sep" "sep # rev hrp", OF this] show ?thesis by simp
qed

definition symbols :: "nat \<Rightarrow> 'a::len word \<Rightarrow> 'a word list" where
  "symbols n chk = map (\<lambda>i. drop_bit (5 * (n - 1 - i)) chk AND 31) [0..<n]"

lemma symbols_small:
  assumes "8 \<le> LENGTH('a)"
  shows "\<forall>s \<in> set (symbols n (chk :: 'a::len word)). drop_bit 5 (ucast s :: u8) = 0 \<and> ucast (ucast s :: u8) = s \<and> unat (ucast s :: u8) = unat s"
proof
  fix s assume "s \<in> set (symbols n (chk :: 'a::len word))"
  then obtain y where s: "s = y AND 31" by (auto simp: symbols_def)
  have m: "(31 :: 'a word) = mask 5" by (simp add: mask_numeral)
  have z: "drop_bit 5 s = 0" unfolding s m
    by (rule bit_word_eqI) (auto simp: bit_drop_bit_eq bit_and_iff bit_mask_iff)
  have u: "ucast (ucast s :: u8) = s" unfolding s m
    by (rule bit_word_eqI) (use assms in \<open>auto simp: bit_ucast_iff bit_and_iff bit_mask_iff\<close>)
  have "uint (ucast s :: u8) = uint s" using drop_bit_zero_less(1) [OF z] by (intro uint_ucast_small) simp
  then have "unat (ucast s :: u8) = unat s" by (simp only: unat_eq_nat_uint)
  moreover have "drop_bit 5 (ucast s :: u8) = 0" unfolding s m
    by (rule bit_word_eqI) (auto simp: bit_drop_bit_eq bit_ucast_iff bit_and_iff bit_mask_iff)
  ultimately show "drop_bit 5 (ucast s :: u8) = 0 \<and> ucast (ucast s :: u8) = s \<and> unat (ucast s :: u8) = unat s" using u by blast
qed

end
