(* ===== verification/Segwit_Addr.thy ===== *)
theory Segwit_Addr
  imports Symbol_Strings
begin

text \<open>
  \<open>crypto/segwit_addr.c\<close>: Bech32 and Bech32m strings and SegWit addresses. A C string is the
  list of its bytes before the terminating zero. A call that returns 0 (or
  \<open>BECH32_ENCODING_NONE\<close>) is \<open>None\<close>; otherwise the result holds the output arguments.
\<close>

section \<open>Checksum and alphabet\<close>

definition bech32_polymod_step :: "u32 \<Rightarrow> u32" where
  "bech32_polymod_step pre =
     (let b = ucast (drop_bit 25 pre) :: u8 in
      push_bit 5 (pre AND 0x1FFFFFF) XOR
      (- ucast (drop_bit 0 b AND 1) AND 0x3b6a57b2) XOR
      (- ucast (drop_bit 1 b AND 1) AND 0x26508e6d) XOR
      (- ucast (drop_bit 2 b AND 1) AND 0x1ea119fa) XOR
      (- ucast (drop_bit 3 b AND 1) AND 0x3d4233dd) XOR
      (- ucast (drop_bit 4 b AND 1) AND 0x2a1462b3))"

datatype bech32_encoding = BECH32_ENCODING_NONE | BECH32_ENCODING_BECH32 | BECH32_ENCODING_BECH32M

definition bech32_final_constant :: "bech32_encoding \<Rightarrow> u32" where
  "bech32_final_constant enc =
     (if enc = BECH32_ENCODING_BECH32 then 1
      else if enc = BECH32_ENCODING_BECH32M then 0x2bc830a3
      else 0)"

section \<open>Encoding\<close>

fun encode_hrp_loop :: "u32 \<Rightarrow> u8 list \<Rightarrow> u32 option" where
  "encode_hrp_loop chk [] = Some chk"
| "encode_hrp_loop chk (ch # cs) =
     (if ch < 33 \<or> ch > 126 then None
      else if is_upper ch then None
      else encode_hrp_loop (bech32_polymod_step chk XOR ucast (drop_bit 5 ch)) cs)"

definition bech32_encode :: "u8 list \<Rightarrow> u8 list \<Rightarrow> bech32_encoding \<Rightarrow> u8 list option" where
  "bech32_encode hrp data enc = do {
     chk \<leftarrow> encode_hrp_loop 1 hrp;
     if length hrp + 7 + length data > 90 then None
     else do {
       let chk = foldl (\<lambda>chk ch. bech32_polymod_step chk XOR ucast (ch AND 0x1f)) (bech32_polymod_step chk) hrp;
       (chk, out) \<leftarrow> encode_data_loop bech32_polymod_step chk data (hrp @ [49]);
       let chk = (bech32_polymod_step ^^ 6) chk XOR bech32_final_constant enc;
       Some (out @ map (\<lambda>i. charset ! unat (drop_bit ((5 - i) * 5) chk AND 0x1f)) [0..<6]) } }"

section \<open>Decoding\<close>

fun decode_hrp_loop :: "u32 \<Rightarrow> bool \<Rightarrow> bool \<Rightarrow> u8 list \<Rightarrow> u8 list \<Rightarrow> (u32 \<times> bool \<times> bool \<times> u8 list) option" where
  "decode_hrp_loop chk have_lower have_upper hrp [] = Some (chk, have_lower, have_upper, hrp)"
| "decode_hrp_loop chk have_lower have_upper hrp (ch # cs) =
     (if ch < 33 \<or> ch > 126 then None
      else let ch' = (if \<not> is_lower ch \<and> is_upper ch then ch - 65 + 97 else ch) in
        decode_hrp_loop (bech32_polymod_step chk XOR ucast (drop_bit 5 ch'))
          (have_lower \<or> is_lower ch) (have_upper \<or> \<not> is_lower ch \<and> is_upper ch) (hrp @ [ch']) cs)"

abbreviation (input) BECH32_MAX_HRP_LEN :: nat where "BECH32_MAX_HRP_LEN \<equiv> 83"

definition bech32_decode :: "u8 list \<Rightarrow> (bech32_encoding \<times> u8 list \<times> u8 list) option" where
  "bech32_decode input =
     (let input_len = length input; data_len = length (takeWhile (\<lambda>c. c \<noteq> 49) (rev input)) in
      if input_len < 8 then None
      else if 1 + data_len \<ge> input_len \<or> data_len < 6 \<or> input_len - (1 + data_len) > BECH32_MAX_HRP_LEN then None
      else let hrp_len = input_len - (1 + data_len) in do {
        (chk, have_lower, have_upper, hrp) \<leftarrow> decode_hrp_loop 1 False False [] (take hrp_len input);
        let chk = foldl (\<lambda>chk ch. bech32_polymod_step chk XOR ucast (ch AND 0x1f)) (bech32_polymod_step chk) (take hrp_len input);
        (chk, have_lower, have_upper, data) \<leftarrow> decode_data_loop bech32_polymod_step 6 chk have_lower have_upper [] (drop (hrp_len + 1) input);
        if have_lower \<and> have_upper then None
        else if chk = bech32_final_constant BECH32_ENCODING_BECH32 then Some (BECH32_ENCODING_BECH32, hrp, data)
        else if chk = bech32_final_constant BECH32_ENCODING_BECH32M then Some (BECH32_ENCODING_BECH32M, hrp, data)
        else None })"

section \<open>Addresses\<close>

definition segwit_addr_encode :: "u8 list \<Rightarrow> int \<Rightarrow> u8 list \<Rightarrow> u8 list option" where
  "segwit_addr_encode hrp witver witprog =
     (if witver > 16 then None
      else if witver = 0 \<and> length witprog \<noteq> 20 \<and> length witprog \<noteq> 32 then None
      else if length witprog < 2 \<or> length witprog > 40 then None
      else let enc = (if witver > 0 then BECH32_ENCODING_BECH32M else BECH32_ENCODING_BECH32);
               data = word_of_int witver # snd (convert_bits 5 witprog 8 True)
           in bech32_encode hrp data enc)"

definition segwit_addr_decode :: "u8 list \<Rightarrow> u8 list \<Rightarrow> (int \<times> u8 list) option" where
  "segwit_addr_decode hrp addr =
     (if length addr > 90 then None
      else do {
        (enc, hrp_actual, data) \<leftarrow> bech32_decode addr;
        if length data = 0 \<or> length data > 65 then None
        else if take 84 hrp \<noteq> take 84 hrp_actual then None
        else if hd data > 16 then None
        else if hd data = 0 \<and> enc \<noteq> BECH32_ENCODING_BECH32 then None
        else if hd data > 0 \<and> enc \<noteq> BECH32_ENCODING_BECH32M then None
        else case convert_bits 8 (tl data) 5 False of (ok, witdata) \<Rightarrow>
          if \<not> ok then None
          else if length witdata < 2 \<or> length witdata > 40 then None
          else if hd data = 0 \<and> length witdata \<noteq> 20 \<and> length witdata \<noteq> 32 then None
          else Some (uint (hd data), witdata) })"

section \<open>The step\<close>

lemma bech32_step_eq:
  "bech32_polymod_step x = push_bit 5 (take_bit 25 x) XOR (if bit x 25 then 0x3b6a57b2 else 0) XOR
     (if bit x 26 then 0x26508e6d else 0) XOR (if bit x 27 then 0x1ea119fa else 0) XOR
     (if bit x 28 then 0x3d4233dd else 0) XOR (if bit x 29 then 0x2a1462b3 else 0)"
proof -
  have "x AND 0x1FFFFFF = take_bit 25 x" by (simp add: take_bit_eq_mask mask_numeral)
  moreover have "bit (ucast (drop_bit 25 x) :: u8) i \<longleftrightarrow> bit x (25 + i)" if "i < 8" for i
    using that by (simp add: bit_ucast_iff bit_drop_bit_eq)
  ultimately show ?thesis unfolding bech32_polymod_step_def Let_def bit_select by simp
qed


lemma bech32_step_linear: "bech32_polymod_step (x XOR y) = bech32_polymod_step x XOR bech32_polymod_step y"
proof -
  have sel: "(if bit (x XOR y) i then K else 0) = (if bit x i then K else 0) XOR (if bit y i then K else 0)" for i and K :: u32
    by (auto simp: bit_xor_iff)
  show ?thesis unfolding bech32_step_eq sel by (simp only: take_bit_xor push_bit_xor) (simp only: xor.assoc xor.left_commute xor.commute)
qed

lemma bech32_step_shift:
  assumes "drop_bit 25 x = 0"
  shows "bech32_polymod_step x = push_bit 5 x"
proof -
  have b: "i < 25" if "bit x i" for i using drop_bit_zeroD [OF assms, of i] that by linarith
  then have "take_bit 25 x = x" by (intro bit_word_eqI) (auto simp: bit_take_bit_iff)
  then show ?thesis unfolding bech32_step_eq using b [of 25] b [of 26] b [of 27] b [of 28] b [of 29] by auto
qed

lemma bech32_step_range: "drop_bit 30 (bech32_polymod_step x) = 0"
proof -
  have "drop_bit 30 (push_bit 5 (take_bit 25 x)) = 0"
    by (rule bit_word_eqI) (auto simp: bit_drop_bit_eq bit_push_bit_iff bit_take_bit_iff)
  then show ?thesis unfolding bech32_step_eq drop_bit_xor by (simp split del: if_split add: if_distrib [of "drop_bit 30"] cong: if_cong)
qed

lemma bech32_step_kernel:
  assumes "drop_bit 30 x = 0" "bech32_polymod_step x = 0"
  shows "x = 0"
proof -
  have "take_bit 5 (bech32_polymod_step x) = 0" using assms(2) by simp
  then have "(if bit x 25 then 18 else 0) XOR (if bit x 26 then 13 else 0) XOR (if bit x 27 then 26 else 0) XOR
     (if bit x 28 then 29 else 0) XOR (if bit x 29 then 19 else (0 :: u32)) = 0"
    unfolding bech32_step_eq take_bit_xor
    by (simp add: take_bit_push_bit if_distrib [of "take_bit 5"] cong: if_cong split del: if_split)
  then have "\<not> bit x 25 \<and> \<not> bit x 26 \<and> \<not> bit x 27 \<and> \<not> bit x 28 \<and> \<not> bit x 29"
    by (cases "bit x 25"; cases "bit x 26"; cases "bit x 27"; cases "bit x 28"; cases "bit x 29"; simp)
  then have b: "\<not> bit x 25" "\<not> bit x 26" "\<not> bit x 27" "\<not> bit x 28" "\<not> bit x 29" by blast+
  then have "push_bit 5 (take_bit 25 x) = 0" using assms(2) unfolding bech32_step_eq by simp
  then have l: "\<not> bit x i" if "i < 25" for i
    using that bit_push_bit_iff [of 5 "take_bit 25 x" "i + 5"] by (simp add: bit_take_bit_iff)
  have "\<not> bit x i" for i
  proof (cases "i < 30")
    case True
    then consider "i < 25" | "i = 25" | "i = 26" | "i = 27" | "i = 28" | "i = 29" by linarith
    then show ?thesis using b l by cases simp_all
  next
    case False
    then show ?thesis using drop_bit_zeroD [OF assms(1)] by simp
  qed
  then show ?thesis by (intro bit_word_eqI) simp
qed

interpretation bech32: polymod_detect bech32_polymod_step 6
proof
  show "bech32_polymod_step (x XOR y) = bech32_polymod_step x XOR bech32_polymod_step y" for x y
    by (rule bech32_step_linear)
  show "drop_bit (5 * (6 - 1)) y = 0 \<Longrightarrow> bech32_polymod_step y = push_bit 5 y" for y
    by (rule bech32_step_shift) simp
  show "drop_bit (5 * 6) (bech32_polymod_step x) = 0" for x using bech32_step_range by simp
  show "drop_bit (5 * 6) x = 0 \<Longrightarrow> bech32_polymod_step x = 0 \<Longrightarrow> x = 0" for x
    by (rule bech32_step_kernel) simp_all
qed simp_all


section \<open>Round trips\<close>

lemma encode_hrp_eq:
  "encode_hrp_loop chk hrp = (if list_all hrp_char hrp
     then Some (foldl (\<lambda>chk ch. bech32_polymod_step chk XOR ucast (drop_bit 5 ch)) chk hrp) else None)"
  by (induction chk hrp rule: encode_hrp_loop.induct) (auto simp: hrp_char_def not_less)

lemma decode_hrp_eq:
  "list_all hrp_char cs \<Longrightarrow> \<exists>l'. decode_hrp_loop chk l u hrp cs
     = Some (foldl (\<lambda>chk ch. bech32_polymod_step chk XOR ucast (drop_bit 5 ch)) chk cs, l', u, hrp @ cs)"
  by (induction chk l u hrp cs rule: decode_hrp_loop.induct) (auto simp: hrp_char_def not_less Let_def)

text \<open>A string decodes as the checksum over it says.\<close>

lemma bech32_decode_symbols:
  assumes h: "list_all hrp_char hrp" "1 \<le> length hrp" "length hrp \<le> 83"
    and d: "\<forall>d \<in> set ds. drop_bit 5 d = 0" "6 \<le> length ds"
  defines "c \<equiv> foldl (\<lambda>chk ch. bech32_polymod_step chk XOR ucast (ch AND 0x1f)) (bech32_polymod_step
      (foldl (\<lambda>chk ch. bech32_polymod_step chk XOR ucast (drop_bit 5 ch)) 1 hrp)) hrp"
  defines "chk \<equiv> foldl (\<lambda>chk d. bech32_polymod_step chk XOR d) c (map ucast ds)"
  shows "bech32_decode (hrp @ [49] @ map (\<lambda>d. charset ! unat d) ds) =
    (if chk = 1 then Some (BECH32_ENCODING_BECH32, hrp, take (length ds - 6) ds)
     else if chk = 0x2bc830a3 then Some (BECH32_ENCODING_BECH32M, hrp, take (length ds - 6) ds) else None)"
proof -
  let ?cs = "map (\<lambda>d. charset ! unat d) ds"
  have "49 \<notin> set ?cs" using charset_nth(1) d(1) by fastforce
  note sep = separator [OF this, of hrp]
  obtain l where l: "decode_hrp_loop 1 False False [] hrp
      = Some (foldl (\<lambda>chk ch. bech32_polymod_step chk XOR ucast (drop_bit 5 ch)) 1 hrp, l, False, hrp)"
    using decode_hrp_eq [OF h(1), of 1 False False "[]"] by auto
  obtain l' where l': "decode_data_loop bech32_polymod_step 6 c l False [] ?cs = Some (chk, l', False, take (length ds - 6) ds)"
    using decode_data_eq [OF d(1), of bech32_polymod_step 6 c l False "[]"] unfolding chk_def by auto
  have k: "bech32_final_constant BECH32_ENCODING_BECH32 = 1" "bech32_final_constant BECH32_ENCODING_BECH32M = 0x2bc830a3"
    by (simp_all add: bech32_final_constant_def)
  have n: "length (hrp @ [49] @ ?cs) - (1 + length (rev ?cs)) = length hrp" by simp
  have tk: "take (length hrp) (hrp @ [49] @ ?cs) = hrp" "drop (length hrp + 1) (hrp @ [49] @ ?cs) = ?cs" by simp_all
  have "\<not> length (hrp @ [49] @ ?cs) < 8" "\<not> (1 + length (rev ?cs) \<ge> length (hrp @ [49] @ ?cs) \<or> length (rev ?cs) < 6 \<or> length hrp > 83)"
    using h(2,3) d(2) by auto
  then show ?thesis
    unfolding bech32_decode_def Let_def sep n tk l k
    by (simp only: if_False bind.bind_lunit prod.case c_def [symmetric] l' HOL.simp_thms)
qed


lemma bech32_encode_eq:
  fixes enc :: bech32_encoding
  assumes "list_all hrp_char hrp" "length hrp + 7 + length data \<le> 90" "\<forall>d \<in> set data. drop_bit 5 d = 0"
  defines "c \<equiv> foldl (\<lambda>chk ch. bech32_polymod_step chk XOR ucast (ch AND 0x1f)) (bech32_polymod_step
      (foldl (\<lambda>chk ch. bech32_polymod_step chk XOR ucast (drop_bit 5 ch)) 1 hrp)) hrp"
  defines "chk \<equiv> (bech32_polymod_step ^^ 6) (foldl (\<lambda>chk d. bech32_polymod_step chk XOR d) c (map ucast data)) XOR bech32_final_constant enc"
  shows "bech32_encode hrp data enc = Some (hrp @ [49] @ map (\<lambda>d. charset ! unat d) (data @ map ucast (symbols 6 chk)))"
proof -
  have "map (\<lambda>i. charset ! unat (drop_bit ((5 - i) * 5) chk AND 0x1f)) [0..<6] = map (\<lambda>d. charset ! unat d) (symbols 6 chk)"
    by (simp add: symbols_def mult.commute)
  also have "\<dots> = map (\<lambda>d. charset ! unat d) (map (ucast :: u32 \<Rightarrow> u8) (symbols 6 chk))"
    using symbols_small [of 6 chk] by simp
  finally show ?thesis
    using assms(1-3) unfolding bech32_encode_def encode_hrp_eq encode_data_eq Let_def
    by (simp add: chk_def c_def del: funpow.simps)
qed

lemma bech32_encode_None:
  "\<not> (list_all hrp_char hrp \<and> length hrp + 7 + length data \<le> 90 \<and> (\<forall>d \<in> set data. drop_bit 5 d = 0)) \<Longrightarrow>
     bech32_encode hrp data enc = None"
  by (auto simp: bech32_encode_def encode_hrp_eq encode_data_eq Let_def)

lemma bech32_constant_range: "drop_bit (5 * 6) (bech32_final_constant enc) = 0"
  by (simp add: bech32_final_constant_def)

lemma bech32_decode_encode:
  assumes "bech32_encode hrp data enc = Some out" "hrp \<noteq> []" "enc \<noteq> BECH32_ENCODING_NONE"
  shows "bech32_decode out = Some (enc, hrp, data)"
proof -
  have v: "list_all hrp_char hrp" "length hrp + 7 + length data \<le> 90" "\<forall>d \<in> set data. drop_bit 5 d = 0"
    using bech32_encode_None [of hrp data enc] assms(1) by auto
  define c where "c = foldl (\<lambda>chk d. bech32_polymod_step chk XOR d)
    (foldl (\<lambda>chk ch. bech32_polymod_step chk XOR ucast (ch AND 0x1f)) (bech32_polymod_step
      (foldl (\<lambda>chk ch. bech32_polymod_step chk XOR ucast (drop_bit 5 ch)) 1 hrp)) hrp) (map ucast data)"
  define chk where "chk = (bech32_polymod_step ^^ 6) c XOR bech32_final_constant enc"
  let ?ds = "data @ map ucast (symbols 6 chk)"
  have out: "out = hrp @ [49] @ map (\<lambda>d. charset ! unat d) ?ds"
    using bech32_encode_eq [OF v, of enc] assms(1) unfolding c_def chk_def by simp
  have l6: "length (symbols 6 chk) = 6" by (simp add: symbols_def)
  have ds: "\<forall>d \<in> set ?ds. drop_bit 5 d = 0" "6 \<le> length ?ds" using v(3) symbols_small [of 6 chk] l6 by auto
  have h: "1 \<le> length hrp" "length hrp \<le> 83" using assms(2) v(2) by (cases hrp; simp)+
  have "map ucast (map (ucast :: u32 \<Rightarrow> u8) (symbols 6 chk)) = symbols 6 chk"
    using symbols_small [of 6 chk] by (simp add: map_idI)
  then have f: "foldl (\<lambda>chk d. bech32_polymod_step chk XOR d)
    (foldl (\<lambda>chk ch. bech32_polymod_step chk XOR ucast (ch AND 0x1f)) (bech32_polymod_step
      (foldl (\<lambda>chk ch. bech32_polymod_step chk XOR ucast (drop_bit 5 ch)) 1 hrp)) hrp) (map ucast ?ds) = bech32_final_constant enc"
    using bech32.checksum_verifies [OF bech32_constant_range, of c enc]
    unfolding map_append foldl_append c_def [symmetric] symbols_def [symmetric] chk_def [symmetric] by simp
  have "take (length ?ds - 6) ?ds = data" using l6 by simp
  with bech32_decode_symbols [OF v(1) h ds] show ?thesis
    unfolding out f using assms(3) by (cases enc) (simp_all add: bech32_final_constant_def)
qed

text \<open>
  Bech32 strings round trip: a string that \<open>bech32_encode\<close> produces for a non-empty prefix
  decodes to the same encoding, prefix and data; and it is produced exactly when the prefix is
  printable without capitals, every data symbol has 5 bits, and the length fits 90.
\<close>

theorem bech32_roundtrip:
  assumes "hrp \<noteq> []" "enc \<noteq> BECH32_ENCODING_NONE"
  shows "if list_all hrp_char hrp \<and> length hrp + 7 + length data \<le> 90 \<and> (\<forall>d \<in> set data. drop_bit 5 d = 0)
    then \<exists>out. bech32_encode hrp data enc = Some out \<and> bech32_decode out = Some (enc, hrp, data)
    else bech32_encode hrp data enc = None"
  using bech32_encode_eq [of hrp data enc] bech32_encode_None [of hrp data enc] bech32_decode_encode [OF _ assms]
  by auto

theorem bech32_roundtrip_witness:
  "\<exists>out. bech32_encode [98, 99] [0, 14, 20] BECH32_ENCODING_BECH32M = Some out
    \<and> bech32_decode out = Some (BECH32_ENCODING_BECH32M, [98, 99], [0, 14, 20])"
  using bech32_roundtrip [of "[98, 99]" BECH32_ENCODING_BECH32M "[0, 14, 20]"]
  by (simp add: hrp_char_def is_upper_def)

text \<open>
  C16. Error detection: changing any one symbol of the data part of a valid string (lower case)
  gives a string that does not decode under the same encoding.
\<close>

theorem bech32_detects_substitution:
  fixes ds :: "u8 list"
  assumes "list_all hrp_char hrp" "1 \<le> length hrp" "length hrp \<le> 83"
    and "\<forall>d \<in> set ds. drop_bit 5 d = 0" "6 \<le> length ds" "i < length ds" "drop_bit 5 v = 0" "v \<noteq> ds ! i"
    and "bech32_decode (hrp @ [49] @ map (\<lambda>d. charset ! unat d) ds) = Some (enc, h, d)"
  shows "bech32_decode (hrp @ [49] @ map (\<lambda>d. charset ! unat d) (ds[i := v])) \<noteq> Some (enc, h', d')"
proof -
  have all: "\<forall>d \<in> set (ds[i := v]). drop_bit 5 d = 0" using assms(4,7) set_update_subset_insert [of ds i v] by auto
  define c where "c = foldl (\<lambda>chk ch. bech32_polymod_step chk XOR ucast (ch AND 0x1f)) (bech32_polymod_step
      (foldl (\<lambda>chk ch. bech32_polymod_step chk XOR ucast (drop_bit 5 ch)) 1 hrp)) hrp"
  define f where "f ds = foldl (\<lambda>chk d. bech32_polymod_step chk XOR d) c (map ucast ds)" for ds :: "u8 list"
  have r: "drop_bit (5 * 6) (ucast (x :: u8) :: u32) = 0" for x
    by (rule bit_word_eqI) (auto simp: bit_drop_bit_eq bit_ucast_iff dest: bit_imp_le_length)
  have bk: "ucast (ucast x :: u32) = x" for x :: u8 by (rule bit_word_eqI) (simp add: bit_ucast_iff)
  have "(ucast (ds ! i) :: u32) \<noteq> ucast v" using assms(8) bk [of v] bk [of "ds ! i"] by auto
  then have n: "f ds \<noteq> f (ds[i := v])"
    using bech32.detects_substitution [of "ucast (ds ! i)" "ucast v" "map ucast (drop (Suc i) ds)" c "map ucast (take i ds)"] r
    unfolding f_def upd_conv_take_nth_drop [OF assms(6)] by (subst id_take_nth_drop [OF assms(6)]) simp
  note d = bech32_decode_symbols [OF assms(1-3), folded c_def, folded f_def]
  from d [OF assms(4,5)] assms(9) have "f ds = bech32_final_constant enc"
    by (auto simp: bech32_final_constant_def split: if_splits)
  with n have "f (ds[i := v]) \<noteq> bech32_final_constant enc" by simp
  then show ?thesis using d [OF all] assms(5) by (auto simp: bech32_final_constant_def split: if_splits)
qed


lemma bech32_example: "bech32_decode ([97] @ [49] @ map (\<lambda>d :: u8. charset ! unat d) [10, 28, 25, 31, 20, 31]) = Some (BECH32_ENCODING_BECH32, [97], [])"
  by code_simp

theorem bech32_detects_substitution_witness:
  "bech32_decode ([97] @ [49] @ map (\<lambda>d :: u8. charset ! unat d) [10, 28, 25, 31, 20, 31]) = Some (BECH32_ENCODING_BECH32, [97], [])
   \<and> bech32_decode ([97] @ [49] @ map (\<lambda>d :: u8. charset ! unat d) ([10, 28, 25, 31, 20, 31][2 := 3])) \<noteq> Some (BECH32_ENCODING_BECH32, [97], [])"
proof -
  have "list_all hrp_char [97]" by (simp add: hrp_char_def is_upper_def)
  then have "bech32_decode ([97] @ [49] @ map (\<lambda>d :: u8. charset ! unat d) ([10, 28, 25, 31, 20, 31][2 := 3])) \<noteq> Some (BECH32_ENCODING_BECH32, [97], [])"
    by (rule bech32_detects_substitution [OF _ _ _ _ _ _ _ _ bech32_example]) simp_all
  then show ?thesis using bech32_example by blast
qed

text \<open>
  C15. SegWit addresses round trip. For a valid prefix, a witness version from 0 to 16 and a program
  of a length the version allows, \<open>segwit_addr_encode\<close> produces an address if it fits 90 characters,
  and \<open>segwit_addr_decode\<close> with the same prefix returns the version and the program.
\<close>

theorem segwit_addr_roundtrip:
  assumes "list_all hrp_char hrp" "hrp \<noteq> []" "0 \<le> witver" "witver \<le> 16"
    and "2 \<le> length witprog" "length witprog \<le> 40" "witver = 0 \<longrightarrow> length witprog = 20 \<or> length witprog = 32"
    and "length hrp + 8 + (8 * length witprog + 4) div 5 \<le> 90"
  shows "\<exists>addr. segwit_addr_encode hrp witver witprog = Some addr \<and> segwit_addr_decode hrp addr = Some (witver, witprog)"
proof -
  define enc where "enc = (if witver > 0 then BECH32_ENCODING_BECH32M else BECH32_ENCODING_BECH32)"
  define v where "v = (word_of_int witver :: u8)"
  obtain ys p where y: "convert_bits 5 witprog 8 True = (True, ys)" "p < 5" "5 * length ys = 8 * length witprog + p"
    "\<forall>y \<in> set ys. drop_bit 5 y = 0" "convert_bits 8 ys 5 False = (True, witprog)"
    using convert_8_5 [of witprog] by blast
  have len: "length ys = (8 * length witprog + 4) div 5" using y(2,3) by linarith
  have uv: "uint v = witver" using assms(3,4) by (simp add: v_def uint_word_of_int)
  have "uint (drop_bit 5 v) = 0" using uv assms(3,4) by (simp add: uint_drop_bit div_pos_pos_trivial)
  then have "drop_bit 5 v = 0" by (simp only: uint_0_iff)
  then have ds: "\<forall>d \<in> set (v # ys). drop_bit 5 d = 0" using y(4) by simp
  have fit: "length hrp + 7 + length (v # ys) \<le> 90" using len assms(8) by simp
  note e = bech32_encode_eq [OF assms(1) fit ds, of enc]
  obtain addr where a: "bech32_encode hrp (v # ys) enc = Some addr" using e by blast
  have la: "length addr \<le> 90" using e a fit by (auto simp: symbols_def)
  have d: "bech32_decode addr = Some (enc, hrp, v # ys)" using bech32_decode_encode [OF a assms(2)] by (simp add: enc_def)
  have "segwit_addr_encode hrp witver witprog = bech32_encode hrp (v # ys) enc"
    using assms(4-7) y(1) unfolding segwit_addr_encode_def v_def enc_def by auto
  moreover have "segwit_addr_decode hrp addr = Some (witver, witprog)"
  proof -
    have v: "\<not> v > 16" "v = 0 \<longleftrightarrow> witver = 0" "v > 0 \<longleftrightarrow> witver > 0"
      using uv assms(4) uint_0_iff [of v] by (simp_all add: word_less_def)
    have l: "\<not> length addr > 90" "\<not> (length (v # ys) = 0 \<or> length (v # ys) > 65)" using la len assms(6) by simp_all
    have c: "\<not> (witver = 0 \<and> enc \<noteq> BECH32_ENCODING_BECH32)" "\<not> (witver > 0 \<and> enc \<noteq> BECH32_ENCODING_BECH32M)"
      "\<not> (length witprog < 2 \<or> length witprog > 40)" "\<not> (witver = 0 \<and> length witprog \<noteq> 20 \<and> length witprog \<noteq> 32)"
      using assms(5-7) by (auto simp: enc_def)
    show ?thesis
      unfolding segwit_addr_decode_def if_not_P [OF l(1)] d
      by (simp only: bind.bind_lunit prod.case if_not_P [OF l(2)] list.sel v c y(5) uv simp_thms if_False)
  qed
  ultimately show ?thesis using a by simp
qed

theorem segwit_addr_roundtrip_witness:
  "\<exists>addr. segwit_addr_encode [98, 99] 0 (replicate 20 7) = Some addr \<and> segwit_addr_decode [98, 99] addr = Some (0, replicate 20 7)"
  using segwit_addr_roundtrip [of "[98, 99]" 0 "replicate 20 7"] by (simp add: hrp_char_def is_upper_def)

end
