(* ===== verification/Cash_Addr.thy ===== *)
theory Cash_Addr
  imports Symbol_Strings
begin

text \<open>
  \<open>crypto/cash_addr.c\<close>: CashAddr strings, with a checksum of 40 bits and the separator ':'.
  Strings and results are as in the theory of \<open>crypto/segwit_addr.c\<close>.
\<close>

section \<open>Encoding and decoding\<close>

definition cashaddr_polymod_step :: "u64 \<Rightarrow> u64" where
  "cashaddr_polymod_step pre =
     (let b = ucast (drop_bit 35 pre) :: u8 in
      push_bit 5 (pre AND 0x7FFFFFFFF) XOR
      (- ucast (drop_bit 0 b AND 1) AND 0x98f2bc8e61) XOR
      (- ucast (drop_bit 1 b AND 1) AND 0x79b76d99e2) XOR
      (- ucast (drop_bit 2 b AND 1) AND 0xf33e5fb3c4) XOR
      (- ucast (drop_bit 3 b AND 1) AND 0xae2eabe2a8) XOR
      (- ucast (drop_bit 4 b AND 1) AND 0x1e4f43e470))"

abbreviation (input) CHECKSUM_SIZE :: nat where "CHECKSUM_SIZE \<equiv> 8"
abbreviation (input) MAX_CASHADDR_SIZE :: nat where "MAX_CASHADDR_SIZE \<equiv> 129"
abbreviation (input) MAX_BASE32_SIZE :: nat where "MAX_BASE32_SIZE \<equiv> 104"
abbreviation (input) MAX_DATA_SIZE :: nat where "MAX_DATA_SIZE \<equiv> 65"
abbreviation (input) MAX_HRP_SIZE :: nat where "MAX_HRP_SIZE \<equiv> 20"

fun cash_hrp_loop :: "u64 \<Rightarrow> u8 list \<Rightarrow> u64 option" where
  "cash_hrp_loop chk [] = Some chk"
| "cash_hrp_loop chk (ch # cs) =
     (if ch < 33 \<or> ch > 126 then None
      else cash_hrp_loop (cashaddr_polymod_step chk XOR ucast (ch AND 0x1f)) cs)"

definition cash_encode :: "u8 list \<Rightarrow> u8 list \<Rightarrow> u8 list option" where
  "cash_encode hrp data = do {
     chk \<leftarrow> cash_hrp_loop 1 hrp;
     if length hrp + 1 + length data + CHECKSUM_SIZE > MAX_CASHADDR_SIZE then None
     else do {
       (chk, out) \<leftarrow> encode_data_loop cashaddr_polymod_step (cashaddr_polymod_step chk) data (hrp @ [58]);
       let chk = (cashaddr_polymod_step ^^ CHECKSUM_SIZE) chk XOR 1;
       Some (out @ map (\<lambda>i. charset ! unat (drop_bit ((CHECKSUM_SIZE - 1 - i) * 5) chk AND 0x1f)) [0..<CHECKSUM_SIZE]) } }"

fun cash_decode_hrp_loop :: "u64 \<Rightarrow> bool \<Rightarrow> bool \<Rightarrow> u8 list \<Rightarrow> u8 list \<Rightarrow> (u64 \<times> bool \<times> bool \<times> u8 list) option" where
  "cash_decode_hrp_loop chk have_lower have_upper hrp [] = Some (chk, have_lower, have_upper, hrp)"
| "cash_decode_hrp_loop chk have_lower have_upper hrp (ch # cs) =
     (if ch < 33 \<or> ch > 126 then None
      else let ch' = (if \<not> is_lower ch \<and> is_upper ch then ch - 65 + 97 else ch) in
        cash_decode_hrp_loop (cashaddr_polymod_step chk XOR ucast (ch' AND 0x1f))
          (have_lower \<or> is_lower ch) (have_upper \<or> \<not> is_lower ch \<and> is_upper ch) (hrp @ [ch']) cs)"

definition cash_decode :: "u8 list \<Rightarrow> (u8 list \<times> u8 list) option" where
  "cash_decode input =
     (let input_len = length input; data_len = length (takeWhile (\<lambda>c. c \<noteq> 58) (rev input)) in
      if input_len < CHECKSUM_SIZE \<or> input_len > MAX_CASHADDR_SIZE then None
      else if 1 + data_len \<ge> input_len \<or> input_len - (1 + data_len) > MAX_HRP_SIZE
        \<or> data_len < CHECKSUM_SIZE \<or> data_len > CHECKSUM_SIZE + MAX_BASE32_SIZE then None
      else let hrp_len = input_len - (1 + data_len) in do {
        (chk, have_lower, have_upper, hrp) \<leftarrow> cash_decode_hrp_loop 1 False False [] (take hrp_len input);
        (chk, have_lower, have_upper, data) \<leftarrow>
          decode_data_loop cashaddr_polymod_step CHECKSUM_SIZE (cashaddr_polymod_step chk) have_lower have_upper [] (drop (hrp_len + 1) input);
        if have_lower \<and> have_upper then None
        else if chk = 1 then Some (hrp, data) else None })"

definition cash_addr_encode :: "u8 list \<Rightarrow> u8 list \<Rightarrow> u8 list option" where
  "cash_addr_encode hrp data =
     (if length data < 2 \<or> length data > MAX_DATA_SIZE then None
      else cash_encode hrp (snd (convert_bits 5 data 8 True)))"

definition cash_addr_decode :: "u8 list \<Rightarrow> u8 list \<Rightarrow> u8 list option" where
  "cash_addr_decode hrp addr = do {
     (hrp_actual, data) \<leftarrow> cash_decode addr;
     if length data = 0 \<or> length data > MAX_BASE32_SIZE then None
     else if take (MAX_HRP_SIZE + 1) hrp \<noteq> take (MAX_HRP_SIZE + 1) hrp_actual then None
     else case convert_bits 8 data 5 False of (ok, witdata) \<Rightarrow>
       if \<not> ok then None
       else if length witdata < 2 \<or> length witdata > MAX_DATA_SIZE then None
       else Some witdata }"

section \<open>The step\<close>

lemma cash_step_eq:
  "cashaddr_polymod_step x = push_bit 5 (take_bit 35 x) XOR (if bit x 35 then 0x98f2bc8e61 else 0) XOR (if bit x 36 then 0x79b76d99e2 else 0) XOR (if bit x 37 then 0xf33e5fb3c4 else 0) XOR (if bit x 38 then 0xae2eabe2a8 else 0) XOR (if bit x 39 then 0x1e4f43e470 else 0)"
proof -
  have "x AND 0x7FFFFFFFF = take_bit 35 x" by (simp add: take_bit_eq_mask mask_numeral)
  moreover have "bit (ucast (drop_bit 35 x) :: u8) i \<longleftrightarrow> bit x (35 + i)" if "i < 8" for i
    using that by (simp add: bit_ucast_iff bit_drop_bit_eq)
  ultimately show ?thesis unfolding cashaddr_polymod_step_def Let_def bit_select by simp
qed

lemma cash_step_linear: "cashaddr_polymod_step (x XOR y) = cashaddr_polymod_step x XOR cashaddr_polymod_step y"
proof -
  have sel: "(if bit (x XOR y) i then K else 0) = (if bit x i then K else 0) XOR (if bit y i then K else 0)" for i and K :: u64
    by (auto simp: bit_xor_iff)
  show ?thesis unfolding cash_step_eq sel by (simp only: take_bit_xor push_bit_xor) (simp only: xor.assoc xor.left_commute xor.commute)
qed

lemma cash_step_shift:
  assumes "drop_bit 35 x = 0"
  shows "cashaddr_polymod_step x = push_bit 5 x"
proof -
  have b: "i < 35" if "bit x i" for i using drop_bit_zeroD [OF assms, of i] that by linarith
  then have "take_bit 35 x = x" by (intro bit_word_eqI) (auto simp: bit_take_bit_iff)
  then show ?thesis unfolding cash_step_eq using b [of 35] b [of 36] b [of 37] b [of 38] b [of 39] by auto
qed

lemma cash_step_range: "drop_bit 40 (cashaddr_polymod_step x) = 0"
proof -
  have "drop_bit 40 (push_bit 5 (take_bit 35 x)) = 0"
    by (rule bit_word_eqI) (auto simp: bit_drop_bit_eq bit_push_bit_iff bit_take_bit_iff)
  then show ?thesis unfolding cash_step_eq drop_bit_xor by (simp split del: if_split add: if_distrib [of "drop_bit 40"] cong: if_cong)
qed

lemma cash_step_kernel:
  assumes "drop_bit 40 x = 0" "cashaddr_polymod_step x = 0"
  shows "x = 0"
proof -
  have "take_bit 5 (cashaddr_polymod_step x) = 0" using assms(2) by simp
  then have "(if bit x 35 then 1 else (0 :: u64)) XOR (if bit x 36 then 2 else (0 :: u64)) XOR (if bit x 37 then 4 else (0 :: u64)) XOR (if bit x 38 then 8 else (0 :: u64)) XOR (if bit x 39 then 16 else (0 :: u64)) = 0"
    unfolding cash_step_eq take_bit_xor
    by (simp add: take_bit_push_bit if_distrib [of "take_bit 5"] cong: if_cong split del: if_split)
  then have "\<not> bit x 35 \<and> \<not> bit x 36 \<and> \<not> bit x 37 \<and> \<not> bit x 38 \<and> \<not> bit x 39"
    by (cases "bit x 35"; cases "bit x 36"; cases "bit x 37"; cases "bit x 38"; cases "bit x 39"; simp)
  then have b: "\<not> bit x 35" "\<not> bit x 36" "\<not> bit x 37" "\<not> bit x 38" "\<not> bit x 39" by blast+
  then have "push_bit 5 (take_bit 35 x) = 0" using assms(2) unfolding cash_step_eq by simp
  then have l: "\<not> bit x i" if "i < 35" for i
    using that bit_push_bit_iff [of 5 "take_bit 35 x" "i + 5"] by (simp add: bit_take_bit_iff)
  have "\<not> bit x i" for i
  proof (cases "i < 40")
    case True
    then consider "i < 35" | "i = 35" | "i = 36" | "i = 37" | "i = 38" | "i = 39" by linarith
    then show ?thesis using b l by cases simp_all
  next
    case False
    then show ?thesis using drop_bit_zeroD [OF assms(1)] by simp
  qed
  then show ?thesis by (intro bit_word_eqI) simp
qed

interpretation cashaddr: polymod_detect cashaddr_polymod_step 8
proof
  show "cashaddr_polymod_step (x XOR y) = cashaddr_polymod_step x XOR cashaddr_polymod_step y" for x y
    by (rule cash_step_linear)
  show "drop_bit (5 * (8 - 1)) y = 0 \<Longrightarrow> cashaddr_polymod_step y = push_bit 5 y" for y
    by (rule cash_step_shift) simp
  show "drop_bit (5 * 8) (cashaddr_polymod_step x) = 0" for x using cash_step_range by simp
  show "drop_bit (5 * 8) x = 0 \<Longrightarrow> cashaddr_polymod_step x = 0 \<Longrightarrow> x = 0" for x
    by (rule cash_step_kernel) simp_all
qed simp_all

section \<open>Round trips\<close>

lemma cash_hrp_eq:
  "list_all hrp_char hrp \<Longrightarrow> cash_hrp_loop chk hrp = Some (foldl (\<lambda>chk ch. cashaddr_polymod_step chk XOR ucast (ch AND 0x1f)) chk hrp)"
  by (induction chk hrp rule: cash_hrp_loop.induct) (auto simp: hrp_char_def not_less)

lemma cash_decode_hrp_eq:
  "list_all hrp_char cs \<Longrightarrow> \<exists>l'. cash_decode_hrp_loop chk l u hrp cs
     = Some (foldl (\<lambda>chk ch. cashaddr_polymod_step chk XOR ucast (ch AND 0x1f)) chk cs, l', u, hrp @ cs)"
  by (induction chk l u hrp cs rule: cash_decode_hrp_loop.induct) (auto simp: hrp_char_def not_less Let_def)

lemma cash_decode_symbols:
  assumes h: "list_all hrp_char hrp" "1 \<le> length hrp" "length hrp \<le> 20"
    and d: "\<forall>d \<in> set ds. drop_bit 5 d = 0" "8 \<le> length ds" "length ds \<le> 112" "length hrp + 1 + length ds \<le> 129"
  defines "c \<equiv> cashaddr_polymod_step (foldl (\<lambda>chk ch. cashaddr_polymod_step chk XOR ucast (ch AND 0x1f)) 1 hrp)"
  shows "cash_decode (hrp @ [58] @ map (\<lambda>d. charset ! unat d) ds) =
    (if foldl (\<lambda>chk d. cashaddr_polymod_step chk XOR d) c (map ucast ds) = 1 then Some (hrp, take (length ds - 8) ds) else None)"
proof -
  let ?cs = "map (\<lambda>d. charset ! unat d) ds"
  have "58 \<notin> set ?cs" using charset_nth(5) d(1) by fastforce
  note sep = separator [OF this, of hrp]
  obtain l where l: "cash_decode_hrp_loop 1 False False [] hrp
      = Some (foldl (\<lambda>chk ch. cashaddr_polymod_step chk XOR ucast (ch AND 0x1f)) 1 hrp, l, False, hrp)"
    using cash_decode_hrp_eq [OF h(1), of 1 False False "[]"] by auto
  obtain l' where l': "decode_data_loop cashaddr_polymod_step 8 c l False [] ?cs
      = Some (foldl (\<lambda>chk d. cashaddr_polymod_step chk XOR d) c (map ucast ds), l', False, take (length ds - 8) ds)"
    using decode_data_eq [OF d(1), of cashaddr_polymod_step 8 c l False "[]"] by auto
  have n: "length (hrp @ [58] @ ?cs) - (1 + length (rev ?cs)) = length hrp" by simp
  have tk: "take (length hrp) (hrp @ [58] @ ?cs) = hrp" "drop (length hrp + 1) (hrp @ [58] @ ?cs) = ?cs" by simp_all
  have "\<not> (length (hrp @ [58] @ ?cs) < 8 \<or> length (hrp @ [58] @ ?cs) > 129)"
    "\<not> (1 + length (rev ?cs) \<ge> length (hrp @ [58] @ ?cs) \<or> length hrp > 20 \<or> length (rev ?cs) < 8 \<or> length (rev ?cs) > 8 + 104)"
    using h(2,3) d(2-4) by auto
  then show ?thesis
    unfolding cash_decode_def Let_def sep n tk l
    by (simp only: if_False bind.bind_lunit prod.case c_def [symmetric] l' HOL.simp_thms)
qed

lemma cash_encode_eq:
  assumes "list_all hrp_char hrp" "length hrp + 9 + length data \<le> 129" "\<forall>d \<in> set data. drop_bit 5 d = 0"
  defines "c \<equiv> cashaddr_polymod_step (foldl (\<lambda>chk ch. cashaddr_polymod_step chk XOR ucast (ch AND 0x1f)) 1 hrp)"
  defines "chk \<equiv> (cashaddr_polymod_step ^^ 8) (foldl (\<lambda>chk d. cashaddr_polymod_step chk XOR d) c (map ucast data)) XOR 1"
  shows "cash_encode hrp data = Some (hrp @ [58] @ map (\<lambda>d. charset ! unat d) (data @ map ucast (symbols 8 chk)))"
proof -
  have "map (\<lambda>i. charset ! unat (drop_bit ((8 - 1 - i) * 5) chk AND 0x1f)) [0..<8] = map (\<lambda>d. charset ! unat d) (symbols 8 chk)"
    by (simp add: symbols_def mult.commute)
  also have "\<dots> = map (\<lambda>d. charset ! unat d) (map (ucast :: u64 \<Rightarrow> u8) (symbols 8 chk))"
    using symbols_small [of 8 chk] by simp
  finally show ?thesis
    using assms(1-3) unfolding cash_encode_def cash_hrp_eq [OF assms(1)] encode_data_eq Let_def
    by (simp add: chk_def c_def del: funpow.simps)
qed

lemma cash_decode_encode:
  assumes v: "list_all hrp_char hrp" "length hrp + 9 + length data \<le> 129" "\<forall>d \<in> set data. drop_bit 5 d = 0"
    and h: "1 \<le> length hrp" "length hrp \<le> 20" "length data \<le> 104"
  shows "\<exists>out. cash_encode hrp data = Some out \<and> cash_decode out = Some (hrp, data)"
proof -
  define c where "c = foldl (\<lambda>chk d. cashaddr_polymod_step chk XOR d)
    (cashaddr_polymod_step (foldl (\<lambda>chk ch. cashaddr_polymod_step chk XOR ucast (ch AND 0x1f)) 1 hrp)) (map ucast data)"
  define chk where "chk = (cashaddr_polymod_step ^^ 8) c XOR 1"
  let ?ds = "data @ map ucast (symbols 8 chk)"
  have l8: "length (symbols 8 chk) = 8" by (simp add: symbols_def)
  have ds: "\<forall>d \<in> set ?ds. drop_bit 5 d = 0" "8 \<le> length ?ds" "length ?ds \<le> 112" "length hrp + 1 + length ?ds \<le> 129"
    using v symbols_small [of 8 chk] l8 h by auto
  have "map ucast (map (ucast :: u64 \<Rightarrow> u8) (symbols 8 chk)) = symbols 8 chk"
    using symbols_small [of 8 chk] by (simp add: map_idI)
  then have f: "foldl (\<lambda>chk d. cashaddr_polymod_step chk XOR d)
    (cashaddr_polymod_step (foldl (\<lambda>chk ch. cashaddr_polymod_step chk XOR ucast (ch AND 0x1f)) 1 hrp)) (map ucast ?ds) = 1"
    using cashaddr.checksum_verifies [of 1 c]
    unfolding map_append foldl_append c_def [symmetric] symbols_def [symmetric] chk_def [symmetric] by simp
  have "take (length ?ds - 8) ?ds = data" using l8 by simp
  with cash_decode_symbols [OF v(1) h(1,2) ds] have "cash_decode (hrp @ [58] @ map (\<lambda>d. charset ! unat d) ?ds) = Some (hrp, data)"
    unfolding f by simp
  moreover have "cash_encode hrp data = Some (hrp @ [58] @ map (\<lambda>d. charset ! unat d) ?ds)"
    using cash_encode_eq [OF v] unfolding c_def chk_def .
  ultimately show ?thesis by blast
qed

text \<open>
  C17. CashAddr round trip: for a prefix of 1 to 20 printable characters without capitals and 2 to 65
  bytes of data that fit the address, \<open>cash_addr_encode\<close> produces an address and
  \<open>cash_addr_decode\<close> with the same prefix returns the data.
\<close>

theorem cash_addr_roundtrip:
  assumes "list_all hrp_char hrp" "1 \<le> length hrp" "length hrp \<le> 20" "2 \<le> length data" "length data \<le> 65"
    and "length hrp + 9 + (8 * length data + 4) div 5 \<le> 129"
  shows "\<exists>addr. cash_addr_encode hrp data = Some addr \<and> cash_addr_decode hrp addr = Some data"
proof -
  obtain ys p where y: "convert_bits 5 data 8 True = (True, ys)" "p < 5" "5 * length ys = 8 * length data + p"
    "\<forall>y \<in> set ys. drop_bit 5 y = 0" "convert_bits 8 ys 5 False = (True, data)"
    using convert_8_5 [of data] by blast
  have len: "length ys = (8 * length data + 4) div 5" using y(2,3) by linarith
  have "length hrp + 9 + length ys \<le> 129" "length ys \<le> 104" "length ys \<noteq> 0" using len assms(4-6) by linarith+
  then obtain addr where a: "cash_encode hrp ys = Some addr" "cash_decode addr = Some (hrp, ys)"
    using cash_decode_encode [OF assms(1) _ y(4) assms(2,3)] by blast
  have "cash_addr_encode hrp data = Some addr" using a(1) y(1) assms(4,5) by (simp add: cash_addr_encode_def)
  moreover have "cash_addr_decode hrp addr = Some data"
    using a(2) y(5) assms(4,5) \<open>length ys \<le> 104\<close> \<open>length ys \<noteq> 0\<close> by (simp add: cash_addr_decode_def)
  ultimately show ?thesis by blast
qed

theorem cash_addr_roundtrip_witness:
  "\<exists>addr. cash_addr_encode [98, 99] (replicate 21 7) = Some addr \<and> cash_addr_decode [98, 99] addr = Some (replicate 21 7)"
  using cash_addr_roundtrip [of "[98, 99]" "replicate 21 7"] by (simp add: hrp_char_def is_upper_def)

end
