(* ===== verification/Base32.thy ===== *)
theory Base32
  imports Prelude
begin

text \<open>
  \<open>crypto/base32.c\<close>: Base32 with the alphabet of RFC 4648 or one of the caller. A routine that
  stores into \<open>out\<close> is the list of the bytes it stores there, from \<open>out[0]\<close> on; a null pointer
  or \<open>false\<close> as the result is \<open>None\<close>. The comparison of the alphabet pointer with
  \<open>BASE32_ALPHABET_RFC4648\<close> is the constructor of the alphabet.
\<close>

section \<open>Definitions\<close>

datatype alphabet = BASE32_ALPHABET_RFC4648 | Alphabet "u8 list"

definition base32_encoded_length :: "nat \<Rightarrow> nat" where
  "base32_encoded_length inlen = (let remainder = inlen mod 5 in inlen div 5 * 8 + (remainder * 8 + 4) div 5)"

definition base32_decoded_length :: "nat \<Rightarrow> nat" where
  "base32_decoded_length inlen = (let remainder = inlen mod 8 in inlen div 8 * 5 + (remainder * 5) div 8)"

definition base32_5to8 :: "u8 list \<Rightarrow> nat \<Rightarrow> u8 list" where
  "base32_5to8 ins len =
     (let out = [];
          out = (if len \<ge> 1 then out @ [drop_bit 3 (ins ! 0), push_bit 2 (ins ! 0 AND 7)] else out);
          out = (if len \<ge> 2 then out[1 := out ! 1 OR drop_bit 6 (ins ! 1)] @
                   [drop_bit 1 (ins ! 1) AND 31, push_bit 4 (ins ! 1 AND 1)] else out);
          out = (if len \<ge> 3 then out[3 := out ! 3 OR drop_bit 4 (ins ! 2)] @ [push_bit 1 (ins ! 2 AND 15)] else out);
          out = (if len \<ge> 4 then out[4 := out ! 4 OR drop_bit 7 (ins ! 3)] @
                   [drop_bit 2 (ins ! 3) AND 31, push_bit 3 (ins ! 3 AND 3)] else out)
      in (if len \<ge> 5 then out[6 := out ! 6 OR drop_bit 5 (ins ! 4)] @ [ins ! 4 AND 31] else out))"

definition base32_8to5_raw :: "u8 list \<Rightarrow> nat \<Rightarrow> u8 list" where
  "base32_8to5_raw ins len =
     (if len \<ge> 2 then [push_bit 3 (ins ! 0) OR drop_bit 2 (ins ! 1)] else []) @
     (if len \<ge> 4 then [push_bit 6 (ins ! 1 AND 3) OR push_bit 1 (ins ! 2) OR drop_bit 4 (ins ! 3)] else []) @
     (if len \<ge> 5 then [push_bit 4 (ins ! 3 AND 15) OR drop_bit 1 (ins ! 4)] else []) @
     (if len \<ge> 7 then [push_bit 7 (ins ! 4 AND 1) OR push_bit 2 (ins ! 5) OR drop_bit 3 (ins ! 6)] else []) @
     (if len \<ge> 8 then [push_bit 5 (ins ! 6 AND 7) OR (ins ! 7 AND 31)] else [])"

definition base32_encode_character :: "u8 \<Rightarrow> alphabet \<Rightarrow> u8 option" where
  "base32_encode_character decoded a =
     (if drop_bit 5 decoded \<noteq> 0 then None
      else case a of
        BASE32_ALPHABET_RFC4648 \<Rightarrow> if decoded < 26 then Some (65 + decoded) else Some (50 - 26 + decoded)
      | Alphabet cs \<Rightarrow> Some (cs ! unat decoded))"

text \<open>\<open>strchr\<close> also finds the terminating zero.\<close>

fun strchr :: "u8 list \<Rightarrow> u8 \<Rightarrow> nat option" where
  "strchr [] c = (if c = 0 then Some 0 else None)"
| "strchr (x # xs) c = (if x = c then Some 0 else map_option Suc (strchr xs c))"

definition base32_decode_character :: "u8 \<Rightarrow> alphabet \<Rightarrow> u8 option" where
  "base32_decode_character encoded a =
     (case a of
        BASE32_ALPHABET_RFC4648 \<Rightarrow>
          if encoded \<ge> 65 \<and> encoded \<le> 90 then Some (encoded - 65)
          else if encoded \<ge> 97 \<and> encoded \<le> 122 then Some (encoded - 97)
          else if encoded \<ge> 50 \<and> encoded \<le> 55 then Some (encoded - 50 + 26)
          else None
      | Alphabet cs \<Rightarrow> map_option word_of_nat (strchr cs encoded))"

fun decode_characters :: "u8 list \<Rightarrow> alphabet \<Rightarrow> u8 list option" where
  "decode_characters [] a = Some []"
| "decode_characters (c # cs) a = do {
     d \<leftarrow> base32_decode_character c a;
     ds \<leftarrow> decode_characters cs a;
     Some (d # ds) }"

definition base32_8to5 :: "u8 list \<Rightarrow> nat \<Rightarrow> alphabet option \<Rightarrow> u8 list option" where
  "base32_8to5 ins len a =
     (if len = 1 \<or> len = 3 \<or> len = 6 \<or> len > 8 then None
      else case a of
        Some a \<Rightarrow> do { decoded \<leftarrow> decode_characters (take len ins) a; Some (base32_8to5_raw decoded len) }
      | None \<Rightarrow> Some (base32_8to5_raw ins len))"

function base32_encode_unsafe :: "u8 list \<Rightarrow> u8 list" where
  "base32_encode_unsafe ins =
     (if length ins \<ge> 5 then base32_5to8 ins 5 @ base32_encode_unsafe (drop 5 ins)
      else if length ins \<noteq> 0 then base32_5to8 ins (length ins)
      else [])"
  by auto
termination by (relation "measure length") auto

function base32_decode_unsafe :: "u8 list \<Rightarrow> alphabet option \<Rightarrow> u8 list option" where
  "base32_decode_unsafe ins a =
     (if length ins \<ge> 8 then do {
        out \<leftarrow> base32_8to5 ins 8 a;
        rest \<leftarrow> base32_decode_unsafe (drop 8 ins) a;
        Some (out @ rest) }
      else if length ins \<noteq> 0 then base32_8to5 ins (length ins) a
      else Some [])"
  by auto
termination by (relation "measure (length \<circ> fst)") auto

fun encode_characters :: "u8 list \<Rightarrow> alphabet \<Rightarrow> u8 list option" where
  "encode_characters [] a = Some []"
| "encode_characters (d # ds) a = do {
     c \<leftarrow> base32_encode_character d a;
     cs \<leftarrow> encode_characters ds a;
     Some (c # cs) }"

definition base32_encode :: "u8 list \<Rightarrow> nat \<Rightarrow> alphabet \<Rightarrow> u8 list option" where
  "base32_encode ins outlen a =
     (let len = base32_encoded_length (length ins) in
      if outlen \<le> len then None
      else encode_characters (base32_encode_unsafe ins) a)"

definition base32_decode :: "u8 list \<Rightarrow> nat \<Rightarrow> alphabet option \<Rightarrow> u8 list option" where
  "base32_decode ins outlen a =
     (let len = base32_decoded_length (length ins) in
      if outlen < len then None
      else base32_decode_unsafe ins a)"

section \<open>Groups\<close>

declare base32_encode_unsafe.simps [simp del] base32_decode_unsafe.simps [simp del]

lemma masks: "(7 :: u8) = mask 3" "(31 :: u8) = mask 5" "(15 :: u8) = mask 4" "(3 :: u8) = mask 2" "(1 :: u8) = mask 1"
  by (simp_all add: mask_numeral)

lemmas group_bits = bit_or_iff bit_and_iff bit_push_bit_iff bit_drop_bit_eq bit_mask_iff less_diff_conv2

lemma bit_over: "8 \<le> n \<Longrightarrow> \<not> bit (x :: u8) n"
  by (auto dest: bit_imp_le_length)

lemma group_bytes:
  fixes a b c d e :: u8
  shows "push_bit 3 (drop_bit 3 a) OR drop_bit 2 (push_bit 2 (a AND 7) OR drop_bit 6 b) = a"
    and "push_bit 6 ((push_bit 2 (a AND 7) OR drop_bit 6 b) AND 3) OR push_bit 1 (drop_bit 1 b AND 31)
      OR drop_bit 4 (push_bit 4 (b AND 1) OR drop_bit 4 c) = b"
    and "push_bit 4 ((push_bit 4 (b AND 1) OR drop_bit 4 c) AND 15) OR drop_bit 1 (push_bit 1 (c AND 15) OR drop_bit 7 d) = c"
    and "push_bit 7 ((push_bit 1 (c AND 15) OR drop_bit 7 d) AND 1) OR push_bit 2 (drop_bit 2 d AND 31)
      OR drop_bit 3 (push_bit 3 (d AND 3) OR drop_bit 5 e) = d"
    and "push_bit 5 ((push_bit 3 (d AND 3) OR drop_bit 5 e) AND 7) OR (e AND 31 AND 31) = e"
  unfolding masks
  by (rule byte_eqI; elim insertE; (simp only: group_bits)?; (simp add: group_bits bit_over del: bit_0 push_bit_Suc)?; (simp add: numeral_2_eq_2 numeral_3_eq_3)?)+

lemma group_tail:
  fixes a b c d :: u8
  shows "push_bit 3 (drop_bit 3 a) OR drop_bit 2 (push_bit 2 (a AND 7)) = a"
    and "push_bit 6 ((push_bit 2 (a AND 7) OR drop_bit 6 b) AND 3) OR push_bit 1 (drop_bit 1 b AND 31)
      OR drop_bit 4 (push_bit 4 (b AND 1)) = b"
    and "push_bit 4 ((push_bit 4 (b AND 1) OR drop_bit 4 c) AND 15) OR drop_bit 1 (push_bit 1 (c AND 15)) = c"
    and "push_bit 7 ((push_bit 1 (c AND 15) OR drop_bit 7 d) AND 1) OR push_bit 2 (drop_bit 2 d AND 31)
      OR drop_bit 3 (push_bit 3 (d AND 3)) = d"
  using group_bytes(1) [of a 0] group_bytes(2) [of a b 0] group_bytes(3) [of b c 0] group_bytes(4) [of c d 0]
  by (simp_all only: drop_bit_of_0 or.right_neutral)

lemma group_symbols:
  fixes a b :: u8
  shows "drop_bit 5 (drop_bit 3 a) = 0" "drop_bit 5 (push_bit 2 (a AND 7) OR drop_bit 6 b) = 0" "drop_bit 5 (a AND 31) = 0"
    "drop_bit 5 (push_bit 4 (a AND 1) OR drop_bit 4 b) = 0" "drop_bit 5 (push_bit 1 (a AND 15) OR drop_bit 7 b) = 0"
    "drop_bit 5 (push_bit 3 (a AND 3) OR drop_bit 5 b) = 0"
  unfolding masks
  by (rule byte_eqI; elim insertE; (simp only: group_bits)?; (simp add: group_bits bit_over del: bit_0 push_bit_Suc)?; (simp add: numeral_2_eq_2 numeral_3_eq_3)?)+


lemma group_ends:
  fixes a :: u8
  shows "drop_bit 5 (push_bit 2 (a AND 7)) = 0" "drop_bit 5 (push_bit 4 (a AND 1)) = 0"
    "drop_bit 5 (push_bit 1 (a AND 15)) = 0" "drop_bit 5 (push_bit 3 (a AND 3)) = 0"
  using group_symbols(2,4-6) [of a 0] by (simp_all only: drop_bit_of_0 or.right_neutral)

definition group_size :: "nat \<Rightarrow> nat" where
  "group_size n = (n * 8 + 4) div 5"

lemma group_roundtrip:
  assumes "1 \<le> length xs" "length xs \<le> 5"
  shows "base32_8to5_raw (base32_5to8 xs (length xs)) (group_size (length xs)) = xs
    \<and> length (base32_5to8 xs (length xs)) = group_size (length xs)
    \<and> (\<forall>s \<in> set (base32_5to8 xs (length xs)). drop_bit 5 s = 0)"
proof -
  note d = base32_5to8_def base32_8to5_raw_def Let_def group_size_def group_symbols group_ends
  consider a where "xs = [a]" | a b where "xs = [a, b]" | a b c where "xs = [a, b, c]"
    | a b c d where "xs = [a, b, c, d]" | a b c d e where "xs = [a, b, c, d, e]"
    using assms by (auto simp: Suc_le_length_iff le_Suc_eq length_Suc_conv numeral_eq_Suc)
  then show ?thesis
  proof cases
    case 1
    then show ?thesis using group_tail(1) by (simp add: d)
  next
    case 2
    then show ?thesis using group_bytes(1) group_tail(2) by (simp add: d)
  next
    case 3
    then show ?thesis using group_bytes(1,2) group_tail(3) by (simp add: d)
  next
    case 4
    then show ?thesis using group_bytes(1-3) group_tail(4) by (simp add: d)
  next
    case 5
    then show ?thesis using group_bytes by (simp add: d)
  qed
qed


section \<open>Characters\<close>

fun alphabet_ok :: "alphabet \<Rightarrow> bool" where
  "alphabet_ok BASE32_ALPHABET_RFC4648 = True"
| "alphabet_ok (Alphabet cs) = (length cs = 32 \<and> distinct cs \<and> 0 \<notin> set cs)"

lemma strchr_nth: "distinct cs \<Longrightarrow> i < length cs \<Longrightarrow> strchr cs (cs ! i) = Some i"
proof (induction cs arbitrary: i)
  case (Cons c cs)
  then show ?case by (cases i) auto
qed simp

lemma rfc4648_character:
  fixes d :: u8
  assumes "d < 32"
  shows "d < 26 \<Longrightarrow> 65 + d \<ge> 65 \<and> 65 + d \<le> 90 \<and> 65 + d - 65 = d"
    and "\<not> d < 26 \<Longrightarrow> \<not> (24 + d \<ge> 65 \<and> 24 + d \<le> 90) \<and> \<not> (24 + d \<ge> 97 \<and> 24 + d \<le> 122)
      \<and> 24 + d \<ge> 50 \<and> 24 + d \<le> 55 \<and> 24 + d - 50 + 26 = d"
proof -
  have d: "uint d < 32" using assms by (simp add: word_less_def)
  have u: "uint (65 + d) = 65 + uint d" "uint (24 + d) = 24 + uint d" using d by (subst uint_add_small; simp)+
  have "24 + d - 50 + 26 = d" by simp
  then show "\<not> d < 26 \<Longrightarrow> \<not> (24 + d \<ge> 65 \<and> 24 + d \<le> 90) \<and> \<not> (24 + d \<ge> 97 \<and> 24 + d \<le> 122)
      \<and> 24 + d \<ge> 50 \<and> 24 + d \<le> 55 \<and> 24 + d - 50 + 26 = d"
    using d unfolding word_le_def word_less_def u by simp
  show "d < 26 \<Longrightarrow> 65 + d \<ge> 65 \<and> 65 + d \<le> 90 \<and> 65 + d - 65 = d"
    unfolding word_le_def word_less_def u by simp
qed

lemma character_roundtrip:
  assumes "drop_bit 5 d = 0" "alphabet_ok a"
  shows "\<exists>c. base32_encode_character d a = Some c \<and> base32_decode_character c a = Some d"
proof (cases a)
  case BASE32_ALPHABET_RFC4648
  have "d < 32" using drop_bit_zero_less(1) [OF assms(1)] by (simp add: word_less_def)
  from rfc4648_character [OF this] show ?thesis
    using assms(1) BASE32_ALPHABET_RFC4648
    by (cases "d < 26") (simp_all add: base32_encode_character_def base32_decode_character_def)
next
  case (Alphabet cs)
  have "unat d < 32" using drop_bit_zero_less(2) [OF assms(1)] by simp
  then show ?thesis
    using assms Alphabet strchr_nth [of cs "unat d"] by (simp add: base32_encode_character_def base32_decode_character_def)
qed

lemma characters_roundtrip:
  assumes "\<forall>d \<in> set ds. drop_bit 5 d = 0" "alphabet_ok a"
  shows "\<exists>cs. encode_characters ds a = Some cs \<and> length cs = length ds \<and> decode_characters cs a = Some ds"
  using assms(1)
proof (induction ds)
  case (Cons d ds)
  obtain c where "base32_encode_character d a = Some c" "base32_decode_character c a = Some d"
    using character_roundtrip [of d a] Cons.prems assms(2) by auto
  with Cons show ?case by auto
qed simp

lemma encode_characters_append:
  "encode_characters (xs @ ys) a = do { cs \<leftarrow> encode_characters xs a; ds \<leftarrow> encode_characters ys a; Some (cs @ ds) }"
  by (induction xs) (auto split: bind_splits)

section \<open>Round trip\<close>

lemma group_size_cases:
  assumes "1 \<le> n" "n \<le> 5"
  shows "group_size n \<noteq> 1" "group_size n \<noteq> 3" "group_size n \<noteq> 6" "group_size n \<le> 8" "group_size n < 8 \<longleftrightarrow> n < 5" "0 < group_size n"
proof -
  consider "n = 1" | "n = 2" | "n = 3" | "n = 4" | "n = 5" using assms by linarith
  then show "group_size n \<noteq> 1" "group_size n \<noteq> 3" "group_size n \<noteq> 6" "group_size n \<le> 8" "group_size n < 8 \<longleftrightarrow> n < 5" "0 < group_size n"
    by (cases; simp add: group_size_def)+
qed

lemma base32_5to8_take: "n \<le> length xs \<Longrightarrow> n \<le> 5 \<Longrightarrow> base32_5to8 (take n xs) n = base32_5to8 xs n"
  by (simp add: base32_5to8_def Let_def)

lemma group_decode:
  assumes "1 \<le> n" "n \<le> 5" "n \<le> length xs" "encode_characters (base32_5to8 xs n) a = Some cs" "alphabet_ok a"
  shows "base32_8to5 (cs @ rest) (group_size n) (Some a) = Some (take n xs)" "length cs = group_size n"
proof -
  have l: "length (take n xs) = n" using assms(3) by simp
  note g = group_roundtrip [of "take n xs", unfolded l base32_5to8_take [OF assms(3,2)], OF assms(1,2)]
  obtain cs' where "encode_characters (base32_5to8 xs n) a = Some cs'" "length cs' = group_size n"
    "decode_characters cs' a = Some (base32_5to8 xs n)"
    using characters_roundtrip [OF _ assms(5)] g by metis
  then have c: "length cs = group_size n" "decode_characters cs a = Some (base32_5to8 xs n)" using assms(4) by simp_all
  then show "length cs = group_size n" by simp
  show "base32_8to5 (cs @ rest) (group_size n) (Some a) = Some (take n xs)"
    using group_size_cases [OF assms(1,2)] c g by (simp add: base32_8to5_def)
qed

lemma unsafe_roundtrip:
  assumes "alphabet_ok a"
  shows "\<exists>cs. encode_characters (base32_encode_unsafe xs) a = Some cs \<and> base32_decode_unsafe cs (Some a) = Some xs
    \<and> length cs = base32_encoded_length (length xs)"
proof (induction xs rule: base32_encode_unsafe.induct)
  case (1 xs)
  consider "length xs = 0" | "length xs \<noteq> 0" "length xs < 5" | "5 \<le> length xs" by linarith
  then show ?case
  proof cases
    case 1
    then show ?thesis
      by (simp add: base32_encode_unsafe.simps [of "[]"] base32_decode_unsafe.simps [of "[]"] base32_encoded_length_def)
  next
    case 2
    let ?n = "length xs"
    have n: "1 \<le> ?n" "?n \<le> 5" using 2 by linarith+
    have e: "base32_encode_unsafe xs = base32_5to8 xs ?n" using 2 by (subst base32_encode_unsafe.simps) simp
    have "\<forall>d \<in> set (base32_5to8 xs ?n). drop_bit 5 d = 0" using group_roundtrip [OF n] by simp
    then obtain cs where c: "encode_characters (base32_5to8 xs ?n) a = Some cs" using characters_roundtrip assms by blast
    have g: "base32_8to5 cs (group_size ?n) (Some a) = Some xs" "length cs = group_size ?n"
      using group_decode(1) [OF n _ c assms, of "[]"] group_decode(2) [OF n _ c assms] by simp_all
    have "base32_decode_unsafe cs (Some a) = Some xs"
      using g group_size_cases [OF n] 2(2) by (subst base32_decode_unsafe.simps) simp
    then show ?thesis using e c g 2(2) by (simp add: base32_encoded_length_def group_size_def)
  next
    case 3
    have e: "base32_encode_unsafe xs = base32_5to8 xs 5 @ base32_encode_unsafe (drop 5 xs)"
      using 3 by (subst base32_encode_unsafe.simps) simp
    obtain ds where ds: "encode_characters (base32_encode_unsafe (drop 5 xs)) a = Some ds" "base32_decode_unsafe ds (Some a) = Some (drop 5 xs)"
      "length ds = base32_encoded_length (length (drop 5 xs))" using 1 3 by blast
    have "\<forall>d \<in> set (base32_5to8 xs 5). drop_bit 5 d = 0"
      using group_roundtrip [of "take 5 xs"] base32_5to8_take [OF 3] 3 by simp
    then obtain cs where c: "encode_characters (base32_5to8 xs 5) a = Some cs" using characters_roundtrip assms by blast
    have g: "base32_8to5 (cs @ ds) 8 (Some a) = Some (take 5 xs)" "length cs = 8"
      using group_decode(1) [OF _ _ 3 c assms, of ds] group_decode(2) [OF _ _ 3 c assms] by (simp_all add: group_size_def)
    have "base32_decode_unsafe (cs @ ds) (Some a) = Some xs"
      using g ds(2) by (subst base32_decode_unsafe.simps) simp
    moreover have "base32_encoded_length (length xs) = 8 + base32_encoded_length (length xs - 5)"
      using 3 by (auto simp: base32_encoded_length_def Let_def le_div_geq le_mod_geq)
    ultimately show ?thesis using e c ds(1,3) g(2) by (simp add: encode_characters_append)
  qed
qed

lemma base32_lengths: "base32_decoded_length (base32_encoded_length n) = n"
proof -
  define q r where "q = n div 5" and "r = n mod 5"
  have r: "r < 5" and n: "n = 5 * q + r" by (simp_all add: q_def r_def)
  have e: "base32_encoded_length n = 8 * q + (r * 8 + 4) div 5" using r by (simp add: base32_encoded_length_def q_def r_def)
  consider "r = 0" | "r = 1" | "r = 2" | "r = 3" | "r = 4" using r by linarith
  then show ?thesis unfolding e unfolding base32_decoded_length_def Let_def using n by cases (simp_all del: add_2_eq_Suc add_2_eq_Suc')
qed

text \<open>
  C18. Base32 round trip: with the alphabet of RFC 4648 or any 32 distinct characters, encoding into a
  buffer with room for the characters and the terminator produces a string of the announced
  length, and decoding it into a buffer of the original size or more returns the bytes. Too
  small a buffer makes either call fail.
\<close>

theorem base32_roundtrip:
  assumes "alphabet_ok a"
  shows "if outlen \<le> base32_encoded_length (length xs) then base32_encode xs outlen a = None
    else \<exists>cs. base32_encode xs outlen a = Some cs \<and> length cs = base32_encoded_length (length xs)
      \<and> base32_decoded_length (length cs) = length xs
      \<and> base32_decode cs outlen' (Some a) = (if outlen' < length xs then None else Some xs)"
proof -
  obtain cs where cs: "encode_characters (base32_encode_unsafe xs) a = Some cs" "base32_decode_unsafe cs (Some a) = Some xs"
    "length cs = base32_encoded_length (length xs)" using unsafe_roundtrip [OF assms, of xs] by blast
  then have "base32_decode cs outlen' (Some a) = (if outlen' < length xs then None else Some xs)"
    using base32_lengths [of "length xs"] by (simp add: base32_decode_def)
  with cs base32_lengths [of "length xs"] show ?thesis by (simp add: base32_encode_def)
qed

theorem base32_roundtrip_witness:
  "\<exists>cs. base32_encode [102, 111, 111] 8 BASE32_ALPHABET_RFC4648 = Some cs \<and> base32_decode cs 3 (Some BASE32_ALPHABET_RFC4648) = Some [102, 111, 111]"
  using base32_roundtrip [of BASE32_ALPHABET_RFC4648 8 "[102, 111, 111]" 3] by (auto simp: base32_encoded_length_def)

end
