(* ===== verification/Gf256.thy ===== *)
theory Gf256
  imports Complex_Main Prelude
begin

text \<open>
  The field of 256 elements the Shamir scheme computes in, as a reference: bytes as polynomials
  modulo \<open>x ^ 8 + x ^ 4 + x ^ 3 + x + 1\<close>. Multiplication by a byte is a polynomial in one linear map,
  multiplication by \<open>x\<close>, which makes it commutative and associative. The bytes become a type of
  class \<open>field\<close>, for the sums, products and powers of the library.
\<close>

section \<open>Multiplication of bytes\<close>

definition xtime :: "u8 \<Rightarrow> u8" where
  "xtime a = push_bit 1 a XOR (if bit a 7 then 0x1b else 0)"

definition gmul :: "u8 \<Rightarrow> u8 \<Rightarrow> u8" where
  "gmul a b = foldr (\<lambda>i r. (if bit b i then (xtime ^^ i) a else 0) XOR r) [0..<8] 0"

lemma xtime_xor: "xtime (a XOR b) = xtime a XOR xtime b"
proof -
  have s: "(if bit (a XOR b) 7 then K else 0) = (if bit a 7 then K else 0) XOR (if bit b 7 then K else 0)" for K :: u8
    by (auto simp: bit_xor_iff)
  show ?thesis unfolding xtime_def s push_bit_xor by (simp only: xor.assoc xor.left_commute xor.commute)
qed

lemma xtime_0 [simp]: "xtime 0 = 0"
  by (simp add: xtime_def)

lemma xtime_pow_xor: "(xtime ^^ i) (a XOR b) = (xtime ^^ i) a XOR (xtime ^^ i) b"
  by (induction i) (simp_all add: xtime_xor)

lemma xtime_pow_0 [simp]: "(xtime ^^ i) 0 = 0"
  by (induction i) simp_all

text \<open>A sum of multiples of powers of the map, over any list of positions.\<close>

definition psum :: "nat list \<Rightarrow> u8 \<Rightarrow> u8 \<Rightarrow> u8" where
  "psum is b a = foldr (\<lambda>i r. (if bit b i then (xtime ^^ i) a else 0) XOR r) is 0"

lemma psum_simps [simp]: "psum [] b a = 0" "psum (i # is) b a = (if bit b i then (xtime ^^ i) a else 0) XOR psum is b a"
  by (simp_all add: psum_def)

lemma psum_xor: "psum is b (a XOR c) = psum is b a XOR psum is b c"
  by (induction "is") (auto simp: xtime_pow_xor xor.assoc xor.left_commute xor.commute)

lemma psum_0 [simp]: "psum is b 0 = 0"
  by (induction "is") simp_all

lemma xtime_pow_swap: "(xtime ^^ i) ((xtime ^^ j) a) = (xtime ^^ j) ((xtime ^^ i) a)"
proof -
  have "(xtime ^^ (i + j)) a = (xtime ^^ (j + i)) a" by (simp only: add.commute)
  then show ?thesis unfolding funpow_add comp_apply .
qed

lemma psum_pow: "psum is b ((xtime ^^ j) a) = (xtime ^^ j) (psum is b a)"
  by (induction "is") (simp_all add: xtime_pow_xor xtime_pow_swap [of _ j])

lemma psum_psum: "psum is b (psum js c a) = psum js c (psum is b a)"
  by (induction js) (simp_all add: psum_xor psum_pow)

lemma gmul_psum: "gmul a b = psum [0..<8] b a"
  by (simp add: gmul_def psum_def)

lemma upt_8: "[0..<8] = [0, 1, 2, 3, 4, 5, 6, 7 :: nat]"
  by (simp add: upt_rec)

lemma xtime_pow_1: "(xtime ^^ 0) 1 = 1" "(xtime ^^ 1) 1 = 2" "(xtime ^^ 2) 1 = 4" "(xtime ^^ 3) 1 = 8"
  "(xtime ^^ 4) 1 = 16" "(xtime ^^ 5) 1 = 32" "(xtime ^^ 6) 1 = 64" "(xtime ^^ 7) 1 = 128"
  by (simp_all add: xtime_def numeral_eq_Suc)

text \<open>A byte as the sum of its bits.\<close>

lemma byte_sum:
  "(if bit b 0 then 1 else 0) XOR ((if bit b 1 then 2 else 0) XOR ((if bit b 2 then 4 else 0) XOR ((if bit b 3 then 8 else 0) XOR
    ((if bit b 4 then 16 else 0) XOR ((if bit b 5 then 32 else 0) XOR ((if bit b 6 then 64 else 0) XOR (if bit b 7 then 128 else 0))))))) = (b :: u8)"
  by (rule byte_eqI; elim insertE; simp add: bit_xor_iff if_distrib [of "\<lambda>w. bit w _"] bit_1_iff del: bit_0 cong: if_cong)

lemma gmul_1_left: "gmul 1 b = b"
  unfolding gmul_psum upt_8 psum_simps xtime_pow_1 using byte_sum [of b] by simp

lemma gmul_commute: "gmul a b = gmul b a"
proof -
  have "gmul a b = psum [0..<8] b (psum [0..<8] a 1)" using gmul_1_left [of a] by (simp add: gmul_psum)
  also have "\<dots> = psum [0..<8] a (psum [0..<8] b 1)" by (rule psum_psum)
  also have "\<dots> = gmul b a" using gmul_1_left [of b] by (simp add: gmul_psum)
  finally show ?thesis .
qed

lemma gmul_assoc: "gmul (gmul a b) c = gmul a (gmul b c)"
proof -
  have "gmul a (gmul b c) = psum [0..<8] a (psum [0..<8] c b)" using gmul_commute by (metis gmul_psum)
  also have "\<dots> = psum [0..<8] c (psum [0..<8] a b)" by (rule psum_psum)
  also have "\<dots> = gmul (gmul a b) c" using gmul_commute by (metis gmul_psum)
  finally show ?thesis by simp
qed

lemma gmul_xor: "gmul (a XOR b) c = gmul a c XOR gmul b c"
  by (simp add: gmul_psum psum_xor)

section \<open>The field\<close>

typedef gf = "UNIV :: u8 set" morphisms byte_of Gf
  by simp

setup_lifting type_definition_gf

instantiation gf :: comm_ring_1
begin
lift_definition zero_gf :: gf is 0 .
lift_definition one_gf :: gf is 1 .
lift_definition plus_gf :: "gf \<Rightarrow> gf \<Rightarrow> gf" is "(XOR)" .
lift_definition minus_gf :: "gf \<Rightarrow> gf \<Rightarrow> gf" is "(XOR)" .
lift_definition uminus_gf :: "gf \<Rightarrow> gf" is "\<lambda>x. x" .
lift_definition times_gf :: "gf \<Rightarrow> gf \<Rightarrow> gf" is gmul .
instance
proof
  fix a b c :: gf
  show "a * b * c = a * (b * c)" by transfer (rule gmul_assoc)
  show "a * b = b * a" by transfer (rule gmul_commute)
  show "1 * a = a" by transfer (rule gmul_1_left)
  show "a + b + c = a + (b + c)" by transfer (rule xor.assoc)
  show "a + b = b + a" by transfer (rule xor.commute)
  show "0 + a = a" by transfer simp
  show "- a + a = 0" by transfer simp
  show "a - b = a + - b" by transfer simp
  show "(a + b) * c = a * c + b * c" by transfer (rule gmul_xor)
  show "(0 :: gf) \<noteq> 1" by transfer simp
qed
end

lemma byte_of_simps [simp]:
  "byte_of 0 = 0" "byte_of 1 = 1" "byte_of (x + y) = byte_of x XOR byte_of y" "byte_of (x - y) = byte_of x XOR byte_of y"
  "byte_of (x * y) = gmul (byte_of x) (byte_of y)"
  by (simp_all add: zero_gf.rep_eq one_gf.rep_eq plus_gf.rep_eq minus_gf.rep_eq times_gf.rep_eq)

lemma byte_of_Gf [simp]: "byte_of (Gf x) = x"
  by (simp add: Gf_inverse)

lemma gf_diff_eq: "x - y = x + (y :: gf)"
  by transfer simp

text \<open>The byte 3 generates the multiplicative group: its order is 255.\<close>

definition gen :: gf where "gen = Gf 3"

lemma gf_eq_iff: "x = y \<longleftrightarrow> byte_of x = byte_of y"
  by (simp add: byte_of_inject)

lemma gmul_values: "gmul 3 3 = 5" "gmul 5 3 = 15" "gmul 15 5 = 51" "gmul 51 51 = 114" "gmul 114 51 = 53" "gmul 53 5 = 225" "gmul 225 225 = 92" "gmul 92 225 = 12" "gmul 12 92 = 189" "gmul 189 189 = 188" "gmul 188 189 = 1"
  by code_simp+

lemma gen_powers: "gen ^ 255 = 1" "gen ^ 85 \<noteq> 1" "gen ^ 51 \<noteq> 1" "gen ^ 15 \<noteq> 1"
proof -
  have p1: "byte_of (gen ^ 1) = 3" by (simp add: gen_def)
  have p2: "byte_of (gen ^ 2) = 5" using p1 by (simp add: power2_eq_square gmul_values)
  have "gen ^ 3 = gen ^ 2 * gen ^ 1" using power_add [of gen 2 1] by (simp del: power_Suc add: power_add)
  then have p3: "byte_of (gen ^ 3) = 15" by (simp only: byte_of_simps p2 p1 gmul_values)
  have "gen ^ 5 = gen ^ 3 * gen ^ 2" by (simp flip: power_add)
  then have p5: "byte_of (gen ^ 5) = 51" by (simp only: byte_of_simps p3 p2 gmul_values)
  have "gen ^ 10 = gen ^ 5 * gen ^ 5" by (simp flip: power_add)
  then have p10: "byte_of (gen ^ 10) = 114" by (simp only: byte_of_simps p5 gmul_values)
  have "gen ^ 15 = gen ^ 10 * gen ^ 5" by (simp flip: power_add)
  then have p15: "byte_of (gen ^ 15) = 53" by (simp only: byte_of_simps p10 p5 gmul_values)
  have "gen ^ 17 = gen ^ 15 * gen ^ 2" by (simp flip: power_add)
  then have p17: "byte_of (gen ^ 17) = 225" by (simp only: byte_of_simps p15 p2 gmul_values)
  have "gen ^ 34 = gen ^ 17 * gen ^ 17" by (simp flip: power_add)
  then have p34: "byte_of (gen ^ 34) = 92" by (simp only: byte_of_simps p17 gmul_values)
  have "gen ^ 51 = gen ^ 34 * gen ^ 17" by (simp flip: power_add)
  then have p51: "byte_of (gen ^ 51) = 12" by (simp only: byte_of_simps p34 p17 gmul_values)
  have "gen ^ 85 = gen ^ 51 * gen ^ 34" by (simp flip: power_add)
  then have p85: "byte_of (gen ^ 85) = 189" by (simp only: byte_of_simps p51 p34 gmul_values)
  have "gen ^ 170 = gen ^ 85 * gen ^ 85" by (simp flip: power_add)
  then have p170: "byte_of (gen ^ 170) = 188" by (simp only: byte_of_simps p85 gmul_values)
  have "gen ^ 255 = gen ^ 170 * gen ^ 85" by (simp flip: power_add)
  then have p255: "byte_of (gen ^ 255) = 1" by (simp only: byte_of_simps p170 p85 gmul_values)
  show "gen ^ 255 = 1" "gen ^ 85 \<noteq> 1" "gen ^ 51 \<noteq> 1" "gen ^ 15 \<noteq> 1"
    unfolding gf_eq_iff p255 p85 p51 p15 by simp_all
qed

lemma divisors_255: "\<forall>e \<in> set [1..<255]. e dvd 255 \<longrightarrow> e dvd 85 \<or> e dvd 51 \<or> e dvd (15 :: nat)"
  by code_simp

lemma power_one_dvd: "(x :: gf) ^ d = 1 \<Longrightarrow> d dvd n \<Longrightarrow> x ^ n = 1"
  by (auto simp: power_mult)

lemma gen_order:
  assumes "0 < d" "d < 255"
  shows "gen ^ d \<noteq> 1"
proof
  assume "gen ^ d = 1"
  define e where "e = gcd d 255"
  obtain x y where xy: "d * x = 255 * y + e" using bezout_nat [of d 255] assms(1) unfolding e_def by auto
  have "gen ^ e = gen ^ (255 * y + e)" by (simp add: power_add power_mult gen_powers(1))
  also have "\<dots> = 1" unfolding xy [symmetric] by (simp add: power_mult \<open>gen ^ d = 1\<close>)
  finally have e1: "gen ^ e = 1" .
  have "e dvd 255" "0 < e" "e \<le> d" using assms(1) by (simp_all add: e_def)
  then have "e \<in> set [1..<255]" using assms(2) by simp
  then have "e dvd 85 \<or> e dvd 51 \<or> e dvd 15" using divisors_255 \<open>e dvd 255\<close> by blast
  then show False using power_one_dvd [OF e1] gen_powers(2-4) by blast
qed

lemma card_gf: "card (UNIV :: gf set) = 256" "finite (UNIV :: gf set)"
proof -
  have "bij byte_of" by (rule bijI') (auto simp: byte_of_inject intro: Gf_inverse [symmetric])
  then have c: "bij_betw byte_of UNIV UNIV" by simp
  show "card (UNIV :: gf set) = 256" using bij_betw_same_card [OF c] by (simp add: card_word)
  show "finite (UNIV :: gf set)" using bij_betw_finite [OF c] by simp
qed

lemma gen_onto:
  assumes "x \<noteq> 0"
  obtains i where "x = gen ^ i" "i < 255"
proof -
  let ?S = "(\<lambda>i. gen ^ i) ` {..<255}"
  have nz: "gen ^ i \<noteq> 0" for i
  proof
    assume "gen ^ i = 0"
    then have "(gen ^ i) ^ 255 = 0" by simp
    then show False by (simp add: power_mult [symmetric] mult.commute [of i] power_mult gen_powers(1))
  qed
  have lt: "gen ^ i \<noteq> gen ^ j" if "i < j" "j < 255" for i j
  proof
    assume "gen ^ i = gen ^ j"
    have a: "gen ^ j = gen ^ i * gen ^ (j - i)" using that by (simp add: power_add [symmetric])
    have b: "gen ^ (255 - i) * gen ^ i = 1" using that gen_powers(1) by (simp add: power_add [symmetric])
    have "gen ^ (j - i) = gen ^ (255 - i) * gen ^ i * gen ^ (j - i)" unfolding b by simp
    also have "\<dots> = gen ^ (255 - i) * gen ^ j" unfolding a by (rule mult.assoc)
    also have "\<dots> = 1" using b \<open>gen ^ i = gen ^ j\<close> by simp
    finally have "gen ^ (j - i) = 1" .
    then show False using gen_order [of "j - i"] that by simp
  qed
  have "inj_on (\<lambda>i. gen ^ i) {..<255}" using lt by (intro linorder_inj_onI) auto
  then have "card ?S = 255" by (simp add: card_image)
  moreover have "?S \<subseteq> UNIV - {0}" using nz by auto
  moreover have "card (UNIV - {0 :: gf}) = 255" using card_gf by simp
  ultimately have "?S = UNIV - {0}" using card_gf(2) by (intro card_subset_eq) auto
  then show ?thesis using assms that by blast
qed

lemma gf_fermat:
  assumes "x \<noteq> (0 :: gf)"
  shows "x ^ 255 = 1"
proof -
  obtain i where "x = gen ^ i" using gen_onto [OF assms] by blast
  then have "x ^ 255 = (gen ^ 255) ^ i" by (simp only: power_mult [symmetric] mult.commute)
  then show ?thesis by (simp add: gen_powers(1))
qed

instantiation gf :: field
begin
definition inverse_gf :: "gf \<Rightarrow> gf" where "inverse_gf x = x ^ 254"
definition divide_gf :: "gf \<Rightarrow> gf \<Rightarrow> gf" where "divide_gf x y = x * inverse y"
instance
proof
  fix a b :: gf
  show "inverse a * a = 1" if "a \<noteq> 0" using gf_fermat [OF that] power_add [of a 254 1] by (simp add: inverse_gf_def)
  show "a div b = a * inverse b" by (rule divide_gf_def)
  show "inverse (0 :: gf) = 0" by (simp add: inverse_gf_def)
qed
end

end
