(* ===== verification/Interpolation.thy ===== *)
theory Interpolation
  imports Complex_Main
begin

text \<open>
  Lagrange interpolation over a field: a polynomial function with fewer coefficients than points
  is determined by its values there. This is what makes secret sharing recover the secret.
\<close>

definition polyf :: "nat \<Rightarrow> ('a::field \<Rightarrow> 'a) \<Rightarrow> bool" where
  "polyf n f \<longleftrightarrow> (\<exists>c. \<forall>x. f x = (\<Sum>k<n. c k * x ^ k))"

lemma polyf_zero: "polyf n (\<lambda>x. 0)"
  unfolding polyf_def by (intro exI [of _ "\<lambda>_. 0"]) simp

lemma polyf_add: "polyf n f \<Longrightarrow> polyf n g \<Longrightarrow> polyf n (\<lambda>x. f x + g x)"
  unfolding polyf_def
proof (elim exE)
  fix c d assume "\<forall>x. f x = (\<Sum>k<n. c k * x ^ k)" "\<forall>x. g x = (\<Sum>k<n. d k * x ^ k)"
  then show "\<exists>c. \<forall>x. f x + g x = (\<Sum>k<n. c k * x ^ k)"
    by (intro exI [of _ "\<lambda>k. c k + d k"]) (simp add: distrib_right sum.distrib)
qed

lemma polyf_scale: "polyf n f \<Longrightarrow> polyf n (\<lambda>x. a * f x)"
  unfolding polyf_def
proof (elim exE)
  fix c assume "\<forall>x. f x = (\<Sum>k<n. c k * x ^ k)"
  then show "\<exists>c. \<forall>x. a * f x = (\<Sum>k<n. c k * x ^ k)"
    by (intro exI [of _ "\<lambda>k. a * c k"]) (simp add: sum_distrib_left mult.assoc)
qed

lemma polyf_sum: "finite I \<Longrightarrow> (\<And>i. i \<in> I \<Longrightarrow> polyf n (f i)) \<Longrightarrow> polyf n (\<lambda>x. \<Sum>i\<in>I. f i x)"
  by (induction I rule: finite_induct) (auto intro: polyf_zero polyf_add)

lemma polyf_Suc: "polyf n f \<Longrightarrow> polyf (Suc n) f"
  unfolding polyf_def
proof (elim exE)
  fix c assume "\<forall>x. f x = (\<Sum>k<n. c k * x ^ k)"
  then show "\<exists>c. \<forall>x. f x = (\<Sum>k<Suc n. c k * x ^ k)"
    by (intro exI [of _ "\<lambda>k. if k < n then c k else 0"]) simp
qed

lemma polyf_shift:
  assumes "polyf n f"
  shows "polyf (Suc n) (\<lambda>x. x * f x)"
proof -
  obtain c where "\<forall>x. f x = (\<Sum>k<n. c k * x ^ k)" using assms by (auto simp: polyf_def)
  then show ?thesis unfolding polyf_def
    by (intro exI [of _ "\<lambda>k. case k of 0 \<Rightarrow> 0 | Suc k \<Rightarrow> c k"])
      (simp only: sum.lessThan_Suc_shift, simp add: sum_distrib_left algebra_simps)
qed

lemma polyf_linear:
  assumes "polyf n f"
  shows "polyf (Suc n) (\<lambda>x. (x - a) * f x)"
proof -
  have "polyf (Suc n) (\<lambda>x. x * f x + (- a) * f x)"
    by (intro polyf_add polyf_shift polyf_Suc polyf_scale assms)
  then show ?thesis by (simp add: algebra_simps)
qed

lemma polyf_prod: "finite J \<Longrightarrow> polyf (Suc (card J)) (\<lambda>x. \<Prod>j\<in>J. x - a j)"
proof (induction J rule: finite_induct)
  case empty
  show ?case unfolding polyf_def by (intro exI [of _ "\<lambda>_. 1"]) simp
next
  case (insert j J)
  then show ?case using polyf_linear [of "Suc (card J)" _ "a j"] by simp
qed

lemma polyf_roots:
  assumes "polyf n f" "finite S" "card S = n" "\<forall>a \<in> S. f a = 0"
  shows "f x = 0"
  using assms
proof (induction n arbitrary: f S)
  case 0
  then show ?case by (auto simp: polyf_def)
next
  case (Suc n)
  obtain c where c: "\<And>x. f x = (\<Sum>k\<le>n. c k * x ^ k)" using Suc.prems(1) by (auto simp: polyf_def lessThan_Suc_atMost)
  obtain a where a: "a \<in> S" using Suc.prems(3) by fastforce
  have "(\<Sum>k\<le>n. c k * a ^ k) = 0" using Suc.prems(4) a c by simp
  from polyfun_linear_factor_root [OF this] obtain b where b: "\<And>z. (\<Sum>k\<le>n. c k * z ^ k) = (z - a) * (\<Sum>k<n. b k * z ^ k)"
    by blast
  let ?g = "\<lambda>z. \<Sum>k<n. b k * z ^ k"
  have "?g s = 0" if "s \<in> S - {a}" for s using that Suc.prems(4) c b by auto
  moreover have "polyf n ?g" by (auto simp: polyf_def)
  moreover have "finite (S - {a})" "card (S - {a}) = n" using Suc.prems(2,3) a by simp_all
  ultimately have "?g x = 0" using Suc.IH by blast
  then show ?case using c b by simp
qed

text \<open>The interpolating polynomial through given values, and that it is the only one.\<close>

lemma lagrange_poly:
  fixes a :: "nat \<Rightarrow> 'a::field"
  assumes "inj_on a {..<n}"
  shows "polyf n (\<lambda>x. \<Sum>i<n. y i * (\<Prod>j\<in>{..<n} - {i}. (x - a j) / (a i - a j)))"
    and "k < n \<Longrightarrow> (\<Sum>i<n. y i * (\<Prod>j\<in>{..<n} - {i}. (a k - a j) / (a i - a j))) = y k"
proof -
  define l where "l i x = (\<Prod>j\<in>{..<n} - {i}. (x - a j) / (a i - a j))" for i x
  have pl: "polyf n (l i)" if "i < n" for i
  proof -
    have "polyf (Suc (card ({..<n} - {i}))) (\<lambda>x. \<Prod>j\<in>{..<n} - {i}. x - a j)" by (rule polyf_prod) simp
    then have "polyf n (\<lambda>x. inverse (\<Prod>j\<in>{..<n} - {i}. a i - a j) * (\<Prod>j\<in>{..<n} - {i}. x - a j))"
      using that by (intro polyf_scale) simp
    then show ?thesis by (simp add: l_def [abs_def] prod_dividef field_simps)
  qed
  then have "polyf n (\<lambda>x. \<Sum>i<n. y i * l i x)" by (intro polyf_sum polyf_scale) auto
  then show "polyf n (\<lambda>x. \<Sum>i<n. y i * (\<Prod>j\<in>{..<n} - {i}. (x - a j) / (a i - a j)))" by (simp add: l_def)
  have la: "l i (a k) = (if i = k then 1 else 0)" if "i < n" "k < n" for i k
  proof (cases "i = k")
    case True
    have "a i - a j \<noteq> 0" if "j \<in> {..<n} - {i}" for j using that \<open>i < n\<close> assms by (auto dest: inj_onD)
    then show ?thesis using True by (simp add: l_def)
  next
    case False
    then have "k \<in> {..<n} - {i}" using that by simp
    then have "l i (a k) = 0" unfolding l_def by (intro prod_zero) auto
    then show ?thesis using False by simp
  qed
  assume k: "k < n"
  then have "(\<Sum>i<n. y i * l i (a k)) = (\<Sum>i<n. if i = k then y k else 0)"
    using la by (intro sum.cong) auto
  then show "(\<Sum>i<n. y i * (\<Prod>j\<in>{..<n} - {i}. (a k - a j) / (a i - a j))) = y k" using k by (simp add: l_def)
qed

lemma lagrange:
  fixes a :: "nat \<Rightarrow> 'a::field"
  assumes "polyf n f" "inj_on a {..<n}"
  shows "f x = (\<Sum>i<n. f (a i) * (\<Prod>j\<in>{..<n} - {i}. (x - a j) / (a i - a j)))" (is "f x = ?l x")
proof -
  let ?h = "\<lambda>x. ?l x + (- 1) * f x"
  have "polyf n ?h" using lagrange_poly(1) [OF assms(2)] assms(1) by (intro polyf_add polyf_scale) auto
  moreover have "?h (a k) = 0" if "k < n" for k using lagrange_poly(2) [OF assms(2) that, of "\<lambda>i. f (a i)"] by simp
  moreover have "card (a ` {..<n}) = n" using assms(2) by (simp add: card_image)
  ultimately have "?h x = 0" using polyf_roots [of n ?h "a ` {..<n}"] by auto
  then show ?thesis by simp
qed

end
