(* ===== verification/Shamir.thy ===== *)
theory Shamir
  imports Gf256 Interpolation
begin

text \<open>
  \<open>crypto/shamir.c\<close>: Shamir secret sharing over the field of 256 elements, 32 bytes at a time. A
  bitsliced value is a list of 8 words; bit \<open>j\<close> of word \<open>i\<close> is bit \<open>i\<close> of byte \<open>j\<close>. The arithmetic is
  written as the code has it, one binding per assignment, a later binding hiding an earlier one.
  \<open>gf256_square\<close> reads each word before it is overwritten, so that the result in place is the
  same; \<open>gf256_mul\<close> copies \<open>a\<close> first, and is never called with \<open>r\<close> and \<open>b\<close> the same.
\<close>

section \<open>Bit slices\<close>

abbreviation (input) SHAMIR_MAX_LEN :: nat where "SHAMIR_MAX_LEN \<equiv> 32"

definition bitslice :: "u8 list \<Rightarrow> nat \<Rightarrow> u32 list" where
  "bitslice x len =
     foldl (\<lambda>r arr_idx. let cur = ucast (x ! arr_idx) in
              foldl (\<lambda>r bit_idx. r[bit_idx := r ! bit_idx OR push_bit arr_idx (drop_bit bit_idx cur AND 1)]) r [0..<8])
       (replicate 8 0) [0..<len]"

definition unbitslice :: "u32 list \<Rightarrow> nat \<Rightarrow> u8 list" where
  "unbitslice x len =
     foldl (\<lambda>r bit_idx. let cur = x ! bit_idx in
              foldl (\<lambda>r arr_idx. r[arr_idx := r ! arr_idx OR ucast (push_bit bit_idx (drop_bit arr_idx cur AND 1))]) r [0..<len])
       (replicate len 0) [0..<8]"

definition bitslice_setall :: "u8 \<Rightarrow> u32 list" where
  "bitslice_setall x = map (\<lambda>idx. - ucast (drop_bit idx x AND 1)) [0..<8]"

section \<open>Arithmetic\<close>

definition gf256_add :: "u32 list \<Rightarrow> u32 list \<Rightarrow> u32 list" where
  "gf256_add r x = map (\<lambda>idx. r ! idx XOR x ! idx) [0..<8]"

definition gf256_mul :: "u32 list \<Rightarrow> u32 list \<Rightarrow> u32 list" where
  "gf256_mul a b =
     (let
            a0 = a ! 0; a1 = a ! 1; a2 = a ! 2; a3 = a ! 3; a4 = a ! 4; a5 = a ! 5; a6 = a ! 6; a7 = a ! 7;
            b0 = b ! 0; b1 = b ! 1; b2 = b ! 2; b3 = b ! 3; b4 = b ! 4; b5 = b ! 5; b6 = b ! 6; b7 = b ! 7;
            r0 = a0 AND b0; r1 = a1 AND b0; r2 = a2 AND b0; r3 = a3 AND b0;
            r4 = a4 AND b0; r5 = a5 AND b0; r6 = a6 AND b0; r7 = a7 AND b0;
            a0 = a0 XOR a7; a2 = a2 XOR a7; a3 = a3 XOR a7; r0 = r0 XOR (a7 AND b1);
            r1 = r1 XOR (a0 AND b1); r2 = r2 XOR (a1 AND b1); r3 = r3 XOR (a2 AND b1); r4 = r4 XOR (a3 AND b1);
            r5 = r5 XOR (a4 AND b1); r6 = r6 XOR (a5 AND b1); r7 = r7 XOR (a6 AND b1); a7 = a7 XOR a6;
            a1 = a1 XOR a6; a2 = a2 XOR a6; r0 = r0 XOR (a6 AND b2); r1 = r1 XOR (a7 AND b2);
            r2 = r2 XOR (a0 AND b2); r3 = r3 XOR (a1 AND b2); r4 = r4 XOR (a2 AND b2); r5 = r5 XOR (a3 AND b2);
            r6 = r6 XOR (a4 AND b2); r7 = r7 XOR (a5 AND b2); a6 = a6 XOR a5; a0 = a0 XOR a5;
            a1 = a1 XOR a5; r0 = r0 XOR (a5 AND b3); r1 = r1 XOR (a6 AND b3); r2 = r2 XOR (a7 AND b3);
            r3 = r3 XOR (a0 AND b3); r4 = r4 XOR (a1 AND b3); r5 = r5 XOR (a2 AND b3); r6 = r6 XOR (a3 AND b3);
            r7 = r7 XOR (a4 AND b3); a5 = a5 XOR a4; a7 = a7 XOR a4; a0 = a0 XOR a4;
            r0 = r0 XOR (a4 AND b4); r1 = r1 XOR (a5 AND b4); r2 = r2 XOR (a6 AND b4); r3 = r3 XOR (a7 AND b4);
            r4 = r4 XOR (a0 AND b4); r5 = r5 XOR (a1 AND b4); r6 = r6 XOR (a2 AND b4); r7 = r7 XOR (a3 AND b4);
            a4 = a4 XOR a3; a6 = a6 XOR a3; a7 = a7 XOR a3; r0 = r0 XOR (a3 AND b5);
            r1 = r1 XOR (a4 AND b5); r2 = r2 XOR (a5 AND b5); r3 = r3 XOR (a6 AND b5); r4 = r4 XOR (a7 AND b5);
            r5 = r5 XOR (a0 AND b5); r6 = r6 XOR (a1 AND b5); r7 = r7 XOR (a2 AND b5); a3 = a3 XOR a2;
            a5 = a5 XOR a2; a6 = a6 XOR a2; r0 = r0 XOR (a2 AND b6); r1 = r1 XOR (a3 AND b6);
            r2 = r2 XOR (a4 AND b6); r3 = r3 XOR (a5 AND b6); r4 = r4 XOR (a6 AND b6); r5 = r5 XOR (a7 AND b6);
            r6 = r6 XOR (a0 AND b6); r7 = r7 XOR (a1 AND b6); a2 = a2 XOR a1; a4 = a4 XOR a1;
            a5 = a5 XOR a1; r0 = r0 XOR (a1 AND b7); r1 = r1 XOR (a2 AND b7); r2 = r2 XOR (a3 AND b7);
            r3 = r3 XOR (a4 AND b7); r4 = r4 XOR (a5 AND b7); r5 = r5 XOR (a6 AND b7); r6 = r6 XOR (a7 AND b7);
            r7 = r7 XOR (a0 AND b7)
      in [r0, r1, r2, r3, r4, r5, r6, r7])"

definition gf256_square :: "u32 list \<Rightarrow> u32 list" where
  "gf256_square x =
     (let
            x0 = x ! 0; x1 = x ! 1; x2 = x ! 2; x3 = x ! 3; x4 = x ! 4; x5 = x ! 5; x6 = x ! 6; x7 = x ! 7;
            r14 = x7; r12 = x6; r10 = x5; r8 = x4; r6 = x3;
            r4 = x2; r2 = x1; r0 = x0; r7 = r14; r6 = r6 XOR r14;
            r10 = r10 XOR r14; r4 = r4 XOR r12; r5 = r12; r7 = r7 XOR r12; r8 = r8 XOR r12;
            r2 = r2 XOR r10; r3 = r10; r5 = r5 XOR r10; r6 = r6 XOR r10; r1 = r14;
            r2 = r2 XOR r14; r4 = r4 XOR r14; r5 = r5 XOR r14; r0 = r0 XOR r8; r1 = r1 XOR r8;
            r3 = r3 XOR r8; r4 = r4 XOR r8
      in [r0, r1, r2, r3, r4, r5, r6, r7])"

definition gf256_inv :: "u32 list \<Rightarrow> u32 list" where
  "gf256_inv x =
     (let y = gf256_square x;
          y = gf256_square y;
          r = gf256_square y;
          z = gf256_mul r x;
          r = gf256_square r;
          r = gf256_mul r z;
          r = gf256_square r;
          z = gf256_square r;
          z = gf256_square z;
          r = gf256_mul r z;
          r = gf256_mul r y
      in r)"

section \<open>Interpolation\<close>

definition shamir_num :: "u32 list \<Rightarrow> u32 list list \<Rightarrow> u32 list" where
  "shamir_num x xs = foldl (\<lambda>num xi. gf256_mul num (gf256_add x xi)) [NOT 0, 0, 0, 0, 0, 0, 0, 0] xs"

definition shamir_denom :: "u32 list \<Rightarrow> u32 list list \<Rightarrow> nat \<Rightarrow> u32 list" where
  "shamir_denom denom xs i =
     foldl (\<lambda>denom j. if i = j then denom else gf256_mul denom (gf256_add (xs ! i) (xs ! j))) denom [0..<length xs]"

fun shamir_loop ::
  "u8 \<Rightarrow> u8 list \<Rightarrow> u32 list \<Rightarrow> u32 list list \<Rightarrow> u32 list list \<Rightarrow> u32 list \<Rightarrow> nat list \<Rightarrow> u32 list \<Rightarrow> u32 list option" where
  "shamir_loop result_index share_indices x xs ys num [] secret = Some secret"
| "shamir_loop result_index share_indices x xs ys num (i # is) secret =
     (let (denom, secret) =
            (if share_indices ! i \<noteq> result_index then (gf256_add x (xs ! i), secret)
             else (bitslice_setall 1, gf256_add secret (ys ! i)));
          denom = shamir_denom denom xs i
      in if foldr (OR) denom 0 = 0 then None
         else let tmp = gf256_mul (gf256_mul (gf256_inv denom) num) (ys ! i)
              in shamir_loop result_index share_indices x xs ys num is (gf256_add secret tmp))"

definition shamir_interpolate :: "u8 \<Rightarrow> u8 list \<Rightarrow> u8 list list \<Rightarrow> nat \<Rightarrow> u8 list option" where
  "shamir_interpolate result_index share_indices share_values len =
     (if len > SHAMIR_MAX_LEN then None
      else let xs = map bitslice_setall share_indices;
               ys = map (\<lambda>v. bitslice v len) share_values;
               x = bitslice_setall result_index;
               num = shamir_num x xs
           in do {
             secret \<leftarrow> shamir_loop result_index share_indices x xs ys num [0..<length share_indices] (replicate 8 0);
             Some (unbitslice secret len) })"


section \<open>Lanes\<close>

text \<open>Byte \<open>j\<close> of a bitsliced value.\<close>

definition lane :: "u32 list \<Rightarrow> nat \<Rightarrow> u8" where
  "lane r j = (if bit (r ! 0) j then 1 else 0) XOR ((if bit (r ! 1) j then 2 else 0) XOR ((if bit (r ! 2) j then 4 else 0) XOR
    ((if bit (r ! 3) j then 8 else 0) XOR ((if bit (r ! 4) j then 16 else 0) XOR ((if bit (r ! 5) j then 32 else 0) XOR
    ((if bit (r ! 6) j then 64 else 0) XOR (if bit (r ! 7) j then 128 else 0)))))))"

lemma lane_bits:
  "bit (lane r j) 0 = bit (r ! 0) j" "bit (lane r j) 1 = bit (r ! 1) j" "bit (lane r j) 2 = bit (r ! 2) j"
  "bit (lane r j) 3 = bit (r ! 3) j" "bit (lane r j) 4 = bit (r ! 4) j" "bit (lane r j) 5 = bit (r ! 5) j"
  "bit (lane r j) 6 = bit (r ! 6) j" "bit (lane r j) 7 = bit (r ! 7) j"
  unfolding lane_def
  by (simp_all add: bit_xor_iff if_distrib [of "\<lambda>w. bit w _"] bit_1_iff del: bit_0 cong: if_cong)

text \<open>Multiplication by \<open>x\<close> on all lanes, and one row of the multiplication.\<close>

definition slice_xtime :: "u32 list \<Rightarrow> u32 list" where
  "slice_xtime a = [a ! 7, a ! 0 XOR a ! 7, a ! 1, a ! 2 XOR a ! 7, a ! 3 XOR a ! 7, a ! 4, a ! 5, a ! 6]"

definition slice_row :: "u32 list \<Rightarrow> u32 \<Rightarrow> u32 list" where
  "slice_row a b = map (\<lambda>w. w AND b) [a ! 0, a ! 1, a ! 2, a ! 3, a ! 4, a ! 5, a ! 6, a ! 7]"

lemma nth_8: "[x0, x1, x2, x3, x4, x5, x6, x7] ! 0 = x0" "[x0, x1, x2, x3, x4, x5, x6, x7] ! 1 = x1"
  "[x0, x1, x2, x3, x4, x5, x6, x7] ! 2 = x2" "[x0, x1, x2, x3, x4, x5, x6, x7] ! 3 = x3"
  "[x0, x1, x2, x3, x4, x5, x6, x7] ! 4 = x4" "[x0, x1, x2, x3, x4, x5, x6, x7] ! 5 = x5"
  "[x0, x1, x2, x3, x4, x5, x6, x7] ! 6 = x6" "[x0, x1, x2, x3, x4, x5, x6, x7] ! 7 = x7"
  by simp_all

lemma gf256_mul_rows:
  "gf256_mul a b = (let a1 = slice_xtime a; a2 = slice_xtime a1; a3 = slice_xtime a2; a4 = slice_xtime a3;
      a5 = slice_xtime a4; a6 = slice_xtime a5; a7 = slice_xtime a6 in
    gf256_add (gf256_add (gf256_add (gf256_add (gf256_add (gf256_add (gf256_add (slice_row a (b ! 0)) (slice_row a1 (b ! 1)))
      (slice_row a2 (b ! 2))) (slice_row a3 (b ! 3))) (slice_row a4 (b ! 4))) (slice_row a5 (b ! 5))) (slice_row a6 (b ! 6))) (slice_row a7 (b ! 7)))"
  unfolding gf256_mul_def slice_xtime_def slice_row_def gf256_add_def Let_def upt_8 list.map nth_8
  by (rule refl)

lemma lane_add: "lane (gf256_add a b) j = lane a j XOR lane b j"
  by (rule byte_eqI; elim insertE; simp only: lane_bits bit_xor_iff gf256_add_def upt_8 list.map nth_8 empty_iff)

lemma lane_xtime: "lane (slice_xtime a) j = xtime (lane a j)"
  by (rule byte_eqI; elim insertE; simp add: lane_bits lane_bits(2) [unfolded One_nat_def] xtime_def slice_xtime_def bit_xor_iff bit_push_bit_iff if_distrib [of "\<lambda>w. bit w _"] del: bit_0 push_bit_Suc cong: if_cong)

lemma lane_row: "lane (slice_row a b) j = (if bit b j then lane a j else 0)"
  by (rule byte_eqI; elim insertE; simp only: lane_bits bit_and_iff slice_row_def list.map nth_8 empty_iff; simp add: lane_bits lane_bits(2) [unfolded One_nat_def] if_distrib [of "\<lambda>w. bit w _"] del: bit_0 cong: if_cong)


lemma xtime_pow: "(xtime ^^ 0) a = a" "(xtime ^^ 1) a = xtime a" "(xtime ^^ 2) a = xtime (xtime a)" "(xtime ^^ 3) a = xtime (xtime (xtime a))"
  "(xtime ^^ 4) a = xtime (xtime (xtime (xtime a)))" "(xtime ^^ 5) a = xtime (xtime (xtime (xtime (xtime a))))"
  "(xtime ^^ 6) a = xtime (xtime (xtime (xtime (xtime (xtime a)))))" "(xtime ^^ 7) a = xtime (xtime (xtime (xtime (xtime (xtime (xtime a))))))"
  by (simp_all add: numeral_eq_Suc)

lemma lane_mul: "lane (gf256_mul a b) j = gmul (lane a j) (lane b j)"
  unfolding gf256_mul_rows Let_def lane_add lane_row lane_xtime gmul_psum upt_8 psum_simps lane_bits xtime_pow
  by (simp only: xor.assoc xor.right_neutral)

lemma xor_self_left: "x XOR (x XOR y) = (y :: u8)"
  by (simp flip: xor.assoc)

lemma square_xor: "gmul (a XOR b) (a XOR b) = gmul a a XOR gmul b b"
proof -
  have d: "gmul c (a XOR b) = gmul c a XOR gmul c b" for c using gmul_xor gmul_commute by metis
  show ?thesis unfolding gmul_xor d gmul_commute [of b a] by (simp only: xor.assoc xor_self_left)
qed

lemma square_sel: "gmul (if P then k else 0) (if P then k else 0) = (if P then gmul k k else 0)"
  by (simp add: gmul_psum)

lemma square_values: "gmul 1 1 = 1" "gmul 2 2 = 4" "gmul 4 4 = 16" "gmul 8 8 = 64" "gmul 16 16 = 27" "gmul 32 32 = 108"
  "gmul 64 64 = 171" "gmul 128 128 = 154"
  by code_simp+

lemma lane_square: "lane (gf256_square x) j = gmul (lane x j) (lane x j)"
proof -
  have r: "gmul (lane x j) (lane x j) = (if bit (x ! 0) j then 1 else 0) XOR ((if bit (x ! 1) j then 4 else 0) XOR ((if bit (x ! 2) j then 16 else 0) XOR
    ((if bit (x ! 3) j then 64 else 0) XOR ((if bit (x ! 4) j then 27 else 0) XOR ((if bit (x ! 5) j then 108 else 0) XOR
    ((if bit (x ! 6) j then 171 else 0) XOR (if bit (x ! 7) j then 154 else 0)))))))"
    unfolding lane_def square_xor square_sel square_values ..
  show ?thesis unfolding r gf256_square_def Let_def
    by (rule byte_eqI; elim insertE; simp only: lane_bits nth_8 bit_xor_iff if_distrib [of "\<lambda>w. bit w _"] empty_iff; simp add: bit_1_iff del: bit_0; blast)
qed

section \<open>Slicing\<close>

lemma foldl_update:
  assumes "length r = n"
  shows "foldl (\<lambda>r i. r[i := f i (r ! i)]) r [0..<n] = map (\<lambda>i. f i (r ! i)) [0..<n]"
proof -
  have "foldl (\<lambda>r i. r[i := f i (r ! i)]) r [0..<k] = map (\<lambda>i. f i (r ! i)) [0..<k] @ drop k r" if "k \<le> n" for k
    using that
  proof (induction k)
    case (Suc k)
    then have "drop k r = r ! k # drop (Suc k) r" using assms by (simp add: Cons_nth_drop_Suc)
    then show ?case using Suc by (simp add: list_update_append nth_append)
  qed simp
  from this [of n] show ?thesis using assms by simp
qed

lemma bit_put: "bit (w OR push_bit k (drop_bit i (c :: 'a::len word) AND 1)) j \<longleftrightarrow> bit w j \<or> j = k \<and> j < LENGTH('a) \<and> bit c i"
  by (simp only: bit_or_iff bit_push_bit_iff bit_and_iff bit_1_iff bit_drop_bit_eq comp_apply) auto

lemma bitslice_Suc:
  assumes "length (bitslice x len) = 8"
  shows "bitslice x (Suc len) = map (\<lambda>i. bitslice x len ! i OR push_bit len (drop_bit i (ucast (x ! len)) AND 1)) [0..<8]"
  unfolding bitslice_def upt_Suc_append [OF le0] foldl_append Let_def foldl_Cons foldl_Nil
  using foldl_update [OF assms, of "\<lambda>i w. w OR push_bit len (drop_bit i (ucast (x ! len)) AND 1)"]
  unfolding bitslice_def Let_def .

lemma bitslice_bits:
  assumes "len \<le> 32"
  shows "length (bitslice x len) = 8 \<and> (\<forall>i < 8. \<forall>j. bit (bitslice x len ! i) j \<longleftrightarrow> j < len \<and> bit (x ! j) i)"
  using assms
proof (induction len)
  case 0
  then show ?case by (simp add: bitslice_def)
next
  case (Suc len)
  have ih: "length (bitslice x len) = 8" "\<forall>i < 8. \<forall>j. bit (bitslice x len ! i) j \<longleftrightarrow> j < len \<and> bit (x ! j) i" using Suc by simp_all
  have "bit (bitslice x (Suc len) ! i) j \<longleftrightarrow> j < Suc len \<and> bit (x ! j) i" if "i < 8" for i j
  proof -
    have e: "bitslice x (Suc len) ! i = bitslice x len ! i OR push_bit len (drop_bit i (ucast (x ! len)) AND 1)"
      unfolding bitslice_Suc [OF ih(1)] using that by (subst nth_map) simp_all
    show ?thesis using that ih(2) Suc.prems unfolding e bit_put by (auto simp: bit_ucast_iff less_Suc_eq)
  qed
  then show ?case by (simp add: bitslice_Suc [OF ih(1)])
qed

lemma lane_bitslice: "len \<le> 32 \<Longrightarrow> j < len \<Longrightarrow> lane (bitslice x len) j = x ! j"
  using bitslice_bits [of len x] by (intro byte_eqI; elim insertE) (simp_all only: lane_bits, simp_all)

lemma lane_setall:
  assumes "j < 32"
  shows "lane (bitslice_setall x) j = x"
proof -
  have s: "bit (- ucast (drop_bit i x AND 1) :: u32) j \<longleftrightarrow> bit x i" for i
  proof -
    have "drop_bit i x AND 1 = of_bool (bit x i)"
      by (rule bit_word_eqI) (auto simp: bit_and_iff bit_drop_bit_eq bit_1_iff bit_of_bool_iff)
    then show ?thesis using assms by simp
  qed
  show ?thesis
    by (rule byte_eqI; elim insertE; simp only: lane_bits bitslice_setall_def upt_8 list.map nth_8 s empty_iff)
qed

definition unslice_pass :: "u32 list \<Rightarrow> nat \<Rightarrow> nat \<Rightarrow> u8 list" where
  "unslice_pass x len k =
     foldl (\<lambda>r bit_idx. let cur = x ! bit_idx in
              foldl (\<lambda>r arr_idx. r[arr_idx := r ! arr_idx OR ucast (push_bit bit_idx (drop_bit arr_idx cur AND 1))]) r [0..<len])
       (replicate len 0) [0..<k]"

lemma unslice_pass_Suc:
  assumes "length (unslice_pass x len k) = len"
  shows "unslice_pass x len (Suc k) = map (\<lambda>j. unslice_pass x len k ! j OR ucast (push_bit k (drop_bit j (x ! k) AND 1))) [0..<len]"
  unfolding unslice_pass_def upt_Suc_append [OF le0] foldl_append Let_def foldl_Cons foldl_Nil
  using foldl_update [OF assms, of "\<lambda>j w. w OR ucast (push_bit k (drop_bit j (x ! k) AND 1))"]
  unfolding unslice_pass_def Let_def .

lemma bit_put8:
  assumes "i < 8" "k < 8"
  shows "bit (w OR ucast (push_bit k (drop_bit j (c :: u32) AND 1)) :: u8) i \<longleftrightarrow> bit w i \<or> i = k \<and> bit c j"
  using assms by (simp only: bit_or_iff bit_ucast_iff bit_push_bit_iff bit_and_iff bit_1_iff bit_drop_bit_eq comp_apply) auto

lemma unslice_pass_bits:
  "k \<le> 8 \<Longrightarrow> length (unslice_pass x len k) = len \<and> (\<forall>j < len. \<forall>i < 8. bit (unslice_pass x len k ! j) i \<longleftrightarrow> i < k \<and> bit (x ! i) j)"
proof (induction k)
  case 0
  then show ?case by (simp add: unslice_pass_def)
next
  case (Suc k)
  have ih: "length (unslice_pass x len k) = len" "\<forall>j < len. \<forall>i < 8. bit (unslice_pass x len k ! j) i \<longleftrightarrow> i < k \<and> bit (x ! i) j"
    using Suc by simp_all
  have "bit (unslice_pass x len (Suc k) ! j) i \<longleftrightarrow> i < Suc k \<and> bit (x ! i) j" if "j < len" "i < 8" for i j
  proof -
    have "unslice_pass x len (Suc k) ! j = unslice_pass x len k ! j OR ucast (push_bit k (drop_bit j (x ! k) AND 1))"
      unfolding unslice_pass_Suc [OF ih(1)] using that by (subst nth_map) simp_all
    moreover have "k < 8" using Suc.prems by simp
    ultimately show ?thesis using that ih(2) bit_put8 [OF that(2), of k] by (auto simp: less_Suc_eq)
  qed
  then show ?case by (simp add: unslice_pass_Suc [OF ih(1)])
qed

lemma unbitslice_lane: "unbitslice x len = map (lane x) [0..<len]"
proof (rule nth_equalityI)
  have u: "unbitslice x len = unslice_pass x len 8" by (simp only: unbitslice_def unslice_pass_def)
  note b = unslice_pass_bits [of 8 x len]
  show "length (unbitslice x len) = length (map (lane x) [0..<len])" using b unfolding u by simp
  fix j assume "j < length (unbitslice x len)"
  then have j: "j < len" using b unfolding u by simp
  have "unslice_pass x len 8 ! j = lane x j"
    using b j by (intro byte_eqI; elim insertE) (simp_all only: lane_bits, simp_all)
  then show "unbitslice x len ! j = map (lane x) [0..<len] ! j" using j unfolding u by simp
qed


section \<open>The arithmetic is that of the field\<close>

definition gl :: "u32 list \<Rightarrow> nat \<Rightarrow> gf" where
  "gl r j = Gf (lane r j)"

lemma Gf_simps: "Gf (x XOR y) = Gf x + Gf y" "Gf (gmul x y) = Gf x * Gf y" "Gf 0 = 0" "Gf 1 = 1" "Gf x = Gf y \<longleftrightarrow> x = y"
  by (simp_all add: gf_eq_iff)

lemma gl_arith:
  "gl (gf256_add a b) j = gl a j + gl b j" "gl (gf256_mul a b) j = gl a j * gl b j" "gl (gf256_square a) j = gl a j ^ 2"
  by (simp_all add: gl_def lane_add lane_mul lane_square Gf_simps power2_eq_square)

lemma gl_inv: "gl (gf256_inv a) j = inverse (gl a j)"
  unfolding gf256_inv_def Let_def gl_arith inverse_gf_def by (simp flip: power_mult power_add power_Suc power_Suc2)

lemma gl_setall: "j < 32 \<Longrightarrow> gl (bitslice_setall x) j = Gf x"
  by (simp add: gl_def lane_setall)

lemma gl_bitslice: "len \<le> 32 \<Longrightarrow> j < len \<Longrightarrow> gl (bitslice x len) j = Gf (x ! j)"
  by (simp add: gl_def lane_bitslice)

lemma lane_const: "lane (replicate 8 0) j = 0" "j < 32 \<Longrightarrow> lane [NOT 0, 0, 0, 0, 0, 0, 0, 0] j = 1"
  by (simp_all add: lane_def bit_not_iff)

lemma prod_list_nth: "prod_list xs = (\<Prod>i<length xs. xs ! i :: gf)"
  by (induction xs) (simp_all add: prod.lessThan_Suc_shift del: prod.lessThan_Suc)

lemma gl_num:
  assumes "j < 32"
  shows "gl (shamir_num (bitslice_setall r) (map bitslice_setall is)) j = (\<Prod>i<length is. Gf r - Gf (is ! i))"
proof -
  have "gl (foldl (\<lambda>num xi. gf256_mul num (gf256_add (bitslice_setall r) xi)) num (map bitslice_setall is)) j
      = gl num j * prod_list (map (\<lambda>i. Gf r - Gf i) is)" for num
    by (induction "is" arbitrary: num) (simp_all add: gl_arith gl_setall [OF assms] gf_diff_eq mult.assoc)
  moreover have "gl [NOT 0, 0, 0, 0, 0, 0, 0, 0] j = 1" unfolding gl_def lane_const(2) [OF assms] by (rule Gf_simps)
  ultimately show ?thesis
    by (simp add: shamir_num_def prod_list_nth)
qed

lemma gl_denom:
  assumes "j < 32" "i < length is"
  shows "gl (shamir_denom d (map bitslice_setall is) i) j = gl d j * (\<Prod>k\<in>{..<length is} - {i}. Gf (is ! i) - Gf (is ! k))"
proof -
  have "gl (foldl (\<lambda>d k. if i = k then d else gf256_mul d (gf256_add (map bitslice_setall is ! i) (map bitslice_setall is ! k))) d ks) j
      = gl d j * prod_list (map (\<lambda>k. if i = k then 1 else Gf (is ! i) - Gf (is ! k)) ks)" if "\<forall>k \<in> set ks. k < length is" for ks
    using that assms by (induction ks arbitrary: d) (auto simp: gl_arith gl_setall gf_diff_eq mult.assoc)
  from this [of "[0..<length is]"] have "gl (shamir_denom d (map bitslice_setall is) i) j
      = gl d j * (\<Prod>k<length is. if i = k then 1 else Gf (is ! i) - Gf (is ! k))"
    by (simp add: shamir_denom_def prod_list_nth cong: prod.cong_simp if_cong)
  also have "(\<Prod>k<length is. if i = k then 1 else Gf (is ! i) - Gf (is ! k)) = (\<Prod>k\<in>{..<length is} - {i}. Gf (is ! i) - Gf (is ! k))"
    using assms(2) by (subst prod.remove [of _ i]) (auto intro: prod.cong)
  finally show ?thesis .
qed

lemma length_arith: "length (gf256_add a b) = 8" "length (gf256_mul a b) = 8" "length (bitslice_setall x) = 8"
  by (simp_all add: gf256_add_def gf256_mul_rows Let_def bitslice_setall_def)

lemma length_denom: "length d = 8 \<Longrightarrow> length (shamir_denom d xs i) = 8"
proof -
  have "length d = 8 \<Longrightarrow> length (foldl (\<lambda>d k. if i = k then d else gf256_mul d (gf256_add (xs ! i) (xs ! k))) d ks) = 8" for ks
    by (induction ks arbitrary: d) (auto simp: length_arith)
  then show "length d = 8 \<Longrightarrow> length (shamir_denom d xs i) = 8" by (simp add: shamir_denom_def)
qed

lemma foldr_or_zero: "foldr (OR) ws 0 = (0 :: u32) \<longleftrightarrow> (\<forall>w \<in> set ws. w = 0)"
  by (induction ws) (auto simp: or_eq_0_iff)

text \<open>With the same byte in every lane, the words are all zero exactly if the byte is.\<close>

lemma slice_zero_iff:
  assumes "length d = 8" "\<And>j. j < 32 \<Longrightarrow> gl d j = c"
  shows "foldr (OR) d 0 = 0 \<longleftrightarrow> c = 0"
proof
  assume "foldr (OR) d 0 = 0"
  then have "d = replicate 8 0" using assms(1) by (intro replicate_eqI) (auto simp: foldr_or_zero)
  then show "c = 0" using assms(2) [of 0] by (simp add: gl_def lane_const Gf_simps)
next
  assume "c = 0"
  then have l: "lane d j = 0" if "j < 32" for j using assms(2) [OF that] by (metis byte_of_Gf byte_of_simps(1) gl_def)
  have "d ! i = 0" if "i < 8" for i
  proof (rule bit_word_eqI)
    fix j assume "j < LENGTH(32)"
    then have "lane d j = 0" using l by simp
    then show "bit (d ! i) j \<longleftrightarrow> bit (0 :: u32) j"
      using byte_cases [OF that] lane_bits [of d j] by (elim disjE) simp_all
  qed
  then show "foldr (OR) d 0 = 0" using assms(1) by (auto simp: foldr_or_zero in_set_conv_nth)
qed


section \<open>Interpolation\<close>

text \<open>What one turn of the loop adds to the secret, in the field.\<close>

definition share_denom :: "u8 \<Rightarrow> u8 list \<Rightarrow> nat \<Rightarrow> gf" where
  "share_denom ri is i = (if is ! i \<noteq> ri then Gf ri - Gf (is ! i) else 1) * (\<Prod>k\<in>{..<length is} - {i}. Gf (is ! i) - Gf (is ! k))"

definition share_term :: "u8 \<Rightarrow> u8 list \<Rightarrow> (nat \<Rightarrow> gf) \<Rightarrow> nat \<Rightarrow> gf" where
  "share_term ri is y i = (if is ! i = ri then y i else 0)
     + inverse (share_denom ri is i) * (\<Prod>k<length is. Gf ri - Gf (is ! k)) * y i"

lemma shamir_turn:
  fixes ri :: u8
  assumes "i < length is"
  defines "d \<equiv> shamir_denom (if is ! i \<noteq> ri then gf256_add (bitslice_setall ri) (map bitslice_setall is ! i) else bitslice_setall 1) (map bitslice_setall is) i"
  shows "j < 32 \<Longrightarrow> gl d j = share_denom ri is i" "foldr (OR) d 0 = 0 \<longleftrightarrow> share_denom ri is i = 0"
proof -
  show g: "gl d j = share_denom ri is i" if "j < 32" for j
    using assms(1) that unfolding d_def share_denom_def gl_denom [OF that assms(1)] by (simp add: gl_arith gl_setall gf_diff_eq Gf_simps)
  have "length d = 8" unfolding d_def by (intro length_denom) (simp add: length_arith)
  from slice_zero_iff [OF this g] show "foldr (OR) d 0 = 0 \<longleftrightarrow> share_denom ri is i = 0" .
qed

lemma shamir_loop_eq:
  fixes ri :: u8 and "is" :: "u8 list" and ys :: "u32 list list"
  defines "lp \<equiv> shamir_loop ri is (bitslice_setall ri) (map bitslice_setall is) ys (shamir_num (bitslice_setall ri) (map bitslice_setall is))"
  assumes "\<forall>i \<in> set ks. i < length is"
  shows "(\<exists>i \<in> set ks. share_denom ri is i = 0) \<Longrightarrow> lp ks s = None"
    and "\<forall>i \<in> set ks. share_denom ri is i \<noteq> 0 \<Longrightarrow>
      \<exists>s'. lp ks s = Some s' \<and> (\<forall>j < 32. gl s' j = gl s j + (\<Sum>i\<leftarrow>ks. share_term ri is (\<lambda>i. gl (ys ! i) j) i))"
proof -
  define num where "num = shamir_num (bitslice_setall ri) (map bitslice_setall is)"
  define dn where "dn i = shamir_denom (if is ! i \<noteq> ri then gf256_add (bitslice_setall ri) (map bitslice_setall is ! i) else bitslice_setall 1) (map bitslice_setall is) i" for i
  define sc where "sc s i = (if is ! i \<noteq> ri then s else gf256_add s (ys ! i))" for s i
  define ad where "ad s i = gf256_add (sc s i) (gf256_mul (gf256_mul (gf256_inv (dn i)) num) (ys ! i))" for s i
  have step: "lp (i # ks) s = (if foldr (OR) (dn i) 0 = 0 then None else lp ks (ad s i))" for i ks s
    unfolding lp_def num_def [symmetric] by (simp add: ad_def sc_def dn_def Let_def)
  have g: "gl (ad s i) j = gl s j + share_term ri is (\<lambda>i. gl (ys ! i) j) i" if "i < length is" "j < 32" for s i j
    using shamir_turn(1) [OF that] that
    unfolding ad_def gl_arith gl_inv dn_def num_def gl_num [OF that(2)] share_term_def by (simp add: sc_def gl_arith add.assoc)
  have z: "foldr (OR) (dn i) 0 = 0 \<longleftrightarrow> share_denom ri is i = 0" if "i < length is" for i
    using shamir_turn(2) [OF that] by (simp add: dn_def)
  have nil: "lp [] s = Some s" for s by (simp add: lp_def)
  show "(\<exists>i \<in> set ks. share_denom ri is i = 0) \<Longrightarrow> lp ks s = None"
    using assms(2) by (induction ks arbitrary: s) (auto simp: step z)
  show "\<forall>i \<in> set ks. share_denom ri is i \<noteq> 0 \<Longrightarrow>
      \<exists>s'. lp ks s = Some s' \<and> (\<forall>j < 32. gl s' j = gl s j + (\<Sum>i\<leftarrow>ks. share_term ri is (\<lambda>i. gl (ys ! i) j) i))"
    using assms(2)
  proof (induction ks arbitrary: s)
    case (Cons i ks)
    then obtain s' where "lp ks (ad s i) = Some s'"
      "\<forall>j < 32. gl s' j = gl (ad s i) j + (\<Sum>i\<leftarrow>ks. share_term ri is (\<lambda>i. gl (ys ! i) j) i)" by fastforce
    then show ?case using Cons.prems by (intro exI [of _ s']) (simp add: step z g add.assoc)
  qed (simp add: nil)
qed

text \<open>A denominator vanishes exactly if the index occurs twice.\<close>

lemma share_denom_zero:
  assumes "i < length is"
  shows "share_denom ri is i = 0 \<longleftrightarrow> (\<exists>k < length is. k \<noteq> i \<and> is ! k = is ! i)"
proof -
  have "(if is ! i \<noteq> ri then Gf ri - Gf (is ! i) else 1) \<noteq> 0" by (auto simp: gf_diff_eq gf_eq_iff)
  then have "share_denom ri is i = 0 \<longleftrightarrow> (\<exists>k \<in> {..<length is} - {i}. Gf (is ! i) - Gf (is ! k) = 0)"
    by (simp add: share_denom_def prod_zero_iff)
  moreover have "Gf (is ! i) - Gf (is ! k) = 0 \<longleftrightarrow> is ! k = is ! i" for k by (auto simp: Gf_simps)
  ultimately show ?thesis by auto
qed

lemma share_sum:
  assumes "distinct is" "polyf (length is) f" "\<And>i. i < length is \<Longrightarrow> y i = f (Gf (is ! i))"
  shows "(\<Sum>i<length is. share_term ri is y i) = f (Gf ri)"
proof (cases "ri \<in> set is")
  case True
  then obtain m where m: "m < length is" "is ! m = ri" by (auto simp: in_set_conv_nth)
  then have "(\<Prod>k<length is. Gf ri - Gf (is ! k)) = 0" by (intro prod_zero) auto
  then have "(\<Sum>i<length is. share_term ri is y i) = (\<Sum>i<length is. if i = m then y m else 0)"
    using m assms(1) by (intro sum.cong) (auto simp: share_term_def nth_eq_iff_index_eq)
  then show ?thesis using m assms(3) by simp
next
  case False
  have inj: "inj_on (\<lambda>i. Gf (is ! i)) {..<length is}" using assms(1) by (auto simp: inj_on_def Gf_simps nth_eq_iff_index_eq)
  have "share_term ri is y i = f (Gf (is ! i)) * (\<Prod>k\<in>{..<length is} - {i}. (Gf ri - Gf (is ! k)) / (Gf (is ! i) - Gf (is ! k)))"
    if i: "i < length is" for i
  proof -
    have ne: "is ! i \<noteq> ri" using False i by auto
    then have "Gf ri - Gf (is ! i) \<noteq> 0" by (auto simp: gf_eq_iff)
    moreover have "(\<Prod>k<length is. Gf ri - Gf (is ! k)) = (Gf ri - Gf (is ! i)) * (\<Prod>k\<in>{..<length is} - {i}. Gf ri - Gf (is ! k))"
      using i by (subst prod.remove [of _ i]) auto
    moreover have "inverse (c * q) * (c * p) * v = v * (p / q)" if "c \<noteq> 0" for c p q v :: gf
      using that by (cases "q = 0") (simp_all add: field_simps)
    ultimately show ?thesis
      using ne assms(3) [OF i] by (simp only: share_term_def share_denom_def prod_dividef simp_thms if_True if_False add_0)
  qed
  then show ?thesis using lagrange [OF assms(2) inj, of "Gf ri"] by simp
qed


lemma shamir_interpolate_eq:
  assumes "len \<le> 32" "length vs = length is"
  shows "\<not> distinct is \<Longrightarrow> shamir_interpolate ri is vs len = None"
    and "distinct is \<Longrightarrow> shamir_interpolate ri is vs len
      = Some (map (\<lambda>j. byte_of (\<Sum>i<length is. share_term ri is (\<lambda>i. Gf (vs ! i ! j)) i)) [0..<len])"
proof -
  let ?lp = "shamir_loop ri is (bitslice_setall ri) (map bitslice_setall is) (map (\<lambda>v. bitslice v len) vs)
    (shamir_num (bitslice_setall ri) (map bitslice_setall is)) [0..<length is] (replicate 8 0)"
  have e: "shamir_interpolate ri is vs len = do { secret \<leftarrow> ?lp; Some (unbitslice secret len) }"
    using assms(1) by (simp add: shamir_interpolate_def Let_def)
  have lt: "\<forall>i \<in> set [0..<length is]. i < length is" by simp
  note l = shamir_loop_eq [OF lt, of ri "map (\<lambda>v. bitslice v len) vs" "replicate 8 0"]
  show "\<not> distinct is \<Longrightarrow> shamir_interpolate ri is vs len = None"
  proof -
    assume "\<not> distinct is"
    then obtain i k where "i < length is" "k < length is" "i \<noteq> k" "is ! i = is ! k" by (auto simp: distinct_conv_nth)
    then have "\<exists>i \<in> set [0..<length is]. share_denom ri is i = 0"
      using share_denom_zero [of i "is" ri] by (intro bexI [of _ i]) auto
    then show ?thesis using l(1) e by simp
  qed
  assume d: "distinct is"
  have "\<forall>i \<in> set [0..<length is]. share_denom ri is i \<noteq> 0"
    using share_denom_zero d by (auto simp: nth_eq_iff_index_eq)
  then obtain s where s: "?lp = Some s" "\<forall>j < 32. gl s j = gl (replicate 8 0) j
      + (\<Sum>i\<leftarrow>[0..<length is]. share_term ri is (\<lambda>i. gl (map (\<lambda>v. bitslice v len) vs ! i) j) i)"
    using l(2) by blast
  have "lane s j = byte_of (\<Sum>i<length is. share_term ri is (\<lambda>i. Gf (vs ! i ! j)) i)" if "j < len" for j
  proof -
    have "gl s j = (\<Sum>i\<leftarrow>[0..<length is]. share_term ri is (\<lambda>i. gl (map (\<lambda>v. bitslice v len) vs ! i) j) i)"
      using s(2) that assms(1) by (simp add: gl_def lane_const Gf_simps)
    also have "\<dots> = (\<Sum>i<length is. share_term ri is (\<lambda>i. gl (map (\<lambda>v. bitslice v len) vs ! i) j) i)"
      by (simp add: interv_sum_list_conv_sum_set_nat atLeast0LessThan)
    also have "\<dots> = (\<Sum>i<length is. share_term ri is (\<lambda>i. Gf (vs ! i ! j)) i)"
      using assms that by (intro sum.cong) (simp_all add: share_term_def gl_bitslice)
    finally show ?thesis by (simp add: gl_def gf_eq_iff)
  qed
  then show "shamir_interpolate ri is vs len
      = Some (map (\<lambda>j. byte_of (\<Sum>i<length is. share_term ri is (\<lambda>i. Gf (vs ! i ! j)) i)) [0..<len])"
    using s(1) e by (simp add: unbitslice_lane)
qed

lemma shamir_interpolate_poly:
  assumes "len \<le> 32" "distinct is" "length vs = length is" "\<And>j. j < len \<Longrightarrow> polyf (length is) (f j)"
    and "\<And>i j. i < length is \<Longrightarrow> j < len \<Longrightarrow> vs ! i ! j = byte_of (f j (Gf (is ! i)))"
  shows "shamir_interpolate ri is vs len = Some (map (\<lambda>j. byte_of (f j (Gf ri))) [0..<len])"
proof -
  have "(\<Sum>i<length is. share_term ri is (\<lambda>i. Gf (vs ! i ! j)) i) = f j (Gf ri)" if "j < len" for j
    using share_sum [of "is" "f j" "\<lambda>i. Gf (vs ! i ! j)"] assms(2,4,5) that by (simp add: byte_of_inverse)
  then show ?thesis using shamir_interpolate_eq(2) [of len vs "is"] assms(1-3) by simp
qed

text \<open>
  C19. \<open>shamir_interpolate\<close> evaluates the sharing polynomial. If the shares are values of polynomial
  functions over the field of 256 elements, one for each byte position and with no more
  coefficients than there are shares, and the share indices are distinct, then the result is
  their value at the requested index, whether or not that is the index of a share. With an
  index given twice, or more than 32 bytes, the call fails.
\<close>

theorem shamir_interpolate_spec:
  assumes "length share_values = length share_indices"
    and "\<forall>j < len. polyf (length share_indices) (f j)"
    and "\<forall>i < length share_indices. \<forall>j < len. share_values ! i ! j = byte_of (f j (Gf (share_indices ! i)))"
  shows "shamir_interpolate result_index share_indices share_values len =
    (if len \<le> 32 \<and> distinct share_indices then Some (map (\<lambda>j. byte_of (f j (Gf result_index))) [0..<len]) else None)"
proof (cases "len \<le> 32 \<and> distinct share_indices")
  case True
  then show ?thesis using shamir_interpolate_poly [of len share_indices share_values f] assms by simp
next
  case False
  then show ?thesis
    using shamir_interpolate_eq(1) [of len share_values share_indices] assms(1) by (auto simp: shamir_interpolate_def)
qed

lemma gmul_9: "gmul 9 1 = 9" "gmul 9 2 = 18" "gmul 9 3 = 27" "gmul 9 4 = 36"
  by code_simp+

lemma polyf_line: "polyf (Suc (Suc 0)) (\<lambda>x. Gf 7 + Gf 9 * x)"
  unfolding polyf_def by (intro exI [of _ "\<lambda>k. if k = 0 then Gf 7 else Gf 9"]) (simp add: lessThan_Suc add.commute)

theorem shamir_interpolate_spec_witness: "shamir_interpolate 0 [1, 2] [[14], [21]] 1 = Some [7]"
  using shamir_interpolate_spec [of "[[14], [21]]" "[1, 2]" 1 "\<lambda>_ x. Gf 7 + Gf 9 * x" 0] polyf_line
  by (simp add: less_Suc_eq Gf_simps(3) gmul_9)

text \<open>
  C20. Any set of enough shares gives the same secret: take distinct indices with their values, derive
  from them the shares at any other distinct indices, as many as before, and interpolate those.
  At every index the result is what the original shares give.
\<close>

theorem shamir_any_shares:
  assumes "distinct share_indices" "length share_values = length share_indices" "len \<le> 32"
    and "distinct other_indices" "length other_indices = length share_indices"
    and "length other_values = length other_indices"
    and "\<forall>i < length other_indices. shamir_interpolate (other_indices ! i) share_indices share_values len = Some (other_values ! i)"
  shows "shamir_interpolate result_index other_indices other_values len = shamir_interpolate result_index share_indices share_values len"
proof -
  let ?n = "length share_indices" and ?a = "\<lambda>i. Gf (share_indices ! i)"
  define f where "f j x = (\<Sum>i<?n. Gf (share_values ! i ! j) * (\<Prod>k\<in>{..<?n} - {i}. (x - ?a k) / (?a i - ?a k)))" for j x
  have inj: "inj_on ?a {..<?n}" using assms(1) by (auto simp: inj_on_def Gf_simps nth_eq_iff_index_eq)
  have f: "polyf ?n (f j)" "\<And>i. i < ?n \<Longrightarrow> f j (?a i) = Gf (share_values ! i ! j)" for j
    unfolding f_def using lagrange_poly [OF inj, where y = "\<lambda>i. Gf (share_values ! i ! j)"] by blast+
  have s: "shamir_interpolate r share_indices share_values len = Some (map (\<lambda>j. byte_of (f j (Gf r))) [0..<len])" for r
    using shamir_interpolate_poly [OF assms(3,1,2), of f] f by simp
  have "other_values ! i ! j = byte_of (f j (Gf (other_indices ! i)))" if "i < length other_indices" "j < len" for i j
    using assms(7) s that by (metis (no_types, lifting) add_0 diff_zero length_upt nth_map nth_upt option.inject)
  then show ?thesis
    using shamir_interpolate_poly [OF assms(3,4,6), of f] f(1) assms(5) s by simp
qed


lemma shamir_shares: "shamir_interpolate 3 [1, 2] [[14], [21]] 1 = Some [28]" "shamir_interpolate 4 [1, 2] [[14], [21]] 1 = Some [35]"
proof -
  have v: "[[14], [21]] ! i ! j = byte_of (Gf 7 + Gf 9 * Gf ([1, 2] ! i))" if "i < length [1, 2 :: u8]" "j < 1" for i j
    using that by (auto simp: less_Suc_eq gmul_9)
  note s = shamir_interpolate_poly [of 1 "[1, 2]" "[[14], [21]]" "\<lambda>_ x. Gf 7 + Gf 9 * x", OF _ _ _ _ v]
  show "shamir_interpolate 3 [1, 2] [[14], [21]] 1 = Some [28]" "shamir_interpolate 4 [1, 2] [[14], [21]] 1 = Some [35]"
    using s [of 3] s [of 4] polyf_line by (simp_all add: gmul_9)
qed

theorem shamir_any_shares_witness:
  "shamir_interpolate 0 [3, 4] [[28], [35]] 1 = shamir_interpolate 0 [1, 2] [[14], [21]] 1"
  using shamir_any_shares [of "[1, 2]" "[[14], [21]]" 1 "[3, 4]" "[[28], [35]]" 0] shamir_shares by (simp add: less_Suc_eq)

end
