(* ===== verification/Bytewords.thy ===== *)
theory Bytewords
  imports Prelude
begin

text \<open>
  \<open>core/embed/bytewords/bc_bytewords.c\<close>: bytes as four-letter words, whole or as their first and last
  letter, with a CRC. A C string is the list of its bytes before the terminating zero; memory
  allocation is taken to succeed. The buffer of the decoder has the size the code computes for
  it, and a store past its end is the result \<open>Overflow\<close>. The two tables the code fills on first
  use are constants, as they are filled before each use.
\<close>

section \<open>Words\<close>

definition bytewords :: "u8 list" where
  "bytewords = map of_char (
    ''ableacidalsoapexaquaarchatomauntawayaxisbackbaldbarnbeltbetabiasbluebodybragbrewbulbbuzzcalmcash'' @
    ''catschefcityclawcodecolacookcostcruxcurlcuspcyandarkdatadaysdelidicedietdoordowndrawdropdrumdull'' @
    ''dutyeacheasyechoedgeepicevenexamexiteyesfactfairfernfigsfilmfishfizzflapflewfluxfoxyfreefrogfuel'' @
    ''fundgalagamegeargemsgiftgirlglowgoodgraygrimgurugushgyrohalfhanghardhawkheathelphighhillholyhope'' @
    ''hornhutsicedideaidleinchinkyintoirisironitemjadejazzjoinjoltjowljudojugsjumpjunkjurykeepkenokept'' @
    ''keyskickkilnkingkitekiwiknoblamblavalazyleaflegsliarlimplionlistlogoloudloveluaulucklungmainmany'' @
    ''mathmazememomenumeowmildmintmissmonknailnavyneednewsnextnoonnotenumbobeyoboeomitonyxopenovalowls'' @
    ''paidpartpeckplaypluspoempoolposepuffpumapurrquadquizraceramprealredorichroadrockroofrubyruinruns'' @
    ''rustsafesagascarsetssilkskewslotsoapsolosongstubsurfswantacotasktaxitenttiedtimetinytoiltombtoys'' @
    ''triptunatwinuglyundouniturgeuservastveryvetovialvibeviewvisavoidvowswallwandwarmwaspwavewaxywebs'' @
    ''whatwhenwhizwolfworkyankyawnyellyogayurtzapszerozestzinczonezoom'')"

definition crc_table :: "u32 list" where
  "crc_table = map (\<lambda>i. ((\<lambda>c. if c mod 2 = 0 then drop_bit 1 c else 0xEDB88320 XOR drop_bit 1 c) ^^ 8) (word_of_nat i)) [0..<256]"

definition crc32 :: "u8 list \<Rightarrow> u32" where
  "crc32 bytes = NOT (foldl (\<lambda>crc byte. drop_bit 8 crc XOR crc_table ! unat ((crc XOR ucast byte) AND 0xFF)) (NOT 0) bytes)"

definition htonl_custom :: "u32 \<Rightarrow> u32" where
  "htonl_custom num = drop_bit 24 (num AND 0xFF000000) OR drop_bit 8 (num AND 0x00FF0000)
     OR push_bit 8 (num AND 0x0000FF00) OR push_bit 24 (num AND 0x000000FF)"

definition crc32n :: "u8 list \<Rightarrow> u32" where
  "crc32n bytes = htonl_custom (crc32 bytes)"

definition byteword_offset :: "nat \<Rightarrow> nat" where
  "byteword_offset i = (let x = unat (bytewords ! (i * 4)) - 97; y = unat (bytewords ! (i * 4 + 3)) - 97 in y * 26 + x)"

definition decode_array :: "int list" where
  "decode_array = foldl (\<lambda>array i. array[byteword_offset i := int i]) (replicate (26 * 26) (- 1)) [0..<256]"

definition tolower :: "u8 \<Rightarrow> u8" where
  "tolower c = (if 65 \<le> c \<and> c \<le> 90 then c + 32 else c)"

definition decode_word :: "u8 list \<Rightarrow> nat \<Rightarrow> u8 option" where
  "decode_word in_word word_len =
     (let x = uint (tolower (in_word ! 0)) - 97;
          y = uint (tolower (in_word ! (if word_len = 4 then 3 else 1))) - 97 in
      if \<not> (0 \<le> x \<and> x < 26 \<and> 0 \<le> y \<and> y < 26) then None
      else let value = decode_array ! nat (y * 26 + x) in
        if value = - 1 then None
        else if word_len = 4 \<and> (tolower (in_word ! 1) \<noteq> bytewords ! (nat value * 4 + 1)
            \<or> tolower (in_word ! 2) \<noteq> bytewords ! (nat value * 4 + 2)) then None
        else Some (word_of_int value))"

definition bytewords_get_word :: "u8 \<Rightarrow> u8 list" where
  "bytewords_get_word index = take 4 (drop (unat index * 4) bytewords)"

definition get_minimal_word :: "u8 \<Rightarrow> u8 list" where
  "get_minimal_word index = (let p = unat index * 4 in [bytewords ! p, bytewords ! (p + 3)])"

section \<open>Encoding\<close>

text \<open>The last word is followed by the zero that \<open>bytewords_get_word\<close> stores.\<close>

fun encode :: "u8 list \<Rightarrow> u8 \<Rightarrow> u8 list" where
  "encode [] separator = []"
| "encode [index] separator = bytewords_get_word index"
| "encode (index # ins) separator = bytewords_get_word index @ separator # encode ins separator"

text \<open>The checksum is copied from memory, least significant byte first.\<close>

definition crc_bytes :: "u32 \<Rightarrow> u8 list" where
  "crc_bytes crc = [ucast crc, ucast (drop_bit 8 crc), ucast (drop_bit 16 crc), ucast (drop_bit 24 crc)]"

definition add_crc :: "u8 list \<Rightarrow> u8 list" where
  "add_crc in_buf = in_buf @ crc_bytes (crc32n in_buf)"

definition encode_with_separator :: "u8 list \<Rightarrow> u8 \<Rightarrow> u8 list" where
  "encode_with_separator in_buf separator = encode (add_crc in_buf) separator"

definition encode_minimal :: "u8 list \<Rightarrow> u8 list" where
  "encode_minimal in_buf = concat (map get_minimal_word (add_crc in_buf))"

datatype bw_style = bw_standard | bw_uri | bw_minimal

fun bytewords_encode :: "bw_style \<Rightarrow> u8 list \<Rightarrow> u8 list" where
  "bytewords_encode bw_standard in_buf = encode_with_separator in_buf 32"
| "bytewords_encode bw_uri in_buf = encode_with_separator in_buf 45"
| "bytewords_encode bw_minimal in_buf = encode_minimal in_buf"

section \<open>Decoding\<close>

datatype bw_result = Decoded "u8 list" | Rejected | Overflow

function decode_loop :: "nat \<Rightarrow> u8 \<Rightarrow> nat \<Rightarrow> u8 list \<Rightarrow> u8 list \<Rightarrow> bw_result" where
  "decode_loop out_max_size separator word_len in_p buf =
     (if word_len = 0 \<or> in_p = [] \<or> length in_p < word_len then Decoded buf
      else case decode_word in_p word_len of
        None \<Rightarrow> Rejected
      | Some index \<Rightarrow>
          if length buf \<ge> out_max_size then Overflow
          else let in_p = drop word_len in_p;
                   in_p = (if separator \<noteq> 0 \<and> in_p \<noteq> [] \<and> hd in_p = separator then tl in_p else in_p)
               in decode_loop out_max_size separator word_len in_p (buf @ [index]))"
  by auto
termination by (relation "measure (\<lambda>(_, _, _, in_p, _). length in_p)") (auto simp: Let_def)

definition decode :: "u8 list \<Rightarrow> u8 \<Rightarrow> nat \<Rightarrow> bw_result" where
  "decode in_string separator word_len =
     (let separator_len = (if separator = 0 then 0 else 1);
          out_max_size = length in_string div (word_len + separator_len) + 1 in
      if out_max_size < 5 then Rejected
      else case decode_loop out_max_size separator word_len in_string [] of
        Decoded buf \<Rightarrow>
          if length buf < 5 then Rejected
          else let body_len = length buf - 4 in
            if crc_bytes (crc32n (take body_len buf)) \<noteq> drop body_len buf then Rejected
            else Decoded (take body_len buf)
      | r \<Rightarrow> r)"

fun bytewords_decode :: "bw_style \<Rightarrow> u8 list \<Rightarrow> bw_result" where
  "bytewords_decode bw_standard in_string = decode in_string 32 4"
| "bytewords_decode bw_uri in_string = decode in_string 45 4"
| "bytewords_decode bw_minimal in_string = decode in_string 0 2"

section \<open>The table of words\<close>

definition word_table :: "u8 list list" where
  "word_table = [
    [97, 98, 108, 101], [97, 99, 105, 100], [97, 108, 115, 111], [97, 112, 101, 120], [97, 113, 117, 97], [97, 114, 99, 104], [97, 116, 111, 109], [97, 117, 110, 116],
    [97, 119, 97, 121], [97, 120, 105, 115], [98, 97, 99, 107], [98, 97, 108, 100], [98, 97, 114, 110], [98, 101, 108, 116], [98, 101, 116, 97], [98, 105, 97, 115],
    [98, 108, 117, 101], [98, 111, 100, 121], [98, 114, 97, 103], [98, 114, 101, 119], [98, 117, 108, 98], [98, 117, 122, 122], [99, 97, 108, 109], [99, 97, 115, 104],
    [99, 97, 116, 115], [99, 104, 101, 102], [99, 105, 116, 121], [99, 108, 97, 119], [99, 111, 100, 101], [99, 111, 108, 97], [99, 111, 111, 107], [99, 111, 115, 116],
    [99, 114, 117, 120], [99, 117, 114, 108], [99, 117, 115, 112], [99, 121, 97, 110], [100, 97, 114, 107], [100, 97, 116, 97], [100, 97, 121, 115], [100, 101, 108, 105],
    [100, 105, 99, 101], [100, 105, 101, 116], [100, 111, 111, 114], [100, 111, 119, 110], [100, 114, 97, 119], [100, 114, 111, 112], [100, 114, 117, 109], [100, 117, 108, 108],
    [100, 117, 116, 121], [101, 97, 99, 104], [101, 97, 115, 121], [101, 99, 104, 111], [101, 100, 103, 101], [101, 112, 105, 99], [101, 118, 101, 110], [101, 120, 97, 109],
    [101, 120, 105, 116], [101, 121, 101, 115], [102, 97, 99, 116], [102, 97, 105, 114], [102, 101, 114, 110], [102, 105, 103, 115], [102, 105, 108, 109], [102, 105, 115, 104],
    [102, 105, 122, 122], [102, 108, 97, 112], [102, 108, 101, 119], [102, 108, 117, 120], [102, 111, 120, 121], [102, 114, 101, 101], [102, 114, 111, 103], [102, 117, 101, 108],
    [102, 117, 110, 100], [103, 97, 108, 97], [103, 97, 109, 101], [103, 101, 97, 114], [103, 101, 109, 115], [103, 105, 102, 116], [103, 105, 114, 108], [103, 108, 111, 119],
    [103, 111, 111, 100], [103, 114, 97, 121], [103, 114, 105, 109], [103, 117, 114, 117], [103, 117, 115, 104], [103, 121, 114, 111], [104, 97, 108, 102], [104, 97, 110, 103],
    [104, 97, 114, 100], [104, 97, 119, 107], [104, 101, 97, 116], [104, 101, 108, 112], [104, 105, 103, 104], [104, 105, 108, 108], [104, 111, 108, 121], [104, 111, 112, 101],
    [104, 111, 114, 110], [104, 117, 116, 115], [105, 99, 101, 100], [105, 100, 101, 97], [105, 100, 108, 101], [105, 110, 99, 104], [105, 110, 107, 121], [105, 110, 116, 111],
    [105, 114, 105, 115], [105, 114, 111, 110], [105, 116, 101, 109], [106, 97, 100, 101], [106, 97, 122, 122], [106, 111, 105, 110], [106, 111, 108, 116], [106, 111, 119, 108],
    [106, 117, 100, 111], [106, 117, 103, 115], [106, 117, 109, 112], [106, 117, 110, 107], [106, 117, 114, 121], [107, 101, 101, 112], [107, 101, 110, 111], [107, 101, 112, 116],
    [107, 101, 121, 115], [107, 105, 99, 107], [107, 105, 108, 110], [107, 105, 110, 103], [107, 105, 116, 101], [107, 105, 119, 105], [107, 110, 111, 98], [108, 97, 109, 98],
    [108, 97, 118, 97], [108, 97, 122, 121], [108, 101, 97, 102], [108, 101, 103, 115], [108, 105, 97, 114], [108, 105, 109, 112], [108, 105, 111, 110], [108, 105, 115, 116],
    [108, 111, 103, 111], [108, 111, 117, 100], [108, 111, 118, 101], [108, 117, 97, 117], [108, 117, 99, 107], [108, 117, 110, 103], [109, 97, 105, 110], [109, 97, 110, 121],
    [109, 97, 116, 104], [109, 97, 122, 101], [109, 101, 109, 111], [109, 101, 110, 117], [109, 101, 111, 119], [109, 105, 108, 100], [109, 105, 110, 116], [109, 105, 115, 115],
    [109, 111, 110, 107], [110, 97, 105, 108], [110, 97, 118, 121], [110, 101, 101, 100], [110, 101, 119, 115], [110, 101, 120, 116], [110, 111, 111, 110], [110, 111, 116, 101],
    [110, 117, 109, 98], [111, 98, 101, 121], [111, 98, 111, 101], [111, 109, 105, 116], [111, 110, 121, 120], [111, 112, 101, 110], [111, 118, 97, 108], [111, 119, 108, 115],
    [112, 97, 105, 100], [112, 97, 114, 116], [112, 101, 99, 107], [112, 108, 97, 121], [112, 108, 117, 115], [112, 111, 101, 109], [112, 111, 111, 108], [112, 111, 115, 101],
    [112, 117, 102, 102], [112, 117, 109, 97], [112, 117, 114, 114], [113, 117, 97, 100], [113, 117, 105, 122], [114, 97, 99, 101], [114, 97, 109, 112], [114, 101, 97, 108],
    [114, 101, 100, 111], [114, 105, 99, 104], [114, 111, 97, 100], [114, 111, 99, 107], [114, 111, 111, 102], [114, 117, 98, 121], [114, 117, 105, 110], [114, 117, 110, 115],
    [114, 117, 115, 116], [115, 97, 102, 101], [115, 97, 103, 97], [115, 99, 97, 114], [115, 101, 116, 115], [115, 105, 108, 107], [115, 107, 101, 119], [115, 108, 111, 116],
    [115, 111, 97, 112], [115, 111, 108, 111], [115, 111, 110, 103], [115, 116, 117, 98], [115, 117, 114, 102], [115, 119, 97, 110], [116, 97, 99, 111], [116, 97, 115, 107],
    [116, 97, 120, 105], [116, 101, 110, 116], [116, 105, 101, 100], [116, 105, 109, 101], [116, 105, 110, 121], [116, 111, 105, 108], [116, 111, 109, 98], [116, 111, 121, 115],
    [116, 114, 105, 112], [116, 117, 110, 97], [116, 119, 105, 110], [117, 103, 108, 121], [117, 110, 100, 111], [117, 110, 105, 116], [117, 114, 103, 101], [117, 115, 101, 114],
    [118, 97, 115, 116], [118, 101, 114, 121], [118, 101, 116, 111], [118, 105, 97, 108], [118, 105, 98, 101], [118, 105, 101, 119], [118, 105, 115, 97], [118, 111, 105, 100],
    [118, 111, 119, 115], [119, 97, 108, 108], [119, 97, 110, 100], [119, 97, 114, 109], [119, 97, 115, 112], [119, 97, 118, 101], [119, 97, 120, 121], [119, 101, 98, 115],
    [119, 104, 97, 116], [119, 104, 101, 110], [119, 104, 105, 122], [119, 111, 108, 102], [119, 111, 114, 107], [121, 97, 110, 107], [121, 97, 119, 110], [121, 101, 108, 108],
    [121, 111, 103, 97], [121, 117, 114, 116], [122, 97, 112, 115], [122, 101, 114, 111], [122, 101, 115, 116], [122, 105, 110, 99], [122, 111, 110, 101], [122, 111, 111, 109]]"

text \<open>The first and last letters, grouped by the first.\<close>

definition letter_groups :: "(nat \<times> nat list) list" where
  "letter_groups = [
    (0, [4, 3, 14, 23, 0, 7, 12, 19, 24, 18]),
    (1, [10, 3, 13, 19, 0, 18, 4, 24, 6, 22, 1, 25]),
    (2, [12, 7, 18, 5, 24, 22, 4, 0, 10, 19, 23, 11, 15, 13]),
    (3, [10, 0, 18, 8, 4, 19, 17, 13, 22, 15, 12, 11, 24]),
    (4, [7, 24, 14, 4, 2, 13, 12, 19, 18]),
    (5, [19, 17, 13, 18, 12, 7, 25, 15, 22, 23, 24, 4, 6, 11, 3]),
    (6, [0, 4, 17, 18, 19, 11, 22, 3, 24, 12, 20, 7, 14]),
    (7, [5, 6, 3, 10, 19, 15, 7, 11, 24, 4, 13, 18]),
    (8, [3, 0, 4, 7, 24, 14, 18, 13, 12]),
    (9, [4, 25, 13, 19, 11, 14, 18, 15, 10, 24]),
    (10, [15, 14, 19, 18, 10, 13, 6, 4, 8, 1]),
    (11, [1, 0, 24, 5, 18, 17, 15, 13, 19, 14, 3, 4, 20, 10, 6]),
    (12, [13, 24, 7, 4, 14, 20, 22, 3, 19, 18, 10]),
    (13, [11, 24, 3, 18, 19, 13, 4, 1]),
    (14, [24, 4, 19, 23, 13, 11, 18]),
    (15, [3, 19, 10, 24, 18, 12, 11, 4, 5, 0, 17]),
    (16, [3, 25]),
    (17, [4, 15, 11, 14, 7, 3, 10, 5, 24, 13, 18, 19]),
    (18, [4, 0, 17, 18, 10, 22, 19, 15, 14, 6, 1, 5, 13]),
    (19, [14, 10, 8, 19, 3, 4, 24, 11, 1, 18, 15, 0, 13]),
    (20, [24, 14, 19, 4, 17]),
    (21, [19, 24, 14, 11, 4, 22, 0, 3, 18]),
    (22, [11, 3, 12, 15, 4, 24, 18, 19, 13, 25, 5, 10]),
    (24, [10, 13, 11, 0, 19]),
    (25, [18, 14, 19, 2, 4, 12])]"

declare decode_loop.simps [simp del]

lemma bytewords_table: "bytewords = concat word_table"
  by (simp add: bytewords_def word_table_def)

lemma word_table_letters: "list_all (\<lambda>w. length w = 4 \<and> list_all (\<lambda>c. 97 \<le> c \<and> c \<le> 122) w) word_table" "length word_table = 256"
  by (simp_all add: word_table_def)

lemma word_table_groups:
  "map (\<lambda>w. (unat (w ! 0) - 97, unat (w ! 3) - 97)) word_table = concat (map (\<lambda>(x, ys). map (Pair x) ys) letter_groups)"
  by (simp add: word_table_def letter_groups_def)

lemma letter_groups_distinct: "distinct (map fst letter_groups)" "\<forall>(x, ys) \<in> set letter_groups. distinct ys"
  by (simp_all add: letter_groups_def)


lemma concat_4:
  assumes "\<forall>w \<in> set ws. length w = 4" "i < length ws"
  shows "k < 4 \<Longrightarrow> concat ws ! (i * 4 + k) = ws ! i ! k" "take 4 (drop (i * 4) (concat ws)) = ws ! i"
proof -
  have d: "drop (i * 4) (concat ws) = ws ! i @ concat (drop (Suc i) ws)"
    using assms
  proof (induction ws arbitrary: i)
    case (Cons w ws)
    then show ?case by (cases i) simp_all
  qed simp
  have l: "length (ws ! i) = 4" using assms by simp
  show "take 4 (drop (i * 4) (concat ws)) = ws ! i" using d l by simp
  have "i * 4 \<le> length (concat ws)"
    using assms by (induction ws arbitrary: i) (auto simp: less_Suc_eq_0_disj)
  then show "concat ws ! (i * 4 + k) = ws ! i ! k" if "k < 4"
    using that l nth_drop [of "i * 4" "concat ws" k] unfolding d by (simp add: nth_append)
qed

lemma table_length: "\<forall>w \<in> set word_table. length w = 4"
  using word_table_letters(1) by (simp add: list_all_iff)

lemma bytewords_nth: "i < 256 \<Longrightarrow> k < 4 \<Longrightarrow> bytewords ! (i * 4 + k) = word_table ! i ! k"
  using concat_4(1) [OF table_length] word_table_letters(2) by (simp add: bytewords_table)

lemma bytewords_nth_0: "i < 256 \<Longrightarrow> bytewords ! (i * 4) = word_table ! i ! 0"
  using bytewords_nth [of i 0] by simp

lemma table_letter:
  assumes "i < 256" "k < 4"
  shows "97 \<le> word_table ! i ! k" "word_table ! i ! k \<le> 122"
proof -
  have "word_table ! i \<in> set word_table" using assms(1) word_table_letters(2) by simp
  then have "length (word_table ! i) = 4" "\<forall>c \<in> set (word_table ! i). 97 \<le> c \<and> c \<le> 122"
    using word_table_letters(1) by (auto simp: list_all_iff)
  then show "97 \<le> word_table ! i ! k" "word_table ! i ! k \<le> 122" using assms(2) nth_mem [of k "word_table ! i"] by auto
qed

lemma letter_bounds:
  assumes "97 \<le> (c :: u8)" "c \<le> 122"
  shows "tolower c = c" "97 \<le> uint c" "uint c \<le> 122" "97 \<le> unat c" "unat c \<le> 122" "uint c - 97 = int (unat c - 97)"
proof -
  have u: "97 \<le> uint c" "uint c \<le> 122" using assms by (simp_all add: word_le_def)
  have n: "int (unat c) = uint c" by simp
  show "97 \<le> unat c" "unat c \<le> 122" "uint c - 97 = int (unat c - 97)" using u n by linarith+
  show "97 \<le> uint c" "uint c \<le> 122" by (fact u)+
  have "\<not> c \<le> 90" using u by (simp add: word_le_def)
  then show "tolower c = c" by (simp add: tolower_def)
qed

lemma distinct_groups:
  "distinct (map fst gs) \<Longrightarrow> \<forall>(x, ys) \<in> set gs. distinct ys \<Longrightarrow> distinct (concat (map (\<lambda>(x, ys). map (Pair x) ys) gs))"
  by (induction gs) (force simp: distinct_map inj_on_def)+

lemma offset_eq: "i < 256 \<Longrightarrow> byteword_offset i = (\<lambda>(x, y). y * 26 + x) (unat (word_table ! i ! 0) - 97, unat (word_table ! i ! 3) - 97)"
  by (simp add: byteword_offset_def Let_def bytewords_nth bytewords_nth_0)

lemma offset_distinct: "distinct (map byteword_offset [0..<256])"
proof -
  let ?ps = "map (\<lambda>w. (unat (w ! 0) - 97, unat (w ! 3) - 97)) word_table"
  have d: "distinct ?ps" unfolding word_table_groups by (rule distinct_groups [OF letter_groups_distinct])
  have lt: "fst p < 26" if "p \<in> set ?ps" for p
  proof -
    obtain i where i: "i < 256" "p = ?ps ! i" using \<open>p \<in> set ?ps\<close> word_table_letters(2) by (auto simp: in_set_conv_nth)
    then show ?thesis using letter_bounds(5) [OF table_letter [OF i(1), of 0]] word_table_letters(2) by simp
  qed
  have inj: "inj_on (\<lambda>(x, y). y * 26 + x) (set ?ps)"
  proof (rule inj_onI)
    fix p q assume p: "p \<in> set ?ps" and q: "q \<in> set ?ps" and e: "(case p of (x, y) \<Rightarrow> y * 26 + x) = (case q of (x, y) \<Rightarrow> y * 26 + x)"
    obtain x y x' y' where pq: "p = (x, y)" "q = (x', y')" by force
    have "x < 26" "x' < 26" using lt [OF p] lt [OF q] pq by simp_all
    moreover have "y * 26 + x = y' * 26 + x'" using e pq by simp
    ultimately show "p = q" using digit_unique [of y 26 x y' x'] pq by simp
  qed
  have "map byteword_offset [0..<256] = map (\<lambda>(x, y). y * 26 + x) ?ps"
    using word_table_letters(2) by (intro nth_equalityI) (simp_all add: offset_eq del: upt_conv_Cons_Cons)
  then show ?thesis using d inj by (simp only: distinct_map)
qed

lemma foldl_table:
  assumes "distinct (map f [0..<n])" "\<forall>i < n. f i < length a" "i < n"
  shows "foldl (\<lambda>a i. a[f i := int i]) a [0..<n] ! f i = int i"
  using assms
proof (induction n)
  case (Suc n)
  have l: "length (foldl (\<lambda>a i. a[f i := int i]) a is) = length a" for "is" by (induction "is" arbitrary: a) simp_all
  show ?case
  proof (cases "i = n")
    case True
    then show ?thesis using Suc.prems l by simp
  next
    case False
    then have "i < n" using Suc.prems(3) by simp
    moreover have "f n \<noteq> f i" using Suc.prems(1) \<open>i < n\<close> by auto
    ultimately show ?thesis using Suc by simp
  qed
qed simp

lemma decode_array_nth:
  assumes "i < 256"
  shows "decode_array ! byteword_offset i = int i"
proof -
  have "byteword_offset k < 676" if "k < 256" for k
    using that letter_bounds(5) [OF table_letter [OF that, of 0]] letter_bounds(5) [OF table_letter [OF that, of 3]]
    by (simp add: offset_eq)
  then show ?thesis unfolding decode_array_def using foldl_table [OF offset_distinct _ assms] by simp
qed


section \<open>Decoding a word\<close>

lemma word_index: "unat (b :: u8) < 256"
  using unsigned_less [of b, where 'a = nat] by simp

lemma get_word_eq: "bytewords_get_word b = word_table ! unat b" "length (bytewords_get_word b) = 4"
  using concat_4(2) [OF table_length] word_table_letters(2) word_index [of b] table_length
  by (simp_all add: bytewords_get_word_def bytewords_table)

lemma decode_word_eq:
  assumes "in_word ! 0 = word_table ! unat b ! 0" "in_word ! (if len = 4 then 3 else 1) = word_table ! unat b ! 3"
    and "len = 4 \<Longrightarrow> in_word ! 1 = word_table ! unat b ! 1 \<and> in_word ! 2 = word_table ! unat b ! 2"
  shows "decode_word in_word len = Some b"
proof -
  note b = word_index [of b]
  have t: "tolower (word_table ! unat b ! k) = word_table ! unat b ! k" "97 \<le> uint (word_table ! unat b ! k)"
    "uint (word_table ! unat b ! k) \<le> 122" "uint (word_table ! unat b ! k) - 97 = int (unat (word_table ! unat b ! k) - 97)" if "k < 4" for k
    by (rule letter_bounds(1,2,3,6) [OF table_letter [OF b that]])+
  define x where "x = uint (word_table ! unat b ! 0) - 97"
  define y where "y = uint (word_table ! unat b ! 3) - 97"
  have xy: "0 \<le> x" "x < 26" "0 \<le> y" "y < 26" using t(2,3) [of 0] t(2,3) [of 3] by (simp_all add: x_def y_def)
  have "nat (y * 26 + x) = byteword_offset (unat b)"
    using t(4) [of 0] t(4) [of 3] offset_eq [OF b] by (simp add: x_def y_def nat_add_distrib nat_mult_distrib)
  then have v: "decode_array ! nat (y * 26 + x) = int (unat b)" using decode_array_nth [OF b] by simp
  have w: "word_of_int (int (unat b)) = b" by simp
  have nb: "uint b \<noteq> - 1" using uint_nonnegative [of b] by linarith
  show ?thesis
    using xy v w nb t(1) [of 0] t(1) [of 1] t(1) [of 2] t(1) [of 3] assms bytewords_nth [OF b, of 1] bytewords_nth [OF b, of 2]
    unfolding decode_word_def by (simp add: x_def [symmetric] y_def [symmetric] Let_def del: of_int_of_nat_eq)
qed

lemma decode_word_full: "decode_word (bytewords_get_word b @ rest) 4 = Some b"
  using get_word_eq [of b] by (intro decode_word_eq) (auto simp: nth_append)

lemma decode_word_minimal: "decode_word (get_minimal_word b @ rest) 2 = Some b"
  using bytewords_nth [OF word_index [of b], of 3] bytewords_nth_0 [OF word_index [of b]]
  by (intro decode_word_eq) (simp_all add: get_minimal_word_def Let_def)

section \<open>Round trip\<close>

lemma decode_loop_words:
  assumes "sep \<noteq> 0" "length buf + length ins \<le> m"
  shows "decode_loop m sep 4 (encode ins sep) buf = Decoded (buf @ ins)"
  using assms
proof (induction ins sep arbitrary: buf rule: encode.induct)
  case (1 sep)
  then show ?case by (subst decode_loop.simps) simp
next
  case (2 b sep)
  have "bytewords_get_word b \<noteq> []" using get_word_eq(2) [of b] by auto
  then show ?case using 2 get_word_eq(2) [of b] decode_word_full [of b "[]"]
    by (subst decode_loop.simps) (simp add: Let_def decode_loop.simps [of _ _ _ "[]"])
next
  case (3 b b' ins sep)
  have "bytewords_get_word b \<noteq> []" using get_word_eq(2) [of b] by auto
  then show ?case using 3 get_word_eq(2) [of b] decode_word_full [of b "sep # encode (b' # ins) sep"]
    by (subst decode_loop.simps) (simp add: Let_def)
qed


lemma length_encode: "ins \<noteq> [] \<Longrightarrow> length (encode ins sep) = 5 * length ins - 1"
  by (induction ins sep rule: encode.induct) (simp_all add: get_word_eq(2))

lemma decode_loop_minimal:
  "length buf + length ins \<le> m \<Longrightarrow> decode_loop m 0 2 (concat (map get_minimal_word ins)) buf = Decoded (buf @ ins)"
proof (induction ins arbitrary: buf)
  case Nil
  then show ?case by (subst decode_loop.simps) simp
next
  case (Cons b ins)
  have "length (get_minimal_word b) = 2" by (simp add: get_minimal_word_def Let_def)
  moreover from this have "get_minimal_word b \<noteq> []" by auto
  ultimately show ?case using Cons decode_word_minimal [of b "concat (map get_minimal_word ins)"]
    by (subst decode_loop.simps) (simp add: Let_def)
qed

lemma decode_add_crc:
  assumes "in_buf \<noteq> []" "decode_loop (length s div (wl + (if sep = 0 then 0 else 1)) + 1) sep wl s [] = Decoded (add_crc in_buf)"
    and "5 \<le> length s div (wl + (if sep = 0 then 0 else 1)) + 1"
  shows "decode s sep wl = Decoded in_buf"
proof -
  have "length (add_crc in_buf) = length in_buf + 4" by (simp add: add_crc_def crc_bytes_def)
  then show ?thesis using assms by (simp add: decode_def Let_def add_crc_def crc_bytes_def)
qed

text \<open>
  C21. Bytewords round trip: in each of the three styles, a non-empty byte string encoded and then
  decoded comes back unchanged, and the decoder stays within its buffer.
\<close>

theorem bytewords_roundtrip:
  assumes "in_buf \<noteq> []"
  shows "bytewords_decode style (bytewords_encode style in_buf) = Decoded in_buf"
proof -
  let ?ins = "add_crc in_buf"
  have n: "5 \<le> length ?ins" "?ins \<noteq> []" using assms by (cases in_buf; simp add: add_crc_def crc_bytes_def)+
  have w: "decode (encode ?ins sep) sep 4 = Decoded in_buf" if "sep \<noteq> 0" for sep
  proof -
    have "length (encode ?ins sep) div 5 + 1 = length ?ins" using length_encode [OF n(2), of sep] n(1) by simp
    then show ?thesis using that n(1) decode_loop_words [OF that, of "[]" ?ins "length ?ins"]
      by (intro decode_add_crc assms) simp_all
  qed
  have l: "length (concat (map get_minimal_word bs)) = 2 * length bs" for bs
    by (induction bs) (simp_all add: get_minimal_word_def Let_def)
  have m: "decode (concat (map get_minimal_word ?ins)) 0 2 = Decoded in_buf"
    using n(1) l [of ?ins] decode_loop_minimal [of "[]" ?ins "length ?ins + 1"] by (intro decode_add_crc assms) simp_all
  show ?thesis using w m by (cases style) (simp_all add: encode_with_separator_def encode_minimal_def)
qed

theorem bytewords_roundtrip_witness: "bytewords_decode bw_uri (bytewords_encode bw_uri [0, 1, 255]) = Decoded [0, 1, 255]"
  using bytewords_roundtrip [of "[0, 1, 255]" bw_uri] by simp

section \<open>The buffer of the decoder\<close>

lemma decode_loop_unseparated:
  assumes "length buf \<le> m" "m < length buf + length ins" "32 \<notin> set (concat (map bytewords_get_word ins))"
  shows "decode_loop m 32 4 (concat (map bytewords_get_word ins)) buf = Overflow"
  using assms
proof (induction ins arbitrary: buf)
  case (Cons b ins)
  let ?rest = "concat (map bytewords_get_word ins)"
  have s: "\<not> (?rest \<noteq> [] \<and> hd ?rest = 32)" using Cons.prems(3) by (cases "?rest") auto
  have l: "length (bytewords_get_word b) = 4" "bytewords_get_word b \<noteq> []" using get_word_eq(2) [of b] by auto
  show ?case
  proof (cases "length buf = m")
    case True
    then show ?thesis using l decode_word_full [of b ?rest] by (subst decode_loop.simps) simp
  next
    case False
    then have "decode_loop m 32 4 ?rest (buf @ [b]) = Overflow" using Cons by simp
    then show ?thesis using l s False Cons.prems(1) decode_word_full [of b ?rest] by (subst decode_loop.simps) (auto simp: Let_def)
  qed
qed simp

text \<open>
  C22. The decoder can write past its buffer. Its size is computed for words with a separator after
  each, but a missing separator is accepted: six or more words in the standard style, written
  without separators, overrun the buffer.
\<close>

theorem bytewords_decode_overflow:
  assumes "6 \<le> length ins"
  shows "bytewords_decode bw_standard (concat (map bytewords_get_word ins)) = Overflow"
proof -
  let ?s = "concat (map bytewords_get_word ins)"
  have "length ?s = 4 * length ins" by (induction ins) (simp_all add: get_word_eq(2))
  then have l: "length ?s div 5 + 1 < length ins \<or> length ins < 6" "5 \<le> length ?s div 5 + 1" using assms by linarith+
  have "32 \<notin> set (bytewords_get_word b)" for b
  proof
    assume "32 \<in> set (bytewords_get_word b)"
    then obtain k where "k < 4" "word_table ! unat b ! k = 32" using get_word_eq [of b] by (auto simp: in_set_conv_nth)
    then show False using table_letter(1) [OF word_index, of k b] by simp
  qed
  then have "decode_loop (length ?s div 5 + 1) 32 4 ?s [] = Overflow"
    using l assms by (intro decode_loop_unseparated) auto
  then show ?thesis using l(2) by (simp add: decode_def Let_def)
qed

theorem bytewords_decode_overflow_witness:
  "bytewords_decode bw_standard (concat (map bytewords_get_word [1, 2, 3, 4, 5, 6])) = Overflow"
  by (rule bytewords_decode_overflow) simp

end
