(* ===== verification/Word_Table.thy ===== *)
theory Word_Table
  imports Prelude "HOL-Library.List_Lexorder"
begin

text \<open>
  The comparison of C strings and what the searches of \<open>bip39.c\<close> and \<open>slip39.c\<close> rely on: a table of
  words in lexicographic order (locale \<open>sorted_table\<close>), with the meaning of the two kinds of
  bisection the code performs on it. A C string is the list of its bytes before the terminating
  zero. The last section checks a table given by literals.
\<close>

section \<open>Comparison of strings\<close>

fun strcmp :: "u8 list \<Rightarrow> u8 list \<Rightarrow> int" where
  "strcmp [] [] = 0"
| "strcmp [] (b # bs) = - uint b"
| "strcmp (a # as) [] = uint a"
| "strcmp (a # as) (b # bs) = (if a = b then strcmp as bs else uint a - uint b)"

definition strncmp :: "u8 list \<Rightarrow> u8 list \<Rightarrow> nat \<Rightarrow> int" where
  "strncmp a b n = strcmp (take n a) (take n b)"

lemma nonzero_byte: "(0 :: u8) < b \<longleftrightarrow> b \<noteq> 0" "0 < uint b \<longleftrightarrow> b \<noteq> 0"
  by (simp_all add: word_neq_0_conv word_less_def)

lemma strcmp_order:
  assumes "0 \<notin> set a" "0 \<notin> set b"
  shows "strcmp a b = 0 \<longleftrightarrow> a = b" "strcmp a b < 0 \<longleftrightarrow> a < b" "0 < strcmp a b \<longleftrightarrow> b < a"
proof -
  have "(strcmp a b = 0 \<longleftrightarrow> a = b) \<and> (strcmp a b < 0 \<longleftrightarrow> a < b) \<and> (0 < strcmp a b \<longleftrightarrow> b < a)"
    using assms
    by (induction a b rule: strcmp.induct)
      (auto simp: nonzero_byte uint_0_iff word_less_def dest: word_uint_eqI)
  then show "strcmp a b = 0 \<longleftrightarrow> a = b" "strcmp a b < 0 \<longleftrightarrow> a < b" "0 < strcmp a b \<longleftrightarrow> b < a"
    by blast+
qed

lemma strncmp_order:
  assumes "0 \<notin> set a" "0 \<notin> set b"
  shows "strncmp a b n = 0 \<longleftrightarrow> take n a = take n b" "strncmp a b n < 0 \<longleftrightarrow> take n a < take n b"
    "0 < strncmp a b n \<longleftrightarrow> take n b < take n a"
  using assms strcmp_order [of "take n a" "take n b"]
  by (auto simp: strncmp_def dest: in_set_takeD)

lemma take_mono: "xs \<le> ys \<Longrightarrow> take n xs \<le> take n (ys :: 'a::linorder list)"
proof (induction n arbitrary: xs ys)
  case (Suc n)
  then show ?case by (cases xs; cases ys) auto
qed simp

lemma le_append_prefix: "xs \<le> xs @ (ys :: 'a::linorder list)"
  by (induction xs) auto

lemma take_strict: "take n xs < take n ys \<Longrightarrow> xs < (ys :: 'a::linorder list)"
  using take_mono [of ys xs n] by (meson leD not_le_imp_less)

section \<open>Bisection\<close>

text \<open>
  The loop of \<open>mnemonic_find_word\<close> and \<open>mnemonic_find_first_match_index\<close>, which ends when the
  interval from \<open>lo\<close> to \<open>hi\<close> is empty: \<open>cmp mid\<close> is the sign that moves the lower bound when it is
  positive and the upper one when it is negative.
\<close>

function search :: "(nat \<Rightarrow> int) \<Rightarrow> int \<Rightarrow> int \<Rightarrow> int" where
  "search cmp lo hi =
     (if lo \<le> hi then
        let mid = lo + (hi - lo) div 2 in
        if cmp (nat mid) = 0 then mid
        else if cmp (nat mid) > 0 then search cmp (mid + 1) hi
        else search cmp lo (mid - 1)
      else - 1)"
  by pat_completeness auto
termination
  by (relation "measure (\<lambda>(cmp, lo, hi). nat (hi + 1 - lo))") auto

declare search.simps [simp del]

text \<open>
  The loop of \<open>word_index\<close> and \<open>find_sequence\<close>, which ends when \<open>lo\<close> and \<open>hi\<close> are neighbours.
\<close>

function bisect :: "(nat \<Rightarrow> bool) \<Rightarrow> nat \<Rightarrow> nat \<Rightarrow> nat \<times> nat" where
  "bisect up lo hi =
     (if hi - lo > 1 then
        let mid = (hi + lo) div 2 in
        if up mid then bisect up lo mid else bisect up mid hi
      else (lo, hi))"
  by pat_completeness auto
termination
  by (relation "measure (\<lambda>(up, lo, hi). hi - lo)") auto

declare bisect.simps [simp del]

lemma search_spec:
  assumes "0 \<le> lo" "hi < int n"
    and "\<And>k m. k < m \<Longrightarrow> m < n \<Longrightarrow> 0 < cmp m \<Longrightarrow> 0 < cmp k"
    and "\<And>k m. k < m \<Longrightarrow> m < n \<Longrightarrow> cmp k < 0 \<Longrightarrow> cmp m < 0"
    and "\<And>k. int k < lo \<Longrightarrow> 0 < cmp k" "\<And>k. hi < int k \<Longrightarrow> k < n \<Longrightarrow> cmp k < 0"
  shows "search cmp lo hi = - 1 \<and> (\<forall>k < n. cmp k \<noteq> 0) \<or> (\<exists>k < n. search cmp lo hi = int k \<and> cmp k = 0)"
  using assms
proof (induction cmp lo hi rule: search.induct)
  case (1 cmp lo hi)
  note IH = 1(1,2) and pos = 1(3,4) and up = 1(5) and down = 1(6) and left = 1(7) and right = 1(8)
  show ?case
  proof (cases "lo \<le> hi")
    case False
    have "cmp k \<noteq> 0" if "k < n" for k
      using left [of k] right [of k] that False by (cases "int k < lo") force+
    then show ?thesis using False by (simp add: search.simps)
  next
    case True
    define mid where "mid = lo + (hi - lo) div 2"
    have mid: "lo \<le> mid" "mid \<le> hi" using True by (auto simp: mid_def)
    have step: "search cmp lo hi = (if cmp (nat mid) = 0 then mid
        else if cmp (nat mid) > 0 then search cmp (mid + 1) hi else search cmp lo (mid - 1))"
      using True by (subst search.simps) (simp add: mid_def Let_def)
    consider "cmp (nat mid) = 0" | "cmp (nat mid) > 0" | "cmp (nat mid) < 0" by linarith
    then show ?thesis
    proof cases
      case 1
      then show ?thesis using step mid pos by (intro disjI2 exI [of _ "nat mid"]) auto
    next
      case 2
      have "0 < cmp k" if "int k < mid + 1" for k
        using that up [of k "nat mid"] 2 mid pos by (cases "int k = mid") auto
      from IH(1) [OF True mid_def _ 2 _ pos(2) up down this right] 2 mid pos step show ?thesis by simp
    next
      case 3
      have "cmp k < 0" if "mid - 1 < int k" "k < n" for k
        using that down [of "nat mid" k] 3 mid pos by (cases "int k = mid") auto
      from IH(2) [OF True mid_def _ _ pos(1) _ up down left this] 3 mid pos step show ?thesis by simp
    qed
  qed
qed

lemma bisect_spec:
  assumes "lo < hi"
  obtains lo' where "bisect up lo hi = (lo', Suc lo')" "lo \<le> lo'" "Suc lo' \<le> hi"
    "lo' = lo \<or> \<not> up lo'" "Suc lo' = hi \<or> up (Suc lo')"
proof -
  have "\<exists>l. bisect up lo hi = (l, Suc l) \<and> lo \<le> l \<and> Suc l \<le> hi \<and> (l = lo \<or> \<not> up l) \<and> (Suc l = hi \<or> up (Suc l))"
    using assms
  proof (induction up lo hi rule: bisect.induct)
    case (1 up lo hi)
    show ?case
    proof (cases "hi - lo > 1")
      case True
      define mid where "mid = (hi + lo) div 2"
      have mid: "lo < mid" "mid < hi" using True by (auto simp: mid_def)
      have step: "bisect up lo hi = (if up mid then bisect up lo mid else bisect up mid hi)"
        using True by (subst bisect.simps) (simp add: mid_def Let_def)
      show ?thesis
      proof (cases "up mid")
        case up: True
        from 1(1) [OF True mid_def up mid(1)] show ?thesis using step up mid by auto
      next
        case up: False
        from 1(2) [OF True mid_def up mid(2)] show ?thesis using step up mid by auto
      qed
    next
      case False
      then have "hi = Suc lo" using 1(3) by linarith
      then show ?thesis by (simp add: bisect.simps)
    qed
  qed
  then show thesis using that by blast
qed

section \<open>Tables of words in order\<close>

text \<open>
  The second loop of \<open>mnemonic_find_first_match_index\<close>, which walks from a match down to the first
  one.
\<close>

fun first_match :: "(nat \<Rightarrow> bool) \<Rightarrow> nat \<Rightarrow> nat" where
  "first_match matches 0 = 0"
| "first_match matches (Suc m) = (if \<not> matches m then Suc m else first_match matches m)"

lemma first_match_spec:
  assumes "matches m"
  shows "matches (first_match matches m)" "first_match matches m \<le> m"
    "first_match matches m = 0 \<or> \<not> matches (first_match matches m - 1)"
  using assms by (induction m) auto

locale sorted_table =
  fixes words :: "u8 list list"
  assumes sorted: "sorted_wrt (<) words"
    and zero_free: "\<And>w. w \<in> set words \<Longrightarrow> 0 \<notin> set w"
begin

lemma nth_less: "k < m \<Longrightarrow> m < length words \<Longrightarrow> words ! k < words ! m"
  using sorted_wrt_nth_less [OF sorted] by blast

lemma nth_zero_free: "k < length words \<Longrightarrow> 0 \<notin> set (words ! k)"
  by (rule zero_free) simp

lemma nth_inject: "k < length words \<Longrightarrow> m < length words \<Longrightarrow> words ! k = words ! m \<longleftrightarrow> k = m"
  using nth_less [of k m] nth_less [of m k] by (cases k m rule: linorder_cases) auto

lemma take_nth_mono: "k \<le> m \<Longrightarrow> m < length words \<Longrightarrow> take n (words ! k) \<le> take n (words ! m)"
  using nth_less [of k m] by (cases "k = m") (auto intro: take_mono)

lemma search_word:
  assumes "0 \<notin> set w"
  defines "r \<equiv> search (\<lambda>k. strcmp w (words ! k)) 0 (int (length words) - 1)"
  shows "r = - 1 \<and> w \<notin> set words \<or> (\<exists>k < length words. r = int k \<and> words ! k = w)"
proof -
  note order = strcmp_order [OF assms(1) nth_zero_free]
  have "r = - 1 \<and> (\<forall>k < length words. strcmp w (words ! k) \<noteq> 0) \<or>
    (\<exists>k < length words. r = int k \<and> strcmp w (words ! k) = 0)"
    unfolding r_def
  proof (rule search_spec)
    fix k m assume km: "k < m" "m < length words"
    then have k: "k < length words" by simp
    note less = nth_less [OF km] order [OF k] order [OF km(2)]
    show "0 < strcmp w (words ! m) \<Longrightarrow> 0 < strcmp w (words ! k)" using less by (metis less_trans)
    show "strcmp w (words ! k) < 0 \<Longrightarrow> strcmp w (words ! m) < 0" using less by (metis less_trans)
  qed auto
  then show ?thesis using order by (auto simp: in_set_conv_nth)
qed

lemma search_nth:
  assumes "m < length words"
  shows "search (\<lambda>k. strcmp (words ! m) (words ! k)) 0 (int (length words) - 1) = int m"
  using search_word [OF nth_zero_free [OF assms]] assms nth_inject by auto

lemma search_prefix:
  fixes n :: nat
  assumes "0 \<notin> set prefix"
  defines "r \<equiv> search (\<lambda>k. - strncmp (words ! k) prefix n) 0 (int (length words) - 1)"
  shows "r = - 1 \<and> (\<forall>k < length words. take n (words ! k) \<noteq> take n prefix) \<or>
    (\<exists>k < length words. r = int k \<and> take n (words ! k) = take n prefix)"
proof -
  note order = strncmp_order [OF nth_zero_free assms(1), of _ n]
  have "r = - 1 \<and> (\<forall>k < length words. - strncmp (words ! k) prefix n \<noteq> 0) \<or>
    (\<exists>k < length words. r = int k \<and> - strncmp (words ! k) prefix n = 0)"
    unfolding r_def
  proof (rule search_spec)
    fix k m assume km: "k < m" "m < length words"
    then have k: "k < length words" by simp
    note less = take_nth_mono [OF less_imp_le [OF km(1)] km(2), of n] order [OF k] order [OF km(2)]
    show "0 < - strncmp (words ! m) prefix n \<Longrightarrow> 0 < - strncmp (words ! k) prefix n"
      using less by (simp add: le_less_trans)
    show "- strncmp (words ! k) prefix n < 0 \<Longrightarrow> - strncmp (words ! m) prefix n < 0"
      using less by (simp add: less_le_trans)
  qed auto
  then show ?thesis using order by auto
qed

text \<open>The words with a given prefix are consecutive.\<close>

lemma prefix_interval:
  assumes "i \<le> k" "k \<le> m" "m < length words" "take n (words ! i) = p" "take n (words ! m) = p"
  shows "take n (words ! k) = p"
  using take_nth_mono [OF assms(1), of n] take_nth_mono [OF assms(2,3), of n] assms by auto

lemma first_match_least:
  assumes "k < length words" "take n (words ! k) = p"
  defines "r \<equiv> first_match (\<lambda>m. take n (words ! m) = p) k"
  shows "r \<le> k" "take n (words ! r) = p" "\<And>j. j < r \<Longrightarrow> take n (words ! j) \<noteq> p"
proof -
  note fm = first_match_spec [of "\<lambda>m. take n (words ! m) = p" k, folded r_def, OF assms(2)]
  show r: "r \<le> k" "take n (words ! r) = p" using fm by auto
  fix j assume "j < r"
  then show "take n (words ! j) \<noteq> p"
    using fm(3) prefix_interval [of j "r - 1" r n p] r assms(1) by fastforce
qed

lemma bisect_prefix:
  fixes n :: nat
  assumes "0 \<notin> set w" "words \<noteq> []"
  defines "lo \<equiv> fst (bisect (\<lambda>mid. strncmp (words ! mid) w n > 0) 0 (length words))"
  shows "lo < length words"
    "take n (words ! lo) = take n w \<longleftrightarrow> (\<exists>k < length words. take n (words ! k) = take n w)"
    "k < length words \<Longrightarrow> take n (words ! k) = take n w \<Longrightarrow> k \<le> lo"
proof -
  obtain l where l: "bisect (\<lambda>mid. strncmp (words ! mid) w n > 0) 0 (length words) = (l, Suc l)"
    "Suc l \<le> length words" "l = 0 \<or> \<not> strncmp (words ! l) w n > 0"
    "Suc l = length words \<or> strncmp (words ! Suc l) w n > 0"
    using assms(2) by (auto intro: bisect_spec [of 0 "length words" "\<lambda>mid. strncmp (words ! mid) w n > 0"])
  have lo: "lo = l" by (simp add: lo_def l)
  then show less: "lo < length words" using l(2) by simp
  have le: "l = 0 \<or> take n (words ! l) \<le> take n w"
    using l(3) strncmp_order(3) [OF nth_zero_free [OF less] assms(1), of n] by (auto simp: lo not_less)
  have max: "k \<le> l" if k: "k < length words" "take n (words ! k) = take n w" for k
  proof (rule ccontr)
    assume "\<not> k \<le> l"
    then have Suc: "Suc l \<le> k" "Suc l < length words" using k by auto
    then have "take n w < take n (words ! Suc l)"
      using l(4) strncmp_order(3) [OF nth_zero_free [OF Suc(2)] assms(1), of n] by auto
    with take_nth_mono [OF Suc(1) k(1), of n] k(2) show False by simp
  qed
  then show "k < length words \<Longrightarrow> take n (words ! k) = take n w \<Longrightarrow> k \<le> lo" by (simp add: lo)
  have "take n (words ! l) = take n w" if k: "k < length words" "take n (words ! k) = take n w" for k
    using max [OF k] le take_nth_mono [of k l n] less k by (auto simp: lo)
  then show "take n (words ! lo) = take n w \<longleftrightarrow> (\<exists>k < length words. take n (words ! k) = take n w)"
    using less by (auto simp: lo)
qed

end

section \<open>Checking a table of words\<close>

text \<open>
  The words of a table are checked once, as the literals they are: in strict lexicographic order,
  of lower-case letters, no longer than eight letters. The rules rewrite the check word by word.
\<close>

fun str_less :: "string \<Rightarrow> string \<Rightarrow> bool" where
  "str_less a [] = False"
| "str_less [] (y # ys) = True"
| "str_less (x # xs) (y # ys) = (of_char x < (of_char y :: nat) \<or> x = y \<and> str_less xs ys)"

definition lower :: "char \<Rightarrow> bool" where
  "lower c \<longleftrightarrow> 97 \<le> (of_char c :: nat) \<and> of_char c \<le> (122 :: nat)"

fun str_ok :: "nat \<Rightarrow> string \<Rightarrow> bool" where
  "str_ok n [] = True"
| "str_ok n (c # cs) = (n \<noteq> 0 \<and> lower c \<and> str_ok (n - 1) cs)"

primrec table_ok :: "string \<Rightarrow> string list \<Rightarrow> bool" where
  "table_ok p [] = True"
| "table_ok p (w # ws) = (str_less p w \<and> str_ok 8 w \<and> table_ok w ws)"

lemma letters:
  "of_char CHR ''a'' = (97 :: nat)" "of_char CHR ''b'' = (98 :: nat)" "of_char CHR ''c'' = (99 :: nat)"
  "of_char CHR ''d'' = (100 :: nat)" "of_char CHR ''e'' = (101 :: nat)" "of_char CHR ''f'' = (102 :: nat)"
  "of_char CHR ''g'' = (103 :: nat)" "of_char CHR ''h'' = (104 :: nat)" "of_char CHR ''i'' = (105 :: nat)"
  "of_char CHR ''j'' = (106 :: nat)" "of_char CHR ''k'' = (107 :: nat)" "of_char CHR ''l'' = (108 :: nat)"
  "of_char CHR ''m'' = (109 :: nat)" "of_char CHR ''n'' = (110 :: nat)" "of_char CHR ''o'' = (111 :: nat)"
  "of_char CHR ''p'' = (112 :: nat)" "of_char CHR ''q'' = (113 :: nat)" "of_char CHR ''r'' = (114 :: nat)"
  "of_char CHR ''s'' = (115 :: nat)" "of_char CHR ''t'' = (116 :: nat)" "of_char CHR ''u'' = (117 :: nat)"
  "of_char CHR ''v'' = (118 :: nat)" "of_char CHR ''w'' = (119 :: nat)" "of_char CHR ''x'' = (120 :: nat)"
  "of_char CHR ''y'' = (121 :: nat)" "of_char CHR ''z'' = (122 :: nat)"
  by simp_all

lemma lower_letters:
  "lower CHR ''a''" "lower CHR ''b''" "lower CHR ''c''" "lower CHR ''d''" "lower CHR ''e''" "lower CHR ''f''"
  "lower CHR ''g''" "lower CHR ''h''" "lower CHR ''i''" "lower CHR ''j''" "lower CHR ''k''" "lower CHR ''l''"
  "lower CHR ''m''" "lower CHR ''n''" "lower CHR ''o''" "lower CHR ''p''" "lower CHR ''q''" "lower CHR ''r''"
  "lower CHR ''s''" "lower CHR ''t''" "lower CHR ''u''" "lower CHR ''v''" "lower CHR ''w''" "lower CHR ''x''"
  "lower CHR ''y''" "lower CHR ''z''"
  unfolding lower_def letters by simp_all

lemma str_less_same: "str_less (x # xs) (x # ys) = str_less xs ys" by simp

lemma str_less_differ: "of_char x < (of_char y :: nat) \<Longrightarrow> str_less (x # xs) (y # ys) = True" by simp

lemma str_ok_Cons: "lower c \<Longrightarrow> str_ok (Suc n) (c # cs) = str_ok n cs" by simp

lemma str_ok_8: "str_ok 8 cs = str_ok (Suc (Suc (Suc (Suc (Suc (Suc (Suc (Suc 0)))))))) cs"
  by (simp add: eval_nat_numeral)

lemma table_ok_cong: "table_ok p ws = table_ok p ws" "str_less xs ys = str_less xs ys" "str_ok n xs = str_ok n xs"
  by (rule refl)+

lemmas table_rules = table_ok.simps str_less.simps(2) str_less_same str_less_differ str_ok.simps(1) str_ok_Cons
  lower_letters letters str_ok_8 simp_thms rel_simps

lemma of_char_u8:
  "(of_char x < (of_char y :: u8)) = (of_char x < (of_char y :: nat))"
  "(of_char x = (of_char y :: u8)) = (x = y)" "unat (of_char x :: u8) = of_char x"
proof -
  have u: "unat (of_char x :: u8) = of_char x" for x :: char
  proof -
    have "(of_char x :: u8) = word_of_nat (of_char x)" by (simp only: of_nat_of_char)
    then show ?thesis using nat_of_char_less_256 [of x] by (simp add: unat_of_nat del: of_nat_of_char)
  qed
  show "unat (of_char x :: u8) = of_char x" by (rule u)
  show "(of_char x < (of_char y :: u8)) = (of_char x < (of_char y :: nat))"
    by (simp add: word_less_nat_alt u)
  show "(of_char x = (of_char y :: u8)) = (x = y)"
    by (metis u of_char_eq_iff)
qed

lemma str_less_of_char: "str_less a b \<longleftrightarrow> map of_char a < (map of_char b :: u8 list)"
  by (induction a b rule: str_less.induct) (auto simp: of_char_u8)

lemma str_ok_letters:
  assumes "str_ok n cs"
  shows "length cs \<le> n" "\<And>c. c \<in> set cs \<Longrightarrow> lower c"
  using assms by (induction n cs rule: str_ok.induct) auto

lemma lower_of_char: "lower c \<Longrightarrow> 97 \<le> (of_char c :: u8) \<and> of_char c \<le> (122 :: u8)"
  by (simp add: lower_def word_le_nat_alt of_char_u8)

lemma table_ok_sorted: "table_ok p ws \<Longrightarrow> sorted_wrt (<) (map (map of_char) (p # ws) :: u8 list list)"
proof (induction ws arbitrary: p)
  case (Cons w ws)
  then have "map of_char p < (map of_char w :: u8 list)" "sorted_wrt (<) (map (map of_char) (w # ws) :: u8 list list)"
    using Cons.IH [of w] by (simp_all add: str_less_of_char)
  then show ?case by (auto intro: less_trans)
qed simp

lemma table_ok_letters:
  assumes "table_ok p ws" "w \<in> set (map (map of_char) ws :: u8 list list)"
  shows "w \<noteq> []" "length w \<le> 8" "\<And>c. c \<in> set w \<Longrightarrow> 97 \<le> c \<and> c \<le> 122"
proof -
  have "str_less [] v \<and> str_ok 8 v" if "v \<in> set ws" for v
    using assms(1) that
    by (induction ws arbitrary: p) (auto elim: str_less.elims)
  with assms(2) obtain v where "w = map of_char v" "str_less [] v" "str_ok 8 v" by auto
  with str_ok_letters [of 8 v] show "w \<noteq> []" "length w \<le> 8" "\<And>c. c \<in> set w \<Longrightarrow> 97 \<le> c \<and> c \<le> 122"
    by (auto dest: lower_of_char)
qed

text \<open>The number of words, counted in binary.\<close>

definition count_from :: "nat \<Rightarrow> 'a list \<Rightarrow> nat" where
  "count_from n xs = n + length xs"

lemma count_from_rules:
  "count_from n [] = n"
  "count_from (numeral k) (x # xs) = count_from (numeral (Num.inc k)) xs"
  by (simp_all add: count_from_def numeral_inc)

lemma count_from_cong: "n = m \<Longrightarrow> count_from n xs = count_from m xs" by simp

lemmas count_rules = count_from_rules Num.inc.simps

definition word_table :: "nat \<Rightarrow> u8 list list \<Rightarrow> bool" where
  "word_table n T \<longleftrightarrow> length T = n \<and> sorted_wrt (<) T \<and>
     (\<forall>w \<in> set T. w \<noteq> [] \<and> length w \<le> 8 \<and> (\<forall>c \<in> set w. 97 \<le> c \<and> c \<le> 122))"

lemma word_tableI:
  assumes "T = map (map of_char) ws" "table_ok [] ws" "count_from (numeral num.One) ws = n + 1"
  shows "word_table n T"
  using table_ok_sorted [OF assms(2)] table_ok_letters [OF assms(2)] assms(1,3)
  by (simp add: word_table_def count_from_def)

lemma word_table_sorted:
  assumes "word_table n T"
  shows "sorted_table T"
  using assms by unfold_locales (fastforce simp: word_table_def)+

text \<open>A table in which no word is the beginning of another one: it is enough to compare neighbours.\<close>

fun str_apart :: "string \<Rightarrow> string \<Rightarrow> bool" where
  "str_apart (x # xs) (y # ys) = (of_char x < (of_char y :: nat) \<or> x = y \<and> str_apart xs ys)"
| "str_apart xs ys = False"

primrec table_apart :: "string \<Rightarrow> string list \<Rightarrow> bool" where
  "table_apart p [] = True"
| "table_apart p (w # ws) = (str_apart p w \<and> table_apart w ws)"

lemma str_apart_same: "str_apart (x # xs) (x # ys) = str_apart xs ys" by simp

lemma str_apart_differ: "of_char x < (of_char y :: nat) \<Longrightarrow> str_apart (x # xs) (y # ys) = True" by simp

lemma table_apart_cong: "table_apart p ws = table_apart p ws" "str_apart xs ys = str_apart xs ys" by (rule refl)+

lemmas apart_rules = table_apart.simps str_apart_same str_apart_differ letters simp_thms rel_simps

lemma str_apart_prefix: "str_apart a b \<Longrightarrow> take (length a) (map of_char b) \<noteq> (map of_char a :: u8 list)"
  by (induction a b rule: str_apart.induct) (auto simp: of_char_u8)

lemma table_apart_nth: "table_apart p ws \<Longrightarrow> j < length ws \<Longrightarrow> str_apart ((p # ws) ! j) (ws ! j)"
proof (induction ws arbitrary: p j)
  case (Cons w ws)
  then show ?case by (cases j) auto
qed simp

lemma prefix_free_table:
  assumes "T = map (map of_char) (p # ws)" "table_apart p ws" "sorted_table T"
    and jk: "j < length T" "k < length T" "take (length (T ! j)) (T ! k) = T ! j"
  shows "k = j"
proof (cases k j rule: linorder_cases)
  case less
  have "T ! j \<le> T ! k"
    using jk(3) by (metis append_take_drop_id le_append_prefix)
  with sorted_table.nth_less [OF assms(3) less jk(1)] show ?thesis by simp
next
  case greater
  then have "take (length (T ! j)) (T ! Suc j) = T ! j"
    using sorted_table.prefix_interval [OF assms(3), of j "Suc j" k] jk by simp
  moreover have "str_apart ((p # ws) ! j) (ws ! j)"
    using greater jk(2) assms(1) by (intro table_apart_nth [OF assms(2)]) simp
  moreover have "T ! j = map of_char ((p # ws) ! j)" "T ! Suc j = map of_char (ws ! j)"
    using greater jk(2) nth_map [of j "p # ws" "map of_char"] by (simp_all add: assms(1))
  ultimately show ?thesis using str_apart_prefix [of "(p # ws) ! j" "ws ! j"] by simp
qed

end
