(* ===== verification/Bip39.thy ===== *)
theory Bip39
  imports Bip39_Words Slip39_Words
begin

text \<open>
  \<open>crypto/bip39.c\<close>: mnemonics from entropy and back, their checksum, the seed with its cache, and the
  searches of the keyboard. A C string is the list of its bytes before the terminating zero, a
  null pointer is \<open>None\<close>. SHA-256 is a function from the message to the 32 bytes of its digest, the
  steps of PBKDF2 are the functions \<open>init\<close>, \<open>update\<close> and \<open>final\<close>, and the random bytes are an argument:
  what is shown holds for every choice of them.
\<close>

section \<open>Mnemonics\<close>

definition mnemonic_find_word :: "u8 list \<Rightarrow> int" where
  "mnemonic_find_word word = search (\<lambda>mid. strcmp word (BIP39_WORDLIST_ENGLISH ! mid)) 0 (2048 - 1)"

definition mnemonic_get_word :: "int \<Rightarrow> u8 list option" where
  "mnemonic_get_word index = (if index \<ge> 0 \<and> index < 2048 then Some (BIP39_WORDLIST_ENGLISH ! nat index) else None)"

definition bit_mask :: "nat \<Rightarrow> u8" where
  "bit_mask b = push_bit (7 - b mod 8) 1"

text \<open>The bits of a mnemonic: the data, the first byte of its digest after them, the rest of the digest.\<close>

definition entropy_bits :: "(u8 list \<Rightarrow> u8 list) \<Rightarrow> u8 list \<Rightarrow> nat \<Rightarrow> u8 list" where
  "entropy_bits sha256 data len =
     (let bits = sha256 (take len data) @ [0];
          bits = bits[len := bits ! 0] in
      take len data @ drop len bits)"

definition word_number :: "u8 list \<Rightarrow> nat \<Rightarrow> nat" where
  "word_number bits i =
     foldl (\<lambda>idx j. push_bit 1 idx + of_bool (bits ! ((i * 11 + j) div 8) AND bit_mask (i * 11 + j) > 0)) 0 [0..<11]"

definition mnemonic_from_data :: "(u8 list \<Rightarrow> u8 list) \<Rightarrow> u8 list \<Rightarrow> int \<Rightarrow> u8 list option" where
  "mnemonic_from_data sha256 data len =
     (if len mod 4 \<noteq> 0 \<or> len < 16 \<or> len > 32 then None
      else let bits = entropy_bits sha256 data (nat len);
               mlen = nat len * 3 div 4 in
        Some (concat (map (\<lambda>i. BIP39_WORDLIST_ENGLISH ! word_number bits i @ (if i < mlen - 1 then [32] else [])) [0..<mlen])))"

definition mnemonic_generate :: "(u8 list \<Rightarrow> u8 list) \<Rightarrow> u8 list \<Rightarrow> int \<Rightarrow> u8 list option" where
  "mnemonic_generate sha256 random strength =
     (if strength mod 32 \<noteq> 0 \<or> strength < 128 \<or> strength > 256 then None
      else mnemonic_from_data sha256 random (strength div 8))"

fun copy_word :: "u8 list \<Rightarrow> u8 list \<Rightarrow> (u8 list \<times> u8 list) option" where
  "copy_word current_word [] = Some (current_word, [])"
| "copy_word current_word (c # cs) =
     (if c = 32 then Some (current_word, c # cs)
      else if length current_word \<ge> 10 - 1 then None
      else copy_word (current_word @ [c]) cs)"

definition add_bits :: "nat \<Rightarrow> u8 list \<Rightarrow> nat \<Rightarrow> u8 list" where
  "add_bits k result bi =
     foldl (\<lambda>result ki. if bit k (10 - ki) then result[(bi + ki) div 8 := result ! ((bi + ki) div 8) OR bit_mask (bi + ki)] else result)
       result [0..<11]"

lemma copy_word_length: "copy_word w s = Some (v, r) \<Longrightarrow> length r \<le> length s"
  by (induction w s rule: copy_word.induct) (auto split: if_splits)

function to_bits_loop :: "u8 list \<Rightarrow> u8 list \<Rightarrow> nat \<Rightarrow> (u8 list \<times> nat) option" where
  "to_bits_loop s result bi =
     (if s = [] then Some (result, bi)
      else case copy_word [] s of None \<Rightarrow> None
      | Some (current_word, rest) \<Rightarrow>
          (let k = mnemonic_find_word current_word in
           if k < 0 then None
           else to_bits_loop (if rest \<noteq> [] then drop 1 rest else rest) (add_bits (nat k) result bi) (bi + 11)))"
  by pat_completeness auto
termination
  by (relation "measure (\<lambda>(s, result, bi). length s)")
    (auto dest!: copy_word_length simp flip: length_greater_0_conv)

declare to_bits_loop.simps [simp del]

definition mnemonic_to_bits :: "u8 list option \<Rightarrow> u8 list \<Rightarrow> int \<times> u8 list" where
  "mnemonic_to_bits mnemonic bits =
     (case mnemonic of None \<Rightarrow> (0, bits)
      | Some s \<Rightarrow>
          (let n = length (filter (\<lambda>c. c = 32) s) + 1 in
           if n < 12 \<or> n > 24 \<or> n mod 3 \<noteq> 0 then (0, bits)
           else case to_bits_loop s (replicate 33 0) 0 of None \<Rightarrow> (0, bits)
           | Some (result, bi) \<Rightarrow> if bi \<noteq> n * 11 then (0, bits) else (int n * 11, result)))"

definition mnemonic_check :: "(u8 list \<Rightarrow> u8 list) \<Rightarrow> u8 list option \<Rightarrow> int" where
  "mnemonic_check sha256 mnemonic =
     (let (mnemonic_bits_len, bits) = mnemonic_to_bits mnemonic (replicate 33 0) in
      if mnemonic_bits_len \<noteq> 12 * 11 \<and> mnemonic_bits_len \<noteq> 18 * 11 \<and> mnemonic_bits_len \<noteq> 24 * 11 then 0
      else let words = mnemonic_bits_len div 11;
               checksum = bits ! nat (words * 4 div 3);
               digest = sha256 (take (nat (words * 4 div 3)) bits) in
        if words = 12 then of_bool (digest ! 0 AND 0xF0 = checksum AND 0xF0)
        else if words = 18 then of_bool (digest ! 0 AND 0xFC = checksum AND 0xFC)
        else if words = 24 then of_bool (digest ! 0 = checksum)
        else 0)"

section \<open>The searches of the keyboard\<close>

definition word_list :: "bool \<Rightarrow> u8 list list" where
  "word_list is_slip39 = (if is_slip39 then SLIP39_WORDLIST else BIP39_WORDLIST_ENGLISH)"

definition word_count :: "bool \<Rightarrow> int" where
  "word_count is_slip39 = (if is_slip39 then 1024 else 2048)"

definition mnemonic_find_first_match_index :: "u8 list \<Rightarrow> nat \<Rightarrow> bool \<Rightarrow> int" where
  "mnemonic_find_first_match_index prefix len is_slip39 =
     (let mid = search (\<lambda>mid. - strncmp (word_list is_slip39 ! mid) prefix len) 0 (word_count is_slip39 - 1) in
      if mid < 0 then - 1
      else int (first_match (\<lambda>m. strncmp (word_list is_slip39 ! m) prefix len = 0) (nat mid)))"

text \<open>The loop over the words from the first match on; the flag tells that the matches fitted.\<close>

fun complete_loop :: "u8 list list \<Rightarrow> u8 list \<Rightarrow> nat \<Rightarrow> u8 list \<Rightarrow> u8 list \<times> bool" where
  "complete_loop [] prefix len result = (result, True)"
| "complete_loop (w # ws) prefix len result =
     (if strncmp w prefix len = 0 then
        if length result + length w < 70 - 1 then complete_loop ws prefix len (result @ w @ [32])
        else (result, False)
      else (result, True))"

text \<open>The new contents of the static buffer, and the pointer returned.\<close>

definition mnemonic_complete_word :: "u8 list \<Rightarrow> int \<Rightarrow> bool \<Rightarrow> u8 list \<times> u8 list option" where
  "mnemonic_complete_word prefix len is_slip39 =
     (if len \<le> 1 then ([], None)
      else let offset = mnemonic_find_first_match_index prefix (nat len) is_slip39 in
        if offset < 0 then ([], None)
        else let (result, fits) = complete_loop (drop (nat offset) (word_list is_slip39)) prefix (nat len) [] in
          (result, if fits \<and> length result > 0 then Some result else None))"

text \<open>The read of \<open>word[len]\<close>, which is outside of the string when the prefix is shorter than \<open>len\<close>.\<close>

definition byte_at :: "u8 list \<Rightarrow> nat \<Rightarrow> u8 option" where
  "byte_at word len = (if len \<le> length word then Some ((word @ [0]) ! len) else None)"

fun completion_loop :: "u8 list list \<Rightarrow> u8 list \<Rightarrow> nat \<Rightarrow> u32 \<Rightarrow> u32 option" where
  "completion_loop [] prefix len res = Some res"
| "completion_loop (word # words) prefix len res =
     (if strncmp word prefix len = 0 then
        case byte_at word len of None \<Rightarrow> None
        | Some c \<Rightarrow> completion_loop words prefix len (if c \<ge> 97 \<and> c \<le> 122 then res OR push_bit (unat c - 97) 1 else res)
      else completion_loop words prefix len res)"

definition mnemonic_word_completion_mask :: "u8 list \<Rightarrow> int \<Rightarrow> bool \<Rightarrow> u32 option" where
  "mnemonic_word_completion_mask prefix len is_slip39 =
     (if len \<le> 0 then Some 0x3ffffff else completion_loop (word_list is_slip39) prefix (nat len) 0)"

section \<open>Seeds and their cache\<close>

record bip39_entry =
  set_flag :: bool
  cached_mnemonic :: "u8 list"
  cached_passphrase :: "u8 list"
  cached_seed :: "u8 list"

record bip39_state =
  bip39_cache :: "bip39_entry list"
  bip39_cache_index :: nat

definition bip39_cache_clear :: bip39_state where
  "bip39_cache_clear =
     \<lparr>bip39_cache = replicate 4 \<lparr>set_flag = False, cached_mnemonic = [], cached_passphrase = [], cached_seed = replicate 64 0\<rparr>,
      bip39_cache_index = 0\<rparr>"

fun cache_lookup :: "bip39_entry list \<Rightarrow> u8 list \<Rightarrow> u8 list \<Rightarrow> u8 list option" where
  "cache_lookup [] mnemonic passphrase = None"
| "cache_lookup (e # es) mnemonic passphrase =
     (if \<not> set_flag e then cache_lookup es mnemonic passphrase
      else if strcmp (cached_mnemonic e) mnemonic \<noteq> 0 then cache_lookup es mnemonic passphrase
      else if strcmp (cached_passphrase e) passphrase \<noteq> 0 then cache_lookup es mnemonic passphrase
      else Some (cached_seed e))"

definition progress_reports :: "bool \<Rightarrow> (nat \<times> nat) list" where
  "progress_reports callback = (if callback then (0, 2048) # map (\<lambda>i. ((i + 1) * 2048 div 16, 2048)) [0..<16] else [])"

definition derive_seed :: "(u8 list \<Rightarrow> u8 list \<Rightarrow> nat \<Rightarrow> 'c) \<Rightarrow> ('c \<Rightarrow> nat \<Rightarrow> 'c) \<Rightarrow> ('c \<Rightarrow> u8 list) \<Rightarrow> u8 list \<Rightarrow> u8 list \<Rightarrow> u8 list" where
  "derive_seed init update final mnemonic passphrase =
     (let passphraselen = min (length passphrase) 256;
          salt = map of_char ''mnemonic'' @ take passphraselen passphrase in
      final (foldl (\<lambda>pctx i. update pctx (2048 div 16)) (init mnemonic salt 1) [0..<16]))"

definition mnemonic_to_seed ::
  "(u8 list \<Rightarrow> u8 list \<Rightarrow> nat \<Rightarrow> 'c) \<Rightarrow> ('c \<Rightarrow> nat \<Rightarrow> 'c) \<Rightarrow> ('c \<Rightarrow> u8 list) \<Rightarrow> bool \<Rightarrow> bip39_state \<Rightarrow> u8 list \<Rightarrow> u8 list
     \<Rightarrow> bip39_state \<times> u8 list \<times> (nat \<times> nat) list" where
  "mnemonic_to_seed init update final callback st mnemonic passphrase =
     (let cacheable = length mnemonic < 256 \<and> min (length passphrase) 256 < 64 in
      case (if cacheable then cache_lookup (bip39_cache st) mnemonic passphrase else None) of
        Some seed \<Rightarrow> (st, seed, [])
      | None \<Rightarrow>
          (let seed = derive_seed init update final mnemonic passphrase;
               st' = (if cacheable then
                  \<lparr>bip39_cache = (bip39_cache st)[bip39_cache_index st :=
                     \<lparr>set_flag = True, cached_mnemonic = mnemonic, cached_passphrase = passphrase, cached_seed = seed\<rparr>],
                   bip39_cache_index = (bip39_cache_index st + 1) mod 4\<rparr>
                else st) in
           (st', seed, progress_reports callback)))"

section \<open>Bits of byte strings\<close>

text \<open>Bit \<open>b\<close> of a byte string, counted from the most significant bit of the first byte.\<close>

definition getbit :: "u8 list \<Rightarrow> nat \<Rightarrow> bool" where
  "getbit xs b = bit (xs ! (b div 8)) (7 - b mod 8)"

lemma bit_bit_mask: "bit (bit_mask b) j \<longleftrightarrow> j = 7 - b mod 8"
  by (auto simp: bit_mask_def bit_simps)

lemma and_bit_mask: "0 < x AND bit_mask b \<longleftrightarrow> bit x (7 - b mod 8)"
  by (simp add: bit_mask_def bit_iff_and_push_bit_not_eq_0 word_neq_0_conv)

lemma bit_position: "7 - a mod 8 = 7 - b mod 8 \<and> a div 8 = b div 8 \<longleftrightarrow> a = (b :: nat)"
proof
  assume "7 - a mod 8 = 7 - b mod 8 \<and> a div 8 = b div 8"
  moreover have "a mod 8 < 8" "b mod 8 < 8" by simp_all
  ultimately have "a mod 8 = b mod 8" "a div 8 = b div 8" by linarith+
  then show "a = b" by (metis div_mult_mod_eq)
qed simp

lemma getbit_set:
  assumes "q div 8 < length xs"
  shows "getbit (xs[q div 8 := xs ! (q div 8) OR bit_mask q]) b \<longleftrightarrow> getbit xs b \<or> b = q"
  using assms bit_position [of b q]
  by (cases "b div 8 = q div 8") (auto simp: getbit_def bit_or_iff bit_bit_mask)

lemma getbit_byte:
  assumes "\<And>j. j < 8 \<Longrightarrow> getbit xs (8 * q + j) = getbit ys (8 * q + j)"
  shows "xs ! q = ys ! q"
proof (rule byte_eqI)
  fix n assume "n \<in> {0, 1, 2, 3, 4, 5, 6, 7 :: nat}"
  then have "n < 8" by auto
  define j where "j = 7 - n"
  with \<open>n < 8\<close> have "j < 8" "n = 7 - j" by simp_all
  with assms [of j] show "bit (xs ! q) n = bit (ys ! q) n" by (simp add: getbit_def)
qed

lemma add_bits_getbit:
  assumes "bi + 11 \<le> 8 * length result"
  shows "length (add_bits k result bi) = length result"
    "getbit (add_bits k result bi) b \<longleftrightarrow> getbit result b \<or> bi \<le> b \<and> b < bi + 11 \<and> bit k (10 - (b - bi))"
proof -
  define F where "F = foldl (\<lambda>result ki. if bit k (10 - ki) then result[(bi + ki) div 8 := result ! ((bi + ki) div 8) OR bit_mask (bi + ki)] else result) result"
  have F: "length (F [0..<n]) = length result \<and>
    (getbit (F [0..<n]) b \<longleftrightarrow> getbit result b \<or> bi \<le> b \<and> b < bi + n \<and> bit k (10 - (b - bi)))" if "n \<le> 11" for n
    using that
  proof (induction n)
    case (Suc n)
    then have "(bi + n) div 8 < length (F [0..<n])" using assms by simp
    from getbit_set [OF this, of b] show ?case
      using Suc by (auto simp: F_def not_less_less_Suc_eq)
  qed (auto simp: F_def)
  show "length (add_bits k result bi) = length result"
    "getbit (add_bits k result bi) b \<longleftrightarrow> getbit result b \<or> bi \<le> b \<and> b < bi + 11 \<and> bit k (10 - (b - bi))"
    using F [of 11] by (simp_all add: add_bits_def F_def)
qed

fun add_words :: "nat list \<Rightarrow> u8 list \<Rightarrow> nat \<Rightarrow> u8 list" where
  "add_words [] result bi = result"
| "add_words (k # ks) result bi = add_words ks (add_bits k result bi) (bi + 11)"

lemma add_words_getbit:
  assumes "bi + 11 * length ks \<le> 8 * length result"
  shows "length (add_words ks result bi) = length result \<and>
    (getbit (add_words ks result bi) b \<longleftrightarrow> getbit result b \<or>
       bi \<le> b \<and> b < bi + 11 * length ks \<and> bit (ks ! ((b - bi) div 11)) (10 - (b - bi) mod 11))"
  using assms
proof (induction ks arbitrary: result bi)
  case (Cons k ks)
  have fits: "bi + 11 \<le> 8 * length result" using Cons.prems by simp
  note step = add_bits_getbit [OF fits, of k]
  consider "b < bi + 11" | "bi + 11 \<le> b" by linarith
  then show ?case
  proof cases
    case 1
    then show ?thesis using Cons.IH [of "bi + 11" "add_bits k result bi"] Cons.prems step
      by auto
  next
    case 2
    then obtain c where "b = bi + 11 + c" by (metis le_Suc_ex)
    then have "(b - bi) div 11 = Suc ((b - (bi + 11)) div 11)" "(b - bi) mod 11 = (b - (bi + 11)) mod 11"
      by simp_all
    then show ?thesis using Cons.IH [of "bi + 11" "add_bits k result bi"] Cons.prems step 2
      by auto
  qed
qed auto

lemma horner_bits:
  fixes f :: "nat \<Rightarrow> bool"
  defines "H n \<equiv> foldl (\<lambda>idx j. push_bit 1 idx + of_bool (f j)) (0 :: nat) [0..<n]"
  shows "H n < 2 ^ n" "j < n \<Longrightarrow> bit (H n) (n - 1 - j) = f j"
proof -
  have HS: "H (Suc n) = 2 * H n + of_bool (f n)" for n by (simp add: H_def push_bit_eq_mult)
  show "H n < 2 ^ n"
  proof (induction n)
    case (Suc n)
    then show ?case by (cases "f n") (simp_all add: HS [of n])
  qed (simp add: H_def)
  show "bit (H n) (n - 1 - j) = f j" if "j < n"
    using that
  proof (induction n)
    case (Suc n)
    show ?case
    proof (cases "j = n")
      case True
      then show ?thesis by (simp add: HS [of n] bit_0)
    next
      case False
      then have "Suc n - 1 - j = Suc (n - 1 - j)" using Suc.prems by simp
      moreover have "(2 * H n + of_bool (f n)) div 2 = H n" by simp
      ultimately show ?thesis using Suc.IH False Suc.prems by (simp only: HS [of n] bit_Suc)
    qed
  qed simp
qed

lemma word_number_bits:
  "word_number bits i < 2048"
  "j < 11 \<Longrightarrow> bit (word_number bits i) (10 - j) = getbit bits (i * 11 + j)"
  using horner_bits(1) [of "\<lambda>j. getbit bits (i * 11 + j)" 11] horner_bits(2) [of j 11 "\<lambda>j. getbit bits (i * 11 + j)"]
  by (simp_all add: word_number_def and_bit_mask getbit_def)

lemma add_word_numbers:
  assumes "11 * n \<le> 8 * l" "b < 8 * l"
  shows "getbit (add_words (map (word_number bits) [0..<n]) (replicate l 0) 0) b \<longleftrightarrow> b < 11 * n \<and> getbit bits b"
proof -
  have "\<not> getbit (replicate l 0) b" using assms(2) by (simp add: getbit_def)
  moreover have "b div 11 * 11 + b mod 11 = b" by simp
  ultimately show ?thesis
    using add_words_getbit [of 0 "map (word_number bits) [0..<n]" "replicate l 0" b] assms
      word_number_bits(2) [of "b mod 11" bits "b div 11"]
    by (auto simp: less_mult_imp_div_less mult.commute)
qed

section \<open>Sentences of words\<close>

fun joined :: "u8 list list \<Rightarrow> u8 list" where
  "joined [] = []"
| "joined [w] = w"
| "joined (w # v # ws) = w @ 32 # joined (v # ws)"

lemma joined_concat:
  "concat (map (\<lambda>i. f i @ (if i < n - 1 then [32] else [])) [m..<n]) = joined (map f [m..<n])"
proof (induction "n - m" arbitrary: m)
  case (Suc d)
  then have IH: "concat (map (\<lambda>i. f i @ (if i < n - 1 then [32] else [])) [Suc m..<n]) = joined (map f [Suc m..<n])"
    by simp
  have m: "[m..<n] = m # [Suc m..<n]" using Suc(2) by (simp add: upt_conv_Cons)
  show ?case
  proof (cases "Suc m < n")
    case True
    then have "[Suc m..<n] = Suc m # [Suc (Suc m)..<n]" by (simp add: upt_conv_Cons)
    then show ?thesis using IH True unfolding m by simp
  next
    case False
    then show ?thesis unfolding m by simp
  qed
qed simp

lemma word_lookup:
  assumes "k < 2048"
  shows "mnemonic_find_word (BIP39_WORDLIST_ENGLISH ! k) = int k"
  using english.search_nth [of k] assms by (simp add: mnemonic_find_word_def bip39_words(1))

lemma listed_word:
  assumes "k < 2048"
  shows "32 \<notin> set (BIP39_WORDLIST_ENGLISH ! k)" "length (BIP39_WORDLIST_ENGLISH ! k) \<le> 8" "BIP39_WORDLIST_ENGLISH ! k \<noteq> []"
    "0 \<notin> set (BIP39_WORDLIST_ENGLISH ! k)"
proof -
  have k: "BIP39_WORDLIST_ENGLISH ! k \<in> set BIP39_WORDLIST_ENGLISH" using assms by (simp add: bip39_words(1))
  show "32 \<notin> set (BIP39_WORDLIST_ENGLISH ! k)" "0 \<notin> set (BIP39_WORDLIST_ENGLISH ! k)"
    using bip39_words(4) [OF k, of 32] bip39_words(4) [OF k, of 0] by auto
  show "length (BIP39_WORDLIST_ENGLISH ! k) \<le> 8" "BIP39_WORDLIST_ENGLISH ! k \<noteq> []"
    using bip39_words(2,3) [OF k] by auto
qed

lemma copy_word_eq:
  "32 \<notin> set w \<Longrightarrow> length v + length w \<le> 9 \<Longrightarrow> rest = [] \<or> hd rest = 32 \<Longrightarrow> copy_word v (w @ rest) = Some (v @ w, rest)"
proof (induction w arbitrary: v)
  case Nil
  then show ?case by (cases rest) auto
qed auto

lemma to_bits_word:
  assumes "k < 2048" "rest = [] \<or> hd rest = 32"
  shows "to_bits_loop (BIP39_WORDLIST_ENGLISH ! k @ rest) result bi = to_bits_loop (drop 1 rest) (add_bits k result bi) (bi + 11)"
  using listed_word [OF assms(1)] copy_word_eq [of "BIP39_WORDLIST_ENGLISH ! k" "[]" rest] assms
  by (subst to_bits_loop.simps) (simp add: word_lookup)

lemma to_bits_joined:
  "\<forall>k \<in> set ks. k < 2048 \<Longrightarrow>
   to_bits_loop (joined (map ((!) BIP39_WORDLIST_ENGLISH) ks)) result bi = Some (add_words ks result bi, bi + 11 * length ks)"
proof (induction ks arbitrary: result bi)
  case Nil
  then show ?case by (simp add: to_bits_loop.simps)
next
  case (Cons k ks)
  define rest where "rest = (if ks = [] then [] else 32 # joined (map ((!) BIP39_WORDLIST_ENGLISH) ks))"
  have "joined (map ((!) BIP39_WORDLIST_ENGLISH) (k # ks)) = BIP39_WORDLIST_ENGLISH ! k @ rest"
    "drop 1 rest = joined (map ((!) BIP39_WORDLIST_ENGLISH) ks)"
    by (cases ks; simp add: rest_def)+
  moreover have "rest = [] \<or> hd rest = 32" by (simp add: rest_def)
  ultimately show ?case using Cons by (simp only: to_bits_word list.set ball_simps) simp
qed

lemma spaces_joined:
  "ks \<noteq> [] \<Longrightarrow> \<forall>k \<in> set ks. k < 2048 \<Longrightarrow>
   length (filter (\<lambda>c. c = 32) (joined (map ((!) BIP39_WORDLIST_ENGLISH) ks))) + 1 = length ks"
proof (induction ks)
  case (Cons k ks)
  have "filter (\<lambda>c. c = 32) (BIP39_WORDLIST_ENGLISH ! k) = []"
    using listed_word(1) [of k] Cons.prems by (auto simp: filter_empty_conv)
  then show ?case using Cons by (cases ks) auto
qed simp

lemma to_bits_sentence:
  assumes "n \<in> {12, 15, 18, 21, 24}" "length ks = n" "\<forall>k \<in> set ks. k < 2048"
  shows "mnemonic_to_bits (Some (joined (map ((!) BIP39_WORDLIST_ENGLISH) ks))) bits = (int n * 11, add_words ks (replicate 33 0) 0)"
proof -
  have "ks \<noteq> []" using assms by auto
  then show ?thesis
    using assms spaces_joined [of ks] to_bits_joined [of ks "replicate 33 0" 0]
    by (auto simp: mnemonic_to_bits_def Let_def)
qed

section \<open>From entropy to words and back\<close>

lemma entropy_bits_nth:
  assumes "length (sha256 (take len data)) = 32" "len \<le> length data" "len \<le> 32" "0 < len"
  shows "q < len \<Longrightarrow> entropy_bits sha256 data len ! q = data ! q"
    "entropy_bits sha256 data len ! len = sha256 (take len data) ! 0"
  using assms by (simp_all add: entropy_bits_def Let_def nth_append)

lemma from_data_sentence:
  assumes "len \<in> {16, 20, 24, 28, 32}"
  shows "mnemonic_from_data sha256 data (int len) =
    Some (joined (map ((!) BIP39_WORDLIST_ENGLISH) (map (word_number (entropy_bits sha256 data len)) [0..<len * 3 div 4])))"
  using assms joined_concat [of "\<lambda>i. BIP39_WORDLIST_ENGLISH ! word_number (entropy_bits sha256 data len) i" "len * 3 div 4" 0]
  by (auto simp: mnemonic_from_data_def Let_def comp_def)

lemma to_bits_from_data:
  assumes "len \<in> {16, 20, 24, 28, 32}" "length (sha256 (take len data)) = 32" "len \<le> length data"
  defines "R \<equiv> add_words (map (word_number (entropy_bits sha256 data len)) [0..<len * 3 div 4]) (replicate 33 0) 0"
  shows "length R = 33" "take len R = take len data"
    "j < 8 \<Longrightarrow> bit (R ! len) (7 - j) \<longleftrightarrow> j < len div 4 \<and> bit (sha256 (take len data) ! 0) (7 - j)"
proof -
  have n: "11 * (len * 3 div 4) = 8 * len + len div 4" "len \<le> 32" "0 < len" "len div 4 \<le> 8" using assms(1) by auto
  then have fits: "11 * (len * 3 div 4) \<le> 8 * 33" by linarith
  note bits = entropy_bits_nth [of sha256 len data, OF assms(2,3) n(2,3)]
  note R = add_word_numbers [OF fits, of _ "entropy_bits sha256 data len", folded R_def]
  show l: "length R = 33"
    using add_words_getbit [of 0 "map (word_number (entropy_bits sha256 data len)) [0..<len * 3 div 4]" "replicate 33 0"] fits
    by (simp add: R_def)
  show "take len R = take len data"
  proof (rule nth_equalityI)
    fix q assume "q < length (take len R)"
    then have q: "q < len" using l n(2) by simp
    have "R ! q = entropy_bits sha256 data len ! q"
    proof (rule getbit_byte)
      fix j :: nat assume "j < 8"
      then have "8 * q + j < 11 * (len * 3 div 4)" "8 * q + j < 8 * 33" using q n by linarith+
      then show "getbit R (8 * q + j) = getbit (entropy_bits sha256 data len) (8 * q + j)"
        by (simp add: R)
    qed
    then show "take len R ! q = take len data ! q" using q by (simp add: bits(1))
  qed (use l n assms(3) in simp)
  assume j: "j < 8"
  then have "8 * len + j < 8 * 33" using n by linarith
  then have "getbit R (8 * len + j) \<longleftrightarrow> j < len div 4 \<and> getbit (entropy_bits sha256 data len) (8 * len + j)"
    by (simp add: R n(1))
  then show "bit (R ! len) (7 - j) \<longleftrightarrow> j < len div 4 \<and> bit (sha256 (take len data) ! 0) (7 - j)"
    using j by (simp add: getbit_def bits(2))
qed

lemma checksum_masks:
  fixes x y :: u8
  shows "(\<And>j. j < 8 \<Longrightarrow> bit y (7 - j) \<longleftrightarrow> j < 4 \<and> bit x (7 - j)) \<Longrightarrow> x AND 0xF0 = y AND 0xF0"
    "(\<And>j. j < 8 \<Longrightarrow> bit y (7 - j) \<longleftrightarrow> j < 6 \<and> bit x (7 - j)) \<Longrightarrow> x AND 0xFC = y AND 0xFC"
    "(\<And>j. j < 8 \<Longrightarrow> bit y (7 - j) \<longleftrightarrow> j < 8 \<and> bit x (7 - j)) \<Longrightarrow> x = y"
proof -
  have flip: "bit y n \<longleftrightarrow> 7 - n < m \<and> bit x n"
    if h: "\<And>j. j < 8 \<Longrightarrow> bit y (7 - j) \<longleftrightarrow> j < m \<and> bit x (7 - j)" and "n < 8" for n m
    using h [of "7 - n"] \<open>n < 8\<close> by (simp add: diff_diff_cancel)
  have masks: "0xF0 = NOT (mask 4 :: u8)" "0xFC = NOT (mask 2 :: u8)" by (simp_all add: mask_eq_exp_minus_1)
  show "x AND 0xF0 = y AND 0xF0" if h: "\<And>j. j < 8 \<Longrightarrow> bit y (7 - j) \<longleftrightarrow> j < 4 \<and> bit x (7 - j)"
    unfolding masks using flip [OF h] by (intro bit_word_eqI) (auto simp: bit_simps)
  show "x AND 0xFC = y AND 0xFC" if h: "\<And>j. j < 8 \<Longrightarrow> bit y (7 - j) \<longleftrightarrow> j < 6 \<and> bit x (7 - j)"
    unfolding masks using flip [OF h] by (intro bit_word_eqI) (auto simp: bit_simps)
  show "x = y" if h: "\<And>j. j < 8 \<Longrightarrow> bit y (7 - j) \<longleftrightarrow> j < 8 \<and> bit x (7 - j)"
    using flip [OF h] by (intro bit_word_eqI) auto
qed

lemma mnemonic_check_from_data:
  assumes "len \<in> {16, 20, 24, 28, 32}" "length (sha256 (take len data)) = 32" "len \<le> length data"
  shows "mnemonic_check sha256 (mnemonic_from_data sha256 data (int len)) = of_bool (len \<in> {16, 24, 32})"
proof -
  define R where "R = add_words (map (word_number (entropy_bits sha256 data len)) [0..<len * 3 div 4]) (replicate 33 0) 0"
  note R = to_bits_from_data [of len sha256 data, OF assms, folded R_def]
  have n: "len * 3 div 4 \<in> {12, 15, 18, 21, 24}" using assms(1) by auto
  have "mnemonic_to_bits (mnemonic_from_data sha256 data (int len)) (replicate 33 0) = (int (len * 3 div 4) * 11, R)"
    unfolding from_data_sentence [OF assms(1)] R_def
    by (rule to_bits_sentence [OF n]) (auto simp: word_number_bits(1))
  then show ?thesis
    using assms(1) checksum_masks [of "R ! len" "sha256 (take len data) ! 0"] R(2,3)
    by (auto simp: mnemonic_check_def)
qed

section \<open>Properties of mnemonics\<close>

lemma mnemonic_read_back_parts:
  assumes "len \<in> {16, 20, 24, 28, 32}" "length (sha256 (take len data)) = 32" "len \<le> length data"
  shows "\<exists>bits. mnemonic_to_bits (mnemonic_from_data sha256 data (int len)) buffer = (int (len * 33 div 4), bits)
      \<and> length bits = 33 \<and> take len bits = take len data"
    "mnemonic_check sha256 (mnemonic_from_data sha256 data (int len)) = of_bool (len \<in> {16, 24, 32})"
proof -
  have n: "len * 3 div 4 \<in> {12, 15, 18, 21, 24}" and len: "int (len * 3 div 4) * 11 = int (len * 33 div 4)"
    using assms(1) by auto
  have "mnemonic_to_bits (mnemonic_from_data sha256 data (int len)) buffer =
      (int (len * 3 div 4) * 11, add_words (map (word_number (entropy_bits sha256 data len)) [0..<len * 3 div 4]) (replicate 33 0) 0)"
    unfolding from_data_sentence [OF assms(1)]
    by (rule to_bits_sentence [OF n]) (auto simp: word_number_bits(1))
  with to_bits_from_data [of len sha256 data, OF assms]
  show "\<exists>bits. mnemonic_to_bits (mnemonic_from_data sha256 data (int len)) buffer = (int (len * 33 div 4), bits)
      \<and> length bits = 33 \<and> take len bits = take len data"
    unfolding len by blast
  show "mnemonic_check sha256 (mnemonic_from_data sha256 data (int len)) = of_bool (len \<in> {16, 24, 32})"
    by (rule mnemonic_check_from_data [of len sha256 data, OF assms])
qed

text \<open>
  C23. For 16, 20, 24, 28 or 32 bytes of data, the words that \<open>mnemonic_from_data\<close> prints are read back by
  \<open>mnemonic_to_bits\<close> as eleven bits per word whose first bytes are the data, whatever the hash
  function is. \<open>mnemonic_check\<close> accepts the words of 16, 24 and 32 bytes, and refuses those of 20 and
  28 bytes, that is, phrases of 15 and 21 words which \<open>mnemonic_from_data\<close> prints.
\<close>

theorem mnemonic_roundtrip:
  assumes "len \<in> {16, 20, 24, 28, 32}" "length (sha256 (take len data)) = 32" "len \<le> length data"
  shows "(\<exists>bits. mnemonic_to_bits (mnemonic_from_data sha256 data (int len)) buffer = (int (len * 33 div 4), bits)
      \<and> length bits = 33 \<and> take len bits = take len data)
    \<and> mnemonic_check sha256 (mnemonic_from_data sha256 data (int len)) = of_bool (len \<in> {16, 24, 32})"
  by (intro conjI mnemonic_read_back_parts assms)

theorem mnemonic_roundtrip_witness:
  "(\<exists>bits. mnemonic_to_bits (mnemonic_from_data (\<lambda>m. replicate 32 7) (replicate 20 3) (int 20)) [] = (165, bits)
      \<and> take 20 bits = replicate 20 3)
   \<and> mnemonic_check (\<lambda>m. replicate 32 7) (mnemonic_from_data (\<lambda>m. replicate 32 7) (replicate 20 3) (int 20)) = 0"
  using mnemonic_roundtrip [of 20 "\<lambda>m. replicate 32 7" "replicate 20 3" "[]"] by auto

section \<open>Completion of words\<close>

lemma word_list_props:
  "sorted_table (word_list b)" "int (length (word_list b)) = word_count b"
  "w \<in> set (word_list b) \<Longrightarrow> length w \<le> 8 \<and> w \<noteq> [] \<and> (\<forall>c \<in> set w. 97 \<le> c \<and> c \<le> 122)"
  using english.sorted_table_axioms slip39_words.sorted_table_axioms bip39_words slip39_words
  by (cases b; force simp: word_list_def word_count_def)+

lemma word_list_zero_free: "k < length (word_list b) \<Longrightarrow> 0 \<notin> set (word_list b ! k)"
  by (rule sorted_table.nth_zero_free [OF word_list_props(1)])

lemma find_first_match:
  fixes len :: nat and b :: bool
  assumes "0 \<notin> set prefix"
  defines "r \<equiv> mnemonic_find_first_match_index prefix len b"
  shows "r = - 1 \<and> (\<forall>w \<in> set (word_list b). take len w \<noteq> take len prefix) \<or>
    (\<exists>k < length (word_list b). r = int k \<and> take len (word_list b ! k) = take len prefix \<and>
       (\<forall>j < k. take len (word_list b ! j) \<noteq> take len prefix))"
proof -
  note sp = sorted_table.search_prefix [OF word_list_props(1) [of b] assms(1), of len, unfolded word_list_props(2)]
  define s where "s = search (\<lambda>mid. - strncmp (word_list b ! mid) prefix len) 0 (word_count b - 1)"
  from sp consider (no) "s = - 1" "\<forall>k < length (word_list b). take len (word_list b ! k) \<noteq> take len prefix"
    | (yes) k where "s = int k" "k < length (word_list b)" "take len (word_list b ! k) = take len prefix"
    unfolding s_def [symmetric] by blast
  then show ?thesis
  proof cases
    case no
    then show ?thesis by (simp add: r_def mnemonic_find_first_match_index_def s_def all_set_conv_all_nth)
  next
    case yes
    have cong: "first_match (\<lambda>m. strncmp (word_list b ! m) prefix len = 0) k = first_match (\<lambda>m. take len (word_list b ! m) = take len prefix) k"
      using yes(2) strncmp_order(1) [OF word_list_zero_free assms(1), of _ b len]
      by (induction k) auto
    define f where "f = first_match (\<lambda>m. take len (word_list b ! m) = take len prefix) k"
    have "r = int f"
      using yes(1) by (simp add: r_def mnemonic_find_first_match_index_def s_def cong f_def)
    moreover note sorted_table.first_match_least [OF word_list_props(1) yes(2,3), folded f_def]
    ultimately show ?thesis using yes(2) by (intro disjI2 exI [of _ f]) auto
  qed
qed

lemma sorted_prefix_block:
  assumes "sorted_table T" "k < length T" "take len (T ! k) = p" "\<forall>j < k. take len (T ! j) \<noteq> p"
  shows "takeWhile (\<lambda>w. take len w = p) (drop k T) = filter (\<lambda>w. take len w = p) T"
proof -
  define n where "n = length (takeWhile (\<lambda>w. take len w = p) (drop k T))"
  have after: "take len (T ! j) \<noteq> p" if j: "k + n \<le> j" "j < length T" for j
  proof
    assume "take len (T ! j) = p"
    then have "take len (T ! (k + n)) = p"
      using sorted_table.prefix_interval [OF assms(1), of k "k + n" j len p] j assms(3) by simp
    moreover have "n < length (drop k T)" using j by simp
    ultimately show False using nth_length_takeWhile [of "\<lambda>w. take len w = p" "drop k T"] by (simp add: n_def)
  qed
  have "filter (\<lambda>w. take len w = p) (take k T) = []"
    unfolding filter_empty_conv
  proof
    fix w assume "w \<in> set (take k T)"
    then obtain j where "j < k" "w = T ! j" by (auto simp: in_set_conv_nth)
    then show "take len w \<noteq> p" using assms(4) by blast
  qed
  moreover have "filter (\<lambda>w. take len w = p) (drop n (drop k T)) = []"
    unfolding filter_empty_conv
  proof
    fix w assume "w \<in> set (drop n (drop k T))"
    then obtain j where j: "j < length (drop n (drop k T))" "w = drop n (drop k T) ! j" by (auto simp: in_set_conv_nth)
    then have "w = T ! (k + n + j)" by (simp add: add.commute add.left_commute)
    then show "take len w \<noteq> p" using after [of "k + n + j"] j(1) by simp
  qed
  then have "filter (\<lambda>w. take len w = p) (dropWhile (\<lambda>w. take len w = p) (drop k T)) = []"
    by (simp only: dropWhile_eq_drop n_def)
  moreover have "filter (\<lambda>w. take len w = p) (takeWhile (\<lambda>w. take len w = p) (drop k T)) = takeWhile (\<lambda>w. take len w = p) (drop k T)"
    by (auto simp: filter_id_conv dest: set_takeWhileD)
  moreover have "T = take k T @ takeWhile (\<lambda>w. take len w = p) (drop k T) @ dropWhile (\<lambda>w. take len w = p) (drop k T)"
    by simp
  ultimately show ?thesis by (metis append.right_neutral append_Nil filter_append)
qed

lemma complete_loop_eq:
  fixes len :: nat
  assumes "0 \<notin> set prefix" "\<forall>w \<in> set ws. 0 \<notin> set w"
  defines "M \<equiv> concat (map (\<lambda>w. w @ [32]) (takeWhile (\<lambda>w. take len w = take len prefix) ws))"
  shows "length (result @ M) \<le> 69 \<Longrightarrow> complete_loop ws prefix len result = (result @ M, True)"
    "69 < length (result @ M) \<Longrightarrow> length result \<le> 69 \<Longrightarrow> \<not> snd (complete_loop ws prefix len result)"
proof -
  note same = strncmp_order(1) [OF _ assms(1), of _ len]
  show "length (result @ M) \<le> 69 \<Longrightarrow> complete_loop ws prefix len result = (result @ M, True)"
    using assms(2) unfolding M_def by (induction ws arbitrary: result) (auto simp: same)
  show "69 < length (result @ M) \<Longrightarrow> length result \<le> 69 \<Longrightarrow> \<not> snd (complete_loop ws prefix len result)"
    using assms(2) unfolding M_def
  proof (induction ws arbitrary: result)
    case (Cons w ws)
    show ?case
    proof (cases "take len w = take len prefix")
      case True
      then show ?thesis using Cons by (simp add: same)
    next
      case False
      then show ?thesis using Cons.prems by simp
    qed
  qed simp
qed

lemma complete_loop_bound: "length result \<le> 69 \<Longrightarrow> length (fst (complete_loop ws prefix len result)) \<le> 69"
  by (induction ws prefix len result rule: complete_loop.induct) auto

lemma mnemonic_complete_word_parts:
  fixes len :: int and is_slip39 :: bool
  assumes "0 \<notin> set prefix"
  defines "matches \<equiv> concat (map (\<lambda>w. w @ [32]) (filter (\<lambda>w. take (nat len) w = take (nat len) prefix) (word_list is_slip39)))"
  shows "snd (mnemonic_complete_word prefix len is_slip39) =
      (if len > 1 \<and> matches \<noteq> [] \<and> length matches < 70 then Some matches else None)"
    "length (fst (mnemonic_complete_word prefix len is_slip39)) < 70"
proof -
  define W where "W = word_list is_slip39"
  have zero: "\<forall>w \<in> set (drop k W). 0 \<notin> set w" for k
    using word_list_props(3) [of _ is_slip39] by (fastforce simp: W_def dest: in_set_dropD)
  note bound = complete_loop_bound [of "[]" "drop k W" prefix "nat len" for k, simplified]
  consider "len \<le> 1" | (no) "len > 1" "mnemonic_find_first_match_index prefix (nat len) is_slip39 = - 1" "\<forall>w \<in> set W. take (nat len) w \<noteq> take (nat len) prefix"
    | (yes) k where "len > 1" "mnemonic_find_first_match_index prefix (nat len) is_slip39 = int k" "k < length W"
        "take (nat len) (W ! k) = take (nat len) prefix" "\<forall>j < k. take (nat len) (W ! j) \<noteq> take (nat len) prefix"
    using find_first_match [OF assms(1), of "nat len" is_slip39] unfolding W_def by (cases "len \<le> 1") force+
  then show "snd (mnemonic_complete_word prefix len is_slip39) =
      (if len > 1 \<and> matches \<noteq> [] \<and> length matches < 70 then Some matches else None)"
  proof cases
    case no
    then have "matches = []" by (simp add: matches_def W_def filter_empty_conv)
    then show ?thesis using no by (simp add: mnemonic_complete_word_def)
  next
    case yes
    note block = sorted_prefix_block [OF word_list_props(1) [of is_slip39, folded W_def] yes(3-5)]
    note loop = complete_loop_eq [OF assms(1) zero, where result = "[]" and len = "nat len", of k, unfolded block]
    show ?thesis
      using loop yes(1,2) by (cases "length matches \<le> 69")
        (auto simp: mnemonic_complete_word_def matches_def W_def [symmetric] split: prod.splits)
  qed (simp add: mnemonic_complete_word_def)
  show "length (fst (mnemonic_complete_word prefix len is_slip39)) < 70"
    using bound [of "nat (mnemonic_find_first_match_index prefix (nat len) is_slip39)"]
    by (auto simp: mnemonic_complete_word_def Let_def W_def split: prod.splits)
qed

text \<open>
  C25. \<open>mnemonic_complete_word\<close>, which bisects the sorted list and then walks along it, returns what
  a scan of the whole list gives: all words that start with the first \<open>len\<close> letters of the prefix,
  each followed by a space, in the order of the list; nothing when there is no such word, when they
  do not fit into the 70 bytes of the static buffer, or when \<open>len\<close> is at most one. The buffer is never
  written past its end.
\<close>

theorem mnemonic_complete_word_spec:
  assumes "0 \<notin> set prefix"
  shows "snd (mnemonic_complete_word prefix len is_slip39) =
      (let matches = concat (map (\<lambda>w. w @ [32]) (filter (\<lambda>w. take (nat len) w = take (nat len) prefix) (word_list is_slip39))) in
       if len > 1 \<and> matches \<noteq> [] \<and> length matches < 70 then Some matches else None)
    \<and> length (fst (mnemonic_complete_word prefix len is_slip39)) < 70"
  unfolding Let_def by (intro conjI mnemonic_complete_word_parts assms)

theorem mnemonic_complete_word_spec_witness:
  "length (fst (mnemonic_complete_word (map of_char ''ze'') 2 False)) < 70"
  using mnemonic_complete_word_spec [of "map of_char ''ze''" 2 False] by simp

lemma completion_loop_eq:
  assumes "0 \<notin> set prefix" "len \<le> length prefix" "\<forall>w \<in> set ws. 0 \<notin> set w"
  shows "\<exists>m. completion_loop ws prefix len res = Some m \<and>
    (\<forall>k. bit m k \<longleftrightarrow> bit res k \<or> k < 26 \<and>
      (\<exists>w \<in> set ws. take len w = take len prefix \<and> len < length w \<and> unat (w ! len) = 97 + k))"
  using assms(3)
proof (induction ws arbitrary: res)
  case (Cons w ws)
  note IH = Cons.IH [OF Cons.prems [simplified, THEN conjunct2]]
  have match: "strncmp w prefix len = 0 \<longleftrightarrow> take len w = take len prefix"
    using strncmp_order(1) [OF _ assms(1)] Cons.prems by simp
  show ?case
  proof (cases "take len w = take len prefix")
    case True
    then have l: "len \<le> length w" using assms(2) by (metis length_take min.absorb2 min.cobounded1)
    define c where "c = (w @ [0]) ! len"
    define res' where "res' = (if c \<ge> 97 \<and> c \<le> 122 then res OR push_bit (unat c - 97) 1 else res)"
    have letter: "c \<ge> 97 \<and> c \<le> 122 \<longleftrightarrow> len < length w \<and> (\<exists>k < 26. unat (w ! len) = 97 + k)"
    proof -
      have "c \<ge> 97 \<and> c \<le> 122 \<longleftrightarrow> (\<exists>k < 26. unat c = 97 + k)"
        by (auto simp: word_le_nat_alt intro: exI [of _ "unat c - 97"])
      then show ?thesis using l by (auto simp: c_def nth_append)
    qed
    have bits: "bit res' k \<longleftrightarrow> bit res k \<or> k < 26 \<and> len < length w \<and> unat (w ! len) = 97 + k" for k
      using letter by (auto simp: res'_def bit_simps c_def nth_append)
    have "completion_loop (w # ws) prefix len res = completion_loop ws prefix len res'"
      using True l by (simp add: match byte_at_def c_def res'_def)
    with IH [of res'] show ?thesis using True by (auto simp: bits)
  next
    case False
    with IH [of res] show ?thesis by (auto simp: match)
  qed
qed simp

text \<open>
  For a prefix of at least \<open>len\<close> letters, \<open>len\<close> positive, the mask of
  \<open>mnemonic_word_completion_mask\<close> is defined (no byte outside of a word is read) and has bit \<open>k\<close> set
  exactly when some word of the list continues the prefix with the letter number \<open>k\<close> of the alphabet.
\<close>

theorem mnemonic_word_completion_mask_spec:
  assumes "0 \<notin> set prefix" "0 < len" "len \<le> length prefix"
  shows "\<exists>m. mnemonic_word_completion_mask prefix (int len) is_slip39 = Some m \<and>
    (\<forall>k. bit m k \<longleftrightarrow> k < 26 \<and>
      (\<exists>w \<in> set (word_list is_slip39). take len w = take len prefix \<and> len < length w \<and> unat (w ! len) = 97 + k))"
proof -
  have "\<forall>w \<in> set (word_list is_slip39). 0 \<notin> set w"
    using word_list_props(3) [of _ is_slip39] by fastforce
  from completion_loop_eq [OF assms(1,3) this, of 0] show ?thesis
    using assms(2) by (simp add: mnemonic_word_completion_mask_def)
qed

theorem mnemonic_word_completion_mask_spec_witness:
  "\<exists>m. mnemonic_word_completion_mask (map of_char ''zo'') (int 2) False = Some m \<and>
    (\<forall>k. bit m k \<longleftrightarrow> k < 26 \<and>
      (\<exists>w \<in> set (word_list False). take 2 w = take 2 (map of_char ''zo'') \<and> 2 < length w \<and> unat (w ! 2) = 97 + k))"
  by (rule mnemonic_word_completion_mask_spec) simp_all

section \<open>The cache of seeds\<close>

definition cache_ok :: "(u8 list \<Rightarrow> u8 list \<Rightarrow> u8 list) \<Rightarrow> bip39_state \<Rightarrow> bool" where
  "cache_ok derive st \<longleftrightarrow> length (bip39_cache st) = 4 \<and> bip39_cache_index st < 4 \<and>
     (\<forall>e \<in> set (bip39_cache st). set_flag e \<longrightarrow>
        0 \<notin> set (cached_mnemonic e) \<and> 0 \<notin> set (cached_passphrase e) \<and>
        length (cached_mnemonic e) < 256 \<and> length (cached_passphrase e) < 64 \<and>
        cached_seed e = derive (cached_mnemonic e) (cached_passphrase e))"

lemma cache_lookup_Some:
  assumes "\<forall>e \<in> set es. set_flag e \<longrightarrow> 0 \<notin> set (cached_mnemonic e) \<and> 0 \<notin> set (cached_passphrase e) \<and>
      cached_seed e = derive (cached_mnemonic e) (cached_passphrase e)"
    "0 \<notin> set m" "0 \<notin> set p"
  shows "cache_lookup es m p = Some s \<Longrightarrow> s = derive m p"
    "e \<in> set es \<Longrightarrow> set_flag e \<Longrightarrow> cached_mnemonic e = m \<Longrightarrow> cached_passphrase e = p \<Longrightarrow> cache_lookup es m p \<noteq> None"
  using assms by (induction es) (auto simp: strcmp_order split: if_splits)

lemma mnemonic_to_seed_correct:
  assumes "cache_ok (derive_seed init update final) st" "0 \<notin> set mnemonic" "0 \<notin> set passphrase"
  shows "\<exists>st' reports. mnemonic_to_seed init update final callback st mnemonic passphrase =
      (st', derive_seed init update final mnemonic passphrase, reports) \<and>
      cache_ok (derive_seed init update final) st' \<and>
      (length mnemonic < 256 \<and> length passphrase < 64 \<longrightarrow> cache_lookup (bip39_cache st') mnemonic passphrase \<noteq> None)"
proof -
  let ?d = "derive_seed init update final"
  define new where "new = \<lparr>set_flag = True, cached_mnemonic = mnemonic, cached_passphrase = passphrase, cached_seed = ?d mnemonic passphrase\<rparr>"
  define st' where "st' = \<lparr>bip39_cache = (bip39_cache st)[bip39_cache_index st := new], bip39_cache_index = (bip39_cache_index st + 1) mod 4\<rparr>"
  have entries: "\<forall>e \<in> set (bip39_cache st). set_flag e \<longrightarrow> 0 \<notin> set (cached_mnemonic e) \<and> 0 \<notin> set (cached_passphrase e) \<and>
      cached_seed e = ?d (cached_mnemonic e) (cached_passphrase e)"
    using assms(1) by (simp add: cache_ok_def)
  show ?thesis
  proof (cases "length mnemonic < 256 \<and> length passphrase < 64")
    case True
    show ?thesis
    proof (cases "cache_lookup (bip39_cache st) mnemonic passphrase")
      case (Some s)
      with cache_lookup_Some(1) [OF entries assms(2,3)] have "s = ?d mnemonic passphrase" by blast
      then show ?thesis using True Some assms(1) by (simp add: mnemonic_to_seed_def)
    next
      case None
      have "cache_ok ?d st'"
        using assms True by (auto simp: cache_ok_def st'_def new_def dest: set_update_subset_insert [THEN subsetD])
      moreover from this have "cache_lookup (bip39_cache st') mnemonic passphrase \<noteq> None"
        using assms(1) by (intro cache_lookup_Some(2) [of _ ?d, where e = new] assms(2,3))
          (auto simp: cache_ok_def st'_def new_def set_update_memI)
      ultimately show ?thesis using True None
        by (auto simp: mnemonic_to_seed_def Let_def st'_def new_def)
    qed
  next
    case False
    then have "\<not> (length mnemonic < 256 \<and> min (length passphrase) 256 < 64)" by auto
    then show ?thesis using False assms(1) by (auto simp: mnemonic_to_seed_def Let_def)
  qed
qed

lemma mnemonic_to_seed_parts:
  assumes "cache_ok (derive_seed init update final) st" "0 \<notin> set mnemonic" "0 \<notin> set passphrase"
    and "mnemonic_to_seed init update final callback st mnemonic passphrase = (st', seed, reports)"
  shows "cache_ok (derive_seed init update final) bip39_cache_clear" "cache_ok (derive_seed init update final) st'"
    "seed = derive_seed init update final mnemonic passphrase"
    "length mnemonic < 256 \<Longrightarrow> length passphrase < 64 \<Longrightarrow>
       mnemonic_to_seed init update final callback st' mnemonic passphrase = (st', seed, [])"
proof -
  note c = mnemonic_to_seed_correct [OF assms(1-3), of callback]
  show "cache_ok (derive_seed init update final) bip39_cache_clear" by (simp add: cache_ok_def bip39_cache_clear_def)
  show ok: "cache_ok (derive_seed init update final) st'" and s: "seed = derive_seed init update final mnemonic passphrase"
    using c assms(4) by auto
  assume fits: "length mnemonic < 256" "length passphrase < 64"
  then obtain s' where s': "cache_lookup (bip39_cache st') mnemonic passphrase = Some s'" using c assms(4) by auto
  then have "s' = seed"
    using cache_lookup_Some(1) [OF _ assms(2,3), of "bip39_cache st'" "derive_seed init update final"] ok s
    by (simp add: cache_ok_def)
  then show "mnemonic_to_seed init update final callback st' mnemonic passphrase = (st', seed, [])"
    using s' fits by (simp add: mnemonic_to_seed_def)
qed

text \<open>
  C24. The cache of \<open>mnemonic_to_seed\<close> is transparent: it is empty after \<open>bip39_cache_clear\<close>, and from then
  on every call returns the seed PBKDF2 gives for this mnemonic and passphrase, whatever was
  derived before and whether the result was cached or not. A second call with a mnemonic and
  passphrase that fit the cache returns the same seed without a single progress report, that is,
  without deriving it again.
\<close>

theorem mnemonic_to_seed_spec:
  assumes "cache_ok (derive_seed init update final) st" "0 \<notin> set mnemonic" "0 \<notin> set passphrase"
    and "mnemonic_to_seed init update final callback st mnemonic passphrase = (st', seed, reports)"
  shows "cache_ok (derive_seed init update final) bip39_cache_clear \<and> cache_ok (derive_seed init update final) st'
    \<and> seed = derive_seed init update final mnemonic passphrase
    \<and> (length mnemonic < 256 \<and> length passphrase < 64 \<longrightarrow>
         mnemonic_to_seed init update final callback st' mnemonic passphrase = (st', seed, []))"
  using mnemonic_to_seed_parts [OF assms] by blast

theorem mnemonic_to_seed_spec_witness:
  "snd (snd (mnemonic_to_seed (\<lambda>p s b. p @ s) (\<lambda>c n. rev c) (\<lambda>c. c) True
     (fst (mnemonic_to_seed (\<lambda>p s b. p @ s) (\<lambda>c n. rev c) (\<lambda>c. c) True bip39_cache_clear [1, 2] [3])) [1, 2] [3])) = []"
  using mnemonic_to_seed_spec [of "\<lambda>p s b. p @ s" "\<lambda>c n. rev c" "\<lambda>c. c" bip39_cache_clear "[1, 2]" "[3]" True]
  by (cases "mnemonic_to_seed (\<lambda>p s b. p @ s) (\<lambda>c n. rev c) (\<lambda>c. c) True bip39_cache_clear [1, 2] [3]")
    (simp add: cache_ok_def bip39_cache_clear_def)

end
