(* ===== verification/Slip39.thy ===== *)
theory Slip39
  imports Slip39_Words
begin

text \<open>
  \<open>crypto/slip39.c\<close>: the words of SLIP-39 by number, the number of a word, and the search by the
  buttons of a telephone keypad. Positions in the tables are naturals (they stay below 1024),
  sequences of buttons keep the sixteen bits of the code.
\<close>

definition SLIP39_WORD_COUNT :: nat where "SLIP39_WORD_COUNT = 1024"

definition get_word :: "u16 \<Rightarrow> u8 list option" where
  "get_word index = (if unat index \<ge> SLIP39_WORD_COUNT then None else Some (SLIP39_WORDLIST ! unat index))"

definition word_index :: "u8 list \<Rightarrow> u8 \<Rightarrow> u16 option" where
  "word_index word word_length =
     (let lo = fst (bisect (\<lambda>mid. strncmp (SLIP39_WORDLIST ! mid) word (unat word_length) > 0) 0 SLIP39_WORD_COUNT) in
      if strncmp (SLIP39_WORDLIST ! lo) word (unat word_length) \<noteq> 0 then None else Some (word_of_nat lo))"

definition find_sequence :: "u16 \<Rightarrow> nat" where
  "find_sequence sequence =
     (if sequence \<le> fst (words_button_seq ! 0) then 0
      else snd (bisect (\<lambda>mid. fst (words_button_seq ! mid) \<ge> sequence) 0 SLIP39_WORD_COUNT))"

text \<open>
  The loop that pads a sequence to four digits, for a sequence that is not zero; its measure is the
  distance of the sequence to 1000.
\<close>

function scale_sequence :: "u16 \<Rightarrow> u16 \<Rightarrow> u16 \<times> u16" where
  "scale_sequence sequence multiplier =
     (if sequence = 0 then (sequence, multiplier)
      else if sequence < 1000 then scale_sequence (sequence * 10) (multiplier * 10)
      else (sequence, multiplier))"
  by pat_completeness auto
termination
proof (relation "measure (\<lambda>(s, m). 1000 - unat s)")
  fix s m :: u16
  assume "s \<noteq> 0" "s < 1000"
  then have "unat (s * 10) = unat s * 10" "0 < unat s" "unat s < 1000"
    by (simp_all add: word_less_nat_alt unat_word_ariths unat_gt_0)
  then show "((s * 10, m * 10), s, m) \<in> measure (\<lambda>(s, m). 1000 - unat s)" by simp
qed simp

declare scale_sequence.simps [simp del]

definition button_sequence_to_word :: "u16 \<Rightarrow> u8 list option" where
  "button_sequence_to_word sequence =
     (if sequence = 0 then Some (SLIP39_WORDLIST ! unat (snd (words_button_seq ! 0)))
      else let (sequence, multiplier) = scale_sequence sequence 1;
               i = find_sequence sequence in
        if i \<ge> SLIP39_WORD_COUNT \<or> int (unat (fst (words_button_seq ! i))) - int (unat sequence) \<ge> int (unat multiplier) then None
        else Some (SLIP39_WORDLIST ! unat (snd (words_button_seq ! i))))"

text \<open>The range of sequences with a prefix; the loop ends as the past bound passes 1000.\<close>

function prefix_range :: "u16 \<Rightarrow> u16 \<Rightarrow> u16 \<Rightarrow> u16 \<times> u16 \<times> u16" where
  "prefix_range first past divider =
     (if past = 0 then (first, past, divider)
      else if past \<le> 1000 then prefix_range (first * 10) (past * 10) (divider * 10)
      else (first, past, divider))"
  by pat_completeness auto
termination
proof (relation "measure (\<lambda>(a, b, d). 1001 - unat b)")
  fix a b d :: u16
  assume "b \<noteq> 0" "b \<le> 1000"
  then have "unat (b * 10) = unat b * 10" "0 < unat b" "unat b \<le> 1000"
    by (simp_all add: word_le_nat_alt unat_word_ariths unat_gt_0)
  then show "((a * 10, b * 10, d * 10), a, b, d) \<in> measure (\<lambda>(a, b, d). 1001 - unat b)" by simp
qed simp

declare prefix_range.simps [simp del]

definition slip39_word_completion_mask :: "u16 \<Rightarrow> u16" where
  "slip39_word_completion_mask prefix =
     (if prefix \<ge> 1000 then 0
      else let (first, past, divider) = prefix_range prefix (prefix + 1) 1;
               divider = divider div 10 in
        foldl (\<lambda>bitmap i. let digit = fst (words_button_seq ! i) div divider mod 10 in bitmap OR push_bit (unat digit - 1) 1)
          0 [find_sequence first..<find_sequence past])"

section \<open>The table of buttons\<close>

lemma buttons_ok_seq:
  assumes "buttons_ok p es"
  shows "\<forall>e \<in> set es. p < fst e \<and> button_digits (fst e) \<and> snd e < 1024" "sorted_wrt (<) (map fst es)"
  using assms by (induction es arbitrary: p) (auto dest: less_trans, fastforce)

lemma words_button_seq:
  "length words_button_seq = 1024"
  "k < m \<Longrightarrow> m < 1024 \<Longrightarrow> fst (words_button_seq ! k) < fst (words_button_seq ! m)"
  "k < 1024 \<Longrightarrow> button_digits (unat (fst (words_button_seq ! k)))"
  "k < 1024 \<Longrightarrow> unat (snd (words_button_seq ! k)) < 1024"
proof -
  obtain es where es: "words_button_seq = map (map_prod word_of_nat word_of_nat) es" "buttons_ok 0 es" "length es = 1024"
    using words_button_seq_table by blast
  show "length words_button_seq = 1024" by (simp add: es)
  note ok = buttons_ok_seq [OF es(2)]
  have small: "unat (word_of_nat n :: u16) = n" if "n < 10000" for n using that by (simp add: unat_of_nat)
  have nth: "fst (es ! k) < 10000 \<and> button_digits (fst (es ! k)) \<and> snd (es ! k) < 1024 \<and> snd (es ! k) < 10000" if "k < 1024" for k
    using bspec [OF ok(1) nth_mem [of k es]] es(3) that by (simp add: button_digits_def)
  then show "k < 1024 \<Longrightarrow> button_digits (unat (fst (words_button_seq ! k)))"
    "k < 1024 \<Longrightarrow> unat (snd (words_button_seq ! k)) < 1024"
    using small by (auto simp: es)
  assume km: "k < m" "m < 1024"
  with sorted_wrt_nth_less [OF ok(2), of k m] es(3) have "fst (es ! k) < fst (es ! m)" by simp
  then show "fst (words_button_seq ! k) < fst (words_button_seq ! m)"
    using km nth [of k] nth [of m] small by (simp add: es word_less_nat_alt)
qed

lemma find_sequence_spec:
  "find_sequence s \<le> 1024"
  "k < 1024 \<Longrightarrow> k < find_sequence s \<longleftrightarrow> fst (words_button_seq ! k) < s"
proof -
  let ?up = "\<lambda>mid. fst (words_button_seq ! mid) \<ge> s"
  obtain l where l: "bisect ?up 0 1024 = (l, Suc l)" "Suc l \<le> 1024" "l = 0 \<or> \<not> ?up l" "Suc l = 1024 \<or> ?up (Suc l)"
    by (rule bisect_spec [of 0 1024 ?up]) auto
  have mono: "fst (words_button_seq ! j) \<le> fst (words_button_seq ! k)" if "j \<le> k" "k < 1024" for j k
    using words_button_seq(2) [of j k] that by (cases "j = k") auto
  consider "s \<le> fst (words_button_seq ! 0)" | "fst (words_button_seq ! 0) < s" by force
  then have "find_sequence s \<le> 1024 \<and> (k < 1024 \<longrightarrow> (k < find_sequence s \<longleftrightarrow> fst (words_button_seq ! k) < s))" for k
  proof cases
    case 1
    then show ?thesis using mono [of 0 k] by (auto simp: find_sequence_def)
  next
    case 2
    then have "find_sequence s = Suc l" by (auto simp: find_sequence_def SLIP39_WORD_COUNT_def l(1))
    moreover have "fst (words_button_seq ! k) < s" if "k \<le> l" using mono [of k l] that l(2,3) 2 by auto
    moreover have "s \<le> fst (words_button_seq ! k)" if "Suc l \<le> k" "k < 1024" using mono [of "Suc l" k] that l(2,4) by auto
    ultimately show ?thesis using l(2) by (cases "k \<le> l") (auto simp: not_le [symmetric])
  qed
  then show "find_sequence s \<le> 1024" "k < 1024 \<Longrightarrow> k < find_sequence s \<longleftrightarrow> fst (words_button_seq ! k) < s" by blast+
qed

lemma find_sequence_le: "k < 1024 \<Longrightarrow> find_sequence s \<le> k \<longleftrightarrow> unat s \<le> unat (fst (words_button_seq ! k))"
  using find_sequence_spec(2) [of k s] by (simp add: not_less [symmetric] word_less_nat_alt)

lemma find_sequence_less: "k < 1024 \<Longrightarrow> k < find_sequence s \<longleftrightarrow> unat (fst (words_button_seq ! k)) < unat s"
  using find_sequence_spec(2) [of k s] by (simp add: word_less_nat_alt)

lemma less_power_multD: "x * 10 ^ e < b \<Longrightarrow> x < b" "10 ^ e * x < b \<Longrightarrow> x < b" for x b :: nat
proof -
  have "x \<le> x * 10 ^ e" by simp
  then show "x * 10 ^ e < b \<Longrightarrow> x < b" "10 ^ e * x < b \<Longrightarrow> x < b" by (simp_all only: mult.commute [of "10 ^ e"])
qed

lemma scale_sequence_eq:
  "0 < unat s \<Longrightarrow> 1000 \<le> unat s * 10 ^ e \<Longrightarrow> unat s * 10 ^ e < 10000 \<Longrightarrow> unat m * 10 ^ e < 10000 \<Longrightarrow>
   scale_sequence s m = (s * 10 ^ e, m * 10 ^ e)"
proof (induction e arbitrary: s m)
  case 0
  then show ?case by (subst scale_sequence.simps) (auto simp: word_less_nat_alt)
next
  case (Suc e)
  have "unat s * 10 ^ e < 1000" "unat m * 10 ^ e < 1000" using Suc.prems(3,4) by simp_all
  then have small: "unat s * 10 < 10000" "unat m * 10 < 10000" by (auto dest: less_power_multD)
  then have ten: "unat (s * 10) = unat s * 10" "unat (m * 10) = unat m * 10" by (simp_all add: unat_word_ariths)
  have "s \<noteq> 0" "s < 1000" using Suc.prems(1) small by (auto simp: word_less_nat_alt)
  then have "scale_sequence s m = scale_sequence (s * 10) (m * 10)" by (subst scale_sequence.simps) simp
  also have "\<dots> = (s * 10 * 10 ^ e, m * 10 * 10 ^ e)"
    using Suc.prems by (intro Suc.IH) (simp_all add: ten mult.assoc)
  finally show ?case by (simp add: mult.assoc)
qed

lemma prefix_range_eq:
  "0 < unat b \<Longrightarrow> 1000 < unat b * 10 ^ e \<Longrightarrow> unat b * 10 ^ e \<le> 10000 \<Longrightarrow>
   prefix_range a b d = (a * 10 ^ e, b * 10 ^ e, d * 10 ^ e)"
proof (induction e arbitrary: a b d)
  case 0
  then show ?case by (subst prefix_range.simps) (auto simp: word_le_nat_alt)
next
  case (Suc e)
  have "unat b * 10 ^ e < 1001" using Suc.prems(3) by simp
  then have small: "unat b * 10 \<le> 10000" by (auto dest: less_power_multD)
  then have ten: "unat (b * 10) = unat b * 10" by (simp add: unat_word_ariths)
  have "b \<noteq> 0" "b \<le> 1000" using Suc.prems(1) small by (auto simp: word_le_nat_alt)
  then have "prefix_range a b d = prefix_range (a * 10) (b * 10) (d * 10)" by (subst prefix_range.simps) simp
  also have "\<dots> = (a * 10 * 10 ^ e, b * 10 * 10 ^ e, d * 10 * 10 ^ e)"
    using Suc.prems by (intro Suc.IH) (simp_all add: ten mult.assoc)
  finally show ?case by (simp add: mult.assoc)
qed

lemma unat_mult_power:
  fixes s :: u16
  assumes "unat s * 10 ^ e \<le> 10000" "e \<le> 4"
  shows "unat (s * 10 ^ e) = unat s * 10 ^ e"
proof -
  have "(10 :: nat) ^ e \<le> 10 ^ 4" using assms(2) by (intro power_increasing) simp_all
  then have p: "unat (10 ^ e :: u16) = 10 ^ e"
    using unat_of_nat [of "10 ^ e", where 'a = 16] by (simp add: take_bit_nat_eq_self)
  show ?thesis using assms(1) by (subst unat_mult_lem [THEN iffD1]) (simp_all add: p)
qed

lemma div_eq_range: "0 < m \<Longrightarrow> (x :: nat) div m = q \<longleftrightarrow> q * m \<le> x \<and> x < (q + 1) * m"
  using div_nat_eqI [of m q x] dividend_less_times_div [of m x] times_div_less_eq_dividend [of m x]
  by (auto simp: mult.commute)

lemma digits_left:
  fixes prefix :: u16
  assumes "prefix = 0 \<and> f = 3 \<or> 1000 \<le> unat prefix * 10 ^ Suc f \<and> unat prefix * 10 ^ Suc f < 10000"
  shows "unat prefix < 1000" "f \<le> 3" "1000 < (unat prefix + 1) * 10 ^ Suc f" "(unat prefix + 1) * 10 ^ Suc f \<le> 10000"
proof -
  have f: "f \<le> 3"
  proof (rule ccontr)
    assume "\<not> f \<le> 3"
    then have "10 ^ 5 \<le> (10 :: nat) ^ Suc f" by (intro power_increasing) simp_all
    moreover have "0 < unat prefix" "f \<noteq> 3" using assms \<open>\<not> f \<le> 3\<close> by (auto intro: gr0I)
    ultimately have "1 * 10 ^ 5 \<le> unat prefix * 10 ^ Suc f" by (intro mult_le_mono) simp_all
    then show False using assms \<open>\<not> f \<le> 3\<close> by simp
  qed
  then have "f = 0 \<or> f = 1 \<or> f = 2 \<or> f = 3" by linarith
  then show "unat prefix < 1000" "f \<le> 3" "1000 < (unat prefix + 1) * 10 ^ Suc f" "(unat prefix + 1) * 10 ^ Suc f \<le> 10000"
    using assms by auto
qed

lemma next_digit:
  fixes x :: nat
  assumes "0 < x div 10 ^ f mod 10"
  shows "x div 10 ^ Suc f = p \<and> x div 10 ^ f mod 10 - 1 = k \<longleftrightarrow> k < 9 \<and> x div 10 ^ f = 10 * p + (k + 1)"
proof -
  define y where "y = x div 10 ^ f"
  have "x div 10 ^ Suc f = y div 10" by (simp only: y_def power_Suc2 div_mult2_eq)
  moreover have "y div 10 = p \<and> y mod 10 - 1 = k \<longleftrightarrow> k < 9 \<and> y = 10 * p + (k + 1)" if "0 < y mod 10"
    using that by (auto; presburger)
  ultimately show ?thesis using assms by (simp add: y_def)
qed

lemma slip39_nth:
  assumes "k < 1024"
  shows "length (SLIP39_WORDLIST ! k) \<le> 8" "0 \<notin> set (SLIP39_WORDLIST ! k)"
  using assms slip39_words(1) slip39_words(3) [of "SLIP39_WORDLIST ! k"] slip39_words.nth_zero_free [of k] by auto

lemma word_index_eq:
  fixes n :: u8
  assumes "0 \<notin> set word"
  defines "lo \<equiv> fst (bisect (\<lambda>mid. 0 < strncmp (SLIP39_WORDLIST ! mid) word (unat n)) 0 1024)"
  shows "lo < 1024"
    "word_index word n = (if take (unat n) (SLIP39_WORDLIST ! lo) = take (unat n) word then Some (word_of_nat lo) else None)"
    "take (unat n) (SLIP39_WORDLIST ! lo) = take (unat n) word \<longleftrightarrow> (\<exists>k < 1024. take (unat n) (SLIP39_WORDLIST ! k) = take (unat n) word)"
    "k < 1024 \<Longrightarrow> take (unat n) (SLIP39_WORDLIST ! k) = take (unat n) word \<Longrightarrow> k \<le> lo"
proof -
  have ne: "SLIP39_WORDLIST \<noteq> []" using slip39_words(1) by auto
  note b = slip39_words.bisect_prefix [OF assms(1) ne, where n = "unat n", unfolded slip39_words(1), folded lo_def]
  show "lo < 1024" by (rule b(1))
  show "take (unat n) (SLIP39_WORDLIST ! lo) = take (unat n) word \<longleftrightarrow> (\<exists>k < 1024. take (unat n) (SLIP39_WORDLIST ! k) = take (unat n) word)"
    by (rule b(2))
  show "k < 1024 \<Longrightarrow> take (unat n) (SLIP39_WORDLIST ! k) = take (unat n) word \<Longrightarrow> k \<le> lo" by (rule b(3))
  have "strncmp (SLIP39_WORDLIST ! lo) word (unat n) = 0 \<longleftrightarrow> take (unat n) (SLIP39_WORDLIST ! lo) = take (unat n) word"
    using strncmp_order(1) [OF slip39_words.nth_zero_free assms(1)] b(1) slip39_words(1) by simp
  then show "word_index word n = (if take (unat n) (SLIP39_WORDLIST ! lo) = take (unat n) word then Some (word_of_nat lo) else None)"
    by (simp add: word_index_def SLIP39_WORD_COUNT_def Let_def lo_def [symmetric])
qed

section \<open>Properties\<close>

lemma button_sequence_to_word_parts:
  assumes "1000 \<le> unat s * 10 ^ e" "unat s * 10 ^ e < 10000"
  defines "starts k \<equiv> unat (fst (words_button_seq ! k)) div 10 ^ e = unat s"
  shows "button_sequence_to_word s = None \<longleftrightarrow> (\<forall>k < 1024. \<not> starts k)"
    "k < 1024 \<Longrightarrow> starts k \<Longrightarrow> (\<And>j. j < k \<Longrightarrow> \<not> starts j) \<Longrightarrow>
     button_sequence_to_word s = Some (SLIP39_WORDLIST ! unat (snd (words_button_seq ! k)))"
proof -
  have s: "0 < unat s" using assms(1) by (cases "unat s = 0") auto
  have "10 ^ e \<le> unat s * 10 ^ e" using s by simp
  from this assms(2) have "10 ^ e < (10000 :: nat)" by (rule le_less_trans)
  then have e: "e \<le> 4" "unat (1 :: u16) * 10 ^ e < 10000"
    using power_strict_increasing_iff [of "10 :: nat" e 4] by simp_all
  define i where "i = find_sequence (s * 10 ^ e)"
  note us = unat_mult_power [OF less_imp_le [OF assms(2)] e(1)]
  have um: "unat (10 ^ e :: u16) = 10 ^ e" using unat_mult_power [of 1 e] e by simp
  have S: "starts k \<longleftrightarrow> unat s * 10 ^ e \<le> unat (fst (words_button_seq ! k)) \<and> unat (fst (words_button_seq ! k)) < (unat s + 1) * 10 ^ e" for k
    unfolding starts_def by (rule div_eq_range) simp
  have below: "i \<le> k" if "k < 1024" "starts k" for k
    using that find_sequence_le [of k "s * 10 ^ e"] by (simp add: S i_def us)
  have mono: "unat (fst (words_button_seq ! i)) \<le> unat (fst (words_button_seq ! k))" if "i \<le> k" "k < 1024" for k
    using that words_button_seq(2) [of i k] by (cases "i = k") (auto simp: word_less_nat_alt)
  have at: "starts i \<longleftrightarrow> unat (fst (words_button_seq ! i)) < (unat s + 1) * 10 ^ e" if "i < 1024"
    using that find_sequence_le [of i "s * 10 ^ e"] by (simp add: S i_def us)
  have result: "button_sequence_to_word s = (if i < 1024 \<and> starts i then Some (SLIP39_WORDLIST ! unat (snd (words_button_seq ! i))) else None)"
  proof -
    have "s \<noteq> 0" using s by auto
    then have "button_sequence_to_word s =
        (if i \<ge> 1024 \<or> int (unat (fst (words_button_seq ! i))) - int (unat s * 10 ^ e) \<ge> int (10 ^ e) then None
         else Some (SLIP39_WORDLIST ! unat (snd (words_button_seq ! i))))"
      unfolding button_sequence_to_word_def scale_sequence_eq [OF s assms(1,2) e(2)] Let_def prod.case mult_1_left
        SLIP39_WORD_COUNT_def i_def [symmetric] us um by (simp only: if_False)
    moreover have "int (unat (fst (words_button_seq ! i))) - int (unat s * 10 ^ e) \<ge> int (10 ^ e) \<longleftrightarrow> \<not> starts i" if "i < 1024"
      unfolding at [OF that] by (simp only: add_mult_distrib) linarith
    ultimately show ?thesis by auto
  qed
  have first: "starts i" if "k < 1024" "starts k" for k
    using below [OF that] mono [of k] that S [of k] at by (meson le_less_trans)
  show "button_sequence_to_word s = None \<longleftrightarrow> (\<forall>k < 1024. \<not> starts k)"
    unfolding result using first below by (auto dest: le_less_trans)
  assume k: "k < 1024" "starts k" and least: "\<And>j. j < k \<Longrightarrow> \<not> starts j"
  then have "i = k" using first [OF k] below [OF k] by (metis le_neq_implies_less)
  then show "button_sequence_to_word s = Some (SLIP39_WORDLIST ! unat (snd (words_button_seq ! k)))"
    unfolding result using k by simp
qed

text \<open>
  C26. \<open>button_sequence_to_word\<close>, for one to four digits \<open>s\<close> (\<open>e\<close> is the number of digits left to type):
  it returns the word of the first entry of the table whose sequence of four buttons starts with the
  digits of \<open>s\<close>, and a null pointer exactly when no entry does.
\<close>

theorem button_sequence_to_word_spec:
  assumes "1000 \<le> unat s * 10 ^ e" "unat s * 10 ^ e < 10000"
  shows "(button_sequence_to_word s = None \<longleftrightarrow> (\<forall>k < 1024. unat (fst (words_button_seq ! k)) div 10 ^ e \<noteq> unat s))
    \<and> (\<forall>k < 1024. unat (fst (words_button_seq ! k)) div 10 ^ e = unat s \<and> (\<forall>j < k. unat (fst (words_button_seq ! j)) div 10 ^ e \<noteq> unat s) \<longrightarrow>
         button_sequence_to_word s = Some (SLIP39_WORDLIST ! unat (snd (words_button_seq ! k))))"
  using button_sequence_to_word_parts [OF assms] by blast

theorem button_sequence_to_word_spec_witness:
  "button_sequence_to_word 12 = None \<longleftrightarrow> (\<forall>k < 1024. unat (fst (words_button_seq ! k)) div 10 ^ 2 \<noteq> unat (12 :: u16))"
  by (rule button_sequence_to_word_spec [THEN conjunct1]) simp_all

lemma bit_fold_or:
  fixes a :: u16
  assumes "\<forall>i \<in> set xs. g i < 16"
  shows "bit (foldl (\<lambda>b i. b OR push_bit (g i) 1) a xs) k \<longleftrightarrow> bit a k \<or> (\<exists>i \<in> set xs. g i = k)"
  using assms by (induction xs arbitrary: a) (auto simp: bit_simps)

lemma button_digit:
  assumes "button_digits s" "f < 4"
  shows "0 < s div 10 ^ f mod 10"
proof -
  have d: "1000 \<le> s" "s < 10000" "100 \<le> s mod 1000" "10 \<le> s mod 100" "0 < s mod 10"
    using assms(1) by (auto simp: button_digits_def)
  have "s mod 100 = 10 * (s div 10 mod 10) + s mod 10" "s mod 1000 = 100 * (s div 100 mod 10) + s mod 100"
    using mod_mult2_eq [of s 10 10] mod_mult2_eq [of s 100 10] by simp_all
  moreover have "s mod 10 < 10" "s mod 100 < 100" by simp_all
  moreover have "s div 1000 < 10" "1 \<le> s div 1000"
    using d by linarith+
  then have "s div 1000 mod 10 = s div 1000" "1 \<le> s div 1000" by simp_all
  ultimately have "0 < s mod 10" "0 < s div 10 mod 10" "0 < s div 100 mod 10" "0 < s div 1000 mod 10"
    using d by linarith+
  moreover have "f = 0 \<or> f = 1 \<or> f = 2 \<or> f = 3" using assms(2) by linarith
  ultimately show ?thesis by auto
qed

text \<open>
  \<open>slip39_word_completion_mask\<close>, for up to three digits typed (\<open>f\<close> is the number of digits left after
  the next one): bit \<open>k\<close> of the mask is set exactly when some sequence of the table starts with the
  digits typed followed by button \<open>k + 1\<close>, and only the nine bits of the buttons can be set.
\<close>

theorem slip39_word_completion_mask_spec:
  assumes "prefix = 0 \<and> f = 3 \<or> 1000 \<le> unat prefix * 10 ^ Suc f \<and> unat prefix * 10 ^ Suc f < 10000"
  shows "bit (slip39_word_completion_mask prefix) k \<longleftrightarrow>
    k < 9 \<and> (\<exists>i < 1024. unat (fst (words_button_seq ! i)) div 10 ^ f = 10 * unat prefix + (k + 1))"
proof -
  have less: "unat prefix < 1000" "f \<le> 3" and rng: "1000 < (unat prefix + 1) * 10 ^ Suc f" "(unat prefix + 1) * 10 ^ Suc f \<le> 10000"
    by (rule digits_left [OF assms])+
  have suc: "unat (prefix + 1) = unat prefix + 1" using less(1) by (simp add: unat_word_ariths)
  have range: "prefix_range prefix (prefix + 1) 1 = (prefix * 10 ^ Suc f, (prefix + 1) * 10 ^ Suc f, 1 * 10 ^ Suc f)"
    using rng by (intro prefix_range_eq) (simp_all add: suc)
  have "(10 :: nat) ^ Suc f \<le> 10 ^ 4" using less(2) by (intro power_increasing) simp_all
  then have units: "unat ((10 :: u16) ^ Suc f) = 10 ^ Suc f"
    "unat (prefix * 10 ^ Suc f) = unat prefix * 10 ^ Suc f" "unat ((prefix + 1) * 10 ^ Suc f) = (unat prefix + 1) * 10 ^ Suc f"
    using unat_mult_power [of 1 "Suc f"] unat_mult_power [of prefix "Suc f"] unat_mult_power [of "prefix + 1" "Suc f"] rng(2) less(2)
    by (simp_all only: suc) simp_all
  have divider: "unat ((10 :: u16) ^ Suc f div 10) = 10 ^ f" by (simp only: unat_div units) simp
  define g where "g i = unat (fst (words_button_seq ! i)) div 10 ^ f mod 10 - 1" for i
  have digit: "unat (fst (words_button_seq ! i) div (10 ^ Suc f div 10) mod 10) - 1 = g i" for i
    by (simp only: unat_mod unat_div units g_def) simp
  have mask: "slip39_word_completion_mask prefix =
      foldl (\<lambda>b i. b OR push_bit (g i) 1) 0 [find_sequence (prefix * 10 ^ Suc f)..<find_sequence ((prefix + 1) * 10 ^ Suc f)]"
    using less(1) unfolding slip39_word_completion_mask_def Let_def range prod.case mult_1_left digit
    by (simp add: word_le_nat_alt)
  have inside: "i \<in> {find_sequence (prefix * 10 ^ Suc f)..<find_sequence ((prefix + 1) * 10 ^ Suc f)} \<longleftrightarrow>
      i < 1024 \<and> unat (fst (words_button_seq ! i)) div 10 ^ Suc f = unat prefix" for i
    using find_sequence_spec(1) [of "(prefix + 1) * 10 ^ Suc f"] find_sequence_le [of i "prefix * 10 ^ Suc f"]
      find_sequence_less [of i "(prefix + 1) * 10 ^ Suc f"]
    by (auto simp only: units div_eq_range [of "10 ^ Suc f"] zero_less_power atLeastLessThan_iff)
  have "g i < 16" for i
    using mod_less_divisor [of 10 "unat (fst (words_button_seq ! i)) div 10 ^ f"] unfolding g_def by linarith
  then have "bit (slip39_word_completion_mask prefix) k \<longleftrightarrow>
      (\<exists>i. i < 1024 \<and> unat (fst (words_button_seq ! i)) div 10 ^ Suc f = unat prefix \<and> g i = k)"
    unfolding mask by (subst bit_fold_or) (auto simp only: set_upt inside bit_0_eq)
  also have "\<dots> \<longleftrightarrow> k < 9 \<and> (\<exists>i < 1024. unat (fst (words_button_seq ! i)) div 10 ^ f = 10 * unat prefix + (k + 1))"
  proof -
    have "unat (fst (words_button_seq ! i)) div 10 ^ Suc f = unat prefix \<and> g i = k \<longleftrightarrow>
        k < 9 \<and> unat (fst (words_button_seq ! i)) div 10 ^ f = 10 * unat prefix + (k + 1)" if "i < 1024" for i
      unfolding g_def using less(2) by (intro next_digit button_digit words_button_seq(3) that) simp
    then show ?thesis by blast
  qed
  finally show ?thesis .
qed

theorem slip39_word_completion_mask_spec_witness:
  "bit (slip39_word_completion_mask 12) 0 \<longleftrightarrow>
    0 < (9 :: nat) \<and> (\<exists>i < 1024. unat (fst (words_button_seq ! i)) div 10 ^ 1 = 10 * unat (12 :: u16) + (0 + 1))"
  by (rule slip39_word_completion_mask_spec) simp

section \<open>Words and their numbers\<close>

lemma word_index_parts:
  fixes n :: u8
  assumes "0 \<notin> set word"
  defines "agrees k \<equiv> take (unat n) (SLIP39_WORDLIST ! k) = take (unat n) word"
  shows "word_index word n = None \<longleftrightarrow> (\<forall>k < 1024. \<not> agrees k)"
    "word_index word n = Some i \<Longrightarrow> unat i < 1024 \<and> agrees (unat i) \<and> (\<forall>k < 1024. agrees k \<longrightarrow> k \<le> unat i)"
    "get_word j = Some w \<Longrightarrow> word_index w (word_of_nat (length w)) = Some j"
proof -
  define m where "m = fst (bisect (\<lambda>mid. 0 < strncmp (SLIP39_WORDLIST ! mid) word (unat n)) 0 1024)"
  note spec = word_index_eq [OF assms(1), where n = n, folded m_def]
  have m: "unat (word_of_nat m :: u16) = m" using spec(1) by (simp add: unat_of_nat)
  show "word_index word n = None \<longleftrightarrow> (\<forall>k < 1024. \<not> agrees k)" using spec(2,3) by (auto simp: agrees_def split: if_splits)
  show "word_index word n = Some i \<Longrightarrow> unat i < 1024 \<and> agrees (unat i) \<and> (\<forall>k < 1024. agrees k \<longrightarrow> k \<le> unat i)"
    using spec(1,2,4) m by (auto simp: agrees_def split: if_splits)
  assume "get_word j = Some w"
  then have j: "unat j < 1024" "w = SLIP39_WORDLIST ! unat j" by (auto simp: get_word_def SLIP39_WORD_COUNT_def split: if_splits)
  note w = slip39_nth [OF j(1), folded j(2)]
  have l: "unat (word_of_nat (length w) :: u8) = length w" using w(1) by (simp add: unat_of_nat)
  have unique: "k = unat j" if "k < 1024" "take (length w) (SLIP39_WORDLIST ! k) = w" for k
    using slip39_prefix_free [OF j(1) that(1)] that(2) j(2) by blast
  define m' where "m' = fst (bisect (\<lambda>mid. 0 < strncmp (SLIP39_WORDLIST ! mid) w (unat (word_of_nat (length w) :: u8))) 0 1024)"
  note spec' = word_index_eq [OF w(2), where n = "word_of_nat (length w)", folded m'_def, unfolded l take_all [OF order_refl]]
  have "take (length w) (SLIP39_WORDLIST ! m') = w" using spec'(3) j by (metis order_refl take_all)
  with unique spec'(1) have "m' = unat j" by blast
  then show "word_index w (word_of_nat (length w)) = Some j" using spec'(2) j by simp
qed

text \<open>
  \<open>word_index\<close> finds a number exactly when some word of the list agrees with the given word in its
  first \<open>word_length\<close> letters, and gives the last such word; for the words of the list themselves it
  is the inverse of \<open>get_word\<close>.
\<close>

theorem word_index_spec:
  fixes n :: u8
  assumes "0 \<notin> set word"
  shows "(word_index word n = None \<longleftrightarrow> (\<forall>k < 1024. take (unat n) (SLIP39_WORDLIST ! k) \<noteq> take (unat n) word))
    \<and> (\<forall>i. word_index word n = Some i \<longrightarrow> unat i < 1024 \<and> take (unat n) (SLIP39_WORDLIST ! unat i) = take (unat n) word
         \<and> (\<forall>k < 1024. take (unat n) (SLIP39_WORDLIST ! k) = take (unat n) word \<longrightarrow> k \<le> unat i))
    \<and> (\<forall>j w. get_word j = Some w \<longrightarrow> word_index w (word_of_nat (length w)) = Some j)"
  using word_index_parts [OF assms] by blast

theorem word_index_spec_witness:
  "word_index (map of_char ''zzz'') 3 = None \<longleftrightarrow>
     (\<forall>k < 1024. take (unat (3 :: u8)) (SLIP39_WORDLIST ! k) \<noteq> take (unat (3 :: u8)) (map of_char ''zzz''))"
  by (rule word_index_spec [THEN conjunct1]) simp

end
