(* ===== verification/Block_Hash.thy ===== *)
theory Block_Hash
  imports Prelude
begin

text \<open>
  The buffering and padding that the hash functions of \<open>crypto/sha2.c\<close> share: the update and final
  routines of SHA-1, SHA-256 and SHA-512 are the same text for different block lengths, word widths
  and counters, which are the arguments here. The locale \<open>block_hash\<close> states what they need of these
  arguments and shows that updates in any pieces, followed by the final routine, fold the compression
  function over the blocks of the padded message.

  The buffer is the list of its bytes in memory order. \<open>reverse\<close> is the conversion of all words of a
  byte string to the byte order of the host, \<open>transform\<close> reads the buffer in that order, \<open>used\<close> and
  \<open>inc\<close> read and advance the bit counter by a number of bytes.
\<close>

record ('s, 'c) hash_ctx =
  hstate :: 's
  bitcount :: 'c
  hbuffer :: "u8 list"

definition buffer_copy :: "u8 list \<Rightarrow> nat \<Rightarrow> u8 list \<Rightarrow> u8 list" where
  "buffer_copy buf pos data = take pos buf @ data @ drop (pos + length data) buf"

definition process_buffer ::
  "(u8 list \<Rightarrow> u8 list) \<Rightarrow> ('s \<Rightarrow> u8 list \<Rightarrow> 's) \<Rightarrow> ('s, 'c) hash_ctx \<Rightarrow> ('s, 'c) hash_ctx" where
  "process_buffer reverse transform ctx =
     (let buf = reverse (hbuffer ctx) in ctx\<lparr>hbuffer := buf, hstate := transform (hstate ctx) buf\<rparr>)"

function process_blocks ::
  "nat \<Rightarrow> (u8 list \<Rightarrow> u8 list) \<Rightarrow> ('s \<Rightarrow> u8 list \<Rightarrow> 's) \<Rightarrow> ('c \<Rightarrow> nat \<Rightarrow> 'c) \<Rightarrow> ('s, 'c) hash_ctx \<Rightarrow> u8 list
     \<Rightarrow> ('s, 'c) hash_ctx \<times> u8 list" where
  "process_blocks blen reverse transform inc ctx data =
     (if blen = 0 \<or> length data < blen then (ctx, data)
      else let ctx = process_buffer reverse transform (ctx\<lparr>hbuffer := buffer_copy (hbuffer ctx) 0 (take blen data)\<rparr>);
               ctx = ctx\<lparr>bitcount := inc (bitcount ctx) blen\<rparr> in
        process_blocks blen reverse transform inc ctx (drop blen data))"
  by pat_completeness auto
termination by (relation "measure (\<lambda>(_, _, _, _, _, data). length data)") auto

declare process_blocks.simps [simp del]

definition hash_update ::
  "nat \<Rightarrow> (u8 list \<Rightarrow> u8 list) \<Rightarrow> ('s \<Rightarrow> u8 list \<Rightarrow> 's) \<Rightarrow> ('c \<Rightarrow> nat) \<Rightarrow> ('c \<Rightarrow> nat \<Rightarrow> 'c) \<Rightarrow> ('s, 'c) hash_ctx \<Rightarrow> u8 list
     \<Rightarrow> ('s, 'c) hash_ctx" where
  "hash_update blen reverse transform used inc ctx data =
     (let rest = (\<lambda>ctx data. case process_blocks blen reverse transform inc ctx data of (ctx, data) \<Rightarrow>
            if length data > 0
            then ctx\<lparr>hbuffer := buffer_copy (hbuffer ctx) 0 data, bitcount := inc (bitcount ctx) (length data)\<rparr>
            else ctx) in
      if length data = 0 then ctx
      else let usedspace = used (bitcount ctx) in
        if usedspace > 0 then
          let freespace = blen - usedspace in
          if length data \<ge> freespace then
            let ctx = ctx\<lparr>hbuffer := buffer_copy (hbuffer ctx) usedspace (take freespace data),
                  bitcount := inc (bitcount ctx) freespace\<rparr> in
            rest (process_buffer reverse transform ctx) (drop freespace data)
          else ctx\<lparr>hbuffer := buffer_copy (hbuffer ctx) usedspace data, bitcount := inc (bitcount ctx) (length data)\<rparr>
        else rest ctx data)"

definition buffer_zero :: "u8 list \<Rightarrow> nat \<Rightarrow> nat \<Rightarrow> u8 list" where
  "buffer_zero buf pos n = buffer_copy buf pos (replicate n 0)"

text \<open>
  The padding: \<open>count_words\<close> gives the bytes of the last two words, which hold the bit counter in the
  byte order of the host, so that only the words before them are converted.
\<close>

definition hash_last ::
  "nat \<Rightarrow> nat \<Rightarrow> (u8 list \<Rightarrow> u8 list) \<Rightarrow> ('s \<Rightarrow> u8 list \<Rightarrow> 's) \<Rightarrow> ('c \<Rightarrow> nat) \<Rightarrow> ('c \<Rightarrow> u8 list) \<Rightarrow> ('s, 'c) hash_ctx \<Rightarrow> 's" where
  "hash_last blen short reverse transform used count_words ctx =
     (let usedspace = used (bitcount ctx);
          ctx = ctx\<lparr>hbuffer := (hbuffer ctx)[usedspace := 0x80]\<rparr>;
          usedspace = usedspace + 1;
          (ctx, usedspace) =
            (if usedspace > short
             then (process_buffer reverse transform (ctx\<lparr>hbuffer := buffer_zero (hbuffer ctx) usedspace (blen - usedspace)\<rparr>), 0)
             else (ctx, usedspace));
          buf = buffer_zero (hbuffer ctx) usedspace (short - usedspace);
          buf = reverse (take short buf) @ count_words (bitcount ctx) in
      transform (hstate ctx) buf)"

section \<open>Folding over blocks\<close>

function fold_blocks :: "nat \<Rightarrow> ('s \<Rightarrow> u8 list \<Rightarrow> 's) \<Rightarrow> 's \<Rightarrow> u8 list \<Rightarrow> 's" where
  "fold_blocks blen f s m =
     (if blen = 0 \<or> length m < blen then s else fold_blocks blen f (f s (take blen m)) (drop blen m))"
  by pat_completeness auto
termination by (relation "measure (\<lambda>(_, _, _, m). length m)") auto

declare fold_blocks.simps [simp del]

text \<open>The padding of the standard: a one bit, zeros, and the length at the end of a block.\<close>

definition padding :: "nat \<Rightarrow> nat \<Rightarrow> (nat \<Rightarrow> u8 list) \<Rightarrow> nat \<Rightarrow> u8 list" where
  "padding blen short length_bytes n =
     0x80 # replicate (if n mod blen < short then short - 1 - n mod blen else blen + short - 1 - n mod blen) 0 @ length_bytes n"

lemma fold_blocks_short: "length m < blen \<Longrightarrow> fold_blocks blen f s m = s"
  by (simp add: fold_blocks.simps)

lemma fold_blocks_one: "0 < blen \<Longrightarrow> length m = blen \<Longrightarrow> fold_blocks blen f s m = f s m"
  by (simp add: fold_blocks.simps [of blen f s m] fold_blocks_short)

lemma fold_blocks_Cons:
  "0 < blen \<Longrightarrow> length b = blen \<Longrightarrow> fold_blocks blen f s (b @ m) = fold_blocks blen f (f s b) m"
  by (simp add: fold_blocks.simps [of blen f s "b @ m"])

lemma fold_blocks_append:
  assumes "0 < blen" "blen dvd length a"
  shows "fold_blocks blen f s (a @ b) = fold_blocks blen f (fold_blocks blen f s a) b"
  using assms(2)
proof (induction "length a" arbitrary: a s rule: less_induct)
  case less
  show ?case
  proof (cases "a = []")
    case True
    then show ?thesis using assms(1) by (simp add: fold_blocks_short)
  next
    case False
    then have le: "blen \<le> length a" using less.prems by (auto intro: dvd_imp_le)
    define h t where "h = take blen a" and "t = drop blen a"
    have a: "a = h @ t" and h: "length h = blen" using le by (simp_all add: h_def t_def)
    have "length t < length a" "blen dvd length t" using less.prems le assms(1) by (simp_all add: t_def dvd_minus_self)
    from less.hyps [OF this] show ?thesis
      using assms(1) h by (simp add: a fold_blocks_Cons)
  qed
qed

lemma fold_blocks_complete:
  assumes "0 < blen"
  shows "fold_blocks blen f s m = fold_blocks blen f s (take (length m - length m mod blen) m)"
proof -
  let ?n = "length m - length m mod blen"
  have "m = take ?n m @ drop ?n m" by simp
  moreover have "blen dvd length (take ?n m)" by (simp add: minus_mod_eq_mult_div)
  moreover have "length (drop ?n m) < blen" using assms by simp
  ultimately show ?thesis using fold_blocks_append [of blen "take ?n m" f s "drop ?n m"] assms by (simp add: fold_blocks_short)
qed

lemma fold_blocks_cong:
  assumes "0 < blen" "P s" "\<And>s b. P s \<Longrightarrow> length b = blen \<Longrightarrow> f s b = g s b \<and> P (g s b)"
  shows "fold_blocks blen f s m = fold_blocks blen g s m"
  using assms(2)
proof (induction "length m" arbitrary: s m rule: less_induct)
  case less
  show ?case
  proof (cases "length m < blen")
    case False
    then have "f s (take blen m) = g s (take blen m)" "P (g s (take blen m))" using assms(3) [OF less.prems] by simp_all
    moreover have "length (drop blen m) < length m" using False assms(1) by simp
    ultimately show ?thesis using less.hyps False assms(1) by (simp add: fold_blocks.simps [of blen _ s m])
  qed (simp add: fold_blocks_short)
qed

lemma length_buffer_copy [simp]: "pos + length d \<le> length buf \<Longrightarrow> length (buffer_copy buf pos d) = length buf"
  by (simp add: buffer_copy_def)

lemma take_buffer_copy: "pos \<le> length buf \<Longrightarrow> take (pos + length d) (buffer_copy buf pos d) = take pos buf @ d"
  by (simp add: buffer_copy_def)

section \<open>The contract of a block hash\<close>

locale block_hash =
  fixes blen short :: nat
    and reverse :: "u8 list \<Rightarrow> u8 list"
    and transform :: "'s \<Rightarrow> u8 list \<Rightarrow> 's"
    and used :: "'c \<Rightarrow> nat"
    and inc :: "'c \<Rightarrow> nat \<Rightarrow> 'c"
    and count_words :: "'c \<Rightarrow> u8 list"
    and count :: "nat \<Rightarrow> 'c"
    and length_bytes :: "nat \<Rightarrow> u8 list"
  assumes blen: "0 < short" "short < blen"
    and reverse_length: "\<And>b. length b = blen \<Longrightarrow> length (reverse b) = blen"
    and reverse_append: "\<And>a b. length a = short \<Longrightarrow> length b = blen - short \<Longrightarrow> reverse (a @ b) = reverse a @ reverse b"
    and used: "\<And>n. used (count n) = n mod blen"
    and inc: "\<And>n k. k \<le> blen \<Longrightarrow> inc (count n) k = count (n + k)"
    and count_words: "\<And>n. count_words (count n) = reverse (length_bytes n)"
    and length_length: "\<And>n. length (length_bytes n) = blen - short"
begin

definition compress :: "'s \<Rightarrow> u8 list \<Rightarrow> 's" where
  "compress s b = transform s (reverse b)"

text \<open>The context after the message \<open>m\<close> from the initial state \<open>s\<close>.\<close>

definition absorbed :: "'s \<Rightarrow> ('s, 'c) hash_ctx \<Rightarrow> u8 list \<Rightarrow> bool" where
  "absorbed s ctx m \<longleftrightarrow> hstate ctx = fold_blocks blen compress s m \<and> bitcount ctx = count (length m) \<and>
     length (hbuffer ctx) = blen \<and> take (length m mod blen) (hbuffer ctx) = drop (length m - length m mod blen) m"

lemma blen_pos: "0 < blen" using blen by simp

lemma process_blocks_eq:
  assumes "length (hbuffer ctx) = blen" "bitcount ctx = count n"
  shows "\<exists>buf. process_blocks blen reverse transform inc ctx data =
    (\<lparr>hstate = fold_blocks blen compress (hstate ctx) data, bitcount = count (n + (length data - length data mod blen)), hbuffer = buf\<rparr>,
     drop (length data - length data mod blen) data) \<and> length buf = blen"
  using assms
proof (induction "length data" arbitrary: ctx n data rule: less_induct)
  case less
  show ?case
  proof (cases "length data < blen")
    case True
    then show ?thesis using less.prems by (subst process_blocks.simps) (cases ctx; simp add: fold_blocks_short)
  next
    case False
    define h t where "h = take blen data" and "t = drop blen data"
    have data: "data = h @ t" and h: "length h = blen" using False by (simp_all add: h_def t_def)
    define ctx' where "ctx' = (process_buffer reverse transform (ctx\<lparr>hbuffer := buffer_copy (hbuffer ctx) 0 h\<rparr>))\<lparr>bitcount := inc (bitcount ctx) blen\<rparr>"
    have step: "process_blocks blen reverse transform inc ctx data = process_blocks blen reverse transform inc ctx' t"
      using False blen_pos by (subst process_blocks.simps) (simp add: ctx'_def h_def t_def process_buffer_def Let_def)
    have "buffer_copy (hbuffer ctx) 0 h = h" using less.prems h by (simp add: buffer_copy_def)
    then have c: "length (hbuffer ctx') = blen" "bitcount ctx' = count (n + blen)" "hstate ctx' = compress (hstate ctx) h"
      using less.prems h inc [OF order_refl] by (simp_all add: ctx'_def process_buffer_def compress_def Let_def reverse_length)
    have l: "length t < length data" using False blen_pos by (simp add: t_def)
    have "blen \<le> blen + length t - length t mod blen" using mod_less_eq_dividend [of "length t" blen] by linarith
    then have "drop (blen + length t - length t mod blen) h = []" using h by simp
    with less.hyps [OF l c(1,2)] c(3) h blen_pos show ?thesis
      unfolding step by (simp add: data fold_blocks_Cons add.assoc)
  qed
qed

text \<open>The second half of an update, on a context whose buffer is empty.\<close>

definition store_rest :: "('s, 'c) hash_ctx \<Rightarrow> u8 list \<Rightarrow> ('s, 'c) hash_ctx" where
  "store_rest ctx data = (case process_blocks blen reverse transform inc ctx data of (ctx, data) \<Rightarrow>
      if length data > 0
      then ctx\<lparr>hbuffer := buffer_copy (hbuffer ctx) 0 data, bitcount := inc (bitcount ctx) (length data)\<rparr>
      else ctx)"

lemma store_rest_absorbed:
  assumes "absorbed s ctx m" "length m mod blen = 0"
  shows "absorbed s (store_rest ctx data) (m @ data)"
proof -
  define r where "r = length data mod blen"
  from assms(1) have ctx: "hstate ctx = fold_blocks blen compress s m" "bitcount ctx = count (length m)" "length (hbuffer ctx) = blen"
    by (simp_all add: absorbed_def)
  from process_blocks_eq [OF ctx(3,2), of data, folded r_def] obtain buf where
    eq: "process_blocks blen reverse transform inc ctx data =
      (\<lparr>hstate = fold_blocks blen compress (hstate ctx) data, bitcount = count (length m + (length data - r)), hbuffer = buf\<rparr>,
       drop (length data - r) data)" and buf: "length buf = blen" by blast
  have fold: "fold_blocks blen compress (fold_blocks blen compress s m) data = fold_blocks blen compress s (m @ data)"
    using assms(2) blen_pos by (simp add: fold_blocks_append mod_0_imp_dvd)
  have r: "r < blen" "r \<le> length data" using blen_pos by (simp_all add: r_def)
  have small: "r \<le> blen" using r(1) by simp
  have mod: "length (m @ data) mod blen = r" using assms(2) by (simp add: r_def mod_add_eq [symmetric])
  have drop: "drop (length (m @ data) - r) (m @ data) = drop (length data - r) data"
  proof -
    have "length m \<le> length m + length data - r" "length m + length data - r - length m = length data - r"
      using r(2) by linarith+
    then show ?thesis by simp
  qed
  show ?thesis
  proof (cases "r = 0")
    case True
    then show ?thesis using mod drop buf
      by (simp add: store_rest_def eq absorbed_def ctx(1) fold)
  next
    case False
    have "length (buffer_copy buf 0 (drop (length data - r) data)) = blen"
      using r buf by (subst length_buffer_copy) simp_all
    moreover have "take r (buffer_copy buf 0 (drop (length data - r) data)) = drop (length data - r) data"
      using take_buffer_copy [of 0 buf "drop (length data - r) data"] r by simp
    ultimately show ?thesis
      using False r mod drop inc [OF small, of "length m + (length data - r)"]
      by (auto simp: store_rest_def eq absorbed_def ctx(1) fold)
  qed
qed

lemma update_absorbed:
  assumes a: "absorbed s ctx m"
  shows "absorbed s (hash_update blen reverse transform used inc ctx data) (m @ data)"
proof -
  define u where "u = length m mod blen"
  define free where "free = blen - u"
  have u: "u < blen" "used (bitcount ctx) = u" using a blen_pos by (simp_all add: u_def absorbed_def used)
  have upd: "hash_update blen reverse transform used inc ctx data =
      (if data = [] then ctx
       else if u > 0 then
         if length data \<ge> free
         then store_rest (process_buffer reverse transform (ctx\<lparr>hbuffer := buffer_copy (hbuffer ctx) u (take free data),
                  bitcount := inc (bitcount ctx) free\<rparr>)) (drop free data)
         else ctx\<lparr>hbuffer := buffer_copy (hbuffer ctx) u data, bitcount := inc (bitcount ctx) (length data)\<rparr>
       else store_rest ctx data)"
    by (simp add: hash_update_def Let_def store_rest_def u(2) free_def)
  from a have ctx: "hstate ctx = fold_blocks blen compress s m" "bitcount ctx = count (length m)" "length (hbuffer ctx) = blen"
    and buf: "take u (hbuffer ctx) = drop (length m - u) m"
    by (simp_all add: absorbed_def u_def)
  have um: "u \<le> length m" by (simp add: u_def)
  have m: "m = take (length m - u) m @ drop (length m - u) m" by simp
  have whole: "blen dvd length m - u" by (simp add: u_def minus_mod_eq_mult_div)
  consider "data = []" | "data \<noteq> []" "u = 0" | (part) "u > 0" "length data < free" "data \<noteq> []" | (full) "u > 0" "length data \<ge> free" by (cases "data = []"; cases "u = 0"; force)
  then show ?thesis
  proof cases
    case 1
    then show ?thesis using a unfolding upd by simp
  next
    case 2
    then show ?thesis using store_rest_absorbed [OF a] unfolding upd by (simp add: u_def)
  next
    case part
    have small: "length data \<le> blen" using part(2) by (simp add: free_def)
    have "(length m + length data) mod blen = u + length data"
      using part(2) u(1) mod_add_left_eq [of "length m" blen "length data"] by (simp add: u_def free_def)
    moreover have "fold_blocks blen compress s (m @ data) = fold_blocks blen compress s m"
    proof -
      have "fold_blocks blen compress s (take (length m - u) m @ x) = fold_blocks blen compress s (take (length m - u) m)"
        if "length x < blen" for x
        using that whole blen_pos by (simp add: fold_blocks_append fold_blocks_short)
      from this [of "drop (length m - u) m @ data"] this [of "drop (length m - u) m"] show ?thesis
        using part(2) um u(1) by (simp add: free_def flip: append_assoc)
    qed
    moreover have "take (u + length data) (buffer_copy (hbuffer ctx) u data) = drop (length m - u) m @ data"
      using take_buffer_copy [of u "hbuffer ctx" data] ctx(3) u(1) buf by simp
    ultimately show ?thesis
      using part u(1) um ctx inc [OF small] unfolding upd by (auto simp: absorbed_def free_def)
  next
    case full
    define d where "d = take free data"
    have d: "length d = free" "data = d @ drop free data" using full by (simp_all add: d_def)
    have block: "buffer_copy (hbuffer ctx) u d = drop (length m - u) m @ d"
      using ctx(3) u(1) buf d(1) by (simp add: buffer_copy_def free_def)
    have free_small: "free \<le> blen" by (simp add: free_def)
    have md: "length (m @ d) = length m - u + blen" using um u(1) d(1) by (simp add: free_def)
    then have "length (m @ d) mod blen = 0" using whole by (metis dvd_add_triv_right_iff dvd_imp_mod_0)
    moreover have "fold_blocks blen compress s (m @ d) = compress (hstate ctx) (drop (length m - u) m @ d)"
    proof -
      have "fold_blocks blen compress s (m @ d) =
          fold_blocks blen compress (fold_blocks blen compress s (take (length m - u) m)) (drop (length m - u) m @ d)"
        using fold_blocks_append [OF blen_pos, of "take (length m - u) m" compress s "drop (length m - u) m @ d"] whole
        by (simp flip: append_assoc)
      moreover have "length (drop (length m - u) m @ d) = blen" using um u(1) d(1) by (simp add: free_def)
      moreover have "fold_blocks blen compress s m = fold_blocks blen compress s (take (length m - u) m)"
        using fold_blocks_complete [OF blen_pos] by (simp add: u_def)
      ultimately show ?thesis using blen_pos ctx(1) fold_blocks_one by metis
    qed
    ultimately have "absorbed s (process_buffer reverse transform (ctx\<lparr>hbuffer := buffer_copy (hbuffer ctx) u d, bitcount := inc (bitcount ctx) free\<rparr>)) (m @ d)"
      using ctx um u(1) d(1) inc [OF free_small]
      by (simp add: absorbed_def process_buffer_def Let_def block compress_def reverse_length free_def)
    from store_rest_absorbed [OF this \<open>length (m @ d) mod blen = 0\<close>, of "drop free data"] d(2) full
    moreover have "0 < free" using u(1) by (simp add: free_def)
    ultimately show ?thesis unfolding upd by (auto simp: d_def [symmetric])
  qed
qed

lemma last_absorbed:
  assumes a: "absorbed s ctx m"
  shows "hash_last blen short reverse transform used count_words ctx = fold_blocks blen compress s (m @ padding blen short length_bytes (length m))"
proof -
  define u where "u = length m mod blen"
  have u: "u < blen" "used (bitcount ctx) = u" using a blen_pos by (simp_all add: u_def absorbed_def used)
  from a have ctx: "hstate ctx = fold_blocks blen compress s m" "bitcount ctx = count (length m)" "length (hbuffer ctx) = blen"
    and buf: "take u (hbuffer ctx) = drop (length m - u) m"
    by (simp_all add: absorbed_def u_def)
  have uc: "used (count (length m)) = u" using u(2) ctx(2) by simp
  define h t where "h = take (length m - u) m" and "t = drop (length m - u) m"
  have m: "m = h @ t" and t: "length t = u" by (simp_all add: h_def t_def u_def)
  have "blen dvd length h" by (simp add: h_def u_def minus_mod_eq_mult_div)
  then have fold: "fold_blocks blen compress s (m @ x) = fold_blocks blen compress (hstate ctx) (t @ x)" for x
    using fold_blocks_append [OF blen_pos, of h compress s] u(1) t by (simp add: ctx(1) m fold_blocks_short)
  have marked: "take (Suc u) ((hbuffer ctx)[u := 0x80]) = t @ [0x80]"
    using buf u(1) ctx(3) by (simp add: t_def take_Suc_conv_app_nth)
  show ?thesis
  proof (cases "u < short")
    case True
    let ?z = "replicate (short - Suc u) 0"
    have pad: "padding blen short length_bytes (length m) = 0x80 # ?z @ length_bytes (length m)"
      using True by (simp add: padding_def u_def)
    have "take short (buffer_zero ((hbuffer ctx)[u := 0x80]) (Suc u) (short - Suc u)) = t @ 0x80 # ?z"
      using True marked ctx(3) blen take_buffer_copy [of "Suc u" "(hbuffer ctx)[u := 0x80]" ?z] by (simp add: buffer_zero_def)
    then have "hash_last blen short reverse transform used count_words ctx =
        transform (hstate ctx) (reverse (t @ 0x80 # ?z) @ reverse (length_bytes (length m)))"
      using True by (simp add: hash_last_def uc ctx(2) count_words Let_def)
    also have "\<dots> = compress (hstate ctx) (t @ 0x80 # ?z @ length_bytes (length m))"
      using True t reverse_append [of "t @ 0x80 # ?z" "length_bytes (length m)"] by (simp add: compress_def length_length)
    also have "\<dots> = fold_blocks blen compress (hstate ctx) (t @ 0x80 # ?z @ length_bytes (length m))"
      using True t blen by (subst fold_blocks_one) (simp_all add: length_length)
    finally show ?thesis unfolding fold pad .
  next
    case False
    let ?z = "replicate (blen - Suc u) 0" and ?y = "replicate short 0"
    have "replicate (blen + short - 1 - u) (0 :: u8) = ?z @ ?y"
      using u(1) by (simp flip: replicate_add)
    then have pad: "padding blen short length_bytes (length m) = 0x80 # ?z @ ?y @ length_bytes (length m)"
      using False by (simp add: padding_def u_def)
    have first: "buffer_zero ((hbuffer ctx)[u := 0x80]) (Suc u) (blen - Suc u) = t @ 0x80 # ?z"
      using marked ctx(3) u(1) by (simp add: buffer_zero_def buffer_copy_def)
    have second: "take short (buffer_zero b 0 short) = ?y" for b by (simp add: buffer_zero_def buffer_copy_def)
    have "hash_last blen short reverse transform used count_words ctx =
        transform (compress (hstate ctx) (t @ 0x80 # ?z)) (reverse ?y @ reverse (length_bytes (length m)))"
      using False first by (simp add: hash_last_def uc ctx(2) count_words process_buffer_def Let_def second compress_def)
    also have "\<dots> = compress (compress (hstate ctx) (t @ 0x80 # ?z)) (?y @ length_bytes (length m))"
      using reverse_append [of ?y "length_bytes (length m)"] by (simp add: compress_def length_length)
    also have "\<dots> = fold_blocks blen compress (compress (hstate ctx) (t @ 0x80 # ?z)) (?y @ length_bytes (length m))"
      using blen by (subst fold_blocks_one) (simp_all add: length_length)
    also have "\<dots> = fold_blocks blen compress (hstate ctx) ((t @ 0x80 # ?z) @ ?y @ length_bytes (length m))"
      using u(1) t blen_pos by (subst fold_blocks_Cons) simp_all
    finally show ?thesis unfolding fold pad by simp
  qed
qed

lemma init_absorbed: "length buf = blen \<Longrightarrow> absorbed s \<lparr>hstate = s, bitcount = count 0, hbuffer = buf\<rparr> []"
  using blen_pos by (simp add: absorbed_def fold_blocks_short)

text \<open>Updates in any number of pieces are one update with the whole message.\<close>

lemma updates_absorbed:
  "absorbed s ctx m \<Longrightarrow>
   absorbed s (foldl (hash_update blen reverse transform used inc) ctx pieces) (m @ concat pieces)"
proof (induction pieces arbitrary: ctx m)
  case (Cons d ds)
  then have "absorbed s (hash_update blen reverse transform used inc ctx d) (m @ d)" by (simp add: update_absorbed)
  from Cons.IH [OF this] show ?case by simp
qed simp

end

end
