(* ===== verification/Sha2.thy ===== *)
theory Sha2
  imports Block_Hash
begin

text \<open>
  \<open>crypto/sha2.c\<close>: SHA-1, SHA-256 and SHA-512, for a little-endian host, with the rolled loops that the
  build selects. A state is the list of its words, the buffer the list of its bytes in memory; a
  word of the buffer is read and written through \<open>load_le\<close> and \<open>store_le\<close>. A null pointer for the
  digest only erases the context and is left out.
\<close>

section \<open>Words in memory\<close>

definition load_le :: "u8 list \<Rightarrow> 'a::len word" where
  "load_le bs = foldr (\<lambda>b w. ucast b OR push_bit 8 w) bs 0"

definition store_le :: "nat \<Rightarrow> 'a::len word \<Rightarrow> u8 list" where
  "store_le n w = map (\<lambda>i. ucast (drop_bit (8 * i) w)) [0..<n]"

function chunks :: "nat \<Rightarrow> 'a list \<Rightarrow> 'a list list" where
  "chunks k xs = (if k = 0 \<or> xs = [] then [] else take k xs # chunks k (drop k xs))"
  by pat_completeness auto
termination by (relation "measure (\<lambda>(k, xs). length xs)") auto

declare chunks.simps [simp del]

definition REVERSE32 :: "u32 \<Rightarrow> u32" where
  "REVERSE32 w = (let tmp = drop_bit 16 w OR push_bit 16 w in
     drop_bit 8 (tmp AND 0xff00ff00) OR push_bit 8 (tmp AND 0x00ff00ff))"

definition REVERSE64 :: "u64 \<Rightarrow> u64" where
  "REVERSE64 w = (let tmp = drop_bit 32 w OR push_bit 32 w;
     tmp = drop_bit 8 (tmp AND 0xff00ff00ff00ff00) OR push_bit 8 (tmp AND 0x00ff00ff00ff00ff) in
     drop_bit 16 (tmp AND 0xffff0000ffff0000) OR push_bit 16 (tmp AND 0x0000ffff0000ffff))"

text \<open>The loops that convert the words of the buffer.\<close>

definition reverse32_buffer :: "u8 list \<Rightarrow> u8 list" where
  "reverse32_buffer buf = concat (map (\<lambda>b. store_le 4 (REVERSE32 (load_le b))) (chunks 4 buf))"

definition reverse64_buffer :: "u8 list \<Rightarrow> u8 list" where
  "reverse64_buffer buf = concat (map (\<lambda>b. store_le 8 (REVERSE64 (load_le b))) (chunks 8 buf))"

section \<open>Logical functions and constants\<close>

definition SHR :: "nat \<Rightarrow> 'a::len word \<Rightarrow> 'a word" where "SHR b x = drop_bit b x"

definition ROTR32 :: "nat \<Rightarrow> u32 \<Rightarrow> u32" where "ROTR32 b x = drop_bit b x OR push_bit (32 - b) x"

definition ROTR64 :: "nat \<Rightarrow> u64 \<Rightarrow> u64" where "ROTR64 b x = drop_bit b x OR push_bit (64 - b) x"

definition ROTL32 :: "nat \<Rightarrow> u32 \<Rightarrow> u32" where "ROTL32 b x = push_bit b x OR drop_bit (32 - b) x"

definition Ch :: "'a::len word \<Rightarrow> 'a word \<Rightarrow> 'a word \<Rightarrow> 'a word" where "Ch x y z = (x AND y) XOR (NOT x AND z)"

definition Maj :: "'a::len word \<Rightarrow> 'a word \<Rightarrow> 'a word \<Rightarrow> 'a word" where "Maj x y z = (x AND y) XOR (x AND z) XOR (y AND z)"

definition Parity :: "'a::len word \<Rightarrow> 'a word \<Rightarrow> 'a word \<Rightarrow> 'a word" where "Parity x y z = x XOR y XOR z"

definition Sigma0_256 :: "u32 \<Rightarrow> u32" where "Sigma0_256 x = ROTR32 2 x XOR ROTR32 13 x XOR ROTR32 22 x"
definition Sigma1_256 :: "u32 \<Rightarrow> u32" where "Sigma1_256 x = ROTR32 6 x XOR ROTR32 11 x XOR ROTR32 25 x"
definition sigma0_256 :: "u32 \<Rightarrow> u32" where "sigma0_256 x = ROTR32 7 x XOR ROTR32 18 x XOR SHR 3 x"
definition sigma1_256 :: "u32 \<Rightarrow> u32" where "sigma1_256 x = ROTR32 17 x XOR ROTR32 19 x XOR SHR 10 x"
definition Sigma0_512 :: "u64 \<Rightarrow> u64" where "Sigma0_512 x = ROTR64 28 x XOR ROTR64 34 x XOR ROTR64 39 x"
definition Sigma1_512 :: "u64 \<Rightarrow> u64" where "Sigma1_512 x = ROTR64 14 x XOR ROTR64 18 x XOR ROTR64 41 x"
definition sigma0_512 :: "u64 \<Rightarrow> u64" where "sigma0_512 x = ROTR64 1 x XOR ROTR64 8 x XOR SHR 7 x"
definition sigma1_512 :: "u64 \<Rightarrow> u64" where "sigma1_512 x = ROTR64 19 x XOR ROTR64 61 x XOR SHR 6 x"

definition K1_0_TO_19 :: u32 where "K1_0_TO_19 = 0x5a827999"
definition K1_20_TO_39 :: u32 where "K1_20_TO_39 = 0x6ed9eba1"
definition K1_40_TO_59 :: u32 where "K1_40_TO_59 = 0x8f1bbcdc"
definition K1_60_TO_79 :: u32 where "K1_60_TO_79 = 0xca62c1d6"

definition sha1_initial_hash_value :: "u32 list" where
  "sha1_initial_hash_value = [
    0x67452301, 0xefcdab89, 0x98badcfe, 0x10325476, 0xc3d2e1f0]"

definition K256 :: "u32 list" where
  "K256 = concat [
    [0x428a2f98, 0x71374491, 0xb5c0fbcf, 0xe9b5dba5], [0x3956c25b, 0x59f111f1, 0x923f82a4, 0xab1c5ed5],
    [0xd807aa98, 0x12835b01, 0x243185be, 0x550c7dc3], [0x72be5d74, 0x80deb1fe, 0x9bdc06a7, 0xc19bf174],
    [0xe49b69c1, 0xefbe4786, 0x0fc19dc6, 0x240ca1cc], [0x2de92c6f, 0x4a7484aa, 0x5cb0a9dc, 0x76f988da],
    [0x983e5152, 0xa831c66d, 0xb00327c8, 0xbf597fc7], [0xc6e00bf3, 0xd5a79147, 0x06ca6351, 0x14292967],
    [0x27b70a85, 0x2e1b2138, 0x4d2c6dfc, 0x53380d13], [0x650a7354, 0x766a0abb, 0x81c2c92e, 0x92722c85],
    [0xa2bfe8a1, 0xa81a664b, 0xc24b8b70, 0xc76c51a3], [0xd192e819, 0xd6990624, 0xf40e3585, 0x106aa070],
    [0x19a4c116, 0x1e376c08, 0x2748774c, 0x34b0bcb5], [0x391c0cb3, 0x4ed8aa4a, 0x5b9cca4f, 0x682e6ff3],
    [0x748f82ee, 0x78a5636f, 0x84c87814, 0x8cc70208], [0x90befffa, 0xa4506ceb, 0xbef9a3f7, 0xc67178f2]]"

definition sha256_initial_hash_value :: "u32 list" where
  "sha256_initial_hash_value = [
    0x6a09e667, 0xbb67ae85, 0x3c6ef372, 0xa54ff53a, 0x510e527f, 0x9b05688c, 0x1f83d9ab, 0x5be0cd19]"

definition K512 :: "u64 list" where
  "K512 = concat [
    [0x428a2f98d728ae22, 0x7137449123ef65cd], [0xb5c0fbcfec4d3b2f, 0xe9b5dba58189dbbc],
    [0x3956c25bf348b538, 0x59f111f1b605d019], [0x923f82a4af194f9b, 0xab1c5ed5da6d8118],
    [0xd807aa98a3030242, 0x12835b0145706fbe], [0x243185be4ee4b28c, 0x550c7dc3d5ffb4e2],
    [0x72be5d74f27b896f, 0x80deb1fe3b1696b1], [0x9bdc06a725c71235, 0xc19bf174cf692694],
    [0xe49b69c19ef14ad2, 0xefbe4786384f25e3], [0x0fc19dc68b8cd5b5, 0x240ca1cc77ac9c65],
    [0x2de92c6f592b0275, 0x4a7484aa6ea6e483], [0x5cb0a9dcbd41fbd4, 0x76f988da831153b5],
    [0x983e5152ee66dfab, 0xa831c66d2db43210], [0xb00327c898fb213f, 0xbf597fc7beef0ee4],
    [0xc6e00bf33da88fc2, 0xd5a79147930aa725], [0x06ca6351e003826f, 0x142929670a0e6e70],
    [0x27b70a8546d22ffc, 0x2e1b21385c26c926], [0x4d2c6dfc5ac42aed, 0x53380d139d95b3df],
    [0x650a73548baf63de, 0x766a0abb3c77b2a8], [0x81c2c92e47edaee6, 0x92722c851482353b],
    [0xa2bfe8a14cf10364, 0xa81a664bbc423001], [0xc24b8b70d0f89791, 0xc76c51a30654be30],
    [0xd192e819d6ef5218, 0xd69906245565a910], [0xf40e35855771202a, 0x106aa07032bbd1b8],
    [0x19a4c116b8d2d0c8, 0x1e376c085141ab53], [0x2748774cdf8eeb99, 0x34b0bcb5e19b48a8],
    [0x391c0cb3c5c95a63, 0x4ed8aa4ae3418acb], [0x5b9cca4f7763e373, 0x682e6ff3d6b2b8a3],
    [0x748f82ee5defb2fc, 0x78a5636f43172f60], [0x84c87814a1f0ab72, 0x8cc702081a6439ec],
    [0x90befffa23631e28, 0xa4506cebde82bde9], [0xbef9a3f7b2c67915, 0xc67178f2e372532b],
    [0xca273eceea26619c, 0xd186b8c721c0c207], [0xeada7dd6cde0eb1e, 0xf57d4f7fee6ed178],
    [0x06f067aa72176fba, 0x0a637dc5a2c898a6], [0x113f9804bef90dae, 0x1b710b35131c471b],
    [0x28db77f523047d84, 0x32caab7b40c72493], [0x3c9ebe0a15c9bebc, 0x431d67c49c100d4c],
    [0x4cc5d4becb3e42b6, 0x597f299cfc657e2a], [0x5fcb6fab3ad6faec, 0x6c44198c4a475817]]"

definition sha512_initial_hash_value :: "u64 list" where
  "sha512_initial_hash_value = [
    0x6a09e667f3bcc908, 0xbb67ae8584caa73b, 0x3c6ef372fe94f82b, 0xa54ff53a5f1d36f1,
    0x510e527fade682d1, 0x9b05688c2b3e6c1f, 0x1f83d9abfb41bd6b, 0x5be0cd19137e2179]"

section \<open>Compression functions\<close>

text \<open>
  \<open>sha256_Transform\<close> and \<open>sha512_Transform\<close> are one text for two word widths. The registers \<open>a\<close> to \<open>h\<close>
  are a list, the message words a ring of sixteen.
\<close>

definition sha2_registers :: "('a::len word \<Rightarrow> 'a word) \<Rightarrow> ('a word \<Rightarrow> 'a word) \<Rightarrow> 'a word list \<Rightarrow> 'a word \<Rightarrow> 'a word \<Rightarrow> 'a word list" where
  "sha2_registers Sigma0 Sigma1 r k w =
     (let a = r ! 0; b = r ! 1; c = r ! 2; d = r ! 3; e = r ! 4; f = r ! 5; g = r ! 6; h = r ! 7;
          T1 = h + Sigma1 e + Ch e f g + k + w;
          T2 = Sigma0 a + Maj a b c in
      [T1 + T2, a, b, c, d + T1, e, f, g])"

definition sha2_load_step ::
  "('a::len word \<Rightarrow> 'a word) \<Rightarrow> ('a word \<Rightarrow> 'a word) \<Rightarrow> 'a word list \<Rightarrow> 'a word list \<Rightarrow> 'a word list \<times> 'a word list \<Rightarrow> nat
     \<Rightarrow> 'a word list \<times> 'a word list" where
  "sha2_load_step Sigma0 Sigma1 K data = (\<lambda>(r, W) j.
     let W = W[j := data ! j] in (sha2_registers Sigma0 Sigma1 r (K ! j) (W ! j), W))"

definition sha2_expand_step ::
  "('a::len word \<Rightarrow> 'a word) \<Rightarrow> ('a word \<Rightarrow> 'a word) \<Rightarrow> ('a word \<Rightarrow> 'a word) \<Rightarrow> ('a word \<Rightarrow> 'a word) \<Rightarrow> 'a word list
     \<Rightarrow> 'a word list \<times> 'a word list \<Rightarrow> nat \<Rightarrow> 'a word list \<times> 'a word list" where
  "sha2_expand_step Sigma0 Sigma1 sigma0 sigma1 K = (\<lambda>(r, W) j.
     let s0 = sigma0 (W ! ((j + 1) mod 16));
         s1 = sigma1 (W ! ((j + 14) mod 16));
         W = W[j mod 16 := W ! (j mod 16) + (s1 + W ! ((j + 9) mod 16) + s0)] in
     (sha2_registers Sigma0 Sigma1 r (K ! j) (W ! (j mod 16)), W))"

definition sha2_transform ::
  "('a::len word \<Rightarrow> 'a word) \<Rightarrow> ('a word \<Rightarrow> 'a word) \<Rightarrow> ('a word \<Rightarrow> 'a word) \<Rightarrow> ('a word \<Rightarrow> 'a word) \<Rightarrow> 'a word list \<Rightarrow> nat
     \<Rightarrow> 'a word list \<Rightarrow> 'a word list \<Rightarrow> 'a word list" where
  "sha2_transform Sigma0 Sigma1 sigma0 sigma1 K rounds state data =
     (let rW = foldl (sha2_load_step Sigma0 Sigma1 K data) (state, replicate 16 0) [0..<16];
          rW = foldl (sha2_expand_step Sigma0 Sigma1 sigma0 sigma1 K) rW [16..<rounds] in
      map2 (+) state (fst rW))"

definition sha256_Transform :: "u32 list \<Rightarrow> u32 list \<Rightarrow> u32 list" where
  "sha256_Transform = sha2_transform Sigma0_256 Sigma1_256 sigma0_256 sigma1_256 K256 64"

definition sha512_Transform :: "u64 list \<Rightarrow> u64 list \<Rightarrow> u64 list" where
  "sha512_Transform = sha2_transform Sigma0_512 Sigma1_512 sigma0_512 sigma1_512 K512 80"

definition sha1_registers :: "(u32 \<Rightarrow> u32 \<Rightarrow> u32 \<Rightarrow> u32) \<Rightarrow> u32 \<Rightarrow> u32 list \<Rightarrow> u32 \<Rightarrow> u32 list" where
  "sha1_registers F k r w =
     (let a = r ! 0; b = r ! 1; c = r ! 2; d = r ! 3; e = r ! 4;
          T1 = ROTL32 5 a + F b c d + e + k + w in
      [T1, a, ROTL32 30 b, c, d])"

definition sha1_load_step :: "u32 list \<Rightarrow> u32 list \<times> u32 list \<Rightarrow> nat \<Rightarrow> u32 list \<times> u32 list" where
  "sha1_load_step data = (\<lambda>(r, W) j. let W = W[j := data ! j] in (sha1_registers Ch K1_0_TO_19 r (W ! j), W))"

definition sha1_expand_step :: "(u32 \<Rightarrow> u32 \<Rightarrow> u32 \<Rightarrow> u32) \<Rightarrow> u32 \<Rightarrow> u32 list \<times> u32 list \<Rightarrow> nat \<Rightarrow> u32 list \<times> u32 list" where
  "sha1_expand_step F k = (\<lambda>(r, W) j.
     let T1 = W ! ((j + 13) mod 16) XOR W ! ((j + 8) mod 16) XOR W ! ((j + 2) mod 16) XOR W ! (j mod 16);
         W = W[j mod 16 := ROTL32 1 T1] in
     (sha1_registers F k r (W ! (j mod 16)), W))"

definition sha1_Transform :: "u32 list \<Rightarrow> u32 list \<Rightarrow> u32 list" where
  "sha1_Transform state data =
     (let rW = foldl (sha1_load_step data) (state, replicate 16 0) [0..<16];
          rW = foldl (sha1_expand_step Ch K1_0_TO_19) rW [16..<20];
          rW = foldl (sha1_expand_step Parity K1_20_TO_39) rW [20..<40];
          rW = foldl (sha1_expand_step Maj K1_40_TO_59) rW [40..<60];
          rW = foldl (sha1_expand_step Parity K1_60_TO_79) rW [60..<80] in
      map2 (+) state (fst rW))"

section \<open>Contexts\<close>

type_synonym SHA1_CTX = "(u32 list, u64) hash_ctx"
type_synonym SHA256_CTX = "(u32 list, u64) hash_ctx"
type_synonym SHA512_CTX = "(u64 list, u64 \<times> u64) hash_ctx"

definition transform32 :: "(u32 list \<Rightarrow> u32 list \<Rightarrow> u32 list) \<Rightarrow> u32 list \<Rightarrow> u8 list \<Rightarrow> u32 list" where
  "transform32 f state buf = f state (map load_le (chunks 4 buf))"

definition transform64 :: "(u64 list \<Rightarrow> u64 list \<Rightarrow> u64 list) \<Rightarrow> u64 list \<Rightarrow> u8 list \<Rightarrow> u64 list" where
  "transform64 f state buf = f state (map load_le (chunks 8 buf))"

definition used64 :: "u64 \<Rightarrow> nat" where "used64 c = unat (drop_bit 3 c) mod 64"

definition inc64 :: "u64 \<Rightarrow> nat \<Rightarrow> u64" where "inc64 c len = c + push_bit 3 (word_of_nat len)"

definition count64 :: "u64 \<Rightarrow> u8 list" where
  "count64 c = store_le 4 (ucast (drop_bit 32 c) :: u32) @ store_le 4 (ucast (c AND 0xffffffff) :: u32)"

text \<open>The counter of SHA-512: the low word first.\<close>

definition ADDINC128 :: "u64 \<times> u64 \<Rightarrow> u64 \<Rightarrow> u64 \<times> u64" where
  "ADDINC128 = (\<lambda>(lo, hi) n. let lo = lo + n in (lo, if lo < n then hi + 1 else hi))"

definition used128 :: "u64 \<times> u64 \<Rightarrow> nat" where "used128 c = unat (drop_bit 3 (fst c)) mod 128"

definition inc128 :: "u64 \<times> u64 \<Rightarrow> nat \<Rightarrow> u64 \<times> u64" where "inc128 c len = ADDINC128 c (push_bit 3 (word_of_nat len))"

definition count128 :: "u64 \<times> u64 \<Rightarrow> u8 list" where
  "count128 c = store_le 8 (snd c) @ store_le 8 (fst c)"

definition digest32 :: "u32 list \<Rightarrow> u8 list" where
  "digest32 state = concat (map (\<lambda>w. store_le 4 (REVERSE32 w)) state)"

definition digest64 :: "u64 list \<Rightarrow> u8 list" where
  "digest64 state = concat (map (\<lambda>w. store_le 8 (REVERSE64 w)) state)"

definition sha1_Init :: SHA1_CTX where
  "sha1_Init = \<lparr>hstate = sha1_initial_hash_value, bitcount = 0, hbuffer = replicate 64 0\<rparr>"

definition sha1_Update :: "SHA1_CTX \<Rightarrow> u8 list \<Rightarrow> SHA1_CTX" where
  "sha1_Update = hash_update 64 reverse32_buffer (transform32 sha1_Transform) used64 inc64"

definition sha1_Final :: "SHA1_CTX \<Rightarrow> u8 list" where
  "sha1_Final ctx = digest32 (hash_last 64 56 reverse32_buffer (transform32 sha1_Transform) used64 count64 ctx)"

definition sha256_Init :: SHA256_CTX where
  "sha256_Init = \<lparr>hstate = sha256_initial_hash_value, bitcount = 0, hbuffer = replicate 64 0\<rparr>"

definition sha256_Init_ex :: "u32 list \<Rightarrow> u64 \<Rightarrow> SHA256_CTX" where
  "sha256_Init_ex state bits = \<lparr>hstate = state, bitcount = bits, hbuffer = replicate 64 0\<rparr>"

definition sha256_Update :: "SHA256_CTX \<Rightarrow> u8 list \<Rightarrow> SHA256_CTX" where
  "sha256_Update = hash_update 64 reverse32_buffer (transform32 sha256_Transform) used64 inc64"

definition sha256_Final :: "SHA256_CTX \<Rightarrow> u8 list" where
  "sha256_Final ctx = digest32 (hash_last 64 56 reverse32_buffer (transform32 sha256_Transform) used64 count64 ctx)"

definition sha512_Init :: SHA512_CTX where
  "sha512_Init = \<lparr>hstate = sha512_initial_hash_value, bitcount = (0, 0), hbuffer = replicate 128 0\<rparr>"

definition sha512_Update :: "SHA512_CTX \<Rightarrow> u8 list \<Rightarrow> SHA512_CTX" where
  "sha512_Update = hash_update 128 reverse64_buffer (transform64 sha512_Transform) used128 inc128"

definition sha512_Last :: "SHA512_CTX \<Rightarrow> u64 list" where
  "sha512_Last = hash_last 128 112 reverse64_buffer (transform64 sha512_Transform) used128 count128"

definition sha512_Final :: "SHA512_CTX \<Rightarrow> u8 list" where
  "sha512_Final ctx = digest64 (sha512_Last ctx)"

definition sha1_Raw :: "u8 list \<Rightarrow> u8 list" where "sha1_Raw data = sha1_Final (sha1_Update sha1_Init data)"
definition sha256_Raw :: "u8 list \<Rightarrow> u8 list" where "sha256_Raw data = sha256_Final (sha256_Update sha256_Init data)"
definition sha512_Raw :: "u8 list \<Rightarrow> u8 list" where "sha512_Raw data = sha512_Final (sha512_Update sha512_Init data)"

text \<open>The digests as strings of hexadecimal digits.\<close>

definition sha2_hex_digits :: "u8 list" where "sha2_hex_digits = map of_char ''0123456789abcdef''"

definition hex_string :: "u8 list \<Rightarrow> u8 list" where
  "hex_string digest = concat (map (\<lambda>d. [sha2_hex_digits ! unat (drop_bit 4 (d AND 0xf0)), sha2_hex_digits ! unat (d AND 0x0f)]) digest)"

definition sha1_End :: "SHA1_CTX \<Rightarrow> u8 list" where "sha1_End ctx = hex_string (sha1_Final ctx)"
definition sha256_End :: "SHA256_CTX \<Rightarrow> u8 list" where "sha256_End ctx = hex_string (sha256_Final ctx)"
definition sha512_End :: "SHA512_CTX \<Rightarrow> u8 list" where "sha512_End ctx = hex_string (sha512_Final ctx)"

definition sha1_Data :: "u8 list \<Rightarrow> u8 list" where "sha1_Data data = sha1_End (sha1_Update sha1_Init data)"
definition sha256_Data :: "u8 list \<Rightarrow> u8 list" where "sha256_Data data = sha256_End (sha256_Update sha256_Init data)"
definition sha512_Data :: "u8 list \<Rightarrow> u8 list" where "sha512_Data data = sha512_End (sha512_Update sha512_Init data)"

end
