(* ===== verification/Sha2_Words.thy ===== *)
theory Sha2_Words
  imports Sha2
begin

text \<open>Words and bytes: the byte order conversions of \<open>sha2.c\<close> reverse the bytes of a word.\<close>

lemma length_store_le [simp]: "length (store_le n w) = n"
  by (simp add: store_le_def)

lemma nth_store_le: "i < n \<Longrightarrow> store_le n w ! i = ucast (drop_bit (8 * i) w)"
  by (simp add: store_le_def)

lemma load_le_Cons: "load_le (b # bs) = ucast b OR push_bit 8 (load_le bs)"
  by (simp add: load_le_def)

lemma bit_load_le:
  "bit (load_le bs :: 'a::len word) n \<longleftrightarrow> n < LENGTH('a) \<and> n div 8 < length bs \<and> bit (bs ! (n div 8)) (n mod 8)"
proof (induction bs arbitrary: n)
  case Nil
  then show ?case by (simp add: load_le_def)
next
  case (Cons b bs)
  show ?case
  proof (cases "n < 8")
    case True
    then show ?thesis by (auto simp: load_le_Cons bit_simps)
  next
    case False
    then obtain k where "n = 8 + k" by (metis le_Suc_ex not_less)
    then have n: "n div 8 = Suc (k div 8)" "n mod 8 = k mod 8" "n - 8 = k" by simp_all
    have "\<not> bit b n" using False by (auto dest: bit_imp_le_length)
    then show ?thesis using False Cons.IH [of k] n \<open>n = 8 + k\<close> by (auto simp: load_le_Cons bit_simps)
  qed
qed

lemma load_store_32: "load_le (store_le 4 w) = (w :: u32)"
proof (rule bit_word_eqI)
  fix n assume "n < LENGTH(32)"
  then have "n div 8 < 4" "8 * (n div 8) + n mod 8 = n" by simp_all
  then show "bit (load_le (store_le 4 w) :: u32) n = bit w n"
    using \<open>n < LENGTH(32)\<close> by (auto simp: bit_load_le nth_store_le bit_simps)
qed

lemma load_store_64: "load_le (store_le 8 w) = (w :: u64)"
proof (rule bit_word_eqI)
  fix n assume "n < LENGTH(64)"
  then have "n div 8 < 8" "8 * (n div 8) + n mod 8 = n" by simp_all
  then show "bit (load_le (store_le 8 w) :: u64) n = bit w n"
    using \<open>n < LENGTH(64)\<close> by (auto simp: bit_load_le nth_store_le bit_simps)
qed

lemma upt_32: "[0..<32] = [0, 1, 2, 3, 4, 5, 6, 7, 8, 9, 10, 11, 12, 13, 14, 15, 16, 17, 18, 19, 20, 21, 22, 23, 24, 25, 26, 27, 28, 29, 30, 31]"
  by (simp add: upt_conv_Cons)

lemma upt_64: "[0..<64] = [0, 1, 2, 3, 4, 5, 6, 7, 8, 9, 10, 11, 12, 13, 14, 15, 16, 17, 18, 19, 20, 21, 22, 23, 24, 25, 26, 27, 28, 29, 30, 31, 32, 33, 34, 35, 36, 37, 38, 39, 40, 41, 42, 43, 44, 45, 46, 47, 48, 49, 50, 51, 52, 53, 54, 55, 56, 57, 58, 59, 60, 61, 62, 63]"
  by (simp add: upt_conv_Cons)

lemma high_bit: "32 \<le> n \<Longrightarrow> \<not> bit (w :: u32) n" "64 \<le> n \<Longrightarrow> \<not> bit (v :: u64) n"
  by (auto dest: bit_imp_le_length)

lemma bit_REVERSE32:
  assumes "n < 32"
  shows "bit (REVERSE32 w) n \<longleftrightarrow> bit w (8 * (3 - n div 8) + n mod 8)"
proof -
  have "list_all (\<lambda>n. bit (REVERSE32 w) n = bit w (8 * (3 - n div 8) + n mod 8)) [0..<32]"
    unfolding upt_32 list.pred_inject
    by (simp add: REVERSE32_def Let_def bit_or_iff bit_and_iff bit_drop_bit_eq bit_push_bit_iff high_bit) (simp add: numeral_2_eq_2)
  then show ?thesis using assms by (simp add: list_all_iff)
qed

lemma bit_REVERSE64:
  assumes "n < 64"
  shows "bit (REVERSE64 w) n \<longleftrightarrow> bit w (8 * (7 - n div 8) + n mod 8)"
proof -
  have "list_all (\<lambda>n. bit (REVERSE64 w) n = bit w (8 * (7 - n div 8) + n mod 8)) [0..<64]"
    unfolding upt_64 list.pred_inject
    by (simp add: REVERSE64_def Let_def bit_or_iff bit_and_iff bit_drop_bit_eq bit_push_bit_iff high_bit) (simp add: numeral_2_eq_2)
  then show ?thesis using assms by (simp add: list_all_iff)
qed

lemma store_REVERSE32: "length b = 4 \<Longrightarrow> store_le 4 (REVERSE32 (load_le b)) = rev b"
proof (rule nth_equalityI)
  fix i assume "length b = 4" "i < length (store_le 4 (REVERSE32 (load_le b)))"
  then have i: "i < 4" and l: "length b = 4" by simp_all
  show "store_le 4 (REVERSE32 (load_le b)) ! i = rev b ! i"
  proof (rule bit_word_eqI)
    fix j assume "j < LENGTH(8)"
    then have j: "j < 8" by simp
    have "(8 * i + j) div 8 = i" "(8 * i + j) mod 8 = j" "(8 * (3 - i) + j) div 8 = 3 - i" "(8 * (3 - i) + j) mod 8 = j"
      using j by simp_all
    then show "bit (store_le 4 (REVERSE32 (load_le b)) ! i) j = bit (rev b ! i) j"
      using i j l by (auto simp: nth_store_le bit_simps bit_REVERSE32 bit_load_le rev_nth)
  qed
qed simp

lemma store_REVERSE64: "length b = 8 \<Longrightarrow> store_le 8 (REVERSE64 (load_le b)) = rev b"
proof (rule nth_equalityI)
  fix i assume "length b = 8" "i < length (store_le 8 (REVERSE64 (load_le b)))"
  then have i: "i < 8" and l: "length b = 8" by simp_all
  show "store_le 8 (REVERSE64 (load_le b)) ! i = rev b ! i"
  proof (rule bit_word_eqI)
    fix j assume "j < LENGTH(8)"
    then have j: "j < 8" by simp
    have "(8 * i + j) div 8 = i" "(8 * i + j) mod 8 = j" "(8 * (7 - i) + j) div 8 = 7 - i" "(8 * (7 - i) + j) mod 8 = j"
      using j by simp_all
    then show "bit (store_le 8 (REVERSE64 (load_le b)) ! i) j = bit (rev b ! i) j"
      using i j l by (auto simp: nth_store_le bit_simps bit_REVERSE64 bit_load_le rev_nth)
  qed
qed simp

section \<open>Chunks\<close>

lemma chunks_Nil [simp]: "chunks k [] = []"
  by (simp add: chunks.simps)

lemma chunks_append: "0 < k \<Longrightarrow> length a = k \<Longrightarrow> chunks k (a @ b) = a # chunks k b"
  by (subst chunks.simps) auto

lemma concat_chunks [simp]: "0 < k \<Longrightarrow> concat (chunks k xs) = xs"
  by (induction k xs rule: chunks.induct) (subst chunks.simps, simp)

lemma chunks_concat: "0 < k \<Longrightarrow> \<forall>b \<in> set bs. length b = k \<Longrightarrow> chunks k (concat bs) = bs"
  by (induction bs) (simp_all add: chunks_append)

lemma chunks_length:
  assumes "0 < k" "k dvd length xs" "b \<in> set (chunks k xs)"
  shows "length b = k"
  using assms
proof (induction k xs rule: chunks.induct)
  case (1 k xs)
  show ?case
  proof (cases "xs = []")
    case False
    then have le: "k \<le> length xs" using 1 by (auto intro: dvd_imp_le)
    then have "k dvd length (drop k xs)" using 1 by (simp add: dvd_minus_self)
    with 1 False le show ?thesis by (auto simp: chunks.simps [of k xs])
  qed (use 1 in simp)
qed

lemma chunks_append_dvd:
  assumes "0 < k" "k dvd length a"
  shows "chunks k (a @ b) = chunks k a @ chunks k b"
proof -
  have "a @ b = concat (chunks k a @ chunks k b)" using assms(1) by simp
  show ?thesis
    using assms(2)
  proof (induction "length a" arbitrary: a rule: less_induct)
    case less
    show ?case
    proof (cases "a = []")
      case False
      then have le: "k \<le> length a" using less.prems by (auto intro: dvd_imp_le)
      define h t where "h = take k a" and "t = drop k a"
      have a: "a = h @ t" and h: "length h = k" using le by (simp_all add: h_def t_def)
      have "length t < length a" "k dvd length t" using less.prems le assms(1) by (simp_all add: t_def dvd_minus_self)
      from less.hyps [OF this] show ?thesis using assms(1) h by (simp add: a chunks_append)
    qed simp
  qed
qed

lemma length_chunks:
  assumes "0 < k" "k dvd length xs"
  shows "length (chunks k xs) = length xs div k"
proof -
  have "sum_list (map length (chunks k xs)) = sum_list (map (\<lambda>_. k) (chunks k xs))"
    using chunks_length [OF assms] by (intro arg_cong [of _ _ sum_list] map_cong) auto
  then have "length (concat (chunks k xs)) = k * length (chunks k xs)"
    by (simp add: length_concat sum_list_triv)
  then show ?thesis using assms(1) by simp
qed

section \<open>Conversions of the buffer\<close>

lemma reverse32_eq: "4 dvd length b \<Longrightarrow> reverse32_buffer b = concat (map rev (chunks 4 b))"
  unfolding reverse32_buffer_def by (intro arg_cong [of _ _ concat] map_cong refl store_REVERSE32 chunks_length) simp_all

lemma reverse64_eq: "8 dvd length b \<Longrightarrow> reverse64_buffer b = concat (map rev (chunks 8 b))"
  unfolding reverse64_buffer_def by (intro arg_cong [of _ _ concat] map_cong refl store_REVERSE64 chunks_length) simp_all

lemma chunks_rev:
  assumes "0 < k" "k dvd length b"
  shows "chunks k (concat (map rev (chunks k b))) = map rev (chunks k b)"
  using assms by (intro chunks_concat) (auto dest: chunks_length)

lemma length_concat_rev: "0 < k \<Longrightarrow> length (concat (map rev (chunks k b))) = length b"
proof -
  assume "0 < k"
  have "length (concat (map rev (chunks k b))) = length (concat (chunks k b))" by (simp add: length_concat comp_def)
  then show ?thesis using \<open>0 < k\<close> by simp
qed

lemma digest32_eq: "digest32 state = concat (map (\<lambda>w. rev (store_le 4 w)) state)"
  unfolding digest32_def
  using store_REVERSE32 [of "store_le 4 w" for w :: u32] by (simp add: load_store_32)

lemma digest64_eq: "digest64 state = concat (map (\<lambda>w. rev (store_le 8 w)) state)"
  unfolding digest64_def
  using store_REVERSE64 [of "store_le 8 w" for w :: u64] by (simp add: load_store_64)

section \<open>Rotations\<close>

lemma rotate_right:
  fixes x :: "'a::len word"
  assumes "b < LENGTH('a)"
  shows "drop_bit b x OR push_bit (LENGTH('a) - b) x = word_rotr b x"
proof (rule bit_word_eqI)
  fix n assume n: "n < LENGTH('a)"
  show "bit (drop_bit b x OR push_bit (LENGTH('a) - b) x) n = bit (word_rotr b x) n"
  proof (cases "n + b < LENGTH('a)")
    case True
    then show ?thesis using n by (auto simp: bit_simps add.commute)
  next
    case False
    then have "(n + b) mod LENGTH('a) = n - (LENGTH('a) - b)" using n assms by (simp add: mod_if)
    moreover have "\<not> bit x (b + n)" using False by (auto dest: bit_imp_le_length)
    ultimately show ?thesis using n False assms by (auto simp: bit_simps)
  qed
qed

lemma ROTR32_eq: "b < 32 \<Longrightarrow> ROTR32 b x = word_rotr b x"
  using rotate_right [of b x] by (simp add: ROTR32_def)

lemma ROTR64_eq: "b < 64 \<Longrightarrow> ROTR64 b x = word_rotr b x"
  using rotate_right [of b x] by (simp add: ROTR64_def)

lemma ROTL32_eq: "0 < b \<Longrightarrow> b < 32 \<Longrightarrow> ROTL32 b x = word_rotl b x"
  using rotate_right [of "32 - b" x] by (simp add: ROTL32_def word_rotl_eq_word_rotr or.commute)

end
