(* ===== verification/Sha2_Constants.thy ===== *)
theory Sha2_Constants
  imports Sha2 Complex_Main
begin

text \<open>
  The constants of FIPS 180-4 as the standard states them: the first 32 or 64 bits of the fractional
  parts of the cube roots of the first primes (the round constants) and of the square roots of the
  first eight primes (the initial hash values). The tables of \<open>sha2.c\<close> are these numbers.
\<close>

definition first_primes :: "nat list" where
  "first_primes = [
     2, 3, 5, 7, 11, 13, 17, 19, 23, 29, 31, 37, 41, 43, 47, 53,
     59, 61, 67, 71, 73, 79, 83, 89, 97, 101, 103, 107, 109, 113, 127, 131,
     137, 139, 149, 151, 157, 163, 167, 173, 179, 181, 191, 193, 197, 199, 211, 223,
     227, 229, 233, 239, 241, 251, 257, 263, 269, 271, 277, 281, 283, 293, 307, 311,
     313, 317, 331, 337, 347, 349, 353, 359, 367, 373, 379, 383, 389, 397, 401, 409]"

definition root_word :: "nat \<Rightarrow> nat \<Rightarrow> 'a::len word" where
  "root_word n p = word_of_int \<lfloor>frac (root n (real p)) * 2 ^ LENGTH('a)\<rfloor>"

definition fips_K256 :: "u32 list" where
  "fips_K256 = map (root_word 3) (take 64 first_primes)"

definition fips_K512 :: "u64 list" where
  "fips_K512 = map (root_word 3) first_primes"

definition fips_H256 :: "u32 list" where
  "fips_H256 = map (root_word 2) (take 8 first_primes)"

definition fips_H512 :: "u64 list" where
  "fips_H512 = map (root_word 2) (take 8 first_primes)"

text \<open>The fractional part of a root, from integer bounds on its power.\<close>

definition root_bounds :: "nat \<Rightarrow> nat \<Rightarrow> nat \<Rightarrow> nat \<Rightarrow> nat \<Rightarrow> bool" where
  "root_bounds n b p c k \<longleftrightarrow> k < 2 ^ b \<and> (c * 2 ^ b + k) ^ n \<le> p * 2 ^ (b * n) \<and> p * 2 ^ (b * n) < (c * 2 ^ b + k + 1) ^ n"

lemma root_between:
  assumes "0 < n" "x ^ n \<le> p * 2 ^ (b * n)" "p * 2 ^ (b * n) < (x + 1) ^ n"
  shows "real x \<le> root n (real p) * 2 ^ b" "root n (real p) * 2 ^ b < real x + 1"
proof -
  have r: "(root n (real p) * 2 ^ b) ^ n = real (p * 2 ^ (b * n))"
    using assms(1) by (simp add: power_mult_distrib power_mult)
  have nn: "0 \<le> root n (real p) * 2 ^ b" using assms(1) by simp
  have "real x ^ n \<le> (root n (real p) * 2 ^ b) ^ n"
    using assms(2) unfolding r by (simp only: of_nat_power [symmetric] of_nat_le_iff)
  then show "real x \<le> root n (real p) * 2 ^ b" using nn assms(1) by simp
  have "(root n (real p) * 2 ^ b) ^ n < real (x + 1) ^ n"
    using assms(3) unfolding r by (simp only: of_nat_power [symmetric] of_nat_less_iff)
  then have "root n (real p) * 2 ^ b < real (x + 1)" by (rule power_less_imp_less_base) simp
  then show "root n (real p) * 2 ^ b < real x + 1" by simp
qed

lemma root_word_eq:
  fixes w :: "'a::len word"
  assumes "0 < n" "root_bounds n LENGTH('a) p c (unat w)"
  shows "root_word n p = w"
proof -
  let ?b = "LENGTH('a)" and ?r = "root n (real p)"
  have b: "real (c * 2 ^ ?b + unat w) \<le> ?r * 2 ^ ?b" "?r * 2 ^ ?b < real (c * 2 ^ ?b + unat w) + 1"
    using root_between [OF assms(1), of "c * 2 ^ ?b + unat w" p ?b] assms(2) by (simp_all add: root_bounds_def)
  have "unat w + 1 \<le> 2 ^ ?b" using unsigned_less [of w] by (simp add: Suc_le_eq)
  then have "real (unat w) + 1 \<le> 2 ^ ?b" by (metis of_nat_1 of_nat_add of_nat_le_iff of_nat_numeral of_nat_power)
  moreover have "real (c * 2 ^ ?b + unat w) = real c * 2 ^ ?b + real (unat w)" "0 \<le> real (unat w)"
    by (simp_all only: of_nat_add of_nat_mult of_nat_power of_nat_numeral of_nat_0_le_iff)
  ultimately have "real c * 2 ^ ?b \<le> ?r * 2 ^ ?b" "?r * 2 ^ ?b < real c * 2 ^ ?b + 1 * 2 ^ ?b"
    using b unfolding mult_1 by linarith+
  then have "real c \<le> ?r" "?r < real c + 1" unfolding distrib_right [symmetric] by simp_all
  then have "\<lfloor>?r\<rfloor> = int c" by (simp add: floor_eq_iff)
  then have "frac ?r * 2 ^ ?b = ?r * 2 ^ ?b - real c * 2 ^ ?b" by (simp add: frac_def algebra_simps)
  then have "\<lfloor>frac ?r * 2 ^ ?b\<rfloor> = int (unat w)" using b by (simp add: floor_eq_iff)
  then show ?thesis by (simp add: root_word_def)
qed

text \<open>A table, given the integer parts of the roots.\<close>

lemma root_words_eq:
  fixes ws :: "'a::len word list"
  assumes "0 < n" "length cs = length ps"
    and "list_all2 (\<lambda>(p, c) w. root_bounds n LENGTH('a) p c (unat w)) (zip ps cs) ws"
  shows "map (root_word n) ps = ws"
proof (rule nth_equalityI)
  show l: "length (map (root_word n) ps :: 'a word list) = length ws" using list_all2_lengthD [OF assms(3)] assms(2) by simp
  fix i assume "i < length (map (root_word n) ps :: 'a word list)"
  then have "i < length ps" "root_bounds n LENGTH('a) (ps ! i) (cs ! i) (unat (ws ! i))"
    using list_all2_nthD [OF assms(3), of i] assms(2) by simp_all
  then show "map (root_word n) ps ! i = ws ! i" using root_word_eq [OF assms(1)] by simp
qed

lemma fips_H256_eq: "fips_H256 = sha256_initial_hash_value"
  unfolding fips_H256_def
  by (rule root_words_eq [where cs = "[1, 1, 2, 2, 3, 3, 4, 4]"])
    (simp_all add: sha256_initial_hash_value_def first_primes_def root_bounds_def)

lemma fips_H512_eq: "fips_H512 = sha512_initial_hash_value"
  unfolding fips_H512_def
  by (rule root_words_eq [where cs = "[1, 1, 2, 2, 3, 3, 4, 4]"])
    (simp_all add: sha512_initial_hash_value_def first_primes_def root_bounds_def)

lemma fips_K256_eq: "fips_K256 = K256"
  unfolding fips_K256_def
  by (rule root_words_eq [where cs = "[1, 1, 1, 1, 2, 2, 2, 2, 2, 3, 3, 3, 3, 3, 3, 3, 3, 3, 4, 4, 4, 4, 4, 4, 4, 4, 4, 4, 4, 4, 5, 5, 5, 5, 5, 5, 5, 5, 5, 5, 5, 5, 5, 5, 5, 5, 5, 6, 6, 6, 6, 6, 6, 6, 6, 6, 6, 6, 6, 6, 6, 6, 6, 6]"])
    (simp_all add: K256_def first_primes_def root_bounds_def)

lemma fips_K512_eq: "fips_K512 = K512"
  unfolding fips_K512_def
  by (rule root_words_eq [where cs = "[1, 1, 1, 1, 2, 2, 2, 2, 2, 3, 3, 3, 3, 3, 3, 3, 3, 3, 4, 4, 4, 4, 4, 4, 4, 4, 4, 4, 4, 4, 5, 5, 5, 5, 5, 5, 5, 5, 5, 5, 5, 5, 5, 5, 5, 5, 5, 6, 6, 6, 6, 6, 6, 6, 6, 6, 6, 6, 6, 6, 6, 6, 6, 6, 6, 6, 6, 6, 7, 7, 7, 7, 7, 7, 7, 7, 7, 7, 7, 7]"])
    (simp_all add: K512_def first_primes_def root_bounds_def)

lemmas fips_constants = fips_K256_eq fips_K512_eq fips_H256_eq fips_H512_eq

declare fips_constants [code]

end
