(* ===== verification/Sha2_Spec.thy ===== *)
theory Sha2_Spec
  imports Sha2_Words Sha2_Constants
begin

text \<open>
  The Secure Hash Standard (FIPS 180-4) as a specification, and the proof that \<open>sha2.c\<close> implements it:
  the message schedule is a recursive function instead of a ring of sixteen words, words are read
  and written in big-endian order, rotations are those of the library, the constants of SHA-256 and
  SHA-512 are defined as roots of primes, and a message is padded at once instead of being buffered.
\<close>

section \<open>The standard\<close>

function schedule :: "('a::len word \<Rightarrow> 'a word) \<Rightarrow> ('a word \<Rightarrow> 'a word) \<Rightarrow> 'a word list \<Rightarrow> nat \<Rightarrow> 'a word" where
  "schedule s0 s1 M t =
     (if t < 16 then M ! t
      else s1 (schedule s0 s1 M (t - 2)) + schedule s0 s1 M (t - 7) + s0 (schedule s0 s1 M (t - 15)) + schedule s0 s1 M (t - 16))"
  by pat_completeness auto
termination by (relation "measure (\<lambda>(_, _, _, t). t)") auto

declare schedule.simps [simp del]

definition fips_round ::
  "('a::len word \<Rightarrow> 'a word) \<Rightarrow> ('a word \<Rightarrow> 'a word) \<Rightarrow> 'a word \<Rightarrow> 'a word \<Rightarrow> 'a word list \<Rightarrow> 'a word list" where
  "fips_round S0 S1 k w r = (case r of [a, b, c, d, e, f, g, h] \<Rightarrow>
     let t1 = h + S1 e + ((e AND f) XOR (NOT e AND g)) + k + w;
         t2 = S0 a + ((a AND b) XOR (a AND c) XOR (b AND c)) in
     [t1 + t2, a, b, c, d + t1, e, f, g] | _ \<Rightarrow> r)"

definition fips_compress ::
  "('a::len word \<Rightarrow> 'a word) \<Rightarrow> ('a word \<Rightarrow> 'a word) \<Rightarrow> ('a word \<Rightarrow> 'a word) \<Rightarrow> ('a word \<Rightarrow> 'a word) \<Rightarrow> 'a word list \<Rightarrow> 'a word list \<Rightarrow> 'a word list \<Rightarrow> 'a word list" where
  "fips_compress S0 S1 s0 s1 K H M =
     map2 (+) H (foldl (\<lambda>r t. fips_round S0 S1 (K ! t) (schedule s0 s1 M t) r) H [0..<length K])"

definition be_word :: "u8 list \<Rightarrow> 'a::len word" where "be_word b = load_le (rev b)"

definition be_bytes :: "nat \<Rightarrow> 'a::len word \<Rightarrow> u8 list" where "be_bytes n w = rev (store_le n w)"

definition length64 :: "nat \<Rightarrow> u8 list" where "length64 n = be_bytes 8 (word_of_nat (8 * n) :: u64)"

definition length128 :: "nat \<Rightarrow> u8 list" where
  "length128 n = be_bytes 8 (word_of_nat (8 * n div 2 ^ 64) :: u64) @ be_bytes 8 (word_of_nat (8 * n) :: u64)"

definition fips_sha256_block :: "u32 list \<Rightarrow> u8 list \<Rightarrow> u32 list" where
  "fips_sha256_block H b = fips_compress
     (\<lambda>x. word_rotr 2 x XOR word_rotr 13 x XOR word_rotr 22 x) (\<lambda>x. word_rotr 6 x XOR word_rotr 11 x XOR word_rotr 25 x)
     (\<lambda>x. word_rotr 7 x XOR word_rotr 18 x XOR drop_bit 3 x) (\<lambda>x. word_rotr 17 x XOR word_rotr 19 x XOR drop_bit 10 x)
     fips_K256 H (map be_word (chunks 4 b))"

definition fips_sha256 :: "u8 list \<Rightarrow> u8 list" where
  "fips_sha256 m = concat (map (be_bytes 4) (fold_blocks 64 fips_sha256_block fips_H256
     (m @ padding 64 56 length64 (length m))))"

definition fips_sha512_block :: "u64 list \<Rightarrow> u8 list \<Rightarrow> u64 list" where
  "fips_sha512_block H b = fips_compress
     (\<lambda>x. word_rotr 28 x XOR word_rotr 34 x XOR word_rotr 39 x) (\<lambda>x. word_rotr 14 x XOR word_rotr 18 x XOR word_rotr 41 x)
     (\<lambda>x. word_rotr 1 x XOR word_rotr 8 x XOR drop_bit 7 x) (\<lambda>x. word_rotr 19 x XOR word_rotr 61 x XOR drop_bit 6 x)
     fips_K512 H (map be_word (chunks 8 b))"

definition fips_sha512 :: "u8 list \<Rightarrow> u8 list" where
  "fips_sha512 m = concat (map (be_bytes 8) (fold_blocks 128 fips_sha512_block fips_H512
     (m @ padding 128 112 length128 (length m))))"

function sha1_schedule :: "u32 list \<Rightarrow> nat \<Rightarrow> u32" where
  "sha1_schedule M t =
     (if t < 16 then M ! t
      else word_rotl 1 (sha1_schedule M (t - 3) XOR sha1_schedule M (t - 8) XOR sha1_schedule M (t - 14) XOR sha1_schedule M (t - 16)))"
  by pat_completeness auto
termination by (relation "measure snd") auto

declare sha1_schedule.simps [simp del]

definition fips_sha1_round :: "nat \<Rightarrow> u32 \<Rightarrow> u32 list \<Rightarrow> u32 list" where
  "fips_sha1_round t w r = (case r of [a, b, c, d, e] \<Rightarrow>
     let f = (if t < 20 then (b AND c) XOR (NOT b AND d) else if 40 \<le> t \<and> t < 60 then (b AND c) XOR (b AND d) XOR (c AND d) else b XOR c XOR d);
         k = (if t < 20 then 0x5a827999 else if t < 40 then 0x6ed9eba1 else if t < 60 then 0x8f1bbcdc else 0xca62c1d6);
         x = word_rotl 5 a + f + e + k + w in
     [x, a, word_rotl 30 b, c, d] | _ \<Rightarrow> r)"

definition fips_sha1_block :: "u32 list \<Rightarrow> u8 list \<Rightarrow> u32 list" where
  "fips_sha1_block H b = (let M = map be_word (chunks 4 b) in
     map2 (+) H (foldl (\<lambda>r t. fips_sha1_round t (sha1_schedule M t) r) H [0..<80]))"

definition fips_sha1 :: "u8 list \<Rightarrow> u8 list" where
  "fips_sha1 m = concat (map (be_bytes 4) (fold_blocks 64 fips_sha1_block sha1_initial_hash_value
     (m @ padding 64 56 length64 (length m))))"

section \<open>The ring of message words\<close>

definition window :: "('w list) \<Rightarrow> (nat \<Rightarrow> 'w) \<Rightarrow> nat \<Rightarrow> bool" where
  "window W S n \<longleftrightarrow> length W = 16 \<and> (\<forall>k. n \<le> k + 16 \<and> k < n \<longrightarrow> W ! (k mod 16) = S k)"

lemma window_read:
  assumes "window W S n" "16 \<le> n" "0 < d" "d \<le> 16"
  shows "W ! ((n + (16 - d)) mod 16) = S (n - d)"
proof -
  have "n + (16 - d) = (n - d) + 16" using assms by simp
  then have "(n + (16 - d)) mod 16 = (n - d) mod 16" by (metis mod_add_self2)
  then show ?thesis using assms by (simp add: window_def)
qed

lemma window_write:
  assumes "window W S n" "v = S n"
  shows "window (W[n mod 16 := v]) S (Suc n)"
  unfolding window_def
proof (intro conjI allI impI)
  show "length (W[n mod 16 := v]) = 16" using assms(1) by (simp add: window_def)
  fix k assume k: "Suc n \<le> k + 16 \<and> k < Suc n"
  show "W[n mod 16 := v] ! (k mod 16) = S k"
  proof (cases "k = n")
    case True
    then show ?thesis using assms by (simp add: window_def)
  next
    case False
    define d where "d = n - k"
    have "n = k + d" "0 < d" "d < 16" using k False by (auto simp: d_def)
    then have "k mod 16 \<noteq> n mod 16" by (metis add_cancel_right_right mod_add_eq mod_less mod_mod_trivial nat_arith.rule0 not_gr0 zero_neq_numeral mod_eq_dvd_iff_nat add_diff_cancel_left' le_add1 dvd_imp_le leD)
    then show ?thesis using assms(1) k False by (simp add: window_def)
  qed
qed

lemma window_start: "length M = 16 \<Longrightarrow> (\<And>t. t < 16 \<Longrightarrow> S t = M ! t) \<Longrightarrow> window M S 16"
  by (simp add: window_def)

section \<open>Compression\<close>

lemma length_8:
  assumes "length r = 8"
  obtains a b c d e f g h where "r = [a, b, c, d, e, f, g, h]"
  using assms by (auto simp: length_Suc_conv numeral_eq_Suc)

lemma registers_eq:
  assumes "length r = 8"
  shows "sha2_registers S0 S1 r k w = fips_round S0 S1 k w r" "length (fips_round S0 S1 k w r) = 8"
proof -
  obtain a b c d e f g h where "r = [a, b, c, d, e, f, g, h]" by (rule length_8 [OF assms])
  then show "sha2_registers S0 S1 r k w = fips_round S0 S1 k w r" "length (fips_round S0 S1 k w r) = 8"
    by (simp_all add: sha2_registers_def fips_round_def Let_def Ch_def Maj_def)
qed

lemma transform_eq:
  fixes data state :: "'a::len word list"
  assumes l: "length state = 8" "length data = 16" "16 \<le> length K"
  shows "sha2_transform S0 S1 s0 s1 K (length K) state data = fips_compress S0 S1 s0 s1 K state data"
proof -
  let ?S = "schedule s0 s1 data"
  define R where "R n = foldl (\<lambda>r t. fips_round S0 S1 (K ! t) (?S t) r) state [0..<n]" for n
  have R: "length (R n) = 8" for n by (induction n) (simp_all add: R_def l registers_eq(2))
  have early: "?S t = data ! t" if "t < 16" for t using that by (simp add: schedule.simps)
  have step: "R (Suc n) = sha2_registers S0 S1 (R n) (K ! n) (?S n)" for n
    by (simp add: registers_eq(1) [OF R]) (simp add: R_def)
  have load: "foldl (sha2_load_step S0 S1 K data) (state, replicate 16 0) [0..<n] = (R n, take n data @ replicate (16 - n) 0)"
    if "n \<le> 16" for n
    using that
  proof (induction n)
    case (Suc n)
    have "(take n data @ replicate (16 - n) 0)[n := data ! n] = take (Suc n) data @ replicate (16 - Suc n) 0"
      using Suc.prems l(2) by (auto simp: list_eq_iff_nth_eq nth_append nth_list_update less_Suc_eq)
    moreover have "(take (Suc n) data @ replicate (16 - Suc n) 0) ! n = data ! n" using Suc.prems l(2) by (simp add: nth_append)
    ultimately show ?case using Suc by (simp add: sha2_load_step_def step early Let_def)
  qed (simp add: R_def)
  have expand: "\<exists>W. foldl (sha2_expand_step S0 S1 s0 s1 K) (R 16, data) [16..<16 + n] = (R (16 + n), W) \<and> window W ?S (16 + n)" for n
  proof (induction n)
    case 0
    then show ?case using window_start [OF l(2), of ?S] early by simp
  next
    case (Suc n)
    then obtain W where W: "foldl (sha2_expand_step S0 S1 s0 s1 K) (R 16, data) [16..<16 + n] = (R (16 + n), W)" "window W ?S (16 + n)" by blast
    define j where "j = 16 + n"
    note read = window_read [OF W(2) [folded j_def]]
    have w: "W ! ((j + 1) mod 16) = ?S (j - 15)" "W ! ((j + 14) mod 16) = ?S (j - 2)" "W ! ((j + 9) mod 16) = ?S (j - 7)" "W ! (j mod 16) = ?S (j - 16)"
      using read [of 15] read [of 2] read [of 7] read [of 16] by (simp_all add: j_def)
    define v where "v = W ! (j mod 16) + (s1 (W ! ((j + 14) mod 16)) + W ! ((j + 9) mod 16) + s0 (W ! ((j + 1) mod 16)))"
    have nj: "\<not> j < 16" by (simp add: j_def)
    have "?S j = s1 (?S (j - 2)) + ?S (j - 7) + s0 (?S (j - 15)) + ?S (j - 16)"
      by (subst schedule.simps) (simp only: nj if_False)
    then have v: "v = ?S j" unfolding v_def w by (simp only: ac_simps)
    have win: "window (W[j mod 16 := v]) ?S (Suc j)" by (rule window_write [OF W(2) [folded j_def] v])
    have "length W = 16" using W(2) by (simp add: window_def)
    then have "sha2_expand_step S0 S1 s0 s1 K (R j, W) j = (R (Suc j), W[j mod 16 := v])"
      unfolding sha2_expand_step_def Let_def prod.case v_def [symmetric] by (simp add: step v)
    then have "foldl (sha2_expand_step S0 S1 s0 s1 K) (R 16, data) [16..<Suc j] = (R (Suc j), W[j mod 16 := v])"
      using W(1) by (simp add: j_def [symmetric]) (simp add: j_def)
    then show ?case using win unfolding j_def add_Suc_right by blast
  qed
  from expand [of "length K - 16"] l(3) obtain W where
    "foldl (sha2_expand_step S0 S1 s0 s1 K) (R 16, data) [16..<length K] = (R (length K), W)" by auto
  then show ?thesis using load [of 16] l(2) by (simp add: sha2_transform_def fips_compress_def R_def Let_def)
qed

lemma sha1_length_5:
  assumes "length r = 5"
  obtains a b c d e where "r = [a, b, c, d, e]"
  using assms by (auto simp: length_Suc_conv numeral_eq_Suc)

lemma sha1_registers_eq:
  assumes "length r = 5"
  shows "t < 20 \<Longrightarrow> sha1_registers Ch K1_0_TO_19 r w = fips_sha1_round t w r"
    "20 \<le> t \<Longrightarrow> t < 40 \<Longrightarrow> sha1_registers Parity K1_20_TO_39 r w = fips_sha1_round t w r"
    "40 \<le> t \<Longrightarrow> t < 60 \<Longrightarrow> sha1_registers Maj K1_40_TO_59 r w = fips_sha1_round t w r"
    "60 \<le> t \<Longrightarrow> sha1_registers Parity K1_60_TO_79 r w = fips_sha1_round t w r"
    "length (fips_sha1_round t w r) = 5"
proof -
  obtain a b c d e where r: "r = [a, b, c, d, e]" by (rule sha1_length_5 [OF assms])
  note defs = sha1_registers_def fips_sha1_round_def Let_def Ch_def Maj_def Parity_def ROTL32_eq
    K1_0_TO_19_def K1_20_TO_39_def K1_40_TO_59_def K1_60_TO_79_def
  show "t < 20 \<Longrightarrow> sha1_registers Ch K1_0_TO_19 r w = fips_sha1_round t w r"
    "20 \<le> t \<Longrightarrow> t < 40 \<Longrightarrow> sha1_registers Parity K1_20_TO_39 r w = fips_sha1_round t w r"
    "40 \<le> t \<Longrightarrow> t < 60 \<Longrightarrow> sha1_registers Maj K1_40_TO_59 r w = fips_sha1_round t w r"
    "60 \<le> t \<Longrightarrow> sha1_registers Parity K1_60_TO_79 r w = fips_sha1_round t w r"
    "length (fips_sha1_round t w r) = 5"
    by (simp_all add: r defs)
qed

lemma sha1_expand_eq:
  fixes data state :: "u32 list"
  assumes R: "\<And>n. length (R n) = 5" "\<And>n. R (Suc n) = fips_sha1_round n (sha1_schedule data n) (R n)"
    and seg: "\<And>t w r. m \<le> t \<Longrightarrow> t < m + n \<Longrightarrow> length r = 5 \<Longrightarrow> sha1_registers F k r w = fips_sha1_round t w r"
    and W: "window W (sha1_schedule data) m" "16 \<le> m"
  shows "\<exists>W'. foldl (sha1_expand_step F k) (R m, W) [m..<m + n] = (R (m + n), W') \<and> window W' (sha1_schedule data) (m + n)"
  using seg
proof (induction n)
  case 0
  then show ?case using W by simp
next
  case (Suc n)
  then obtain V where V: "foldl (sha1_expand_step F k) (R m, W) [m..<m + n] = (R (m + n), V)" "window V (sha1_schedule data) (m + n)" by auto
  define j where "j = m + n"
  have j: "16 \<le> j" using W(2) by (simp add: j_def)
  note read = window_read [OF V(2) [folded j_def] j]
  have w: "V ! ((j + 13) mod 16) = sha1_schedule data (j - 3)" "V ! ((j + 8) mod 16) = sha1_schedule data (j - 8)"
    "V ! ((j + 2) mod 16) = sha1_schedule data (j - 14)" "V ! (j mod 16) = sha1_schedule data (j - 16)"
    using read [of 3] read [of 8] read [of 14] read [of 16] by simp_all
  define v where "v = ROTL32 1 (V ! ((j + 13) mod 16) XOR V ! ((j + 8) mod 16) XOR V ! ((j + 2) mod 16) XOR V ! (j mod 16))"
  have v: "v = sha1_schedule data j"
    using j unfolding v_def w by (subst sha1_schedule.simps) (simp add: ROTL32_eq)
  have win: "window (V[j mod 16 := v]) (sha1_schedule data) (Suc j)" by (rule window_write [OF V(2) [folded j_def] v])
  have "length V = 16" using V(2) by (simp add: window_def)
  then have "sha1_expand_step F k (R j, V) j = (R (Suc j), V[j mod 16 := v])"
    using Suc.prems [of j "R j" v] R
    unfolding sha1_expand_step_def Let_def prod.case v_def [symmetric] by (simp add: v j_def)
  then show ?case using V(1) win by (simp add: j_def)
qed

lemma sha1_transform_eq:
  assumes l: "length state = 5" "length data = 16"
  shows "sha1_Transform state data = map2 (+) state (foldl (\<lambda>r t. fips_sha1_round t (sha1_schedule data t) r) state [0..<80])"
proof -
  define R where "R n = foldl (\<lambda>r t. fips_sha1_round t (sha1_schedule data t) r) state [0..<n]" for n
  have R: "length (R n) = 5" for n by (induction n) (simp_all add: R_def l sha1_registers_eq(5))
  have step: "R (Suc n) = fips_sha1_round n (sha1_schedule data n) (R n)" for n by (simp add: R_def)
  have early: "sha1_schedule data t = data ! t" if "t < 16" for t using that by (simp add: sha1_schedule.simps)
  have "foldl (sha1_load_step data) (state, replicate 16 0) [0..<n] = (R n, take n data @ replicate (16 - n) 0)" if "n \<le> 16" for n
    using that
  proof (induction n)
    case (Suc n)
    have "(take n data @ replicate (16 - n) 0)[n := data ! n] = take (Suc n) data @ replicate (16 - Suc n) 0"
      using Suc.prems l(2) by (auto simp: list_eq_iff_nth_eq nth_append nth_list_update less_Suc_eq)
    moreover have "(take (Suc n) data @ replicate (16 - Suc n) 0) ! n = data ! n" using Suc.prems l(2) by (simp add: nth_append)
    ultimately show ?case using Suc by (simp add: sha1_load_step_def step early Let_def sha1_registers_eq(1) [OF R])
  qed (simp add: R_def)
  from this [of 16] have load: "foldl (sha1_load_step data) (state, replicate 16 0) [0..<16] = (R 16, data)" using l(2) by simp
  note expand = sha1_expand_eq [of R data, OF R step]
  have w16: "window data (sha1_schedule data) 16" using window_start [OF l(2)] early by blast
  obtain W1 where 1: "foldl (sha1_expand_step Ch K1_0_TO_19) (R 16, data) [16..<20] = (R 20, W1)" "window W1 (sha1_schedule data) 20"
    using expand [of 16 4 Ch K1_0_TO_19 data] sha1_registers_eq(1) w16 by auto
  obtain W2 where 2: "foldl (sha1_expand_step Parity K1_20_TO_39) (R 20, W1) [20..<40] = (R 40, W2)" "window W2 (sha1_schedule data) 40"
    using expand [of 20 20 Parity K1_20_TO_39 W1] sha1_registers_eq(2) 1(2) by auto
  obtain W3 where 3: "foldl (sha1_expand_step Maj K1_40_TO_59) (R 40, W2) [40..<60] = (R 60, W3)" "window W3 (sha1_schedule data) 60"
    using expand [of 40 20 Maj K1_40_TO_59 W2] sha1_registers_eq(3) 2(2) by auto
  obtain W4 where 4: "foldl (sha1_expand_step Parity K1_60_TO_79) (R 60, W3) [60..<80] = (R 80, W4)"
    using expand [of 60 20 Parity K1_60_TO_79 W3] sha1_registers_eq(4) 3(2) by auto
  show ?thesis unfolding sha1_Transform_def Let_def load 1(1) 2(1) 3(1) 4 by (simp add: R_def)
qed

section \<open>Blocks of bytes\<close>

lemma words_reverse32:
  assumes "length b = 64"
  shows "map load_le (chunks 4 (reverse32_buffer b)) = map be_word (chunks 4 b)" "length (chunks 4 b) = 16"
  using assms by (simp_all add: reverse32_eq chunks_rev be_word_def [abs_def] length_chunks comp_def)

lemma words_reverse64:
  assumes "length b = 128"
  shows "map load_le (chunks 8 (reverse64_buffer b)) = map be_word (chunks 8 b)" "length (chunks 8 b) = 16"
  using assms by (simp_all add: reverse64_eq chunks_rev be_word_def [abs_def] length_chunks comp_def)

lemma sha256_block:
  assumes "length H = 8" "length b = 64"
  shows "transform32 sha256_Transform H (reverse32_buffer b) = fips_sha256_block H b" "length (fips_sha256_block H b) = 8"
proof -
  have K: "length K256 = 64" by (simp add: K256_def)
  have rot: "Sigma0_256 = (\<lambda>x. word_rotr 2 x XOR word_rotr 13 x XOR word_rotr 22 x)" "Sigma1_256 = (\<lambda>x. word_rotr 6 x XOR word_rotr 11 x XOR word_rotr 25 x)"
    "sigma0_256 = (\<lambda>x. word_rotr 7 x XOR word_rotr 18 x XOR drop_bit 3 x)" "sigma1_256 = (\<lambda>x. word_rotr 17 x XOR word_rotr 19 x XOR drop_bit 10 x)"
    by (simp_all add: fun_eq_iff Sigma0_256_def Sigma1_256_def sigma0_256_def sigma1_256_def ROTR32_eq SHR_def)
  show "transform32 sha256_Transform H (reverse32_buffer b) = fips_sha256_block H b"
    unfolding transform32_def sha256_Transform_def words_reverse32(1) [OF assms(2)] fips_sha256_block_def fips_constants rot [symmetric]
    using transform_eq [of H "map be_word (chunks 4 b)" K256] words_reverse32(2) [OF assms(2)] assms(1) K by simp
  have "length (foldl (\<lambda>r t. fips_round S0 S1 (K ! t) (W t) r) H ts) = 8" for S0 S1 :: "u32 \<Rightarrow> u32" and K W ts
    using assms(1) by (induction ts rule: rev_induct) (simp_all add: registers_eq(2))
  then show "length (fips_sha256_block H b) = 8" using assms(1) by (simp add: fips_sha256_block_def fips_compress_def)
qed

lemma sha512_block:
  assumes "length H = 8" "length b = 128"
  shows "transform64 sha512_Transform H (reverse64_buffer b) = fips_sha512_block H b" "length (fips_sha512_block H b) = 8"
proof -
  have K: "length K512 = 80" by (simp add: K512_def)
  have rot: "Sigma0_512 = (\<lambda>x. word_rotr 28 x XOR word_rotr 34 x XOR word_rotr 39 x)" "Sigma1_512 = (\<lambda>x. word_rotr 14 x XOR word_rotr 18 x XOR word_rotr 41 x)"
    "sigma0_512 = (\<lambda>x. word_rotr 1 x XOR word_rotr 8 x XOR drop_bit 7 x)" "sigma1_512 = (\<lambda>x. word_rotr 19 x XOR word_rotr 61 x XOR drop_bit 6 x)"
    by (simp_all add: fun_eq_iff Sigma0_512_def Sigma1_512_def sigma0_512_def sigma1_512_def ROTR64_eq SHR_def)
  show "transform64 sha512_Transform H (reverse64_buffer b) = fips_sha512_block H b"
    unfolding transform64_def sha512_Transform_def words_reverse64(1) [OF assms(2)] fips_sha512_block_def fips_constants rot [symmetric]
    using transform_eq [of H "map be_word (chunks 8 b)" K512] words_reverse64(2) [OF assms(2)] assms(1) K by simp
  have "length (foldl (\<lambda>r t. fips_round S0 S1 (K ! t) (W t) r) H ts) = 8" for S0 S1 :: "u64 \<Rightarrow> u64" and K W ts
    using assms(1) by (induction ts rule: rev_induct) (simp_all add: registers_eq(2))
  then show "length (fips_sha512_block H b) = 8" using assms(1) by (simp add: fips_sha512_block_def fips_compress_def)
qed

lemma sha1_block:
  assumes "length H = 5" "length b = 64"
  shows "transform32 sha1_Transform H (reverse32_buffer b) = fips_sha1_block H b" "length (fips_sha1_block H b) = 5"
proof -
  show "transform32 sha1_Transform H (reverse32_buffer b) = fips_sha1_block H b"
    unfolding transform32_def words_reverse32(1) [OF assms(2)] fips_sha1_block_def Let_def
    using assms words_reverse32(2) [OF assms(2)] by (intro sha1_transform_eq) simp_all
  have "length (foldl (\<lambda>r t. fips_sha1_round t (W t) r) H ts) = 5" for W ts
    using assms(1) by (induction ts rule: rev_induct) (simp_all add: sha1_registers_eq(5))
  then show "length (fips_sha1_block H b) = 5" using assms(1) by (simp add: fips_sha1_block_def Let_def)
qed

section \<open>The counters\<close>

lemma reverse32_append: "4 dvd length a \<Longrightarrow> reverse32_buffer (a @ b) = reverse32_buffer a @ reverse32_buffer b"
  by (simp add: reverse32_buffer_def chunks_append_dvd)

lemma reverse64_append: "8 dvd length a \<Longrightarrow> reverse64_buffer (a @ b) = reverse64_buffer a @ reverse64_buffer b"
  by (simp add: reverse64_buffer_def chunks_append_dvd)

lemma length_reverse32: "4 dvd length b \<Longrightarrow> length (reverse32_buffer b) = length b"
  by (simp add: reverse32_eq length_concat_rev)

lemma length_reverse64: "8 dvd length b \<Longrightarrow> length (reverse64_buffer b) = length b"
  by (simp add: reverse64_eq length_concat_rev)

lemma push_bit_3: "push_bit 3 (word_of_nat k) = (word_of_nat (8 * k) :: u64)"
  by (simp add: push_bit_eq_mult mult.commute)

lemma unat_count: "unat (drop_bit 3 (word_of_nat (8 * n) :: u64)) = n mod 2 ^ 61"
proof -
  have "unat (drop_bit 3 (word_of_nat (8 * n) :: u64)) = unat (word_of_nat (8 * n) :: u64) div 8"
    using unat_drop_bit_eq [of 3 "word_of_nat (8 * n) :: u64"] by (simp only: drop_bit_eq_div) simp
  also have "unat (word_of_nat (8 * n) :: u64) = 8 * n mod (8 * 2 ^ 61)"
    by (simp add: unat_of_nat take_bit_eq_mod del: of_nat_mult)
  also have "8 * n mod (8 * 2 ^ 61) = 8 * (n mod 2 ^ 61)" by (rule mod_mult_mult1)
  finally show ?thesis by simp
qed

lemma used_count: "used64 (word_of_nat (8 * n)) = n mod 64" "used128 (word_of_nat (8 * n), h) = n mod 128"
proof -
  have "n mod 2 ^ 61 mod 64 = n mod 64" "n mod 2 ^ 61 mod 128 = n mod 128"
    by (rule mod_mod_cancel; simp)+
  then show "used64 (word_of_nat (8 * n)) = n mod 64" "used128 (word_of_nat (8 * n), h) = n mod 128"
    by (simp_all only: used64_def used128_def unat_count fst_conv)
qed

lemma inc64_count: "inc64 (word_of_nat (8 * n)) k = word_of_nat (8 * (n + k))"
  unfolding inc64_def push_bit_3 by (simp add: distrib_left)

definition count128_of :: "nat \<Rightarrow> u64 \<times> u64" where
  "count128_of n = (word_of_nat (8 * n), word_of_nat (8 * n div 2 ^ 64))"

lemma add_carry:
  fixes a b M :: nat
  assumes "b < M"
  shows "(a + b) div M = a div M + (if (a + b) mod M < b then 1 else 0)"
proof -
  have M: "0 < M" using assms by simp
  define q r where "q = a div M" and "r = a mod M"
  have a: "a = q * M + r" and r: "r < M" using M by (simp_all add: q_def r_def)
  show ?thesis
  proof (cases "r + b < M")
    case True
    then show ?thesis using a r by (simp add: add.assoc)
  next
    case False
    then have "a + b = Suc q * M + (r + b - M)" "r + b - M < M" using a r assms by simp_all
    moreover have "r + b - M < b" using r False by simp
    ultimately show ?thesis using a r by (simp del: mult_Suc)
  qed
qed

lemma inc128_count:
  assumes "k < 2 ^ 61"
  shows "inc128 (count128_of n) k = count128_of (n + k)"
proof -
  define a b where "a = 8 * n" and "b = 8 * k"
  have b: "b < 2 ^ 64" using assms by (simp add: b_def)
  have lo: "word_of_nat a + word_of_nat b = (word_of_nat (a + b) :: u64)" by simp
  have "(word_of_nat (a + b) < (word_of_nat b :: u64)) = ((a + b) mod 2 ^ 64 < b)"
    using b by (simp add: word_less_nat_alt unat_of_nat take_bit_eq_mod del: of_nat_add)
  then show ?thesis
    using add_carry [OF b, of a]
    by (simp add: inc128_def count128_of_def ADDINC128_def push_bit_3 Let_def distrib_left lo flip: a_def b_def del: of_nat_add of_nat_mult)
qed

lemma store_le_halves:
  fixes c :: u64
  shows "take 4 (store_le 8 c) = store_le 4 (ucast (c AND 0xffffffff) :: u32)" "drop 4 (store_le 8 c) = store_le 4 (ucast (drop_bit 32 c) :: u32)"
proof -
  have mask: "(0xffffffff :: u64) = mask 32" by (simp add: mask_eq_exp_minus_1)
  show "take 4 (store_le 8 c) = store_le 4 (ucast (c AND 0xffffffff) :: u32)"
    by (rule nth_equalityI) (auto simp: nth_store_le mask bit_simps intro!: bit_word_eqI)
  show "drop 4 (store_le 8 c) = store_le 4 (ucast (drop_bit 32 c) :: u32)"
    by (rule nth_equalityI) (auto simp: nth_store_le bit_simps ac_simps intro!: bit_word_eqI)
qed

lemma reverse32_pair: "length a = 4 \<Longrightarrow> length b = 4 \<Longrightarrow> reverse32_buffer (a @ b) = rev a @ rev b"
  using chunks_append [of 4 a b] chunks_append [of 4 b "[]"] by (simp add: reverse32_eq)

lemma reverse64_pair: "length a = 8 \<Longrightarrow> length b = 8 \<Longrightarrow> reverse64_buffer (a @ b) = rev a @ rev b"
  using chunks_append [of 8 a b] chunks_append [of 8 b "[]"] by (simp add: reverse64_eq)

lemma count64_eq: "count64 (word_of_nat (8 * n)) = reverse32_buffer (length64 n)"
proof -
  define c :: u64 where "c = word_of_nat (8 * n)"
  have "rev (store_le 8 c) = rev (drop 4 (store_le 8 c)) @ rev (take 4 (store_le 8 c))"
    by (simp flip: rev_append)
  then show ?thesis
    unfolding length64_def be_bytes_def count64_def c_def [symmetric] by (simp add: reverse32_pair store_le_halves)
qed

lemma count128_eq: "count128 (count128_of n) = reverse64_buffer (length128 n)"
  by (simp add: count128_def count128_of_def length128_def be_bytes_def reverse64_pair)

lemma length_length64: "length (length64 n) = 8" "length (length128 n) = 16"
  by (simp_all add: length64_def length128_def be_bytes_def)

section \<open>The hash functions of \<open>sha2.c\<close> are block hashes\<close>

definition count64_of :: "nat \<Rightarrow> u64" where
  "count64_of n = word_of_nat (8 * n)"

lemmas count64_laws =
  used_count(1) [folded count64_of_def] inc64_count [folded count64_of_def] count64_eq [folded count64_of_def]
  length_length64(1) reverse32_append length_reverse32

lemma used128_count: "used128 (count128_of n) = n mod 128"
  by (simp only: count128_of_def used_count)

lemmas count128_laws =
  used128_count inc128_count count128_eq length_length64(2) reverse64_append length_reverse64

interpretation sha1: block_hash 64 56 reverse32_buffer "transform32 sha1_Transform" used64 inc64 count64 count64_of length64
  by unfold_locales (simp_all add: count64_laws)

interpretation sha256: block_hash 64 56 reverse32_buffer "transform32 sha256_Transform" used64 inc64 count64 count64_of length64
  by unfold_locales (simp_all add: count64_laws)

interpretation sha512: block_hash 128 112 reverse64_buffer "transform64 sha512_Transform" used128 inc128 count128 count128_of length128
  by unfold_locales (simp_all add: count128_laws)

section \<open>Conformance\<close>

lemma sha256_updates:
  "sha256.absorbed sha256_initial_hash_value (foldl sha256_Update sha256_Init pieces) (concat pieces)"
  using sha256.updates_absorbed [OF sha256.init_absorbed [of "replicate 64 0"]]
  by (simp add: sha256_Update_def sha256_Init_def count64_of_def)

lemma sha256_absorbed_Final:
  assumes "sha256.absorbed sha256_initial_hash_value ctx m"
  shows "sha256_Final ctx = fips_sha256 m"
proof -
  have "fold_blocks 64 sha256.compress sha256_initial_hash_value x = fold_blocks 64 fips_sha256_block sha256_initial_hash_value x" for x
    by (rule fold_blocks_cong [where P = "\<lambda>s. length s = 8"])
      (simp_all add: sha256.compress_def sha256_block, simp add: sha256_initial_hash_value_def)
  then show ?thesis
    by (simp add: sha256_Final_def fips_sha256_def fips_constants sha256.last_absorbed [OF assms] digest32_eq be_bytes_def [abs_def])
qed

lemma sha512_updates:
  "sha512.absorbed sha512_initial_hash_value (foldl sha512_Update sha512_Init pieces) (concat pieces)"
  using sha512.updates_absorbed [OF sha512.init_absorbed [of "replicate 128 0"]]
  by (simp add: sha512_Update_def sha512_Init_def count128_of_def)

lemma sha512_absorbed_Final:
  assumes "sha512.absorbed sha512_initial_hash_value ctx m"
  shows "sha512_Final ctx = fips_sha512 m"
proof -
  have "fold_blocks 128 sha512.compress sha512_initial_hash_value x = fold_blocks 128 fips_sha512_block sha512_initial_hash_value x" for x
    by (rule fold_blocks_cong [where P = "\<lambda>s. length s = 8"])
      (simp_all add: sha512.compress_def sha512_block, simp add: sha512_initial_hash_value_def)
  then show ?thesis
    by (simp add: sha512_Final_def sha512_Last_def fips_sha512_def fips_constants sha512.last_absorbed [OF assms] digest64_eq be_bytes_def [abs_def])
qed

lemma sha1_updates:
  "sha1.absorbed sha1_initial_hash_value (foldl sha1_Update sha1_Init pieces) (concat pieces)"
  using sha1.updates_absorbed [OF sha1.init_absorbed [of "replicate 64 0"]]
  by (simp add: sha1_Update_def sha1_Init_def count64_of_def)

lemma sha1_absorbed_Final:
  assumes "sha1.absorbed sha1_initial_hash_value ctx m"
  shows "sha1_Final ctx = fips_sha1 m"
proof -
  have "fold_blocks 64 sha1.compress sha1_initial_hash_value x = fold_blocks 64 fips_sha1_block sha1_initial_hash_value x" for x
    by (rule fold_blocks_cong [where P = "\<lambda>s. length s = 5"])
      (simp_all add: sha1.compress_def sha1_block, simp add: sha1_initial_hash_value_def)
  then show ?thesis
    by (simp add: sha1_Final_def fips_sha1_def sha1.last_absorbed [OF assms] digest32_eq be_bytes_def [abs_def])
qed

text \<open>
  C27. SHA-256 of \<open>sha2.c\<close> is SHA-256 of FIPS 180-4: however a message is cut into pieces for
  \<open>sha256_Update\<close>, \<open>sha256_Final\<close> returns the digest the standard defines for their concatenation,
  with constants that are the bits of roots of primes.
  The counters wrap around beyond the lengths that the standard allows.
\<close>

theorem sha256_spec:
  "sha256_Final (foldl sha256_Update sha256_Init pieces) = fips_sha256 (concat pieces)"
  by (intro sha256_absorbed_Final sha256_updates)

text \<open>
  C28. SHA-512 of \<open>sha2.c\<close>, with its 128-bit counter of two words and the carry between them, is
  SHA-512 of FIPS 180-4 for every way to cut the message into pieces.
\<close>

theorem sha512_spec:
  "sha512_Final (foldl sha512_Update sha512_Init pieces) = fips_sha512 (concat pieces)"
  by (intro sha512_absorbed_Final sha512_updates)

text \<open>
  SHA-1 of \<open>sha2.c\<close>, whose loop is cut into the ranges of rounds of the four constants, is SHA-1
  of FIPS 180-4 for every way to cut the message into pieces.
\<close>

theorem sha1_spec:
  "sha1_Final (foldl sha1_Update sha1_Init pieces) = fips_sha1 (concat pieces)"
  by (intro sha1_absorbed_Final sha1_updates)

end
