(* ===== verification/Hmac.thy ===== *)
theory Hmac
  imports Sha2_Spec
begin

text \<open>
  \<open>crypto/hmac.c\<close>: HMAC with SHA-256 and SHA-512, in the incremental form and in the prepared form of
  PBKDF2, where only the states after the two key blocks are kept. The routines for the two hashes
  are one text, which takes the hash as an argument here. The locale \<open>word_hash\<close> states what this
  text needs of the hash, and shows that HMAC is that of RFC 2104.
\<close>

record 'ctx HMAC_CTX =
  o_key_pad :: "u8 list"
  inner_ctx :: 'ctx

definition hmac_Init :: "nat \<Rightarrow> (u8 list \<Rightarrow> u8 list) \<Rightarrow> 'ctx \<Rightarrow> ('ctx \<Rightarrow> u8 list \<Rightarrow> 'ctx) \<Rightarrow> u8 list \<Rightarrow> 'ctx HMAC_CTX" where
  "hmac_Init blen raw init update key =
     (let i_key_pad = replicate blen 0;
          i_key_pad = buffer_copy i_key_pad 0 (if length key > blen then raw key else key) in
      \<lparr>o_key_pad = map (\<lambda>b. b XOR 0x5c) i_key_pad, inner_ctx = update init (map (\<lambda>b. b XOR 0x36) i_key_pad)\<rparr>)"

definition hmac_Update :: "('ctx \<Rightarrow> u8 list \<Rightarrow> 'ctx) \<Rightarrow> 'ctx HMAC_CTX \<Rightarrow> u8 list \<Rightarrow> 'ctx HMAC_CTX" where
  "hmac_Update update hctx msg = hctx\<lparr>inner_ctx := update (inner_ctx hctx) msg\<rparr>"

definition hmac_Final :: "'ctx \<Rightarrow> ('ctx \<Rightarrow> u8 list \<Rightarrow> 'ctx) \<Rightarrow> ('ctx \<Rightarrow> u8 list) \<Rightarrow> 'ctx HMAC_CTX \<Rightarrow> u8 list" where
  "hmac_Final init update final hctx =
     (let hmac = final (inner_ctx hctx) in
      final (update (update init (o_key_pad hctx)) hmac))"

text \<open>
  The states after the outer and the inner key block. The key block is an array of words in memory;
  \<open>reverse\<close> converts a word to the byte order of the host.
\<close>

definition hmac_prepare ::
  "nat \<Rightarrow> nat \<Rightarrow> ('a::len word \<Rightarrow> 'a word) \<Rightarrow> ('a word list \<Rightarrow> 'a word list \<Rightarrow> 'a word list) \<Rightarrow> 'a word list \<Rightarrow> (u8 list \<Rightarrow> u8 list)
     \<Rightarrow> 'a word \<Rightarrow> 'a word \<Rightarrow> u8 list \<Rightarrow> 'a word list \<times> 'a word list" where
  "hmac_prepare wlen blen reverse transform iv raw opad ipad key =
     (let key_pad = map load_le (chunks wlen (buffer_copy (replicate blen 0) 0 (if length key > blen then raw key else key)));
          key_pad = map (\<lambda>w. reverse w XOR opad) key_pad;
          opad_digest = transform iv key_pad;
          key_pad = map (\<lambda>w. w XOR opad XOR ipad) key_pad;
          ipad_digest = transform iv key_pad in
      (opad_digest, ipad_digest))"

definition hmac_sha256_Init :: "u8 list \<Rightarrow> SHA256_CTX HMAC_CTX" where
  "hmac_sha256_Init = hmac_Init 64 sha256_Raw sha256_Init sha256_Update"

definition hmac_sha256_Update :: "SHA256_CTX HMAC_CTX \<Rightarrow> u8 list \<Rightarrow> SHA256_CTX HMAC_CTX" where
  "hmac_sha256_Update = hmac_Update sha256_Update"

definition hmac_sha256_Final :: "SHA256_CTX HMAC_CTX \<Rightarrow> u8 list" where
  "hmac_sha256_Final = hmac_Final sha256_Init sha256_Update sha256_Final"

definition hmac_sha256 :: "u8 list \<Rightarrow> u8 list \<Rightarrow> u8 list" where
  "hmac_sha256 key msg = hmac_sha256_Final (hmac_sha256_Update (hmac_sha256_Init key) msg)"

definition hmac_sha256_prepare :: "u8 list \<Rightarrow> u32 list \<times> u32 list" where
  "hmac_sha256_prepare = hmac_prepare 4 64 REVERSE32 sha256_Transform sha256_initial_hash_value
     (\<lambda>key. sha256_Final (sha256_Update sha256_Init key)) 0x5c5c5c5c 0x36363636"

definition hmac_sha512_Init :: "u8 list \<Rightarrow> SHA512_CTX HMAC_CTX" where
  "hmac_sha512_Init = hmac_Init 128 sha512_Raw sha512_Init sha512_Update"

definition hmac_sha512_Update :: "SHA512_CTX HMAC_CTX \<Rightarrow> u8 list \<Rightarrow> SHA512_CTX HMAC_CTX" where
  "hmac_sha512_Update = hmac_Update sha512_Update"

definition hmac_sha512_Final :: "SHA512_CTX HMAC_CTX \<Rightarrow> u8 list" where
  "hmac_sha512_Final = hmac_Final sha512_Init sha512_Update sha512_Final"

definition hmac_sha512 :: "u8 list \<Rightarrow> u8 list \<Rightarrow> u8 list" where
  "hmac_sha512 key msg = hmac_sha512_Final (hmac_sha512_Update (hmac_sha512_Init key) msg)"

definition hmac_sha512_prepare :: "u8 list \<Rightarrow> u64 list \<times> u64 list" where
  "hmac_sha512_prepare = hmac_prepare 8 128 REVERSE64 sha512_Transform sha512_initial_hash_value
     (\<lambda>key. sha512_Final (sha512_Update sha512_Init key)) 0x5c5c5c5c5c5c5c5c 0x3636363636363636"

section \<open>RFC 2104\<close>

definition key_block :: "nat \<Rightarrow> (u8 list \<Rightarrow> u8 list) \<Rightarrow> u8 list \<Rightarrow> u8 list" where
  "key_block blen H key = (let k = (if length key > blen then H key else key) in k @ replicate (blen - length k) 0)"

definition rfc2104_hmac :: "nat \<Rightarrow> (u8 list \<Rightarrow> u8 list) \<Rightarrow> u8 list \<Rightarrow> u8 list \<Rightarrow> u8 list" where
  "rfc2104_hmac blen H key msg =
     H (map (\<lambda>b. b XOR 0x5c) (key_block blen H key) @ H (map (\<lambda>b. b XOR 0x36) (key_block blen H key) @ msg))"

section \<open>Words and bytes in big-endian order\<close>

definition be_words :: "nat \<Rightarrow> u8 list \<Rightarrow> 'a::len word list" where
  "be_words wlen b = map be_word (chunks wlen b)"

definition be_string :: "nat \<Rightarrow> 'a::len word list \<Rightarrow> u8 list" where
  "be_string wlen s = concat (map (be_bytes wlen) s)"

lemma length_be_string [simp]: "length (be_string wlen s) = wlen * length s"
  by (induction s) (simp_all add: be_string_def be_bytes_def)

lemma be_words_append: "0 < wlen \<Longrightarrow> wlen dvd length a \<Longrightarrow> be_words wlen (a @ b) = be_words wlen a @ be_words wlen b"
  by (simp add: be_words_def chunks_append_dvd)

lemma be_words_string:
  fixes s :: "'a::len word list"
  assumes "0 < wlen" "\<And>w. load_le (store_le wlen w) = (w :: 'a word)"
  shows "be_words wlen (be_string wlen s) = s"
proof -
  have "chunks wlen (be_string wlen s) = map (be_bytes wlen) s"
    unfolding be_string_def using assms(1) by (intro chunks_concat) (auto simp: be_bytes_def)
  then show ?thesis by (simp add: be_words_def be_word_def be_bytes_def comp_def assms(2))
qed

lemma load_le_xor:
  assumes "length b = n" "cs = load_le (replicate n c)"
  shows "load_le (map (\<lambda>x. x XOR c) b) = (load_le b XOR cs :: 'a::len word)"
  unfolding assms(2) using assms(1)
proof (induction b arbitrary: n)
  case (Cons x b)
  then obtain m where m: "n = Suc m" "length b = m" by auto
  have IH: "load_le (map (\<lambda>x. x XOR c) b) = (load_le b XOR load_le (replicate m c) :: 'a word)"
    using Cons.IH [OF m(2)] .
  show ?case unfolding m list.map replicate_Suc load_le_Cons IH
    by (rule bit_word_eqI) (auto simp: bit_simps dest: bit_imp_le_length)
qed (simp add: load_le_def)

section \<open>What HMAC needs of its hash function\<close>

locale word_hash =
  fixes wlen blen :: nat
    and reverse :: "'a::len word \<Rightarrow> 'a word"
    and transform :: "'a word list \<Rightarrow> 'a word list \<Rightarrow> 'a word list"
    and iv :: "'a word list"
    and init :: 'ctx
    and update :: "'ctx \<Rightarrow> u8 list \<Rightarrow> 'ctx"
    and final :: "'ctx \<Rightarrow> u8 list"
    and H :: "u8 list \<Rightarrow> u8 list"
    and resume :: "'a word list \<Rightarrow> 'ctx"
    and opad ipad :: "'a word"
    and tail :: "'a word list"
  assumes wlen: "0 < wlen" "blen = 16 * wlen"
    and reverse: "\<And>b. length b = wlen \<Longrightarrow> reverse (load_le b) = be_word b"
    and store: "\<And>w. load_le (store_le wlen w) = (w :: 'a word)"
    and iv: "length iv = 8"
    and transform_length: "\<And>s w. length s = 8 \<Longrightarrow> length w = 16 \<Longrightarrow> length (transform s w) = 8"
    and hash: "\<And>pieces. final (foldl update init pieces) = H (concat pieces)"
    and resume: "\<And>b pieces. length b = blen \<Longrightarrow>
      final (foldl update (resume (transform iv (be_words wlen b))) pieces) = H (b @ concat pieces)"
    and two_blocks: "\<And>b d. length b = blen \<Longrightarrow> length d = 8 * wlen \<Longrightarrow>
      H (b @ d) = be_string wlen (transform (transform iv (be_words wlen b)) (be_words wlen d @ tail))"
    and tail: "length tail = 8"
    and H_length: "\<And>m. length (H m) = 8 * wlen"
    and pads: "opad = load_le (replicate wlen 0x5c)" "ipad = load_le (replicate wlen 0x36)"
begin

definition okey :: "u8 list \<Rightarrow> u8 list" where "okey key = map (\<lambda>b. b XOR 0x5c) (key_block blen H key)"

definition ikey :: "u8 list \<Rightarrow> u8 list" where "ikey key = map (\<lambda>b. b XOR 0x36) (key_block blen H key)"

lemma length_key_block: "length (key_block blen H key) = blen"
  using H_length wlen by (simp add: key_block_def Let_def)

lemma length_okey [simp]: "length (okey key) = blen" "length (ikey key) = blen"
  by (simp_all add: okey_def ikey_def length_key_block)

lemma length_words: "length b = n * wlen \<Longrightarrow> length (be_words wlen b) = n" "length (be_words wlen (okey key)) = 16"
    "length (be_words wlen (ikey key)) = 16"
proof -
  show n: "length (be_words wlen b) = n" if "length b = n * wlen" for b n
    using that wlen(1) by (simp add: be_words_def length_chunks)
  show "length (be_words wlen (okey key)) = 16" "length (be_words wlen (ikey key)) = 16"
    using n [of "okey key" 16] n [of "ikey key" 16] length_okey wlen(2) by metis+
qed

lemma hash_one: "final (update init m) = H m"
  using hash [of "[m]"] by simp

lemma key_pad: "buffer_copy (replicate blen 0) 0 (if length key > blen then final (update init key) else key) = key_block blen H key"
  by (simp add: buffer_copy_def key_block_def Let_def hash_one)

lemma hmac_pieces:
  "hmac_Final init update final (foldl (hmac_Update update) (hmac_Init blen (\<lambda>k. final (update init k)) init update key) pieces) =
   rfc2104_hmac blen H key (concat pieces)"
proof -
  have upd: "foldl (hmac_Update update) hctx pieces = hctx\<lparr>inner_ctx := foldl update (inner_ctx hctx) pieces\<rparr>" for hctx
    by (induction pieces arbitrary: hctx) (simp_all add: hmac_Update_def)
  show ?thesis
    using hash [of "ikey key # pieces"] hash [of "[okey key, H (ikey key @ concat pieces)]"]
    by (simp add: upd hmac_Final_def hmac_Init_def Let_def key_pad rfc2104_hmac_def okey_def ikey_def)
qed

lemma words_xor:
  assumes "wlen dvd length b" "C = load_le (replicate wlen c)"
  shows "be_words wlen (map (\<lambda>x. x XOR c) b) = map (\<lambda>w. w XOR C) (be_words wlen b :: 'a word list)"
  using assms(1)
proof (induction b rule: length_induct)
  case (1 b)
  show ?case
  proof (cases "b = []")
    case False
    then have "wlen \<le> length b" using 1(2) by (simp add: dvd_imp_le)
    define h t where "h = take wlen b" and "t = drop wlen b"
    have b: "b = h @ t" "length h = wlen" and t: "length t < length b" "wlen dvd length t"
      using \<open>wlen \<le> length b\<close> 1(2) wlen by (simp_all add: h_def t_def dvd_minus_self)
    have "be_word (map (\<lambda>x. x XOR c) h) = (be_word h XOR C :: 'a word)"
      using load_le_xor [of "rev h" wlen C c] b(2) assms(2) by (simp add: be_word_def rev_map)
    with 1(1) t b(2) wlen show ?thesis
      unfolding b(1) by (simp add: be_words_def chunks_append)
  qed (simp add: be_words_def)
qed

lemma prepare_eq:
  "hmac_prepare wlen blen reverse transform iv (\<lambda>k. final (update init k)) opad ipad key =
   (transform iv (be_words wlen (okey key)), transform iv (be_words wlen (ikey key)))"
proof -
  have dvd: "wlen dvd length (key_block blen H key)" unfolding length_key_block using wlen(2) by simp
  have rev: "map (\<lambda>w. reverse w XOR opad) (map load_le (chunks wlen (key_block blen H key))) =
      map (\<lambda>w. w XOR opad) (be_words wlen (key_block blen H key))"
    using chunks_length [OF wlen(1) dvd] by (simp add: be_words_def reverse)
  show ?thesis
    by (simp add: hmac_prepare_def Let_def key_pad rev okey_def ikey_def words_xor [OF dvd pads(1)] words_xor [OF dvd pads(2)] comp_def
        del: map_map) (simp add: comp_def xor.assoc)
qed

text \<open>HMAC of a message of the length of a digest, on the prepared states.\<close>

lemma hmac_digest:
  assumes "length d = 8 * wlen"
  shows "rfc2104_hmac blen H key d = be_string wlen (transform (transform iv (be_words wlen (okey key)))
     (transform (transform iv (be_words wlen (ikey key))) (be_words wlen d @ tail) @ tail))"
proof -
  let ?s = "transform (transform iv (be_words wlen (ikey key))) (be_words wlen d @ tail)"
  have "length ?s = 8" using assms by (simp add: transform_length iv length_words tail)
  then show ?thesis
    unfolding rfc2104_hmac_def okey_def [symmetric] ikey_def [symmetric]
    by (simp add: two_blocks assms be_words_string wlen(1) store)
qed

end

section \<open>SHA-256 and SHA-512\<close>

lemma REVERSE32_load: "length b = 4 \<Longrightarrow> REVERSE32 (load_le b) = be_word b"
  using store_REVERSE32 [of b] load_store_32 [of "REVERSE32 (load_le b)"] by (simp add: be_word_def)

lemma REVERSE64_load: "length b = 8 \<Longrightarrow> REVERSE64 (load_le b) = be_word b"
  using store_REVERSE64 [of b] load_store_64 [of "REVERSE64 (load_le b)"] by (simp add: be_word_def)

lemma sha256_block_words: "length s = 8 \<Longrightarrow> length b = 64 \<Longrightarrow> fips_sha256_block s b = sha256_Transform s (be_words 4 b)"
  using sha256_block(1) [of s b] by (simp add: transform32_def words_reverse32 be_words_def)

lemma sha512_block_words: "length s = 8 \<Longrightarrow> length b = 128 \<Longrightarrow> fips_sha512_block s b = sha512_Transform s (be_words 8 b)"
  using sha512_block(1) [of s b] by (simp add: transform64_def words_reverse64 be_words_def)

lemma padding_96: "be_words 4 (padding 64 56 length64 96) = [0x80000000, 0, 0, 0, 0, 0, 0, 768 :: u32]"
  by code_simp

lemma padding_192: "be_words 8 (padding 128 112 length128 192) = [0x8000000000000000, 0, 0, 0, 0, 0, 0, 1536 :: u64]"
proof -
  have "length128 192 = be_bytes 8 (0 :: u64) @ be_bytes 8 (1536 :: u64)" by (simp add: length128_def)
  then have "padding 128 112 length128 192 = 0x80 # replicate 47 0 @ be_bytes 8 (0 :: u64) @ be_bytes 8 (1536 :: u64)"
    by (simp add: padding_def)
  moreover have "be_words 8 (0x80 # replicate 47 0 @ be_bytes 8 (0 :: u64) @ be_bytes 8 (1536 :: u64)) =
      [0x8000000000000000, 0, 0, 0, 0, 0, 0, 1536 :: u64]" by code_simp
  ultimately show ?thesis by simp
qed

lemma iv_lengths: "length sha256_initial_hash_value = 8" "length sha512_initial_hash_value = 8"
  by (simp_all add: sha256_initial_hash_value_def sha512_initial_hash_value_def)

lemma sha256_two_blocks:
  assumes "length b = 64" "length d = 32"
  shows "fips_sha256 (b @ d) = be_string 4 (sha256_Transform (sha256_Transform sha256_initial_hash_value (be_words 4 b))
     (be_words 4 d @ [0x80000000, 0, 0, 0, 0, 0, 0, 768]))"
proof -
  let ?p = "padding 64 56 length64 96"
  have p: "length ?p = 32" by (simp add: padding_def length_length64)
  have "fold_blocks 64 fips_sha256_block sha256_initial_hash_value (b @ d @ ?p) =
      fips_sha256_block (fips_sha256_block sha256_initial_hash_value b) (d @ ?p)"
    using assms p by (simp add: fold_blocks_Cons fold_blocks_one)
  also have "\<dots> = sha256_Transform (sha256_Transform sha256_initial_hash_value (be_words 4 b)) (be_words 4 d @ be_words 4 ?p)"
    using assms p iv_lengths sha256_block(2) [of sha256_initial_hash_value b] by (simp add: be_words_append sha256_block_words)
  finally show ?thesis using assms by (simp add: fips_sha256_def fips_constants be_string_def padding_96)
qed

lemma sha512_two_blocks:
  assumes "length b = 128" "length d = 64"
  shows "fips_sha512 (b @ d) = be_string 8 (sha512_Transform (sha512_Transform sha512_initial_hash_value (be_words 8 b))
     (be_words 8 d @ [0x8000000000000000, 0, 0, 0, 0, 0, 0, 1536]))"
proof -
  let ?p = "padding 128 112 length128 192"
  have p: "length ?p = 64" by (simp add: padding_def length_length64)
  have "fold_blocks 128 fips_sha512_block sha512_initial_hash_value (b @ d @ ?p) =
      fips_sha512_block (fips_sha512_block sha512_initial_hash_value b) (d @ ?p)"
    using assms p by (simp add: fold_blocks_Cons fold_blocks_one)
  also have "\<dots> = sha512_Transform (sha512_Transform sha512_initial_hash_value (be_words 8 b)) (be_words 8 d @ be_words 8 ?p)"
    using assms p iv_lengths sha512_block(2) [of sha512_initial_hash_value b] by (simp add: be_words_append sha512_block_words)
  finally show ?thesis using assms by (simp add: fips_sha512_def fips_constants be_string_def padding_192)
qed

text \<open>A context that resumes after one block.\<close>

lemma sha256_resume:
  assumes "length b = 64"
  shows "sha256_Final (foldl sha256_Update \<lparr>hstate = sha256_Transform sha256_initial_hash_value (be_words 4 b), bitcount = 512, hbuffer = replicate 64 0\<rparr> pieces)
    = fips_sha256 (b @ concat pieces)"
proof -
  have "sha256.compress sha256_initial_hash_value b = sha256_Transform sha256_initial_hash_value (be_words 4 b)"
    using assms by (simp add: sha256.compress_def transform32_def words_reverse32 be_words_def)
  then have "sha256.absorbed sha256_initial_hash_value
      \<lparr>hstate = sha256_Transform sha256_initial_hash_value (be_words 4 b), bitcount = 512, hbuffer = replicate 64 0\<rparr> b"
    using assms by (simp add: sha256.absorbed_def fold_blocks_one count64_of_def)
  from sha256_absorbed_Final [OF sha256.updates_absorbed [OF this]] show ?thesis by (simp add: sha256_Update_def)
qed

lemma sha512_resume:
  assumes "length b = 128"
  shows "sha512_Final (foldl sha512_Update \<lparr>hstate = sha512_Transform sha512_initial_hash_value (be_words 8 b), bitcount = (1024, 0), hbuffer = replicate 128 0\<rparr> pieces)
    = fips_sha512 (b @ concat pieces)"
proof -
  have "sha512.compress sha512_initial_hash_value b = sha512_Transform sha512_initial_hash_value (be_words 8 b)"
    using assms by (simp add: sha512.compress_def transform64_def words_reverse64 be_words_def)
  then have "sha512.absorbed sha512_initial_hash_value
      \<lparr>hstate = sha512_Transform sha512_initial_hash_value (be_words 8 b), bitcount = (1024, 0), hbuffer = replicate 128 0\<rparr> b"
    using assms by (simp add: sha512.absorbed_def fold_blocks_one count128_of_def)
  from sha512_absorbed_Final [OF sha512.updates_absorbed [OF this]] show ?thesis by (simp add: sha512_Update_def)
qed

lemma fold_blocks_length:
  assumes "length s = n" "0 < blen" "\<And>s b. length s = n \<Longrightarrow> length b = blen \<Longrightarrow> length (f s b) = n"
  shows "length (fold_blocks blen f s m) = n"
  using assms(1)
proof (induction m arbitrary: s rule: length_induct)
  case (1 m)
  then show ?case using assms(2,3)
    by (cases "length m < blen") (simp_all add: fold_blocks.simps [of blen f s m])
qed

lemma sha256_lengths:
  "length (fips_sha256 m) = 32" "length s = 8 \<Longrightarrow> length w = 16 \<Longrightarrow> length (sha256_Transform s w) = 8"
proof -
  have "length (fold_blocks 64 fips_sha256_block sha256_initial_hash_value x) = 8" for x
    by (rule fold_blocks_length) (simp_all add: sha256_block(2) iv_lengths)
  then show "length (fips_sha256 m) = 32" by (simp add: fips_sha256_def fips_constants flip: be_string_def)
  assume "length s = 8" "length w = 16"
  then show "length (sha256_Transform s w) = 8"
    using sha256_block_words [of s "be_string 4 w"] sha256_block(2) [of s "be_string 4 w"] by (simp add: be_words_string load_store_32)
qed

lemma sha512_lengths:
  "length (fips_sha512 m) = 64" "length s = 8 \<Longrightarrow> length w = 16 \<Longrightarrow> length (sha512_Transform s w) = 8"
proof -
  have "length (fold_blocks 128 fips_sha512_block sha512_initial_hash_value x) = 8" for x
    by (rule fold_blocks_length) (simp_all add: sha512_block(2) iv_lengths)
  then show "length (fips_sha512 m) = 64" by (simp add: fips_sha512_def fips_constants flip: be_string_def)
  assume "length s = 8" "length w = 16"
  then show "length (sha512_Transform s w) = 8"
    using sha512_block_words [of s "be_string 8 w"] sha512_block(2) [of s "be_string 8 w"] by (simp add: be_words_string load_store_64)
qed

lemma pad_words:
  "load_le (replicate 4 0x5c) = (0x5c5c5c5c :: u32)" "load_le (replicate 4 0x36) = (0x36363636 :: u32)"
  "load_le (replicate 8 0x5c) = (0x5c5c5c5c5c5c5c5c :: u64)" "load_le (replicate 8 0x36) = (0x3636363636363636 :: u64)"
  by code_simp+

interpretation hmac256: word_hash 4 64 REVERSE32 sha256_Transform sha256_initial_hash_value sha256_Init sha256_Update sha256_Final fips_sha256
  "\<lambda>s. \<lparr>hstate = s, bitcount = 512, hbuffer = replicate 64 0\<rparr>" "0x5c5c5c5c" "0x36363636" "[0x80000000, 0, 0, 0, 0, 0, 0, 768]"
  by unfold_locales (simp_all add: REVERSE32_load load_store_32 sha256_resume sha256_two_blocks sha256_lengths pad_words
      sha256_absorbed_Final [OF sha256_updates] iv_lengths)

interpretation hmac512: word_hash 8 128 REVERSE64 sha512_Transform sha512_initial_hash_value sha512_Init sha512_Update sha512_Final fips_sha512
  "\<lambda>s. \<lparr>hstate = s, bitcount = (1024, 0), hbuffer = replicate 128 0\<rparr>" "0x5c5c5c5c5c5c5c5c" "0x3636363636363636"
  "[0x8000000000000000, 0, 0, 0, 0, 0, 0, 1536]"
  by unfold_locales (simp_all add: REVERSE64_load load_store_64 sha512_resume sha512_two_blocks sha512_lengths pad_words
      sha512_absorbed_Final [OF sha512_updates] iv_lengths)

text \<open>
  C29. HMAC-SHA256 and HMAC-SHA512 of \<open>hmac.c\<close> are the HMAC of RFC 2104 over the hash functions of FIPS
  180-4, for keys shorter and longer than a block and a message given in any pieces.
\<close>

theorem hmac_spec:
  "hmac_sha256_Final (foldl hmac_sha256_Update (hmac_sha256_Init key) pieces) = rfc2104_hmac 64 fips_sha256 key (concat pieces)
   \<and> hmac_sha512_Final (foldl hmac_sha512_Update (hmac_sha512_Init key) pieces) = rfc2104_hmac 128 fips_sha512 key (concat pieces)"
  using hmac256.hmac_pieces [of key pieces] hmac512.hmac_pieces [of key pieces]
  by (simp add: hmac_sha256_Final_def hmac_sha256_Update_def hmac_sha256_Init_def hmac_sha512_Final_def hmac_sha512_Update_def
      hmac_sha512_Init_def sha256_Raw_def [abs_def] sha512_Raw_def [abs_def])

end
