(* ===== verification/Pbkdf2.thy ===== *)
theory Pbkdf2
  imports Hmac Bip39
begin

text \<open>
  \<open>crypto/pbkdf2.c\<close>: PBKDF2 with HMAC-SHA256 and HMAC-SHA512 on the prepared states of HMAC, so that an
  iteration is two calls of the compression function. As in the theory of HMAC, the text for the two
  hashes is one definition that takes the hash as an argument. The result is shown to be PBKDF2 of
  RFC 8018, and the seeds of BIP-39 are those of the standard.
\<close>

record 'a PBKDF2_CTX =
  odig :: "'a list"
  idig :: "'a list"
  dig_f :: "'a list"
  block_g :: "'a list"
  first_call :: nat

definition pbkdf2_Init ::
  "nat \<Rightarrow> ('a::len word \<Rightarrow> 'a word) \<Rightarrow> ('a word list \<Rightarrow> 'a word list \<Rightarrow> 'a word list) \<Rightarrow> (u8 list \<Rightarrow> 'a word list \<times> 'a word list)
     \<Rightarrow> ('a word list \<Rightarrow> 'ctx) \<Rightarrow> ('ctx \<Rightarrow> u8 list \<Rightarrow> 'ctx) \<Rightarrow> ('ctx \<Rightarrow> u8 list) \<Rightarrow> 'a word \<Rightarrow> 'a word
     \<Rightarrow> u8 list \<Rightarrow> u8 list \<Rightarrow> nat \<Rightarrow> 'a word PBKDF2_CTX" where
  "pbkdf2_Init wlen reverse transform prepare start update final mark bits pass salt blocknr =
     (let nr = REVERSE32 (word_of_nat blocknr);
          (od, id) = prepare pass;
          g = (replicate 16 0)[8 := mark, 15 := bits];
          ctx = start id;
          ctx = update ctx salt;
          ctx = update ctx (store_le 4 nr);
          g = map load_le (chunks wlen (final ctx)) @ drop 8 g;
          g = map reverse (take 8 g) @ drop 8 g;
          g = transform od g @ drop 8 g in
      \<lparr>odig = od, idig = id, dig_f = take 8 g, block_g = g, first_call = 1\<rparr>)"

definition pbkdf2_round :: "('a::len word list \<Rightarrow> 'a word list \<Rightarrow> 'a word list) \<Rightarrow> 'a word PBKDF2_CTX \<Rightarrow> 'a word PBKDF2_CTX" where
  "pbkdf2_round transform pctx =
     (let g = block_g pctx;
          g = transform (idig pctx) g @ drop 8 g;
          g = transform (odig pctx) g @ drop 8 g in
      pctx\<lparr>block_g := g, dig_f := map2 (XOR) (dig_f pctx) (take 8 g)\<rparr>)"

definition pbkdf2_Update :: "('a::len word list \<Rightarrow> 'a word list \<Rightarrow> 'a word list) \<Rightarrow> 'a word PBKDF2_CTX \<Rightarrow> nat \<Rightarrow> 'a word PBKDF2_CTX" where
  "pbkdf2_Update transform pctx iterations =
     (foldl (\<lambda>pctx i. pbkdf2_round transform pctx) pctx [first_call pctx..<iterations])\<lparr>first_call := 0\<rparr>"

definition pbkdf2_Final :: "nat \<Rightarrow> ('a::len word \<Rightarrow> 'a word) \<Rightarrow> 'a word PBKDF2_CTX \<Rightarrow> u8 list" where
  "pbkdf2_Final wlen reverse pctx = concat (map (\<lambda>w. store_le wlen (reverse w)) (dig_f pctx))"

text \<open>The derived key is written into the buffer \<open>key\<close> block by block.\<close>

definition pbkdf2_blocks :: "nat \<Rightarrow> (nat \<Rightarrow> u8 list) \<Rightarrow> u8 list \<Rightarrow> u8 list" where
  "pbkdf2_blocks dlen block key =
     (let last_block_size = length key mod dlen;
          blocks_count = length key div dlen;
          (blocks_count, last_block_size) = (if last_block_size \<noteq> 0 then (blocks_count + 1, last_block_size) else (blocks_count, dlen)) in
      foldl (\<lambda>key blocknr.
        let digest = block blocknr; key_offset = (blocknr - 1) * dlen in
        if blocknr < blocks_count then buffer_copy key key_offset digest
        else buffer_copy key key_offset (take last_block_size digest)) key [1..<blocks_count + 1])"

definition pbkdf2_hmac_sha256_Init :: "u8 list \<Rightarrow> u8 list \<Rightarrow> nat \<Rightarrow> u32 PBKDF2_CTX" where
  "pbkdf2_hmac_sha256_Init = pbkdf2_Init 4 REVERSE32 sha256_Transform hmac_sha256_prepare
     (\<lambda>st. \<lparr>hstate = st, bitcount = 512, hbuffer = replicate 64 0\<rparr>) sha256_Update sha256_Final 0x80000000 ((64 + 32) * 8)"

definition pbkdf2_hmac_sha256_Update :: "u32 PBKDF2_CTX \<Rightarrow> nat \<Rightarrow> u32 PBKDF2_CTX" where
  "pbkdf2_hmac_sha256_Update = pbkdf2_Update sha256_Transform"

definition pbkdf2_hmac_sha256_Final :: "u32 PBKDF2_CTX \<Rightarrow> u8 list" where
  "pbkdf2_hmac_sha256_Final = pbkdf2_Final 4 REVERSE32"

definition pbkdf2_hmac_sha256 :: "u8 list \<Rightarrow> u8 list \<Rightarrow> nat \<Rightarrow> u8 list \<Rightarrow> u8 list" where
  "pbkdf2_hmac_sha256 pass salt iterations key = pbkdf2_blocks 32 (\<lambda>blocknr.
     let pctx = pbkdf2_hmac_sha256_Init pass salt blocknr;
         pctx = pbkdf2_hmac_sha256_Update pctx iterations in
     pbkdf2_hmac_sha256_Final pctx) key"

definition pbkdf2_hmac_sha512_Init :: "u8 list \<Rightarrow> u8 list \<Rightarrow> nat \<Rightarrow> u64 PBKDF2_CTX" where
  "pbkdf2_hmac_sha512_Init = pbkdf2_Init 8 REVERSE64 sha512_Transform hmac_sha512_prepare
     (\<lambda>st. \<lparr>hstate = st, bitcount = (1024, 0), hbuffer = replicate 128 0\<rparr>) sha512_Update sha512_Final 0x8000000000000000 ((128 + 64) * 8)"

definition pbkdf2_hmac_sha512_Update :: "u64 PBKDF2_CTX \<Rightarrow> nat \<Rightarrow> u64 PBKDF2_CTX" where
  "pbkdf2_hmac_sha512_Update = pbkdf2_Update sha512_Transform"

definition pbkdf2_hmac_sha512_Final :: "u64 PBKDF2_CTX \<Rightarrow> u8 list" where
  "pbkdf2_hmac_sha512_Final = pbkdf2_Final 8 REVERSE64"

definition pbkdf2_hmac_sha512 :: "u8 list \<Rightarrow> u8 list \<Rightarrow> nat \<Rightarrow> u8 list \<Rightarrow> u8 list" where
  "pbkdf2_hmac_sha512 pass salt iterations key = pbkdf2_blocks 64 (\<lambda>blocknr.
     let pctx = pbkdf2_hmac_sha512_Init pass salt blocknr;
         pctx = pbkdf2_hmac_sha512_Update pctx iterations in
     pbkdf2_hmac_sha512_Final pctx) key"

section \<open>RFC 8018\<close>

fun rfc8018_U :: "(u8 list \<Rightarrow> u8 list) \<Rightarrow> u8 list \<Rightarrow> nat \<Rightarrow> nat \<Rightarrow> u8 list" where
  "rfc8018_U prf salt i 0 = prf (salt @ be_bytes 4 (word_of_nat i :: u32))"
| "rfc8018_U prf salt i (Suc j) = prf (rfc8018_U prf salt i j)"

text \<open>The exclusive or of the first \<open>c\<close> strings, and the derived key of length \<open>dkLen\<close>.\<close>

definition rfc8018_F :: "(u8 list \<Rightarrow> u8 list) \<Rightarrow> u8 list \<Rightarrow> nat \<Rightarrow> nat \<Rightarrow> u8 list" where
  "rfc8018_F prf salt c i = foldl (\<lambda>t j. map2 (XOR) t (rfc8018_U prf salt i j)) (rfc8018_U prf salt i 0) [1..<c]"

definition rfc8018_pbkdf2 :: "nat \<Rightarrow> (u8 list \<Rightarrow> u8 list) \<Rightarrow> u8 list \<Rightarrow> nat \<Rightarrow> nat \<Rightarrow> u8 list" where
  "rfc8018_pbkdf2 hLen prf salt c dkLen = take dkLen (concat (map (rfc8018_F prf salt c) [1..<Suc ((dkLen + hLen - 1) div hLen)]))"

section \<open>Blocks of the derived key\<close>

lemma be_string_xor:
  fixes a b :: "'a::len word list"
  assumes "length a = length b"
  shows "be_string wlen (map2 (XOR) a b) = map2 (XOR) (be_string wlen a) (be_string wlen b)"
  using assms
proof (induction a b rule: list_induct2)
  case (Cons x xs y ys)
  have "map2 (XOR) (be_bytes wlen x) (be_bytes wlen y) = be_bytes wlen (x XOR y)"
    by (rule nth_equalityI) (auto simp: be_bytes_def rev_nth nth_store_le bit_simps intro!: bit_word_eqI)
  then show ?case using Cons by (simp add: be_string_def be_bytes_def)
qed (simp add: be_string_def)

lemma length_blocks: "(\<And>i. length (block i) = dlen) \<Longrightarrow> length (concat (map block is)) = length is * dlen"
  by (induction "is") simp_all

lemma blocks_loop:
  assumes "\<And>i. length (block i) = dlen" "n * dlen \<le> length key"
  shows "foldl (\<lambda>key i. buffer_copy key ((i - 1) * dlen) (block i)) key [1..<Suc n] = concat (map block [1..<Suc n]) @ drop (n * dlen) key"
  using assms(2)
proof (induction n)
  case (Suc n)
  define C where "C = concat (map block [1..<Suc n])"
  have l: "length C = n * dlen" by (simp only: C_def length_blocks assms(1)) simp
  have upt: "[1..<Suc (Suc n)] = [1..<Suc n] @ [Suc n]" by simp
  have "n * dlen \<le> length key" using Suc.prems by simp
  from Suc.IH [OF this] have IH: "foldl (\<lambda>key i. buffer_copy key ((i - 1) * dlen) (block i)) key [1..<Suc n] = C @ drop (n * dlen) key"
    by (simp only: C_def)
  show ?case unfolding upt foldl_append IH map_append concat_append C_def [symmetric]
    using l Suc.prems by (simp add: buffer_copy_def assms(1) add.commute)
qed simp

lemma pbkdf2_blocks_eq:
  assumes "0 < dlen" "\<And>i. length (block i) = dlen"
  shows "pbkdf2_blocks dlen block key = take (length key) (concat (map block [1..<Suc ((length key + dlen - 1) div dlen)]))"
proof (cases "key = []")
  case True
  then show ?thesis by (simp add: pbkdf2_blocks_def)
next
  case False
  define q where "q = (length key - 1) div dlen"
  define r where "r = (length key - 1) mod dlen + 1"
  have r: "0 < r" "r \<le> dlen" and key: "length key = q * dlen + r"
    using False assms(1) by (auto simp: q_def r_def Suc_le_eq length_greater_0_conv simp flip: length_greater_0_conv)
  have count: "(if length key mod dlen \<noteq> 0 then (length key div dlen + 1, length key mod dlen) else (length key div dlen, dlen)) = (Suc q, r)"
    using key r assms(1) by (cases "r = dlen") (simp_all add: key)
  have last: "(length key + dlen - 1) div dlen = Suc q"
  proof -
    have "length key + dlen - 1 = Suc q * dlen + (r - 1)" using key r by simp
    then have "(length key + dlen - 1) div dlen = Suc q + (r - 1) div dlen" using r assms(1) by (simp only: div_mult_self3)
    then show ?thesis using r by simp
  qed
  define C where "C = concat (map block [1..<Suc q])"
  have l: "length C = q * dlen" by (simp only: C_def length_blocks assms(2)) simp
  let ?f = "\<lambda>key i. if i < Suc q then buffer_copy key ((i - 1) * dlen) (block i) else buffer_copy key ((i - 1) * dlen) (take r (block i))"
  have "foldl ?f key [1..<Suc q] = foldl (\<lambda>key i. buffer_copy key ((i - 1) * dlen) (block i)) key [1..<Suc q]"
    by (intro foldl_cong) auto
  also have "\<dots> = C @ drop (q * dlen) key"
    unfolding C_def using key by (intro blocks_loop) (simp_all add: assms)
  finally have "foldl ?f key [1..<Suc q] = C @ drop (q * dlen) key" .
  moreover have upt: "[1..<Suc (Suc q)] = [1..<Suc q] @ [Suc q]" by simp
  ultimately have "pbkdf2_blocks dlen block key = C @ take r (block (Suc q))"
    unfolding pbkdf2_blocks_def Let_def count using key r l by (simp add: buffer_copy_def assms(2))
  then show ?thesis
    unfolding last upt map_append concat_append C_def [symmetric] using key l by simp
qed

section \<open>The states of PBKDF2\<close>

locale pbkdf2_hash = word_hash +
  assumes digest: "\<And>w. store_le wlen (reverse w) = be_bytes wlen w"
begin

abbreviation mac :: "u8 list \<Rightarrow> u8 list \<Rightarrow> u8 list" where "mac pass \<equiv> rfc2104_hmac blen H pass"

text \<open>The state after the first \<open>n + 1\<close> strings of the block \<open>i\<close>.\<close>

definition reached :: "u8 list \<Rightarrow> u8 list \<Rightarrow> nat \<Rightarrow> 'a word PBKDF2_CTX \<Rightarrow> nat \<Rightarrow> bool" where
  "reached pass salt i pctx n \<longleftrightarrow>
     odig pctx = transform iv (be_words wlen (okey pass)) \<and> idig pctx = transform iv (be_words wlen (ikey pass)) \<and>
     block_g pctx = be_words wlen (rfc8018_U (mac pass) salt i n) @ tail \<and>
     length (dig_f pctx) = 8 \<and> be_string wlen (dig_f pctx) = rfc8018_F (mac pass) salt (Suc n) i"

lemma length_prf: "length (mac pass m) = 8 * wlen"
  by (simp add: rfc2104_hmac_def H_length)

lemma length_U: "length (rfc8018_U (mac pass) salt i n) = 8 * wlen"
  by (cases n) (simp_all add: length_prf)

lemma length_words_U: "length (be_words wlen (rfc8018_U (mac pass) salt i n)) = 8"
  by (rule length_words) (simp add: length_U)

lemma reached_step:
  assumes "reached pass salt i pctx n"
  shows "reached pass salt i (pbkdf2_round transform pctx) (Suc n)"
proof -
  let ?O = "transform iv (be_words wlen (okey pass))" and ?I = "transform iv (be_words wlen (ikey pass))"
    and ?u = "be_words wlen (rfc8018_U (mac pass) salt i n)"
  define g where "g = transform ?O (transform ?I (?u @ tail) @ tail)"
  have l: "length (transform ?I (?u @ tail)) = 8" "length g = 8"
    by (simp_all add: g_def transform_length iv length_words length_words_U tail)
  have U: "rfc8018_U (mac pass) salt i (Suc n) = be_string wlen g"
    using hmac_digest [OF length_U, of pass pass salt i n] by (simp add: g_def)
  then have w: "be_words wlen (rfc8018_U (mac pass) salt i (Suc n)) = g"
    by (simp add: be_words_string wlen(1) store)
  have "block_g (pbkdf2_round transform pctx) = g @ tail" "dig_f (pbkdf2_round transform pctx) = map2 (XOR) (dig_f pctx) g"
    using assms l by (simp_all add: reached_def pbkdf2_round_def Let_def g_def length_words_U)
  moreover have "rfc8018_F (mac pass) salt (Suc (Suc n)) i = map2 (XOR) (rfc8018_F (mac pass) salt (Suc n) i) (be_string wlen g)"
    using U by (simp add: rfc8018_F_def)
  moreover have "odig (pbkdf2_round transform pctx) = odig pctx" "idig (pbkdf2_round transform pctx) = idig pctx"
    by (simp_all add: pbkdf2_round_def Let_def)
  ultimately show ?thesis
    using assms l by (simp add: reached_def w be_string_xor del: rfc8018_U.simps)
qed

lemma reached_steps:
  "reached pass salt i pctx n \<Longrightarrow> reached pass salt i (foldl (\<lambda>pctx i. pbkdf2_round transform pctx) pctx xs) (n + length xs)"
proof (induction xs arbitrary: pctx n)
  case (Cons x xs)
  from Cons.IH [OF reached_step [OF Cons.prems]] show ?case by simp
qed simp

lemma reached_update:
  assumes "reached pass salt i pctx n" "first_call pctx \<le> k"
  shows "reached pass salt i (pbkdf2_Update transform pctx k) (n + (k - first_call pctx))"
    "first_call (pbkdf2_Update transform pctx k) = 0"
  using reached_steps [OF assms(1), of "[first_call pctx..<k]"] assms(2) by (simp_all add: reached_def pbkdf2_Update_def)

lemma reached_updates:
  assumes "reached pass salt i pctx n" "first_call pctx = 0"
  shows "reached pass salt i (foldl (pbkdf2_Update transform) pctx ks) (n + sum_list ks)"
  using assms
proof (induction ks arbitrary: pctx n)
  case (Cons k ks)
  from Cons.IH [OF reached_update [OF Cons.prems(1), of k]] Cons.prems(2) show ?case by (simp add: add.assoc)
qed simp

lemma reached_init:
  assumes "(replicate 8 0)[0 := mark, 7 := bits] = tail"
  shows "reached pass salt i (pbkdf2_Init wlen reverse transform
    (hmac_prepare wlen blen reverse transform iv (\<lambda>k. final (update init k)) opad ipad) resume update final mark bits pass salt i) 0"
    "first_call (pbkdf2_Init wlen reverse transform
    (hmac_prepare wlen blen reverse transform iv (\<lambda>k. final (update init k)) opad ipad) resume update final mark bits pass salt i) = 1"
proof -
  let ?O = "transform iv (be_words wlen (okey pass))" and ?I = "transform iv (be_words wlen (ikey pass))"
  let ?inner = "H (ikey pass @ salt @ be_bytes 4 (word_of_nat i :: u32))"
  define g where "g = transform ?O (be_words wlen ?inner @ tail)"
  have tail': "drop 8 ((replicate 16 0)[8 := mark, 15 := bits]) = tail"
    unfolding assms [symmetric] by (simp add: numeral_eq_Suc)
  have "store_le 4 (REVERSE32 (word_of_nat i)) = be_bytes 4 (word_of_nat i :: u32)"
    using store_REVERSE32 [of "store_le 4 (word_of_nat i :: u32)"] by (simp add: load_store_32 be_bytes_def)
  then have inner: "final (update (update (resume ?I) salt) (store_le 4 (REVERSE32 (word_of_nat i)))) = ?inner"
    using resume [of "ikey pass" "[salt, be_bytes 4 (word_of_nat i :: u32)]"] by simp
  have ch: "b \<in> set (chunks wlen ?inner) \<Longrightarrow> length b = wlen" for b
    using chunks_length [OF wlen(1), of ?inner] by (auto simp: H_length)
  have lc: "length (chunks wlen ?inner) = 8" using wlen(1) by (simp add: length_chunks H_length)
  have words: "map reverse (map load_le (chunks wlen ?inner)) = be_words wlen ?inner"
    using ch by (simp add: be_words_def reverse)
  have l: "length g = 8" by (simp add: g_def transform_length iv length_words H_length tail)
  have U: "rfc8018_U (mac pass) salt i 0 = be_string wlen g"
    by (simp add: rfc2104_hmac_def g_def two_blocks H_length flip: okey_def ikey_def)
  have "be_words wlen (be_string wlen g) = g" by (simp add: be_words_string wlen(1) store)
  then show "reached pass salt i (pbkdf2_Init wlen reverse transform
    (hmac_prepare wlen blen reverse transform iv (\<lambda>k. final (update init k)) opad ipad) resume update final mark bits pass salt i) 0"
    using l U by (simp add: reached_def pbkdf2_Init_def prepare_eq Let_def inner tail' words lc rfc8018_F_def flip: g_def del: map_map rfc8018_U.simps)
  show "first_call (pbkdf2_Init wlen reverse transform
    (hmac_prepare wlen blen reverse transform iv (\<lambda>k. final (update init k)) opad ipad) resume update final mark bits pass salt i) = 1"
    by (simp add: pbkdf2_Init_def prepare_eq Let_def)
qed

lemma reached_final: "reached pass salt i pctx n \<Longrightarrow> pbkdf2_Final wlen reverse pctx = rfc8018_F (mac pass) salt (Suc n) i"
  by (simp add: reached_def pbkdf2_Final_def digest be_string_def)

text \<open>A block of the derived key, with the iterations in any number of updates.\<close>

lemma updates_block:
  fixes pass salt :: "u8 list" and i :: nat
  assumes "(replicate 8 0)[0 := mark, 7 := bits] = tail" "0 < k"
  defines "pctx \<equiv> pbkdf2_Init wlen reverse transform
    (hmac_prepare wlen blen reverse transform iv (\<lambda>k. final (update init k)) opad ipad) resume update final mark bits pass salt i"
  shows "pbkdf2_Final wlen reverse (foldl (pbkdf2_Update transform) pctx (k # ks)) = rfc8018_F (mac pass) salt (k + sum_list ks) i"
proof -
  note init = reached_init [OF assms(1), of pass salt i, folded pctx_def]
  have "first_call pctx \<le> k" using init(2) assms(2) by simp
  note upd = reached_update [OF init(1) this]
  from reached_final [OF reached_updates [OF upd]] assms(2) init(2) show ?thesis by simp
qed

lemma length_F: "length (rfc8018_F (mac pass) salt c i) = 8 * wlen"
proof -
  have "length (foldl (\<lambda>t j. map2 (XOR) t (rfc8018_U (mac pass) salt i j)) u js) = 8 * wlen" if "length u = 8 * wlen" for u :: "u8 list" and js
    using that by (induction js arbitrary: u) (simp_all add: length_U)
  then show ?thesis by (simp add: rfc8018_F_def length_U del: rfc8018_U.simps)
qed

end

interpretation pbkdf2_256: pbkdf2_hash 4 64 REVERSE32 sha256_Transform sha256_initial_hash_value sha256_Init sha256_Update sha256_Final fips_sha256
  "\<lambda>s. \<lparr>hstate = s, bitcount = 512, hbuffer = replicate 64 0\<rparr>" "0x5c5c5c5c" "0x36363636" "[0x80000000, 0, 0, 0, 0, 0, 0, 768]"
proof unfold_locales
  show "store_le 4 (REVERSE32 w) = be_bytes 4 w" for w
    using store_REVERSE32 [of "store_le 4 w"] by (simp add: load_store_32 be_bytes_def)
qed

interpretation pbkdf2_512: pbkdf2_hash 8 128 REVERSE64 sha512_Transform sha512_initial_hash_value sha512_Init sha512_Update sha512_Final fips_sha512
  "\<lambda>s. \<lparr>hstate = s, bitcount = (1024, 0), hbuffer = replicate 128 0\<rparr>" "0x5c5c5c5c5c5c5c5c" "0x3636363636363636"
  "[0x8000000000000000, 0, 0, 0, 0, 0, 0, 1536]"
proof unfold_locales
  show "store_le 8 (REVERSE64 w) = be_bytes 8 w" for w
    using store_REVERSE64 [of "store_le 8 w"] by (simp add: load_store_64 be_bytes_def)
qed

lemmas pbkdf2_256_defs = pbkdf2_hmac_sha256_Init_def hmac_sha256_prepare_def pbkdf2_hmac_sha256_Update_def pbkdf2_hmac_sha256_Final_def
lemmas pbkdf2_512_defs = pbkdf2_hmac_sha512_Init_def hmac_sha512_prepare_def pbkdf2_hmac_sha512_Update_def pbkdf2_hmac_sha512_Final_def

lemma pbkdf2_256_updates:
  "0 < k \<Longrightarrow> pbkdf2_hmac_sha256_Final (foldl pbkdf2_hmac_sha256_Update (pbkdf2_hmac_sha256_Init pass salt i) (k # ks)) =
   rfc8018_F (rfc2104_hmac 64 fips_sha256 pass) salt (k + sum_list ks) i"
  unfolding pbkdf2_256_defs
  by (rule pbkdf2_256.updates_block) (simp_all add: numeral_eq_Suc)

lemma pbkdf2_512_updates:
  "0 < k \<Longrightarrow> pbkdf2_hmac_sha512_Final (foldl pbkdf2_hmac_sha512_Update (pbkdf2_hmac_sha512_Init pass salt i) (k # ks)) =
   rfc8018_F (rfc2104_hmac 128 fips_sha512 pass) salt (k + sum_list ks) i"
  unfolding pbkdf2_512_defs
  by (rule pbkdf2_512.updates_block) (simp_all add: numeral_eq_Suc)

text \<open>
  C30. PBKDF2 of \<open>pbkdf2.c\<close>, on the prepared states of HMAC, fills its key buffer with the key that RFC 8018
  derives with HMAC-SHA256, resp. HMAC-SHA512, for every length of the buffer, also one that is not
  a multiple of the digest, every password, salt and positive number of iterations.
\<close>

theorem pbkdf2_spec:
  assumes "0 < iterations"
  shows "pbkdf2_hmac_sha256 pass salt iterations key = rfc8018_pbkdf2 32 (rfc2104_hmac 64 fips_sha256 pass) salt iterations (length key)
    \<and> pbkdf2_hmac_sha512 pass salt iterations key = rfc8018_pbkdf2 64 (rfc2104_hmac 128 fips_sha512 pass) salt iterations (length key)"
  using assms pbkdf2_256_updates [of iterations pass salt _ "[]"] pbkdf2_512_updates [of iterations pass salt _ "[]"]
  by (simp add: pbkdf2_hmac_sha256_def pbkdf2_hmac_sha512_def rfc8018_pbkdf2_def Let_def pbkdf2_blocks_eq
      pbkdf2_256.length_F [simplified] pbkdf2_512.length_F [simplified])

theorem pbkdf2_spec_witness:
  "pbkdf2_hmac_sha256 [1] [2] 3 [0, 0] = rfc8018_pbkdf2 32 (rfc2104_hmac 64 fips_sha256 [1]) [2] 3 2"
  using pbkdf2_spec [of 3 "[1]" "[2]" "[0, 0]"] by (simp add: numeral_2_eq_2)

text \<open>
  C31. The seed of a recovery phrase: with PBKDF2 of \<open>pbkdf2.c\<close> and an empty or valid cache, \<open>mnemonic_to_seed\<close>
  returns PBKDF2-HMAC-SHA512 of RFC 8018 with the phrase as the password, the salt \<open>mnemonic\<close> followed
  by (at most 256 bytes of) the passphrase, 2048 iterations and 64 bytes, as BIP-39 demands.
\<close>

theorem bip39_seed_spec:
  assumes "cache_ok (derive_seed pbkdf2_hmac_sha512_Init pbkdf2_hmac_sha512_Update pbkdf2_hmac_sha512_Final) st"
    and "0 \<notin> set mnemonic" "0 \<notin> set passphrase"
  shows "fst (snd (mnemonic_to_seed pbkdf2_hmac_sha512_Init pbkdf2_hmac_sha512_Update pbkdf2_hmac_sha512_Final callback st mnemonic passphrase)) =
    rfc8018_pbkdf2 64 (rfc2104_hmac 128 fips_sha512 mnemonic) (map of_char ''mnemonic'' @ take 256 passphrase) 2048 64"
proof -
  let ?salt = "map of_char ''mnemonic'' @ take 256 passphrase"
  let ?F = "rfc8018_F (rfc2104_hmac 128 fips_sha512 mnemonic) ?salt 2048 1"
  have "foldl (\<lambda>pctx i. pbkdf2_hmac_sha512_Update pctx 128) c xs = foldl pbkdf2_hmac_sha512_Update c (replicate (length xs) 128)" for c and xs :: "nat list"
    by (induction xs arbitrary: c) simp_all
  from this [of _ "[0..<16]"] have "derive_seed pbkdf2_hmac_sha512_Init pbkdf2_hmac_sha512_Update pbkdf2_hmac_sha512_Final mnemonic passphrase =
      pbkdf2_hmac_sha512_Final (foldl pbkdf2_hmac_sha512_Update (pbkdf2_hmac_sha512_Init mnemonic ?salt 1) (128 # replicate 15 128))"
    by (simp add: derive_seed_def Let_def min_def replicate_Suc [of 15, simplified])
  also have "\<dots> = ?F" by (subst pbkdf2_512_updates) (simp_all add: sum_list_replicate)
  finally have "derive_seed pbkdf2_hmac_sha512_Init pbkdf2_hmac_sha512_Update pbkdf2_hmac_sha512_Final mnemonic passphrase = ?F" .
  moreover have "rfc8018_pbkdf2 64 (rfc2104_hmac 128 fips_sha512 mnemonic) ?salt 2048 64 = ?F"
    using pbkdf2_512.length_F [of mnemonic ?salt 2048 1] by (simp add: rfc8018_pbkdf2_def)
  ultimately show ?thesis
    using mnemonic_to_seed_correct [OF assms, of callback] by auto
qed

theorem bip39_seed_spec_witness:
  "fst (snd (mnemonic_to_seed pbkdf2_hmac_sha512_Init pbkdf2_hmac_sha512_Update pbkdf2_hmac_sha512_Final True bip39_cache_clear [97] [98])) =
    rfc8018_pbkdf2 64 (rfc2104_hmac 128 fips_sha512 [97]) (map of_char ''mnemonic'' @ [98]) 2048 64"
  using bip39_seed_spec [of bip39_cache_clear "[97]" "[98]" True] by (simp add: cache_ok_def bip39_cache_clear_def)

end
