(* ===== verification/Hamming.thy ===== *)
theory Hamming
  imports Prelude
begin

text \<open>
  \<open>hamming_weight\<close> of \<open>storage/storage.c\<close> counts the set bits of a word with shifts and bit_masks on fields of
  two, four and eight bits. The proof describes each intermediate word by its digits in base
  \<open>2^w\<close>: additions and shifts act on the digits as long as they do not overflow their field.
\<close>

definition hamming_weight :: "u32 \<Rightarrow> u32" where
  "hamming_weight value =
     (let value = value - (drop_bit 1 value AND 0x55555555);
          value = (value AND 0x33333333) + (drop_bit 2 value AND 0x33333333);
          value = (value + drop_bit 4 value) AND 0x0F0F0F0F;
          value = value + drop_bit 8 value;
          value = value + drop_bit 16 value in
      value AND 0x3F)"

section \<open>Words from digits\<close>

definition digits :: "nat \<Rightarrow> nat \<Rightarrow> (nat \<Rightarrow> nat) \<Rightarrow> nat" where
  "digits w m p = (\<Sum>k<m. p k * 2 ^ (w * k))"

lemma digits_less: "(\<And>k. k < m \<Longrightarrow> p k < 2 ^ w) \<Longrightarrow> digits w m p < 2 ^ (w * m)"
proof (induction m)
  case (Suc m)
  then have "digits w m p < 2 ^ (w * m)" "p m + 1 \<le> 2 ^ w" by (simp_all add: Suc_le_eq)
  moreover from this(2) have "(p m + 1) * 2 ^ (w * m) \<le> 2 ^ w * 2 ^ (w * m)" by (rule mult_le_mono1)
  ultimately show ?case by (simp add: digits_def power_add)
qed (simp add: digits_def)

lemma bit_concat:
  fixes a b :: nat
  assumes "a < 2 ^ c"
  shows "bit (a + b * 2 ^ c) n \<longleftrightarrow> (if n < c then bit a n else bit b (n - c))"
proof -
  have a: "take_bit c a = a" using assms by (simp add: take_bit_nat_eq_self)
  have "take_bit c a AND push_bit c b = 0" by (rule bit_eqI) (auto simp: bit_simps)
  then have "take_bit c a + push_bit c b = take_bit c a OR push_bit c b" by (rule disjunctive_add_eq_or)
  then have "a + b * 2 ^ c = take_bit c a OR push_bit c b" by (simp add: a push_bit_eq_mult)
  then show ?thesis by (auto simp: bit_simps)
qed

lemma bit_digits:
  assumes "0 < w" "\<And>k. k < m \<Longrightarrow> p k < 2 ^ w"
  shows "bit (digits w m p) n \<longleftrightarrow> n < w * m \<and> bit (p (n div w)) (n mod w)"
  using assms(2)
proof (induction m)
  case (Suc m)
  have less: "digits w m p < 2 ^ (w * m)" using Suc.prems by (intro digits_less) simp
  have eq: "digits w (Suc m) p = digits w m p + p m * 2 ^ (w * m)" by (simp add: digits_def)
  consider "n < w * m" | "w * m \<le> n" "n < w * m + w" | "w * m + w \<le> n" by linarith
  then show ?case
  proof cases
    case 1
    then show ?thesis using Suc unfolding eq bit_concat [OF less] by simp
  next
    case 2
    then obtain r where "n = w * m + r" "r < w" by (metis le_Suc_ex nat_add_left_cancel_less)
    then show ?thesis unfolding eq bit_concat [OF less] by simp
  next
    case 3
    have "take_bit w (p m) = p m" using Suc.prems [of m] by (simp add: take_bit_nat_eq_self)
    then have "\<not> bit (p m) (n - w * m)" using 3 by (metis add_le_imp_le_diff add.commute bit_take_bit_iff leD)
    then show ?thesis using 3 unfolding eq bit_concat [OF less] by simp
  qed
qed (simp add: digits_def)

definition word_digits :: "nat \<Rightarrow> (nat \<Rightarrow> nat) \<Rightarrow> u32" where
  "word_digits w p = word_of_nat (digits w (32 div w) p)"

lemma bit_word_digits:
  assumes "0 < w" "w dvd 32" "\<And>k. p k < 2 ^ w"
  shows "bit (word_digits w p) n \<longleftrightarrow> n < 32 \<and> bit (p (n div w)) (n mod w)"
  using bit_digits [of w "32 div w" p n] assms by (auto simp: word_digits_def bit_of_nat_iff)

lemma word_digits_add: "word_digits w p + word_digits w q = word_digits w (\<lambda>k. p k + q k)"
  by (simp add: word_digits_def digits_def sum.distrib distrib_right)

lemma word_digits_shift:
  assumes "0 < w" "w dvd 32" "\<And>k. p k < 2 ^ w"
  shows "drop_bit w (word_digits w p) = word_digits w (\<lambda>k. if k + 1 < 32 div w then p (k + 1) else 0)"
proof (rule bit_word_eqI)
  fix n assume n: "n < LENGTH(32)"
  obtain m where m: "32 = w * m" using assms(2) by blast
  have "(w + n) div w = Suc (n div w)" using assms(1) by (simp add: div_add_self1)
  then have "w + n < 32 \<longleftrightarrow> Suc (n div w) < m"
    using div_less_iff_less_mult [OF assms(1), of "w + n" m] by (simp only: m mult.commute)
  moreover have "32 div w = m" using assms(1) by (simp add: m)
  ultimately show "bit (drop_bit w (word_digits w p)) n = bit (word_digits w (\<lambda>k. if k + 1 < 32 div w then p (k + 1) else 0)) n"
    using assms n \<open>(w + n) div w = Suc (n div w)\<close> by (simp add: bit_drop_bit_eq bit_word_digits)
qed

text \<open>Keeping every other digit is a number with digits of twice the width.\<close>

lemma word_digits_mask:
  assumes "0 < w" "2 * w dvd 32" "\<And>k. p k < 2 ^ w" "\<And>n. n < 32 \<Longrightarrow> bit c n \<longleftrightarrow> n mod (2 * w) < w"
  shows "word_digits w p AND c = word_digits (2 * w) (\<lambda>j. p (2 * j))"
proof (rule bit_word_eqI)
  fix n assume "n < LENGTH(32)"
  then have n: "n < 32" by simp
  have dvd: "w dvd 32" using assms(2) by (rule dvd_mult_right)
  have less: "p k < 2 ^ (2 * w)" for k
    by (rule less_le_trans [OF assms(3) [of k]]) (simp add: power_increasing)
  have "n mod w = n mod (2 * w)" "2 * (n div (2 * w)) = n div w" if "n mod (2 * w) < w"
  proof -
    have n: "n = w * (2 * (n div (2 * w))) + n mod (2 * w)"
      using mult_div_mod_eq [of "2 * w" n] by (simp only: mult.assoc mult.left_commute [of 2 w])
    show "n mod w = n mod (2 * w)" by (subst n) (simp add: that)
    show "2 * (n div (2 * w)) = n div w" using that by (subst (2) n) simp
  qed
  moreover have "\<not> bit (p (2 * (n div (2 * w)))) (n mod (2 * w))" if "\<not> n mod (2 * w) < w"
    using assms(3) [of "2 * (n div (2 * w))"] that by (metis bit_take_bit_iff take_bit_nat_eq_self)
  ultimately show "bit (word_digits w p AND c) n = bit (word_digits (2 * w) (\<lambda>j. p (2 * j))) n"
    using n assms(1,2,3,4) dvd less by (cases "n mod (2 * w) < w") (simp_all add: bit_and_iff bit_word_digits)
qed

lemma bit_masks:
  assumes "n < 32"
  shows "bit (0x55555555 :: u32) n \<longleftrightarrow> n mod (2 * 1) < 1" "bit (0x33333333 :: u32) n \<longleftrightarrow> n mod (2 * 2) < 2"
    "bit (0x0F0F0F0F :: u32) n \<longleftrightarrow> n mod (2 * 4) < 4"
proof -
  have upt: "[0..<32] = [0, 1, 2, 3, 4, 5, 6, 7, 8, 9, 10, 11, 12, 13, 14, 15, 16, 17, 18, 19, 20, 21, 22, 23, 24, 25, 26, 27, 28, 29, 30, 31]"
    by (simp add: upt_rec)
  have "list_all (\<lambda>n. bit (0x55555555 :: u32) n \<longleftrightarrow> n mod 2 < 1) [0..<32]"
    "list_all (\<lambda>n. bit (0x33333333 :: u32) n \<longleftrightarrow> n mod 4 < 2) [0..<32]" "list_all (\<lambda>n. bit (0x0F0F0F0F :: u32) n \<longleftrightarrow> n mod 8 < 4) [0..<32]"
    unfolding upt by simp_all
  with assms show "bit (0x55555555 :: u32) n \<longleftrightarrow> n mod (2 * 1) < 1" "bit (0x33333333 :: u32) n \<longleftrightarrow> n mod (2 * 2) < 2"
    "bit (0x0F0F0F0F :: u32) n \<longleftrightarrow> n mod (2 * 4) < 4" by (simp_all add: list_all_iff)
qed

lemma word_digits_shift':
  assumes "0 < w" "w dvd 32" "\<And>k. p k < 2 ^ w" "\<And>k. 32 div w \<le> k \<Longrightarrow> p k = 0"
  shows "drop_bit w (word_digits w p) = word_digits w (\<lambda>k. p (k + 1))"
  unfolding word_digits_shift [OF assms(1-3)] using assms(4) by (auto intro!: arg_cong [of _ _ "word_digits w"])

section \<open>The count\<close>

definition bit_count :: "u32 \<Rightarrow> nat" where
  "bit_count v = (\<Sum>i<32. of_bool (bit v i))"

lemma sum_pairs: "(\<Sum>i<2 * n. f i) = (\<Sum>i<n. f (2 * i) + f (2 * i + 1))" for f :: "nat \<Rightarrow> nat"
  by (induction n) simp_all

text \<open>The first line: pairs of bits are replaced by their sums.\<close>

lemma pair_sums:
  fixes v :: u32
  defines "b \<equiv> \<lambda>i. of_bool (bit v i) :: nat"
  shows "v - (drop_bit 1 v AND 0x55555555) = word_digits 2 (\<lambda>j. b (2 * j) + b (2 * j + 1))"
proof -
  have "v = word_digits 1 b" by (rule bit_word_eqI) (auto simp: bit_word_digits b_def bit_0)
  moreover have "b k = 0" if "32 \<le> k" for k using that by (auto simp: b_def dest: bit_imp_le_length)
  ultimately have "drop_bit 1 v = word_digits 1 (\<lambda>k. b (k + 1))"
    using word_digits_shift' [of 1 b] by (simp add: b_def)
  then have "drop_bit 1 v AND 0x55555555 = word_digits 2 (\<lambda>j. b (2 * j + 1))"
    using word_digits_mask [of 1 "\<lambda>k. b (k + 1)" "0x55555555"] bit_masks(1) by (simp add: b_def)
  moreover have "v = word_digits 2 (\<lambda>j. b (2 * j) + b (2 * j + 1) + b (2 * j + 1))"
  proof (rule bit_word_eqI)
    fix n assume n: "n < LENGTH(32)"
    define x y where "x = bit v (2 * (n div 2))" and "y = bit v (2 * (n div 2) + 1)"
    have 1: "bit (of_bool x + of_bool y + of_bool y :: nat) (n mod 2) = (if n mod 2 = 0 then x else y)"
      by (cases x; cases y; cases "n mod 2 = 0") (simp_all add: bit_0 bit_Suc)
    have 2: "b k + b l + b l < 2 ^ 2" for k l by (simp add: b_def)
    have 3: "n = 2 * (n div 2) + n mod 2" by simp
    have "bit v n = (if n mod 2 = 0 then x else y)"
    proof (cases "n mod 2 = 0")
      case True
      then have "n = 2 * (n div 2)" using 3 by linarith
      then have "bit v n = x" unfolding x_def by (rule arg_cong)
      then show ?thesis using True by simp
    next
      case False
      then have "n = 2 * (n div 2) + 1" using 3 by linarith
      then have "bit v n = y" unfolding y_def by (rule arg_cong)
      then show ?thesis using False by simp
    qed
    then show "bit v n = bit (word_digits 2 (\<lambda>j. b (2 * j) + b (2 * j + 1) + b (2 * j + 1))) n"
      using n 1 2 by (subst bit_word_digits) (simp_all add: b_def x_def y_def)
  qed
  ultimately show ?thesis unfolding diff_eq_eq by (simp only: word_digits_add)
qed

lemma nibble_sums:
  assumes "\<And>j. p j \<le> 2" "\<And>j. 16 \<le> j \<Longrightarrow> p j = 0"
  shows "(word_digits 2 p AND 0x33333333) + (drop_bit 2 (word_digits 2 p) AND 0x33333333) = word_digits 4 (\<lambda>j. p (2 * j) + p (2 * j + 1))"
proof -
  have p: "p j < 2 ^ 2" for j using assms(1) [of j] by simp
  then have "drop_bit 2 (word_digits 2 p) = word_digits 2 (\<lambda>k. p (k + 1))"
    using assms(2) by (intro word_digits_shift') simp_all
  then show ?thesis
    using word_digits_mask [of 2 p "0x33333333"] word_digits_mask [of 2 "\<lambda>k. p (k + 1)" "0x33333333"] p bit_masks(2)
    by (simp add: word_digits_add)
qed

lemma byte_sums:
  assumes "\<And>j. q j \<le> 4" "\<And>j. 8 \<le> j \<Longrightarrow> q j = 0"
  shows "(word_digits 4 q + drop_bit 4 (word_digits 4 q)) AND 0x0F0F0F0F = word_digits 8 (\<lambda>j. q (2 * j) + q (2 * j + 1))"
proof -
  have q: "q j < 2 ^ 4" "q j + q (j + 1) < 2 ^ 4" for j using assms(1) [of j] assms(1) [of "j + 1"] by simp_all
  then have "drop_bit 4 (word_digits 4 q) = word_digits 4 (\<lambda>k. q (k + 1))"
    using assms(2) by (intro word_digits_shift') simp_all
  then show ?thesis
    using word_digits_mask [of 4 "\<lambda>k. q k + q (k + 1)" "0x0F0F0F0F"] q(2) bit_masks(3)
    by (simp add: word_digits_add)
qed

lemma total_sum:
  assumes "\<And>j. r j \<le> 8" "\<And>j. 4 \<le> j \<Longrightarrow> r j = 0"
  defines "v \<equiv> word_digits 8 r + drop_bit 8 (word_digits 8 r)"
  shows "(v + drop_bit 16 v) AND 0x3F = word_of_nat (r 0 + r 1 + r 2 + r 3)"
proof -
  define t where "t k = r k + r (k + 1)" for k
  have r: "r j < 2 ^ 8" for j using assms(1) [of j] by simp
  have t: "t j \<le> 16" "4 \<le> j \<Longrightarrow> t j = 0" for j using assms(1) [of j] assms(1) [of "j + 1"] assms(2) by (simp_all add: t_def)
  have t8: "t j < 2 ^ 8" for j using t(1) [of j] by simp
  define u where "u k = t k + t (k + 2)" for k
  have u: "u j \<le> 32" for j using t(1) [of j] t(1) [of "j + 2"] by (simp add: u_def)
  have "v = word_digits 8 t"
    unfolding v_def t_def word_digits_add [symmetric] using r assms(2) by (subst word_digits_shift') simp_all
  moreover have "drop_bit 16 (word_digits 8 t) = drop_bit 8 (drop_bit 8 (word_digits 8 t))" by simp
  moreover have "drop_bit 8 (word_digits 8 t) = word_digits 8 (\<lambda>k. t (k + 1))"
    using t8 t(2) by (intro word_digits_shift') simp_all
  moreover have "drop_bit 8 (word_digits 8 (\<lambda>k. t (k + 1))) = word_digits 8 (\<lambda>k. t (k + 1 + 1))"
    using t8 t(2) by (intro word_digits_shift' [where p = "\<lambda>k. t (k + 1)"]) simp_all
  ultimately have v: "v + drop_bit 16 v = word_digits 8 u" by (simp only: word_digits_add u_def [abs_def]) simp
  have "word_digits 8 u AND 0x3F = word_of_nat (u 0)"
  proof (rule bit_word_eqI)
    fix n assume n: "n < LENGTH(32)"
    have "(0x3F :: u32) = mask 6" by (simp add: mask_eq_exp_minus_1)
    then have m: "bit (0x3F :: u32) n \<longleftrightarrow> n < 6" by (simp only: bit_mask_iff) auto
    have "take_bit 6 (u 0) = u 0" using u [of 0] by (simp add: take_bit_nat_eq_self)
    then have "bit (u 0) n \<longleftrightarrow> n < 6 \<and> bit (u 0) n" by (metis bit_take_bit_iff)
    moreover have "u k < 2 ^ 8" for k using u [of k] by simp
    ultimately show "bit (word_digits 8 u AND 0x3F) n = bit (word_of_nat (u 0) :: u32) n"
      unfolding bit_and_iff m using n by (cases "n < 6") (simp_all add: bit_word_digits bit_of_nat_iff)
  qed
  moreover have "u 0 = r 0 + r 1 + r 2 + r 3" by (simp add: u_def t_def eval_nat_numeral)
  ultimately show ?thesis by (simp only: v)
qed

text \<open>\<open>hamming_weight\<close> is the number of set bits, for every word.\<close>

lemma hamming_weight_eq: "hamming_weight v = word_of_nat (bit_count v)"
proof -
  define b where "b i = (of_bool (bit v i) :: nat)" for i
  define p where "p j = b (2 * j) + b (2 * j + 1)" for j
  define q where "q j = p (2 * j) + p (2 * j + 1)" for j
  define r where "r j = q (2 * j) + q (2 * j + 1)" for j
  have b: "b i \<le> 1" "32 \<le> i \<Longrightarrow> b i = 0" for i by (auto simp: b_def dest: bit_imp_le_length)
  have p: "p j \<le> 2" "16 \<le> j \<Longrightarrow> p j = 0" for j using b(1) [of "2 * j"] b(1) [of "2 * j + 1"] by (simp_all add: p_def b(2))
  have q: "q j \<le> 4" "8 \<le> j \<Longrightarrow> q j = 0" for j using p(1) [of "2 * j"] p(1) [of "2 * j + 1"] by (simp_all add: q_def p(2))
  have r: "r j \<le> 8" "4 \<le> j \<Longrightarrow> r j = 0" for j using q(1) [of "2 * j"] q(1) [of "2 * j + 1"] by (simp_all add: r_def q(2))
  have "v - (drop_bit 1 v AND 0x55555555) = word_digits 2 p"
    unfolding pair_sums p_def b_def by simp
  then have "hamming_weight v = word_of_nat (r 0 + r 1 + r 2 + r 3)"
    unfolding hamming_weight_def Let_def
    using nibble_sums [of p, OF p, folded q_def] byte_sums [of q, OF q, folded r_def] total_sum [of r, OF r] by (simp only:)
  moreover have "(\<Sum>i<32. b i) = r 0 + r 1 + r 2 + r 3"
    using sum_pairs [of b 16] sum_pairs [of p 8] sum_pairs [of q 4] by (simp add: p_def q_def r_def lessThan_Suc numeral_eq_Suc)
  ultimately show ?thesis by (simp add: bit_count_def b_def)
qed

end
