(* ===== verification/Pin_Log.thy ===== *)
theory Pin_Log
  imports Hamming Sha2_Words Norcow_Spec
begin

text \<open>
  The counter of failed PIN entries of \<open>storage/storage.c\<close>. It is an item of the store with a guard key
  and two logs of sixteen words each. A guard key selects one bit of every pair of bits as a guard
  bit with a fixed value; the other bit of the pair is data. An entry of a PIN clears the highest
  data bit that is left in the entry log, and a correct PIN copies the entry log over the success log, so
  the number of failures is the number of data bits in which the two logs differ. The updates only
  clear bits, so they are written in place.

  A function that calls \<open>handle_fault\<close> does not return: its result is \<open>None\<close>. The random delays
  (\<open>wait_random\<close>) are left out, and the random numbers are a list of words that is consumed.
\<close>

section \<open>Random numbers\<close>

fun random_uniform_loop :: "u32 \<Rightarrow> u32 list \<Rightarrow> (u32 \<times> u32 list) option" where
  "random_uniform_loop m [] = None"
| "random_uniform_loop m (x # rnd) = (if x \<ge> m then random_uniform_loop m rnd else Some (x, rnd))"

definition random_uniform :: "u32 \<Rightarrow> u32 list \<Rightarrow> (u32 \<times> u32 list) option" where
  "random_uniform n rnd =
     (let m = 0xFFFFFFFF - (0xFFFFFFFF mod n) in
      case random_uniform_loop m rnd of None \<Rightarrow> None | Some (x, rnd) \<Rightarrow> Some (x div (m div n), rnd))"

section \<open>Guard keys\<close>

definition LOW_MASK :: u32 where "LOW_MASK = 0x55555555"

definition GUARD_KEY_MODULUS :: u32 where "GUARD_KEY_MODULUS = 6311"

definition GUARD_KEY_REMAINDER :: u32 where "GUARD_KEY_REMAINDER = 15"

definition check_guard_key :: "u32 \<Rightarrow> bool" where
  "check_guard_key guard_key =
     (if guard_key mod GUARD_KEY_MODULUS \<noteq> GUARD_KEY_REMAINDER then False
      else
        let count = (guard_key AND 0x22222222) + (drop_bit 2 guard_key AND 0x22222222);
            count = count + drop_bit 4 count in
        if count AND 0x0e0e0e0e \<noteq> 0x04040404 then False
        else
          let zero_runs = NOT guard_key;
              zero_runs = zero_runs AND drop_bit 2 zero_runs;
              zero_runs = zero_runs AND drop_bit 1 zero_runs;
              zero_runs = zero_runs AND drop_bit 1 zero_runs;
              one_runs = guard_key;
              one_runs = one_runs AND drop_bit 2 one_runs;
              one_runs = one_runs AND drop_bit 1 one_runs;
              one_runs = one_runs AND drop_bit 1 one_runs in
          if one_runs \<noteq> 0 \<or> zero_runs \<noteq> 0 then False else True)"

function generate_guard_key :: "u32 list \<Rightarrow> (u32 \<times> u32 list) option" where
  "generate_guard_key rnd =
     (case random_uniform (0xFFFFFFFF div GUARD_KEY_MODULUS + 1) rnd of
        None \<Rightarrow> None
      | Some (x, rnd') \<Rightarrow>
          let guard_key = x * GUARD_KEY_MODULUS + GUARD_KEY_REMAINDER in
          if check_guard_key guard_key then Some (guard_key, rnd')
          else if length rnd' < length rnd then generate_guard_key rnd' else None)"
  by pat_completeness auto
termination by (relation "measure length") auto

declare generate_guard_key.simps [simp del]

definition expand_guard_key :: "u32 \<Rightarrow> (u32 \<times> u32) option" where
  "expand_guard_key guard_key =
     (if \<not> check_guard_key guard_key then None
      else Some (push_bit 1 (guard_key AND LOW_MASK) OR (NOT guard_key AND LOW_MASK),
             (push_bit 1 (guard_key AND LOW_MASK) AND guard_key) OR ((NOT guard_key AND LOW_MASK) AND drop_bit 1 guard_key)))"

section \<open>The logs\<close>

definition PIN_LOGS_KEY :: u16 where "PIN_LOGS_KEY = push_bit 8 0x00 OR 0x01"

definition PIN_LOG_WORDS :: nat where "PIN_LOG_WORDS = 16"

definition PIN_MAX_TRIES :: nat where "PIN_MAX_TRIES = 10"

text \<open>The item as words: the guard key, the success log and the entry log.\<close>

definition get_pin_logs :: "norcow \<Rightarrow> u32 list option option" where
  "get_pin_logs st = do {
     r \<leftarrow> norcow_read st PIN_LOGS_KEY;
     Some (case r of None \<Rightarrow> None
       | Some logs \<Rightarrow> if length logs \<noteq> 4 * (1 + 2 * PIN_LOG_WORDS) then None else Some (map load_le (chunks 4 logs))) }"

definition pin_logs_init :: "norcow \<Rightarrow> u32 list \<Rightarrow> nat \<Rightarrow> (bool \<times> norcow \<times> u32 list) option" where
  "pin_logs_init st rnd fails =
     (if fails \<ge> PIN_MAX_TRIES then Some (False, st, rnd)
      else do {
        (guard_key, rnd) \<leftarrow> generate_guard_key rnd;
        (guard_mask, guard) \<leftarrow> expand_guard_key guard_key;
        let unused = guard OR NOT guard_mask;
            logs = guard_key # replicate (2 * PIN_LOG_WORDS) unused;
            logs = logs[1 + PIN_LOG_WORDS := (drop_bit (2 * fails) 0xFFFFFFFF AND NOT guard_mask) OR guard];
            bytes = concat (map (store_le 4) logs) in do {
        (ret, st) \<leftarrow> norcow_set st PIN_LOGS_KEY (Some bytes) (length bytes);
        Some (ret, st, rnd) } })"

text \<open>
  The loop of \<open>pin_fails_reset\<close> over the words of the two logs, from the index \<open>i\<close>; its result is
  \<open>None\<close> in the first component when it reaches the end. An update of the success log in place does not
  move the item, so the words that are still to be read are those of the start.
\<close>

fun reset_loop :: "norcow \<Rightarrow> u32 \<Rightarrow> u32 \<Rightarrow> u32 list \<Rightarrow> u32 list \<Rightarrow> nat \<Rightarrow> (bool option \<times> norcow) option" where
  "reset_loop st guard unused (s # success_log) (e # entry_log) i =
     (if e = unused then Some (Some True, st)
      else if s \<noteq> guard then do {
        (ok, st) \<leftarrow> norcow_update_word st PIN_LOGS_KEY (4 * (i + 1)) e;
        if \<not> ok then Some (Some False, st) else reset_loop st guard unused success_log entry_log (i + 1) }
      else reset_loop st guard unused success_log entry_log (i + 1))"
| "reset_loop st guard unused _ _ i = Some (None, st)"

definition pin_fails_reset :: "norcow \<Rightarrow> u32 list \<Rightarrow> (bool \<times> norcow \<times> u32 list) option" where
  "pin_fails_reset st rnd = do {
     r \<leftarrow> get_pin_logs st;
     case r of None \<Rightarrow> Some (False, st, rnd)
     | Some logs \<Rightarrow> do {
         (guard_mask, guard) \<leftarrow> expand_guard_key (logs ! 0);
         let unused = guard OR NOT guard_mask;
             success_log = take PIN_LOG_WORDS (drop 1 logs);
             entry_log = take PIN_LOG_WORDS (drop (1 + PIN_LOG_WORDS) logs) in do {
         (ret, st) \<leftarrow> reset_loop st guard unused success_log entry_log 0;
         case ret of Some b \<Rightarrow> Some (b, st, rnd) | None \<Rightarrow> pin_logs_init st rnd 0 } } }"

fun increase_loop :: "norcow \<Rightarrow> u32 \<Rightarrow> u32 \<Rightarrow> u32 list \<Rightarrow> nat \<Rightarrow> norcow option" where
  "increase_loop st guard_mask guard [] i = None"
| "increase_loop st guard_mask guard (e # entry_log) i =
     (if e AND guard_mask \<noteq> guard then None
      else if e \<noteq> guard then
        let word = e AND NOT guard_mask;
            word = (drop_bit 1 word OR word) AND LOW_MASK;
            word = drop_bit 2 word OR drop_bit 1 word in do {
        (ok, st) \<leftarrow> norcow_update_word st PIN_LOGS_KEY (4 * (i + 1 + PIN_LOG_WORDS)) ((word AND NOT guard_mask) OR guard);
        if \<not> ok then None else Some st }
      else increase_loop st guard_mask guard entry_log (i + 1))"

definition storage_pin_fails_increase :: "bool \<Rightarrow> norcow \<Rightarrow> (bool \<times> norcow) option" where
  "storage_pin_fails_increase initialized st =
     (if \<not> initialized then Some (False, st)
      else do {
        r \<leftarrow> get_pin_logs st;
        logs \<leftarrow> r;
        (guard_mask, guard) \<leftarrow> expand_guard_key (logs ! 0);
        st \<leftarrow> increase_loop st guard_mask guard (take PIN_LOG_WORDS (drop (1 + PIN_LOG_WORDS) logs)) 0;
        Some (True, st) })"

text \<open>The loop of \<open>pin_get_fails\<close>: the format of the logs and the current word of the entry log.\<close>

fun check_loop :: "u32 \<Rightarrow> u32 \<Rightarrow> u32 list \<Rightarrow> u32 list \<Rightarrow> nat \<Rightarrow> nat option \<Rightarrow> nat option option" where
  "check_loop guard_mask guard (s # success_log) (e # entry_log) i current =
     (if e AND guard_mask \<noteq> guard \<or> s AND guard_mask \<noteq> guard \<or> e AND s \<noteq> e then None
      else case current of
        None \<Rightarrow> check_loop guard_mask guard success_log entry_log (i + 1) (if e \<noteq> guard then Some i else None)
      | Some c \<Rightarrow>
          if e \<noteq> guard OR NOT guard_mask then None
          else check_loop guard_mask guard success_log entry_log (i + 1) (Some c))"
| "check_loop guard_mask guard _ _ i current = Some current"

definition pin_get_fails :: "norcow \<Rightarrow> u32 option" where
  "pin_get_fails st = do {
     r \<leftarrow> get_pin_logs st;
     logs \<leftarrow> r;
     (guard_mask, guard) \<leftarrow> expand_guard_key (logs ! 0);
     let success_log = take PIN_LOG_WORDS (drop 1 logs);
         entry_log = take PIN_LOG_WORDS (drop (1 + PIN_LOG_WORDS) logs) in do {
     r \<leftarrow> check_loop guard_mask guard success_log entry_log 0 None;
     current \<leftarrow> r;
     let word = entry_log ! current AND NOT guard_mask;
         word = (drop_bit 1 word OR word) AND LOW_MASK;
         word = word OR push_bit 1 word;
         cur = (if current = 0 then 1 else current) in
     if word AND (word + 1) \<noteq> 0 then None
     else Some (hamming_weight (success_log ! (cur - 1) XOR entry_log ! (cur - 1)) + hamming_weight (success_log ! cur XOR entry_log ! cur)) } }"

end
