(* ===== verification/Pin_Counter.thy ===== *)
theory Pin_Counter
  imports Pin_Log
begin

text \<open>
  The PIN fail counter of \<open>storage.c\<close> as a pair of numbers: the entries and the entries at the last success.
  The words of the logs are described by their bits, the item in the store by its words, and the operations
  are shown to add one, to copy, and to subtract; \<open>pin_fails_counted\<close> follows for any sequence of them.
\<close>

section \<open>Guard bits and data bits\<close>

lemma bit_LOW_MASK: "bit LOW_MASK n \<longleftrightarrow> n < 32 \<and> even n"
proof (cases "n < 32")
  case True
  then show ?thesis using bit_masks(1) [OF True] unfolding LOW_MASK_def by (simp add: even_iff_mod_2_eq_zero)
next
  case False
  then show ?thesis by (auto dest: bit_imp_le_length)
qed

text \<open>Bit \<open>b\<close> is a guard bit of the key \<open>gk\<close>; its value is the upper bit of the pair in the key.\<close>

definition guard_bit :: "u32 \<Rightarrow> nat \<Rightarrow> bool" where
  "guard_bit gk b \<longleftrightarrow> (if even b then \<not> bit gk b else bit gk (b - 1))"

definition guard_mask_of :: "u32 \<Rightarrow> u32" where
  "guard_mask_of gk = push_bit 1 (gk AND LOW_MASK) OR (NOT gk AND LOW_MASK)"

definition guard_of :: "u32 \<Rightarrow> u32" where
  "guard_of gk = (push_bit 1 (gk AND LOW_MASK) AND gk) OR ((NOT gk AND LOW_MASK) AND drop_bit 1 gk)"

lemma expand_guard_key_eq: "check_guard_key gk \<Longrightarrow> expand_guard_key gk = Some (guard_mask_of gk, guard_of gk)"
  by (simp add: expand_guard_key_def guard_mask_of_def guard_of_def)

lemma bit_push1: "bit (push_bit 1 w :: u32) n \<longleftrightarrow> 0 < n \<and> n < 32 \<and> bit w (n - 1)"
  unfolding bit_push_bit_iff by (auto simp: Suc_le_eq)

lemma bit_guard_mask: "bit (guard_mask_of gk) b \<longleftrightarrow> b < 32 \<and> guard_bit gk b"
  unfolding guard_mask_of_def bit_or_iff bit_push1
  by (cases b) (auto simp: guard_bit_def bit_and_iff bit_not_iff bit_LOW_MASK)

lemma bit_guard: "bit (guard_of gk) b \<longleftrightarrow> b < 32 \<and> guard_bit gk b \<and> bit gk (2 * (b div 2) + 1)"
proof (cases "even b")
  case True
  then have "2 * (b div 2) = b" by simp
  then show ?thesis using True unfolding guard_of_def bit_or_iff bit_and_iff bit_push1
    by (cases b) (auto simp: guard_bit_def bit_not_iff bit_drop_bit_eq bit_LOW_MASK dest: bit_imp_le_length)
next
  case False
  then have "2 * (b div 2) + 1 = b" by simp
  with False show ?thesis unfolding guard_of_def bit_or_iff bit_and_iff bit_push1
    by (cases b) (auto simp: guard_bit_def bit_not_iff bit_drop_bit_eq bit_LOW_MASK dest: bit_imp_le_length)
qed

text \<open>A pair has one guard bit and one data bit.\<close>

lemma guard_bit_pair: "guard_bit gk (2 * k + 1) \<longleftrightarrow> \<not> guard_bit gk (2 * k)"
  by (simp add: guard_bit_def)

text \<open>A log word with data bits in the lowest \<open>m\<close> pairs.\<close>

definition log_word :: "u32 \<Rightarrow> nat \<Rightarrow> u32" where
  "log_word gk m = guard_of gk OR (NOT (guard_mask_of gk) AND mask (2 * m))"

lemma bit_log_word: "bit (log_word gk m) b \<longleftrightarrow> b < 32 \<and> (if guard_bit gk b then bit gk (2 * (b div 2) + 1) else b div 2 < m)"
  by (auto simp: log_word_def bit_simps bit_guard bit_guard_mask)

lemma log_word_guard: "log_word gk 0 = guard_of gk" "log_word gk 16 = guard_of gk OR NOT (guard_mask_of gk)"
    "log_word gk m AND guard_mask_of gk = guard_of gk"
proof -
  show "log_word gk 0 = guard_of gk" by (simp add: log_word_def)
  have "(mask 32 :: u32) = - 1" by (rule bit_word_eqI) (simp add: bit_simps)
  then show "log_word gk 16 = guard_of gk OR NOT (guard_mask_of gk)" by (simp add: log_word_def)
  show "log_word gk m AND guard_mask_of gk = guard_of gk"
    by (rule bit_word_eqI) (auto simp: bit_and_iff bit_log_word bit_guard bit_guard_mask)
qed

lemma guard_and_mask: "guard_of gk AND guard_mask_of gk = guard_of gk"
  using log_word_guard(3) [of gk 0] by (simp only: log_word_guard(1))

lemma log_word_and: "m \<le> m' \<Longrightarrow> log_word gk m AND log_word gk m' = log_word gk m"
  by (rule bit_word_eqI) (auto simp: bit_and_iff bit_log_word)

lemma log_word_inj:
  assumes "m < m'" "m' \<le> 16"
  shows "log_word gk m \<noteq> log_word gk m'"
proof
  assume eq: "log_word gk m = log_word gk m'"
  define b where "b = (if guard_bit gk (2 * m) then 2 * m + 1 else 2 * m)"
  have "\<not> guard_bit gk b" "b div 2 = m" "b < 32" using assms by (auto simp: b_def guard_bit_def)
  then show False using eq assms bit_log_word [of gk m b] bit_log_word [of gk m' b] by simp
qed

lemma log_word_eq_iff: "m \<le> 16 \<Longrightarrow> m' \<le> 16 \<Longrightarrow> log_word gk m = log_word gk m' \<longleftrightarrow> m = m'"
  using log_word_inj [of m m' gk] log_word_inj [of m' m gk] by (cases m m' rule: linorder_cases) auto

text \<open>The data bits collapsed to the lower bits of the pairs.\<close>

lemma collapse:
  assumes "m \<le> 16"
  shows "(drop_bit 1 (log_word gk m AND NOT (guard_mask_of gk)) OR (log_word gk m AND NOT (guard_mask_of gk))) AND LOW_MASK = mask (2 * m) AND LOW_MASK"
proof (rule bit_word_eqI)
  fix b assume "b < LENGTH(32)"
  then have b: "b < 32" by simp
  show "bit ((drop_bit 1 (log_word gk m AND NOT (guard_mask_of gk)) OR (log_word gk m AND NOT (guard_mask_of gk))) AND LOW_MASK) b = bit (mask (2 * m) AND LOW_MASK) b"
  proof (cases "even b")
    case True
    then obtain k where k: "b = 2 * k" by blast
    show ?thesis using b guard_bit_pair [of gk k]
      by (auto simp: k bit_and_iff bit_or_iff bit_drop_bit_eq bit_not_iff bit_log_word bit_guard_mask bit_LOW_MASK bit_mask_iff)
  qed (simp add: bit_and_iff bit_LOW_MASK)
qed

lemma log_word_step:
  assumes "m \<le> 16"
  defines "w \<equiv> mask (2 * m) AND LOW_MASK"
  shows "((drop_bit 2 w OR drop_bit 1 w) AND NOT (guard_mask_of gk)) OR guard_of gk = log_word gk (m - 1)"
proof (rule bit_word_eqI)
  fix b assume "b < LENGTH(32)"
  then have b: "b < 32" by simp
  have "bit (drop_bit 2 w OR drop_bit 1 w) b \<longleftrightarrow> b div 2 < m - 1"
    using assms(1) by (cases "even b") (auto simp: w_def bit_simps bit_LOW_MASK elim!: evenE oddE)
  then show "bit (((drop_bit 2 w OR drop_bit 1 w) AND NOT (guard_mask_of gk)) OR guard_of gk) b = bit (log_word gk (m - 1)) b"
    using b by (auto simp: bit_and_iff bit_or_iff bit_not_iff bit_log_word bit_guard bit_guard_mask)
qed

lemma collapse_duplicate:
  assumes "m \<le> 16"
  defines "w \<equiv> mask (2 * m) AND LOW_MASK"
  shows "w OR push_bit 1 w = mask (2 * m)"
proof (rule bit_word_eqI)
  fix b assume "b < LENGTH(32)"
  then show "bit (w OR push_bit 1 w) b = bit (mask (2 * m) :: u32) b"
    unfolding bit_or_iff bit_push1 w_def
    using assms(1) by (cases "even b") (auto simp: bit_and_iff bit_mask_iff bit_LOW_MASK elim!: evenE oddE)
qed

lemma mask_form: "(mask n :: u32) AND (mask n + 1) = 0"
proof -
  have "(mask n + 1 :: u32) = push_bit n 1" by (simp add: mask_eq_exp_minus_1 push_bit_eq_mult)
  then show ?thesis by (auto intro!: bit_word_eqI simp: bit_simps)
qed

lemma bit_count_log_words:
  assumes "m \<le> m'" "m' \<le> 16"
  shows "bit_count (log_word gk m' XOR log_word gk m) = m' - m" "bit_count (log_word gk m XOR log_word gk m') = m' - m"
proof -
  have "of_bool (bit (log_word gk m' XOR log_word gk m) (2 * k)) + of_bool (bit (log_word gk m' XOR log_word gk m) (2 * k + 1)) =
      (of_bool (m \<le> k \<and> k < m') :: nat)" if "k < 16" for k
    using that assms guard_bit_pair [of gk k] by (auto simp: bit_xor_iff bit_log_word)
  then have "bit_count (log_word gk m' XOR log_word gk m) = (\<Sum>k<16. of_bool (m \<le> k \<and> k < m'))"
    using sum_pairs [of "\<lambda>i. of_bool (bit (log_word gk m' XOR log_word gk m) i)" 16] by (simp add: bit_count_def)
  also have "\<dots> = card {k. k < 16 \<and> m \<le> k \<and> k < m'}"
    by (simp add: sum_of_bool_eq lessThan_def Int_def)
  also have "{k. k < 16 \<and> m \<le> k \<and> k < m'} = {m..<m'}" using assms by auto
  finally show "bit_count (log_word gk m' XOR log_word gk m) = m' - m" by simp
  then show "bit_count (log_word gk m XOR log_word gk m') = m' - m" by (simp add: xor.commute)
qed

section \<open>The item in the store\<close>

definition words_bytes :: "u32 list \<Rightarrow> u8 list" where
  "words_bytes ws = concat (map (store_le 4) ws)"

text \<open>The store holds the words \<open>ws\<close> under the key of the logs, and the map \<open>m\<close> elsewhere.\<close>

definition pin_store :: "norcow \<Rightarrow> (u16 \<rightharpoonup> u8 list) \<Rightarrow> u32 list \<Rightarrow> bool" where
  "pin_store st m ws \<longleftrightarrow> (\<exists>its. nc_inv st its \<and> kv its = m(PIN_LOGS_KEY \<mapsto> words_bytes ws))"

lemma length_words_bytes [simp]: "length (words_bytes ws) = 4 * length ws"
  by (induction ws) (simp_all add: words_bytes_def)

lemma PIN_LOGS_KEY_nonzero: "PIN_LOGS_KEY \<noteq> 0" "PIN_LOGS_KEY \<noteq> 0xFFFF"
  by (simp_all add: PIN_LOGS_KEY_def)

lemma store_le_word_bytes: "store_le 4 w = word_bytes w"
  by (simp add: store_le_def word_bytes_def numeral_eq_Suc upt_rec)

lemma words_of_bytes: "map load_le (chunks 4 (words_bytes ws)) = ws"
proof -
  have "chunks 4 (words_bytes ws) = map (store_le 4) ws" unfolding words_bytes_def by (rule chunks_concat) auto
  then show ?thesis by (simp add: load_store_32 comp_def)
qed

lemma get_pin_logs_eq:
  assumes "pin_store st m ws" "length ws = 33"
  shows "get_pin_logs st = Some (Some ws)"
proof -
  obtain its where "nc_inv st its" "kv its = m(PIN_LOGS_KEY \<mapsto> words_bytes ws)" using assms(1) by (auto simp: pin_store_def)
  then have "norcow_read st PIN_LOGS_KEY = Some (Some (words_bytes ws))"
    using norcow_read_inv [OF _ PIN_LOGS_KEY_nonzero(1)] by simp
  then show ?thesis using assms(2) by (simp add: get_pin_logs_def PIN_LOG_WORDS_def words_of_bytes)
qed

lemma overwrite_words:
  assumes "j < length ws"
  shows "overwrite (words_bytes ws) (4 * j) (word_bytes w) = words_bytes (ws[j := w])"
    "take 4 (drop (4 * j) (words_bytes ws)) = word_bytes (ws ! j)"
proof -
  have "words_bytes (take j ws @ ws ! j # drop (Suc j) ws) = words_bytes (take j ws) @ word_bytes (ws ! j) @ words_bytes (drop (Suc j) ws)"
    unfolding words_bytes_def by (simp only: map_append list.map concat_append concat.simps store_le_word_bytes)
  then have ws: "words_bytes ws = words_bytes (take j ws) @ word_bytes (ws ! j) @ words_bytes (drop (Suc j) ws)"
    by (simp only: id_take_nth_drop [OF assms, symmetric])
  have l: "length (words_bytes (take j ws)) = 4 * j" using assms by simp
  show "take 4 (drop (4 * j) (words_bytes ws)) = word_bytes (ws ! j)" using l unfolding ws by simp
  have "words_bytes (ws[j := w]) = words_bytes (take j ws) @ word_bytes w @ words_bytes (drop (Suc j) ws)"
    using assms by (simp add: upd_conv_take_nth_drop words_bytes_def store_le_word_bytes)
  then show "overwrite (words_bytes ws) (4 * j) (word_bytes w) = words_bytes (ws[j := w])"
    using l unfolding ws overwrite_def by simp
qed

lemma word_bytes_and: "word_bytes (a AND b) = map2 (AND) (word_bytes a) (word_bytes b)"
  by (simp add: word_bytes_def) (auto intro!: bit_word_eqI simp: bit_simps)

lemma only_clears_words:
  assumes "j < length ws" "ws ! j AND w = w"
  shows "only_clears (words_bytes ws) (4 * j) (word_bytes w)"
proof -
  have "words_bytes ws ! (4 * j + i) AND word_bytes w ! i = word_bytes w ! i" if "i < 4" for i
  proof -
    have "words_bytes ws ! (4 * j + i) = take 4 (drop (4 * j) (words_bytes ws)) ! i" using that assms(1) by simp
    also have "\<dots> = word_bytes (ws ! j) ! i" by (simp only: overwrite_words(2) [OF assms(1)])
    finally show ?thesis using that arg_cong [OF word_bytes_and [of "ws ! j" w], of "\<lambda>bs. bs ! i"] assms(2) by simp
  qed
  then show ?thesis using assms(1) by (simp add: only_clears_def)
qed

lemma update_item_word:
  assumes "nc_inv st its" "k \<noteq> 0" "kv its k = Some (words_bytes ws)" "j < length ws" "ws ! j AND w = w"
  shows "\<exists>st' its'. norcow_update_word st k (4 * j) w = Some (True, st') \<and> nc_inv st' its' \<and> kv its' = (kv its)(k \<mapsto> words_bytes (ws[j := w]))"
  using norcow_update_word_log [OF assms(1-3) only_clears_words [OF assms(4,5)]] overwrite_words(1) [OF assms(4)] by simp

lemma update_pin_word:
  assumes "pin_store st m ws" "j < length ws" "ws ! j AND w = w"
  shows "\<exists>st'. norcow_update_word st PIN_LOGS_KEY (4 * j) w = Some (True, st') \<and> pin_store st' m (ws[j := w])"
proof -
  obtain its where its: "nc_inv st its" "kv its = m(PIN_LOGS_KEY \<mapsto> words_bytes ws)" using assms(1) by (auto simp: pin_store_def)
  then have "kv its PIN_LOGS_KEY = Some (words_bytes ws)" by simp
  from update_item_word [OF its(1) PIN_LOGS_KEY_nonzero(1) this assms(2,3)] its(2)
  show ?thesis by (auto simp: pin_store_def)
qed

text \<open>An item can be replaced by one of the same length: it fits after a compaction.\<close>

lemma enc_items_live: "length (enc_items (live its)) \<le> length (enc_items its)"
  by (induction its) (auto simp: live_def simp del: enc_item.simps)

lemma rewrite_fits:
  assumes "nc_inv st its" "k \<noteq> 0" "kv its k = Some v" "4 dvd length v"
  shows "space_needed its k (length v) \<le> 65536"
proof -
  note i = nc_inv_cases [OF assms(1)]
  obtain as bs where s: "its = as @ (k, v) # bs" "k \<notin> fst ` set as" "k \<notin> fst ` set bs"
    by (rule kv_Some_split [OF assms(3) i(4) assms(2)])
  have "log_end its \<le> 65536" using i(1,3) by (auto simp: log_ok_def log_end_def dest: arg_cong [of _ _ length])
  moreover have "filter (\<lambda>it. fst it \<noteq> k) (live its) = live as @ live bs"
  proof -
    have "k \<notin> fst ` set (live as)" "k \<notin> fst ` set (live bs)" using s(2,3) by (auto simp: live_def)
    then show ?thesis using assms(2) by (simp add: s(1) filter_absent)
  qed
  moreover have "length (enc_item (k, v)) = 4 + length v" using assms(4) by (auto elim!: dvdE simp: length_enc_item align4_def simp del: enc_item.simps)
  ultimately show ?thesis
    using s(1) enc_items_live [of as] enc_items_live [of bs] by (simp add: space_needed_def log_end_def del: enc_item.simps)
qed

lemma set_pin_words:
  assumes "pin_store st m ws \<or> (\<exists>its. nc_inv st its \<and> kv its = m)" "length ws' = 33"
  shows "\<exists>ret st'. norcow_set st PIN_LOGS_KEY (Some (words_bytes ws')) (length (words_bytes ws')) = Some (ret, st') \<and>
     (ret \<longrightarrow> pin_store st' m ws') \<and> (pin_store st m ws \<and> length ws = 33 \<longrightarrow> ret)"
proof -
  have "\<exists>its. nc_inv st its \<and> (kv its)(PIN_LOGS_KEY := None) = m(PIN_LOGS_KEY := None) \<and>
      (pin_store st m ws \<and> length ws = 33 \<longrightarrow> kv its PIN_LOGS_KEY = Some (words_bytes ws))"
  proof (cases "pin_store st m ws")
    case True
    then show ?thesis by (auto simp: pin_store_def)
  next
    case False
    then show ?thesis using assms(1) by auto
  qed
  then obtain its where its: "nc_inv st its" "(kv its)(PIN_LOGS_KEY := None) = m(PIN_LOGS_KEY := None)"
    and old: "pin_store st m ws \<and> length ws = 33 \<Longrightarrow> kv its PIN_LOGS_KEY = Some (words_bytes ws)" by blast
  have fits: "space_needed its PIN_LOGS_KEY (length (words_bytes ws')) \<le> 65536" if "pin_store st m ws \<and> length ws = 33"
    using rewrite_fits [OF its(1) PIN_LOGS_KEY_nonzero(1) old [OF that]] that assms(2) by simp
  from norcow_set_log [OF its(1) PIN_LOGS_KEY_nonzero, of "length (words_bytes ws')" "Some (words_bytes ws')"] assms(2)
  obtain ret st' its' where "norcow_set_ex st PIN_LOGS_KEY (Some (words_bytes ws')) (length (words_bytes ws')) = Some (ret, kv its PIN_LOGS_KEY \<noteq> None, st')"
    "nc_inv st' its'" "kv its' = (if ret then (kv its)(PIN_LOGS_KEY \<mapsto> set_value (Some (words_bytes ws')) (length (words_bytes ws'))) else (kv its)(PIN_LOGS_KEY := None))"
    "space_needed its PIN_LOGS_KEY (length (words_bytes ws')) \<le> 65536 \<longrightarrow> ret" by auto
  moreover have "(kv its)(PIN_LOGS_KEY \<mapsto> v) = m(PIN_LOGS_KEY \<mapsto> v)" for v using its(2) by (metis fun_upd_upd)
  ultimately have "norcow_set st PIN_LOGS_KEY (Some (words_bytes ws')) (length (words_bytes ws')) = Some (ret, st')"
      "ret \<longrightarrow> pin_store st' m ws'" "pin_store st m ws \<and> length ws = 33 \<longrightarrow> ret"
    using fits by (auto simp: norcow_set_def pin_store_def set_value_def)
  then show ?thesis by blast
qed

section \<open>Logs as numbers\<close>

text \<open>
  A log with its first \<open>n\<close> data bits cleared: word \<open>i\<close> has \<open>left_in i n\<close> of its sixteen data bits left.
  The item stands for the number \<open>n\<close> of entries and the number \<open>s\<close> of them at the last success.
\<close>

definition left_in :: "nat \<Rightarrow> nat \<Rightarrow> nat" where
  "left_in i n = min 16 (16 * (i + 1) - n)"

definition pin_log :: "u32 \<Rightarrow> nat \<Rightarrow> u32 list" where
  "pin_log gk n = map (\<lambda>i. log_word gk (left_in i n)) [0..<16]"

definition pin_counts :: "norcow \<Rightarrow> (u16 \<rightharpoonup> u8 list) \<Rightarrow> u32 \<Rightarrow> nat \<Rightarrow> nat \<Rightarrow> bool" where
  "pin_counts st m gk s n \<longleftrightarrow> check_guard_key gk \<and> pin_store st m (gk # pin_log gk s @ pin_log gk n)"

lemma length_pin_log [simp]: "length (pin_log gk n) = 16" by (simp add: pin_log_def)

lemma nth_pin_log [simp]: "i < 16 \<Longrightarrow> pin_log gk n ! i = log_word gk (left_in i n)"
  by (simp add: pin_log_def)

lemma left_in_le [simp]: "left_in i n \<le> 16" by (simp add: left_in_def)

lemma left_in_mono: "s \<le> n \<Longrightarrow> left_in i n \<le> left_in i s" by (auto simp: left_in_def)

lemma left_in_cases:
  "i < n div 16 \<Longrightarrow> left_in i n = 0"
  "i = n div 16 \<Longrightarrow> left_in i n = 16 * (i + 1) - n \<and> 0 < left_in i n"
  "n div 16 < i \<Longrightarrow> left_in i n = 16"
proof -
  have n: "n = 16 * (n div 16) + n mod 16" "n mod 16 < 16" by simp_all
  show "left_in i n = 0" if "i < n div 16"
  proof -
    have "16 * (i + 1) \<le> 16 * (n div 16)" using that by (intro mult_le_mono2) simp
    then show ?thesis using n(1) by (simp add: left_in_def)
  qed
  show "left_in i n = 16 * (i + 1) - n \<and> 0 < left_in i n" if "i = n div 16"
  proof -
    have "n = 16 * i + n mod 16" using that by simp
    then obtain r where "n = 16 * i + r" "r < 16" using n(2) by metis
    then show ?thesis by (simp add: left_in_def)
  qed
  show "left_in i n = 16" if "n div 16 < i"
  proof -
    have "16 * (n div 16 + 1) \<le> 16 * i" using that by (intro mult_le_mono2) simp
    moreover have "n < 16 + 16 * (n div 16)" by (rule dividend_less_times_div) simp
    ultimately have "n \<le> 16 * i" by (simp only: distrib_left mult_1_right)
    then show ?thesis by (simp add: left_in_def)
  qed
qed

lemma left_in_zero: "left_in i n = 0 \<longleftrightarrow> i < n div 16" and left_in_full: "n \<le> 16 * i \<longleftrightarrow> left_in i n = 16"
  using left_in_cases(1,2) [of i n] left_in_cases(3) [of n i] by (cases i "n div 16" rule: linorder_cases) (auto simp: left_in_def)

lemma log_word_conv:
  "m \<le> 16 \<Longrightarrow> log_word gk m = guard_of gk \<longleftrightarrow> m = 0"
  "m \<le> 16 \<Longrightarrow> log_word gk m = guard_of gk OR NOT (guard_mask_of gk) \<longleftrightarrow> m = 16"
  using log_word_eq_iff [of m 0 gk] log_word_eq_iff [of m 16 gk] by (simp_all add: log_word_guard)

lemma pin_log_Suc:
  assumes "n < 256"
  shows "(pin_log gk n)[n div 16 := log_word gk (left_in (n div 16) n - 1)] = pin_log gk (Suc n)"
proof (rule nth_equalityI)
  fix i assume "i < length ((pin_log gk n)[n div 16 := log_word gk (left_in (n div 16) n - 1)])"
  then have i: "i < 16" by simp
  have "left_in (n div 16) n - 1 = left_in (n div 16) (Suc n)" using left_in_cases(2) [of "n div 16" n] by (auto simp: left_in_def)
  moreover have "left_in i n = left_in i (Suc n)" if "i \<noteq> n div 16"
    using that left_in_cases(1) [of i n] left_in_cases(3) [of n i] by (cases i "n div 16" rule: linorder_cases) (auto simp: left_in_def)
  ultimately show "(pin_log gk n)[n div 16 := log_word gk (left_in (n div 16) n - 1)] ! i = pin_log gk (Suc n) ! i"
    using i by (cases "i = n div 16") (simp_all add: nth_list_update)
qed simp

section \<open>Reading the counter\<close>

lemma check_loop_eq:
  assumes "s \<le> n" "n < 256" "i \<le> 16" "cur = (if i \<le> n div 16 then None else Some (n div 16))"
  shows "check_loop (guard_mask_of gk) (guard_of gk) (map (\<lambda>i. log_word gk (left_in i s)) [i..<16]) (map (\<lambda>i. log_word gk (left_in i n)) [i..<16]) i cur
    = Some (Some (n div 16))"
  using assms(3,4)
proof (induction "16 - i" arbitrary: i cur)
  case 0
  then have "i = 16" by simp
  then show ?case using 0(3) assms(2) by auto
next
  case (Suc d)
  then have i: "i < 16" "[i..<16] = i # [Suc i..<16]" by (simp_all add: upt_conv_Cons)
  have IH: "check_loop (guard_mask_of gk) (guard_of gk) (map (\<lambda>i. log_word gk (left_in i s)) [Suc i..<16]) (map (\<lambda>i. log_word gk (left_in i n)) [Suc i..<16]) (Suc i)
      (if Suc i \<le> n div 16 then None else Some (n div 16)) = Some (Some (n div 16))"
    using Suc(2) i(1) by (intro Suc(1)) simp_all
  consider "i < n div 16" | "i = n div 16" | "n div 16 < i" by linarith
  then show ?case
    using IH Suc.prems(2) left_in_cases(1,2) [of i n] left_in_cases(3) [of n i] log_word_and [OF left_in_mono [OF assms(1), of i], of gk]
    unfolding i(2) by cases (simp_all add: log_word_guard(3) log_word_conv)
qed

lemma left_in_sum:
  assumes "s \<le> n" "n \<le> s + 16" "n < 256"
  defines "c \<equiv> (if n div 16 = 0 then 1 else n div 16)"
  shows "(left_in (c - 1) s - left_in (c - 1) n) + (left_in c s - left_in c n) = n - s"
proof -
  have n: "n = 16 * (n div 16) + n mod 16" "n mod 16 < 16" by simp_all
  show ?thesis
  proof (cases "n div 16")
    case 0
    then have "n < 16" using n by simp
    then show ?thesis using 0 assms by (simp add: left_in_def)
  next
    case (Suc k)
    then have "c = Suc k" by (simp add: c_def)
    then show ?thesis using Suc n assms(1,2) by (simp add: left_in_def)
  qed
qed

lemma pin_get_fails_eq:
  assumes "pin_counts st m gk s n" "s \<le> n" "n \<le> s + 16" "n < 256"
  shows "pin_get_fails st = Some (word_of_nat (n - s))"
proof -
  let ?gm = "guard_mask_of gk" and ?g = "guard_of gk" and ?c = "n div 16"
  define c where "c = (if ?c = 0 then 1 else ?c)"
  have gk: "check_guard_key gk" and st: "pin_store st m (gk # pin_log gk s @ pin_log gk n)"
    using assms(1) by (simp_all add: pin_counts_def)
  have c: "?c < 16" "c < 16" "c - 1 < 16" using assms(4) by (auto simp: c_def)
  have loop: "check_loop ?gm ?g (pin_log gk s) (pin_log gk n) 0 None = Some (Some ?c)"
    using check_loop_eq [OF assms(2,4), of 0 None gk] by (simp add: pin_log_def)
  have weight: "hamming_weight (log_word gk (left_in i s) XOR log_word gk (left_in i n)) = word_of_nat (left_in i s - left_in i n)" for i
    by (simp add: hamming_weight_eq bit_count_log_words(1) left_in_mono [OF assms(2)])
  have form: "let word = log_word gk (left_in ?c n) AND NOT ?gm; word = (drop_bit 1 word OR word) AND LOW_MASK; word = word OR push_bit 1 word
      in word AND (word + 1) = 0"
    unfolding Let_def collapse [OF left_in_le] collapse_duplicate [OF left_in_le] by (rule mask_form)
  have "pin_get_fails st = Some (word_of_nat (left_in (c - 1) s - left_in (c - 1) n) + word_of_nat (left_in c s - left_in c n))"
    using get_pin_logs_eq [OF st] expand_guard_key_eq [OF gk] loop c form
    by (simp add: pin_get_fails_def PIN_LOG_WORDS_def Let_def weight flip: c_def)
  then show ?thesis using left_in_sum [OF assms(2-4)] by (simp add: c_def flip: of_nat_add)
qed

section \<open>Counting an entry\<close>

lemma increase_loop_eq:
  assumes "n < 256" "i \<le> n div 16"
  shows "increase_loop st (guard_mask_of gk) (guard_of gk) (map (\<lambda>i. log_word gk (left_in i n)) [i..<16]) i =
    do { (ok, st) \<leftarrow> norcow_update_word st PIN_LOGS_KEY (4 * (n div 16 + 17)) (log_word gk (left_in (n div 16) n - 1));
         if \<not> ok then None else Some st }"
  using assms(2)
proof (induction "n div 16 - i" arbitrary: i)
  case 0
  then have i: "i = n div 16" "i < 16" "[i..<16] = i # [Suc i..<16]" using assms(1) by (simp_all add: upt_conv_Cons)
  have "left_in i n \<noteq> 0" using left_in_cases(2) [OF i(1)] by (intro notI) linarith
  then show ?case
    unfolding i(3) list.map increase_loop.simps Let_def log_word_guard(3) collapse [OF left_in_le] log_word_step [OF left_in_le] PIN_LOG_WORDS_def
    using i(1) by (simp add: log_word_conv add.commute)
next
  case (Suc d)
  then have i: "i < n div 16" "[i..<16] = i # [Suc i..<16]" using assms(1) by (simp_all add: upt_conv_Cons)
  have "left_in i n = 0" using left_in_cases(1) [OF i(1)] .
  moreover have "d = n div 16 - Suc i" "Suc i \<le> n div 16" using Suc(2) i(1) by simp_all
  ultimately show ?case unfolding i(2) using Suc(1) [of "Suc i"] by (simp add: log_word_guard guard_and_mask)
qed

lemma increase_loop_exhausted:
  "256 \<le> n \<Longrightarrow> increase_loop st (guard_mask_of gk) (guard_of gk) (map (\<lambda>i. log_word gk (left_in i n)) [i..<16]) i = None"
proof (induction "16 - i" arbitrary: i)
  case (Suc d)
  then have i: "i < 16" "[i..<16] = i # [Suc i..<16]" by (simp_all add: upt_conv_Cons)
  have "left_in i n = 0" using i(1) Suc.prems by (simp add: left_in_def)
  moreover have "d = 16 - Suc i" using Suc(2) i(1) by simp
  ultimately show ?case unfolding i(2) using Suc(1) [of "Suc i"] Suc.prems by (simp add: log_word_guard)
qed simp

lemma pin_increase_eq:
  assumes "pin_counts st m gk s n" "n < 256"
  shows "\<exists>st'. storage_pin_fails_increase True st = Some (True, st') \<and> pin_counts st' m gk s (Suc n)"
proof -
  let ?ws = "gk # pin_log gk s @ pin_log gk n" and ?w = "log_word gk (left_in (n div 16) n - 1)"
  have gk: "check_guard_key gk" and st: "pin_store st m ?ws" using assms(1) by (simp_all add: pin_counts_def)
  have c: "n div 16 < 16" using assms(2) by simp
  moreover have idx: "n div 16 + 17 = Suc (16 + n div 16)" by simp
  ultimately have old: "?ws ! (n div 16 + 17) = log_word gk (left_in (n div 16) n)" "?ws[n div 16 + 17 := ?w] = gk # pin_log gk s @ pin_log gk (Suc n)"
    unfolding idx pin_log_Suc [OF assms(2), of gk, symmetric] by (simp_all add: nth_append list_update_append)
  have "?ws ! (n div 16 + 17) AND ?w = ?w" unfolding old(1) by (subst and.commute) (simp add: log_word_and)
  from update_pin_word [OF st _ this] c old(2) obtain st' where
    u: "norcow_update_word st PIN_LOGS_KEY (4 * (n div 16 + 17)) ?w = Some (True, st')" "pin_store st' m (gk # pin_log gk s @ pin_log gk (Suc n))"
    by auto
  have "storage_pin_fails_increase True st = Some (True, st')"
    using get_pin_logs_eq [OF st] expand_guard_key_eq [OF gk] increase_loop_eq [OF assms(2), of 0 st gk] u(1)
    by (simp add: storage_pin_fails_increase_def PIN_LOG_WORDS_def flip: pin_log_def)
  then show ?thesis using u(2) gk by (auto simp: pin_counts_def)
qed

lemma pin_increase_exhausted:
  assumes "pin_counts st m gk s n" "256 \<le> n"
  shows "storage_pin_fails_increase True st = None"
proof -
  have gk: "check_guard_key gk" and st: "pin_store st m (gk # pin_log gk s @ pin_log gk n)" using assms(1) by (simp_all add: pin_counts_def)
  show ?thesis
    using get_pin_logs_eq [OF st] expand_guard_key_eq [OF gk] increase_loop_exhausted [OF assms(2), of st gk 0]
    by (simp add: storage_pin_fails_increase_def PIN_LOG_WORDS_def flip: pin_log_def)
qed

section \<open>Resetting the counter\<close>

definition mixed_log :: "u32 \<Rightarrow> nat \<Rightarrow> nat \<Rightarrow> nat \<Rightarrow> u32 list" where
  "mixed_log gk s n i = map (\<lambda>j. log_word gk (left_in j (if j < i then n else s))) [0..<16]"

lemma mixed_log_Suc: "i < 16 \<Longrightarrow> (mixed_log gk s n i)[i := log_word gk (left_in i n)] = mixed_log gk s n (Suc i)"
  by (rule nth_equalityI) (auto simp: mixed_log_def nth_list_update)

lemma mixed_log_full:
  assumes "s \<le> n" "n \<le> 16 * i"
  shows "mixed_log gk s n i = pin_log gk n"
proof -
  have "left_in j s = 16 \<and> left_in j n = 16" if "i \<le> j" for j
    using that assms by (simp add: left_in_full [symmetric])
  then show ?thesis by (auto simp: mixed_log_def pin_log_def)
qed

lemma reset_loop_eq:
  assumes "s \<le> n" "i \<le> 16" "i = 0 \<or> 16 * (i - 1) < n" "pin_store st m (gk # mixed_log gk s n i @ pin_log gk n)"
  shows "\<exists>st'. reset_loop st (guard_of gk) (guard_of gk OR NOT (guard_mask_of gk)) (map (\<lambda>i. log_word gk (left_in i s)) [i..<16])
      (map (\<lambda>i. log_word gk (left_in i n)) [i..<16]) i = Some (if n \<le> 240 then Some True else None, st') \<and>
    (n \<le> 256 \<longrightarrow> pin_store st' m (gk # pin_log gk n @ pin_log gk n)) \<and> (\<exists>ws. pin_store st' m ws)"
  using assms(2-)
proof (induction "16 - i" arbitrary: i st)
  case 0
  then have i: "i = 16" "240 < n" by auto
  then show ?case using 0(4) mixed_log_full [OF assms(1), of 16 gk] by auto
next
  case (Suc d)
  then have i: "i < 16" "[i..<16] = i # [Suc i..<16]" "d = 16 - Suc i" "Suc i \<le> 16" by (simp_all add: upt_conv_Cons)
  let ?ws = "gk # mixed_log gk s n i @ pin_log gk n" and ?e = "log_word gk (left_in i n)"
  show ?case
  proof (cases "n \<le> 16 * i")
    case True
    then have "n \<le> 240" using i(1) by linarith
    moreover have "?e = guard_of gk OR NOT (guard_mask_of gk)" using True by (simp add: left_in_full log_word_guard)
    ultimately show ?thesis using Suc.prems(3) mixed_log_full [OF assms(1) True, of gk] unfolding i(2) by auto
  next
    case False
    then have e: "?e \<noteq> guard_of gk OR NOT (guard_mask_of gk)" by (simp add: log_word_conv left_in_full)
    note IH = Suc(1) [OF i(3,4)]
    show ?thesis
    proof (cases "left_in i s = 0")
      case True
      then have "left_in i n = 0" using left_in_mono [OF assms(1), of i] by simp
      then have "mixed_log gk s n (Suc i) = mixed_log gk s n i" using True by (auto simp: mixed_log_def less_Suc_eq)
      then show ?thesis using IH [of st] Suc.prems(3) False e True unfolding i(2) by (simp add: log_word_guard)
    next
      case s: False
      have "?ws ! (i + 1) = log_word gk (left_in i s)" using i(1) by (simp add: nth_append mixed_log_def)
      then have "?ws ! (i + 1) AND ?e = ?e" using left_in_mono [OF assms(1), of i] by (subst and.commute) (simp add: log_word_and)
      from update_pin_word [OF Suc.prems(3) _ this] i(1) obtain st' where
        u: "norcow_update_word st PIN_LOGS_KEY (4 * (i + 1)) ?e = Some (True, st')" "pin_store st' m (?ws[i + 1 := ?e])"
        by (auto simp: mixed_log_def)
      moreover have "?ws[i + 1 := ?e] = gk # mixed_log gk s n (Suc i) @ pin_log gk n"
        using i(1) mixed_log_Suc [OF i(1), of gk s n] by (simp add: list_update_append mixed_log_def)
      ultimately show ?thesis using IH [of st'] False e s unfolding i(2) by (simp add: log_word_conv)
    qed
  qed
qed

text \<open>Fresh logs with \<open>fails\<close> entries.\<close>

lemma fresh_logs:
  assumes "fails \<le> 16"
  shows "(gk # replicate (2 * PIN_LOG_WORDS) (log_word gk 16))[1 + PIN_LOG_WORDS := log_word gk (16 - fails)] = gk # pin_log gk 0 @ pin_log gk fails"
proof -
  have "pin_log gk 0 = replicate 16 (log_word gk 16)" by (simp add: pin_log_def left_in_def map_replicate_const)
  moreover have "(replicate 16 (log_word gk 16))[0 := log_word gk (16 - fails)] = pin_log gk fails"
    using assms by (auto intro!: nth_equalityI simp: nth_list_update left_in_def)
  moreover have "replicate (2 * PIN_LOG_WORDS) (log_word gk 16) = replicate 16 (log_word gk 16) @ replicate 16 (log_word gk 16)"
    by (simp add: PIN_LOG_WORDS_def flip: replicate_add)
  ultimately show ?thesis by (simp add: PIN_LOG_WORDS_def list_update_append)
qed

lemma initial_word:
  assumes "fails \<le> 16"
  shows "(drop_bit (2 * fails) 0xFFFFFFFF AND NOT (guard_mask_of gk)) OR guard_of gk = log_word gk (16 - fails)"
proof -
  have m: "(0xFFFFFFFF :: u32) = mask 32" by (simp add: mask_eq_exp_minus_1)
  have "drop_bit (2 * fails) (mask 32 :: u32) = mask (2 * (16 - fails))"
    by (rule bit_word_eqI) (auto simp: bit_simps)
  then show ?thesis unfolding m log_word_def by (simp add: or.commute and.commute)
qed

lemma random_uniform_shorter: "random_uniform n rnd = Some (x, rnd') \<Longrightarrow> length rnd' < length rnd"
proof -
  have "random_uniform_loop mx rnd = Some (x, rnd') \<Longrightarrow> length rnd' < length rnd" for mx x
    by (induction rnd) (auto split: if_splits)
  then show "random_uniform n rnd = Some (x, rnd') \<Longrightarrow> length rnd' < length rnd"
    by (fastforce simp: random_uniform_def Let_def split: option.splits)
qed

lemma generate_guard_key_check: "generate_guard_key rnd = Some (gk, rnd') \<Longrightarrow> check_guard_key gk"
proof (induction rnd rule: generate_guard_key.induct)
  case (1 rnd)
  then show ?case
    by (subst (asm) (2) generate_guard_key.simps) (auto simp: Let_def split: option.splits if_splits)
qed

lemma pin_logs_init_eq:
  assumes "fails < PIN_MAX_TRIES" "generate_guard_key rnd = Some (gk, rnd')"
    and "pin_store st m ws \<or> (\<exists>its. nc_inv st its \<and> kv its = m)"
  shows "\<exists>ret st'. pin_logs_init st rnd fails = Some (ret, st', rnd') \<and> (ret \<longrightarrow> pin_counts st' m gk 0 fails) \<and>
    (pin_store st m ws \<and> length ws = 33 \<longrightarrow> ret)"
proof -
  have gk: "check_guard_key gk" using generate_guard_key_check [OF assms(2)] .
  have f: "fails \<le> 16" "\<not> PIN_MAX_TRIES \<le> fails" using assms(1) by (simp_all add: PIN_MAX_TRIES_def)
  define ws' where "ws' = gk # pin_log gk 0 @ pin_log gk fails"
  obtain ret st' where s: "norcow_set st PIN_LOGS_KEY (Some (words_bytes ws')) (length (words_bytes ws')) = Some (ret, st')"
    "ret \<longrightarrow> pin_store st' m ws'" "pin_store st m ws \<and> length ws = 33 \<longrightarrow> ret" using set_pin_words [OF assms(3), of ws'] by (auto simp: ws'_def)
  have "(gk # replicate (2 * PIN_LOG_WORDS) (guard_of gk OR NOT (guard_mask_of gk)))
      [1 + PIN_LOG_WORDS := (drop_bit (2 * fails) 0xFFFFFFFF AND NOT (guard_mask_of gk)) OR guard_of gk] = ws'"
    by (simp only: initial_word [OF f(1)] log_word_guard(2) [symmetric] fresh_logs [OF f(1)] ws'_def)
  then have "pin_logs_init st rnd fails = Some (ret, st', rnd')"
    using f(2) s(1) unfolding pin_logs_init_def assms(2) Let_def
    by (simp add: expand_guard_key_eq [OF gk] flip: words_bytes_def del: length_words_bytes list_update.simps)
  then show ?thesis using s(2,3) gk by (auto simp: pin_counts_def ws'_def)
qed

lemma pin_reset_eq:
  assumes "pin_counts st m gk s n" "s \<le> n" "n \<le> 256"
  shows "n \<le> 240 \<Longrightarrow> \<exists>st'. pin_fails_reset st rnd = Some (True, st', rnd) \<and> pin_counts st' m gk n n"
    and "240 < n \<Longrightarrow> generate_guard_key rnd = Some (gk', rnd') \<Longrightarrow>
      \<exists>st'. pin_fails_reset st rnd = Some (True, st', rnd') \<and> pin_counts st' m gk' 0 0"
    and "240 < n \<Longrightarrow> \<exists>st'. pin_fails_reset st rnd = pin_logs_init st' rnd 0"
proof -
  have gk: "check_guard_key gk" and st: "pin_store st m (gk # pin_log gk s @ pin_log gk n)" using assms(1) by (simp_all add: pin_counts_def)
  have "mixed_log gk s n 0 = pin_log gk s" by (simp add: mixed_log_def pin_log_def)
  with reset_loop_eq [OF assms(2), of 0 st m gk] st assms(3) obtain st' where
    l: "reset_loop st (guard_of gk) (guard_of gk OR NOT (guard_mask_of gk)) (pin_log gk s) (pin_log gk n) 0 = Some (if n \<le> 240 then Some True else None, st')"
    "pin_store st' m (gk # pin_log gk n @ pin_log gk n)" by (auto simp: pin_log_def)
  have r: "pin_fails_reset st rnd = (if n \<le> 240 then Some (True, st', rnd) else pin_logs_init st' rnd 0)"
    using get_pin_logs_eq [OF st] expand_guard_key_eq [OF gk] l(1) by (simp add: pin_fails_reset_def PIN_LOG_WORDS_def)
  then show "240 < n \<Longrightarrow> \<exists>st'. pin_fails_reset st rnd = pin_logs_init st' rnd 0" by auto
  show "\<exists>st'. pin_fails_reset st rnd = Some (True, st', rnd) \<and> pin_counts st' m gk n n" if "n \<le> 240"
    using that r l(2) gk by (simp add: pin_counts_def)
  show "\<exists>st'. pin_fails_reset st rnd = Some (True, st', rnd') \<and> pin_counts st' m gk' 0 0"
    if "240 < n" "generate_guard_key rnd = Some (gk', rnd')"
    using pin_logs_init_eq [OF _ that(2) disjI1 [OF l(2)], of 0] that(1) l(2) by (auto simp: r PIN_MAX_TRIES_def)
qed

lemma pin_logs_init_no_key: "generate_guard_key rnd = None \<Longrightarrow> fails < PIN_MAX_TRIES \<Longrightarrow> pin_logs_init st rnd fails = None"
  by (simp add: pin_logs_init_def)

text \<open>In an empty store there is room for the logs.\<close>

lemma pin_logs_init_fresh:
  assumes "nc_inv st []" "generate_guard_key rnd = Some (gk, rnd')" "fails < PIN_MAX_TRIES"
  shows "\<exists>st'. pin_logs_init st rnd fails = Some (True, st', rnd')"
proof -
  obtain ret st' where r: "pin_logs_init st rnd fails = Some (ret, st', rnd')"
    using pin_logs_init_eq [OF assms(3,2), of st "kv []" "[]"] assms(1) by blast
  have "ret"
  proof -
    have "\<exists>st'. norcow_set st PIN_LOGS_KEY (Some bs) 132 = Some (True, st')" if "length bs = 132" for bs
      using norcow_set_log [OF assms(1) PIN_LOGS_KEY_nonzero, of 132 "Some bs"] that
      by (auto simp: space_needed_def live_def norcow_set_def)
    then obtain S where "\<And>bs. length bs = 132 \<Longrightarrow> norcow_set st PIN_LOGS_KEY (Some bs) 132 = Some (True, S bs)" by metis
    moreover have "length (concat (map (store_le 4) (ws :: u32 list))) = 4 * length ws" for ws
      by (induction ws) simp_all
    ultimately show ?thesis using r assms(3) generate_guard_key_check [OF assms(2)]
      by (auto simp: pin_logs_init_def assms(2) expand_guard_key_eq Let_def bind_eq_Some_conv PIN_LOG_WORDS_def simp del: list_update.simps)
  qed
  then show ?thesis using r by simp
qed

lemma pin_reset_no_key:
  assumes "pin_counts st m gk s n" "s \<le> n" "n \<le> 256" "240 < n" "generate_guard_key rnd = None"
  shows "pin_fails_reset st rnd = None"
  using pin_reset_eq(3) [OF assms(1-4), of rnd] assms(5) by (auto simp: pin_logs_init_no_key PIN_MAX_TRIES_def)

section \<open>Sequences of PIN entries\<close>

text \<open>
  An entry is counted before the PIN is checked, and a correct PIN resets the counter. The run stops
  when an operation fails.
\<close>

datatype pin_event = Entry | Success

fun pin_run :: "norcow \<Rightarrow> u32 list \<Rightarrow> pin_event list \<Rightarrow> (norcow \<times> u32 list) option" where
  "pin_run st rnd [] = Some (st, rnd)"
| "pin_run st rnd (Entry # es) = do {
     (ok, st) \<leftarrow> storage_pin_fails_increase True st;
     if ok then pin_run st rnd es else None }"
| "pin_run st rnd (Success # es) = do {
     (ok, st, rnd) \<leftarrow> pin_fails_reset st rnd;
     if ok then pin_run st rnd es else None }"

text \<open>The number of entries since the last success, after \<open>f\<close> earlier ones; the device is wiped at ten.\<close>

fun failures :: "nat \<Rightarrow> pin_event list \<Rightarrow> nat" where
  "failures f [] = f"
| "failures f (Entry # es) = failures (f + 1) es"
| "failures f (Success # es) = failures 0 es"

fun within_tries :: "nat \<Rightarrow> pin_event list \<Rightarrow> bool" where
  "within_tries f [] = True"
| "within_tries f (Entry # es) = (f < PIN_MAX_TRIES \<and> within_tries (f + 1) es)"
| "within_tries f (Success # es) = within_tries 0 es"

definition pin_state :: "norcow \<Rightarrow> (u16 \<rightharpoonup> u8 list) \<Rightarrow> nat \<Rightarrow> bool" where
  "pin_state st m f \<longleftrightarrow> (\<exists>gk s n. pin_counts st m gk s n \<and> n = s + f \<and> f \<le> PIN_MAX_TRIES \<and> s \<le> 240)"

lemma pin_state_get: "pin_state st m f \<Longrightarrow> pin_get_fails st = Some (word_of_nat f)"
  using pin_get_fails_eq by (fastforce simp: pin_state_def PIN_MAX_TRIES_def)

lemma pin_state_entry:
  assumes "pin_state st m f" "f < PIN_MAX_TRIES"
  shows "\<exists>st'. storage_pin_fails_increase True st = Some (True, st') \<and> pin_state st' m (f + 1)"
proof -
  obtain gk s where "pin_counts st m gk s (s + f)" "s \<le> 240" using assms(1) by (auto simp: pin_state_def)
  then show ?thesis using pin_increase_eq [of st m gk s "s + f"] assms(2)
    by (fastforce simp: pin_state_def PIN_MAX_TRIES_def)
qed

lemma pin_state_success:
  assumes "pin_state st m f" "pin_fails_reset st rnd = Some (True, st', rnd')"
  shows "pin_state st' m 0"
proof -
  obtain gk s where c: "pin_counts st m gk s (s + f)" "s \<le> 240" "f \<le> 10" using assms(1) by (auto simp: pin_state_def PIN_MAX_TRIES_def)
  show ?thesis
  proof (cases "s + f \<le> 240")
    case True
    then show ?thesis using pin_reset_eq(1) [OF c(1), of rnd] c assms(2) by (fastforce simp: pin_state_def)
  next
    case False
    have "generate_guard_key rnd \<noteq> None"
    proof
      assume None: "generate_guard_key rnd = None"
      show False using pin_reset_no_key [OF c(1), of rnd] None False assms(2) c by simp
    qed
    then obtain gk' rnd'' where "generate_guard_key rnd = Some (gk', rnd'')" by auto
    then show ?thesis using pin_reset_eq(2) [OF c(1), of rnd gk' rnd''] c assms(2) False by (fastforce simp: pin_state_def)
  qed
qed

lemma pin_run_state:
  "pin_state st m f \<Longrightarrow> within_tries f es \<Longrightarrow> pin_run st rnd es = Some (st', rnd') \<Longrightarrow> pin_state st' m (failures f es)"
proof (induction es arbitrary: st f rnd)
  case (Cons e es)
  show ?case
  proof (cases e)
    case Entry
    then obtain st1 where "storage_pin_fails_increase True st = Some (True, st1)" "pin_state st1 m (f + 1)"
      using pin_state_entry [OF Cons.prems(1)] Cons.prems(2) by auto
    then show ?thesis using Cons.IH [of st1 "f + 1" rnd] Cons.prems(2,3) Entry by simp
  next
    case Success
    with Cons.prems(3) obtain st1 rnd1 where "pin_fails_reset st rnd = Some (True, st1, rnd1)" "pin_run st1 rnd1 es = Some (st', rnd')"
      by (auto simp: bind_eq_Some_conv split: if_splits)
    then show ?thesis using Cons.IH [of st1 0 rnd1] pin_state_success [OF Cons.prems(1)] Cons.prems(2) Success by simp
  qed
qed simp

lemma pin_logs_init_state:
  assumes "nc_inv st its" "pin_logs_init st rnd fails = Some (True, st0, rnd0)" "fails < PIN_MAX_TRIES"
  shows "pin_state st0 (kv its) fails"
proof -
  have "generate_guard_key rnd \<noteq> None" using assms(2) pin_logs_init_no_key [OF _ assms(3), of rnd st] by (intro notI) simp
  then obtain gk rnd1 where "generate_guard_key rnd = Some (gk, rnd1)" by auto
  from pin_logs_init_eq [OF assms(3) this, of st "kv its" "[]"] assms(1,2)
  have "pin_counts st0 (kv its) gk 0 fails" by auto
  then have "pin_counts st0 (kv its) gk 0 (0 + fails) \<and> 0 + fails = 0 + fails \<and> fails \<le> PIN_MAX_TRIES \<and> 0 \<le> (240 :: nat)" using assms(3) by simp
  then show ?thesis unfolding pin_state_def by blast
qed

text \<open>
  C32. The PIN fail counter counts. Start with fresh logs (\<open>pin_logs_init\<close>) in a well-formed store and run any
  sequence of PIN entries and successes in which at most ten entries follow each other without a
  success, through as many renewals of the logs as it takes. If no operation reports failure, then
  \<open>pin_get_fails\<close> passes all its format checks and returns the number of entries since the last success,
  and every other item of the store is as it was.
\<close>

theorem pin_fails_counted:
  assumes "nc_inv st its" "pin_logs_init st rnd fails = Some (True, st0, rnd0)" "fails < PIN_MAX_TRIES" "within_tries fails es"
    and "pin_run st0 rnd0 es = Some (st', rnd')"
  shows "pin_get_fails st' = Some (word_of_nat (failures fails es)) \<and>
    (\<forall>k. k \<noteq> 0 \<and> k \<noteq> PIN_LOGS_KEY \<longrightarrow> norcow_read st' k = norcow_read st k)"
proof -
  have "pin_state st0 (kv its) fails" by (rule pin_logs_init_state [OF assms(1-3)])
  from pin_run_state [OF this assms(4,5)] have st': "pin_state st' (kv its) (failures fails es)" .
  then obtain its' where "nc_inv st' its'" "\<forall>k. k \<noteq> PIN_LOGS_KEY \<longrightarrow> kv its' k = kv its k"
    by (auto simp: pin_state_def pin_counts_def pin_store_def)
  then show ?thesis using pin_state_get [OF st'] norcow_read_inv assms(1) by simp
qed

lemma guard_key_example: "generate_guard_key [169549700] = Some (0xa1b8889, [])"
  by (simp add: generate_guard_key.simps [of "[169549700]"] random_uniform_def GUARD_KEY_MODULUS_def GUARD_KEY_REMAINDER_def check_guard_key_def)

theorem pin_fails_counted_witness:
  "\<exists>st st0 st' rnd'. nc_inv st [] \<and> pin_logs_init st [169549700] 0 = Some (True, st0, []) \<and>
     pin_run st0 [] [Entry, Entry, Success, Entry] = Some (st', rnd') \<and> pin_get_fails st' = Some 1"
proof -
  obtain st where st: "nc_inv st []" using wiped_store by blast
  obtain st0 where st0: "pin_logs_init st [169549700] 0 = Some (True, st0, [])"
    using pin_logs_init_fresh [OF st guard_key_example, of 0] by (auto simp: PIN_MAX_TRIES_def)
  have "pin_counts st0 (kv []) 0xa1b8889 0 0"
    using pin_logs_init_eq [OF _ guard_key_example, of 0 st "kv []" "[]"] st st0 by (auto simp: PIN_MAX_TRIES_def)
  then obtain st1 where 1: "storage_pin_fails_increase True st0 = Some (True, st1)" "pin_counts st1 (kv []) 0xa1b8889 0 1"
    using pin_increase_eq by fastforce
  then obtain st2 where 2: "storage_pin_fails_increase True st1 = Some (True, st2)" "pin_counts st2 (kv []) 0xa1b8889 0 2"
    using pin_increase_eq [OF 1(2)] by (auto simp: numeral_2_eq_2)
  obtain st3 where 3: "pin_fails_reset st2 [] = Some (True, st3, [])" "pin_counts st3 (kv []) 0xa1b8889 2 2"
    using pin_reset_eq(1) [OF 2(2)] by fastforce
  obtain st4 where 4: "storage_pin_fails_increase True st3 = Some (True, st4)" using pin_increase_eq [OF 3(2)] by auto
  have run: "pin_run st0 [] [Entry, Entry, Success, Entry] = Some (st4, [])" using 1(1) 2(1) 3(1) 4 by simp
  from pin_fails_counted [OF st st0 _ _ run] have "pin_get_fails st4 = Some 1" by (simp add: PIN_MAX_TRIES_def)
  then show ?thesis using st st0 run by blast
qed

section \<open>No run gets stuck\<close>

text \<open>The random numbers give \<open>k\<close> guard keys one after the other.\<close>

fun keys_available :: "nat \<Rightarrow> u32 list \<Rightarrow> bool" where
  "keys_available 0 rnd = True"
| "keys_available (Suc k) rnd = (case generate_guard_key rnd of None \<Rightarrow> False | Some (gk, rnd') \<Rightarrow> keys_available k rnd')"

lemma keys_available_less: "keys_available (Suc k) rnd \<Longrightarrow> keys_available k rnd"
proof (induction k arbitrary: rnd)
  case (Suc k)
  then obtain gk rnd' where "generate_guard_key rnd = Some (gk, rnd')" "keys_available (Suc k) rnd'" by (auto split: option.splits)
  with Suc.IH [of rnd'] show ?case by simp
qed simp

lemma pin_state_reset:
  assumes "pin_state st m f" "keys_available (Suc k) rnd"
  shows "\<exists>st' rnd'. pin_fails_reset st rnd = Some (True, st', rnd') \<and> pin_state st' m 0 \<and> keys_available k rnd'"
proof -
  obtain gk s where c: "pin_counts st m gk s (s + f)" "s \<le> 240" "f \<le> 10" using assms(1) by (auto simp: pin_state_def PIN_MAX_TRIES_def)
  obtain gk' rnd1 where g: "generate_guard_key rnd = Some (gk', rnd1)" "keys_available k rnd1" using assms(2) by (auto split: option.splits)
  have "\<exists>st' rnd'. pin_fails_reset st rnd = Some (True, st', rnd') \<and> (rnd' = rnd \<or> rnd' = rnd1)"
    using pin_reset_eq(1) [OF c(1), of rnd] pin_reset_eq(2) [OF c(1) _ _ _ g(1)] c(2,3) by (cases "s + f \<le> 240") fastforce+
  then obtain st' rnd' where r: "pin_fails_reset st rnd = Some (True, st', rnd')" "rnd' = rnd \<or> rnd' = rnd1" by blast
  then show ?thesis using pin_state_success [OF assms(1) r(1)] g(2) keys_available_less [OF assms(2)] by auto
qed

lemma pin_run_progresses:
  "pin_state st m f \<Longrightarrow> within_tries f es \<Longrightarrow> keys_available (length (filter (\<lambda>e. e = Success) es)) rnd \<Longrightarrow>
   \<exists>st' rnd'. pin_run st rnd es = Some (st', rnd') \<and> pin_state st' m (failures f es)"
proof (induction es arbitrary: st f rnd)
  case (Cons e es)
  show ?case
  proof (cases e)
    case Entry
    then obtain st1 where "storage_pin_fails_increase True st = Some (True, st1)" "pin_state st1 m (f + 1)"
      using pin_state_entry [OF Cons.prems(1)] Cons.prems(2) by auto
    then show ?thesis using Cons.IH [of st1 "f + 1" rnd] Cons.prems(2,3) Entry by simp
  next
    case Success
    then obtain st1 rnd1 where "pin_fails_reset st rnd = Some (True, st1, rnd1)" "pin_state st1 m 0"
      "keys_available (length (filter (\<lambda>e. e = Success) es)) rnd1"
      using pin_state_reset [OF Cons.prems(1), of "length (filter (\<lambda>e. e = Success) es)" rnd] Cons.prems(3)
      by (metis (mono_tags, lifting) filter.simps(2) length_Cons)
    then show ?thesis using Cons.IH [of st1 0 rnd1] Cons.prems(2) Success by simp
  qed
qed simp

text \<open>
  C33. No attempt gets stuck. Start with fresh logs in a well-formed store, and run any sequence of PIN entries and
  successes in which at most ten entries follow each other without a success. Every operation of the run returns success, the
  reset after a correct PIN on the tenth attempt and the renewals of used-up logs in a full store included, and the counter
  then reads the number of entries since the last success. The random numbers must give a guard key for each reset.
\<close>

theorem pin_run_progress:
  assumes "nc_inv st its" "pin_logs_init st rnd fails = Some (True, st0, rnd0)" "fails < PIN_MAX_TRIES" "within_tries fails es"
    and "keys_available (length (filter (\<lambda>e. e = Success) es)) rnd0"
  shows "\<exists>st' rnd'. pin_run st0 rnd0 es = Some (st', rnd') \<and> pin_get_fails st' = Some (word_of_nat (failures fails es))"
proof -
  have "pin_state st0 (kv its) fails" by (rule pin_logs_init_state [OF assms(1-3)])
  from pin_run_progresses [OF this assms(4,5)] show ?thesis using pin_state_get by blast
qed

lemma guard_key_next: "generate_guard_key (169549700 # rnd) = Some (0xa1b8889, rnd)"
  by (simp add: generate_guard_key.simps [of "169549700 # rnd"] random_uniform_def GUARD_KEY_MODULUS_def GUARD_KEY_REMAINDER_def check_guard_key_def)

theorem pin_run_progress_witness:
  "\<exists>st st0 st' rnd'. nc_inv st [] \<and> pin_logs_init st [169549700, 169549700] 0 = Some (True, st0, [169549700]) \<and>
     pin_run st0 [169549700] (replicate 10 Entry @ [Success, Entry]) = Some (st', rnd') \<and> pin_get_fails st' = Some 1"
proof -
  obtain st where st: "nc_inv st []" using wiped_store by blast
  obtain st0 where st0: "pin_logs_init st [169549700, 169549700] 0 = Some (True, st0, [169549700])"
    using pin_logs_init_fresh [OF st guard_key_next, of 0] by (auto simp: PIN_MAX_TRIES_def)
  have es: "replicate 10 Entry @ [Success, Entry] = [Entry, Entry, Entry, Entry, Entry, Entry, Entry, Entry, Entry, Entry, Success, Entry]"
    by (simp add: numeral_eq_Suc)
  show ?thesis using pin_run_progress [OF st st0, of "replicate 10 Entry @ [Success, Entry]"] st st0 unfolding es
    by (simp add: PIN_MAX_TRIES_def guard_key_next) blast
qed

end
