(* ===== verification/Storage_Counter.thy ===== *)
theory Storage_Counter
  imports Pin_Counter
begin

text \<open>
  The counters of \<open>storage/storage.c\<close> (\<open>storage_set_counter\<close>, \<open>storage_next_counter\<close>), which the second factor and
  other applications use. A counter is an item of a public key: a word with the count and a tail of
  two words that tallies increments by clearing bits in place, so that the item is rewritten only
  every 65th time. \<open>storage_set_encrypted\<close>, which \<open>storage_set\<close> calls for keys that are not public, is an
  argument of \<open>storage_set\<close>. Also the constant-time comparisons and the PIN formats of older versions.
\<close>

section \<open>Access to public keys\<close>

record storage =
  initialized :: bool
  unlocked :: bool
  store :: norcow

definition APP_STORAGE :: u8 where "APP_STORAGE = 0x00"
definition FLAG_PUBLIC :: u8 where "FLAG_PUBLIC = 0x80"
definition FLAGS_WRITE :: u8 where "FLAGS_WRITE = 0xC0"

definition app_of :: "u16 \<Rightarrow> u8" where "app_of key = ucast (drop_bit 8 key)"

definition storage_set ::
  "(storage \<Rightarrow> u16 \<Rightarrow> u8 list \<Rightarrow> (bool \<times> storage) option) \<Rightarrow> storage \<Rightarrow> u16 \<Rightarrow> u8 list \<Rightarrow> (bool \<times> storage) option" where
  "storage_set set_encrypted st key val =
     (let app = app_of key in
      if \<not> initialized st \<or> app = APP_STORAGE then Some (False, st)
      else if \<not> unlocked st \<and> app AND FLAGS_WRITE \<noteq> FLAGS_WRITE then Some (False, st)
      else if app AND FLAG_PUBLIC \<noteq> 0 then do {
        (ret, nc) \<leftarrow> norcow_set (store st) key (Some val) (length val);
        Some (ret, st\<lparr>store := nc\<rparr>) }
      else set_encrypted st key val)"

definition COUNTER_TAIL_WORDS :: nat where "COUNTER_TAIL_WORDS = 2"

definition storage_set_counter ::
  "(storage \<Rightarrow> u16 \<Rightarrow> u8 list \<Rightarrow> (bool \<times> storage) option) \<Rightarrow> storage \<Rightarrow> u16 \<Rightarrow> u32 \<Rightarrow> (bool \<times> storage) option" where
  "storage_set_counter set_encrypted st key count =
     (let app = app_of key in
      if app AND FLAG_PUBLIC = 0 then Some (False, st)
      else storage_set set_encrypted st key (words_bytes ((replicate (1 + COUNTER_TAIL_WORDS) 0xFFFFFFFF)[0 := count])))"

text \<open>The first word of the tail that is not used up.\<close>

fun tally_index :: "u32 list \<Rightarrow> nat \<Rightarrow> nat" where
  "tally_index [] i = i"
| "tally_index (w # ws) i = (if w = 0 then tally_index ws (i + 1) else i)"

text \<open>The result is the return value, the count (which the code leaves unset on early returns) and the state.\<close>

definition storage_next_counter ::
  "(storage \<Rightarrow> u16 \<Rightarrow> u8 list \<Rightarrow> (bool \<times> storage) option) \<Rightarrow> storage \<Rightarrow> u16 \<Rightarrow> (bool \<times> u32 option \<times> storage) option" where
  "storage_next_counter set_encrypted st key =
     (let app = app_of key in
      if \<not> initialized st \<or> app = APP_STORAGE \<or> app AND FLAG_PUBLIC = 0 then Some (False, None, st)
      else if \<not> unlocked st \<and> app AND FLAGS_WRITE \<noteq> FLAGS_WRITE then Some (False, None, st)
      else do {
        r \<leftarrow> norcow_read (store st) key;
        case r of
          None \<Rightarrow> do { (ret, st) \<leftarrow> storage_set_counter set_encrypted st key 0; Some (ret, Some 0, st) }
        | Some bs \<Rightarrow>
            if length bs < 4 \<or> length bs mod 4 \<noteq> 0 then Some (False, None, st)
            else
              let val_stored = map load_le (chunks 4 bs);
                  len_words = length bs div 4;
                  i = tally_index (tl val_stored) 1;
                  count = val_stored ! 0 + 1 + 32 * (word_of_nat i - 1) in
              if count < val_stored ! 0 then Some (False, Some count, st)
              else if i < len_words then
                let count = count + hamming_weight (NOT (val_stored ! i)) in
                if count < val_stored ! 0 then Some (False, Some count, st)
                else do {
                  (ret, nc) \<leftarrow> norcow_update_word (store st) key (4 * i) (drop_bit 1 (val_stored ! i));
                  Some (ret, Some count, st\<lparr>store := nc\<rparr>) }
              else do { (ret, st) \<leftarrow> storage_set_counter set_encrypted st key count; Some (ret, Some count, st) } })"

section \<open>The value of a counter\<close>

text \<open>The words of a counter with the count \<open>base\<close> and \<open>k\<close> increments in the tail.\<close>

definition tally_word :: "nat \<Rightarrow> nat \<Rightarrow> u32" where
  "tally_word j k = mask (32 - (k - 32 * j))"

definition counter_words :: "u32 \<Rightarrow> nat \<Rightarrow> u32 list" where
  "counter_words base k = [base, tally_word 0 k, tally_word 1 k]"

definition holds_counter :: "storage \<Rightarrow> (u16 \<rightharpoonup> u8 list) \<Rightarrow> u16 \<Rightarrow> nat \<Rightarrow> bool" where
  "holds_counter st m key v \<longleftrightarrow> (\<exists>its base k. nc_inv (store st) its \<and> kv its = m(key \<mapsto> words_bytes (counter_words base k)) \<and>
     k \<le> 64 \<and> v = unat base + k)"

lemma bit_count_mask: "n \<le> 32 \<Longrightarrow> bit_count (NOT (mask n)) = 32 - n"
proof -
  assume "n \<le> 32"
  have "bit_count (NOT (mask n)) = (\<Sum>i<32. of_bool (n \<le> i))" by (simp add: bit_count_def bit_simps linorder_not_less)
  also have "\<dots> = card ({..<32} \<inter> {i. n \<le> i})" by (simp add: sum_of_bool_eq)
  also have "{..<32} \<inter> {i. n \<le> i} = {n..<32}" by auto
  finally show ?thesis by simp
qed

lemma mask_zero: "n \<le> 32 \<Longrightarrow> (mask n :: u32) = 0 \<longleftrightarrow> n = 0"
  by (metis bit_mask_iff bit_0_eq bot_apply bot_bool_def gr0I len_gt_0 mask_0 order_less_le_trans zero_less_numeral possible_bit_word nat_less_le)

lemma tally_index_eq:
  assumes "k \<le> 64"
  shows "tally_index (tl (counter_words base k)) 1 = (if k < 32 then 1 else if k < 64 then 2 else 3)"
  using assms by (auto simp: counter_words_def tally_word_def mask_zero)

lemma counter_words_step:
  assumes "k < 64"
  shows "(counter_words base k)[(if k < 32 then 1 else 2) := drop_bit 1 (counter_words base k ! (if k < 32 then 1 else 2))] = counter_words base (k + 1)"
    "counter_words base k ! (if k < 32 then 1 else 2) AND drop_bit 1 (counter_words base k ! (if k < 32 then 1 else 2)) =
     drop_bit 1 (counter_words base k ! (if k < 32 then 1 else 2))"
    "hamming_weight (NOT (counter_words base k ! (if k < 32 then 1 else 2))) = word_of_nat (k mod 32)"
proof -
  have d: "drop_bit 1 (mask n :: u32) = mask (n - 1)" "(mask n :: u32) AND drop_bit 1 (mask n) = drop_bit 1 (mask n)" if "n \<le> 32" for n
    using that by (auto intro!: bit_word_eqI simp: bit_simps)
  have k: "k mod 32 = (if k < 32 then k else k - 32)" using assms by (simp add: le_mod_geq)
  show "(counter_words base k)[(if k < 32 then 1 else 2) := drop_bit 1 (counter_words base k ! (if k < 32 then 1 else 2))] = counter_words base (k + 1)"
    using assms d(1) [of "32 - k"] d(1) [of "64 - k"] by (auto simp: counter_words_def tally_word_def numeral_2_eq_2)
  show "counter_words base k ! (if k < 32 then 1 else 2) AND drop_bit 1 (counter_words base k ! (if k < 32 then 1 else 2)) =
     drop_bit 1 (counter_words base k ! (if k < 32 then 1 else 2))"
    unfolding counter_words_def tally_word_def by (simp add: numeral_2_eq_2 d(2) [unfolded One_nat_def])
  show "hamming_weight (NOT (counter_words base k ! (if k < 32 then 1 else 2))) = word_of_nat (k mod 32)"
    using assms by (auto simp: counter_words_def tally_word_def numeral_2_eq_2 hamming_weight_eq bit_count_mask k)
qed

lemma length_counter_words [simp]: "length (counter_words base k) = 3" by (simp add: counter_words_def)

lemma fresh_counter: "(replicate (1 + COUNTER_TAIL_WORDS) 0xFFFFFFFF)[0 := count] = counter_words count 0"
  by (simp add: COUNTER_TAIL_WORDS_def counter_words_def tally_word_def mask_eq_exp_minus_1 numeral_2_eq_2)

text \<open>Setting a counter, with room for it.\<close>

lemma set_counter_eq:
  assumes "nc_inv (store st) its" "key \<noteq> 0" "key \<noteq> 0xFFFF" "initialized st" "app_of key AND FLAG_PUBLIC \<noteq> 0"
    and "unlocked st \<or> app_of key AND FLAGS_WRITE = FLAGS_WRITE" "space_needed its key 12 \<le> 65536"
  shows "\<exists>nc its'. storage_set_counter se st key count = Some (True, st\<lparr>store := nc\<rparr>) \<and> nc_inv nc its' \<and>
    kv its' = (kv its)(key \<mapsto> words_bytes (counter_words count 0))"
proof -
  have "app_of key \<noteq> APP_STORAGE" using assms(5) by (auto simp: APP_STORAGE_def)
  moreover obtain nc its' where "norcow_set (store st) key (Some (words_bytes (counter_words count 0))) 12 = Some (True, nc)" "nc_inv nc its'"
    "kv its' = (kv its)(key \<mapsto> words_bytes (counter_words count 0))"
    using norcow_set_log [OF assms(1-3), of 12 "Some (words_bytes (counter_words count 0))"] assms(7) by (auto simp: norcow_set_def set_value_def)
  ultimately show ?thesis
    using assms(4-6) unfolding storage_set_counter_def fresh_counter storage_set_def Let_def by auto
qed

lemma wrapped_iff:
  assumes "0 < d" "d \<le> 65"
  shows "word_of_nat (unat base + d) < (base :: u32) \<longleftrightarrow> 2 ^ 32 \<le> unat base + d"
proof -
  have b: "unat base < 2 ^ 32" using unsigned_less [of base] by simp
  have u: "unat (word_of_nat (unat base + d) :: u32) = (unat base + d) mod 2 ^ 32" by (simp only: unat_of_nat) simp
  show ?thesis
  proof (cases "unat base + d < 2 ^ 32")
    case True
    then show ?thesis using assms u by (simp add: word_less_nat_alt)
  next
    case False
    then have "(unat base + d) mod 2 ^ 32 = unat base + d - 2 ^ 32" using b assms(2) by (simp add: mod_if)
    then show ?thesis using False b assms(2) u by (simp add: word_less_nat_alt)
  qed
qed

definition tally_pos :: "nat \<Rightarrow> nat" where
  "tally_pos k = (if k < 32 then 1 else if k < 64 then 2 else 3)"

definition tally_start :: "u32 \<Rightarrow> nat \<Rightarrow> u32" where
  "tally_start base k = word_of_nat (unat base + (1 + 32 * (tally_pos k - 1)))"

lemma tally_start_wraps: "tally_start base k < base \<longleftrightarrow> 2 ^ 32 \<le> unat base + (1 + 32 * (tally_pos k - 1))"
  unfolding tally_start_def by (rule wrapped_iff) (auto simp: tally_pos_def)

lemma next_counter_unfold:
  assumes read: "norcow_read (store st) key = Some (Some (words_bytes (counter_words base k)))" and k: "k \<le> 64"
    and "initialized st" "app_of key AND FLAG_PUBLIC \<noteq> 0" "unlocked st \<or> app_of key AND FLAGS_WRITE = FLAGS_WRITE"
  defines "ws \<equiv> counter_words base k" and "i \<equiv> tally_pos k" and "cnt \<equiv> tally_start base k"
  shows "storage_next_counter se st key =
      (if cnt < base then Some (False, Some cnt, st)
       else if k < 64 then
         if cnt + hamming_weight (NOT (ws ! i)) < base then Some (False, Some (cnt + hamming_weight (NOT (ws ! i))), st)
         else do {
           (ret, nc) \<leftarrow> norcow_update_word (store st) key (4 * i) (drop_bit 1 (ws ! i));
           Some (ret, Some (cnt + hamming_weight (NOT (ws ! i))), st\<lparr>store := nc\<rparr>) }
       else do { (ret, st) \<leftarrow> storage_set_counter se st key cnt; Some (ret, Some cnt, st) })"
proof -
  have app: "app_of key \<noteq> APP_STORAGE" using assms(4) by (auto simp: APP_STORAGE_def)
  have ws: "ws ! 0 = base" "length (words_bytes ws) = 12" by (simp_all add: ws_def counter_words_def)
  have i: "tally_index (tl ws) 1 = i" "1 \<le> i" "i < 3 \<longleftrightarrow> k < 64"
    using tally_index_eq [OF k, of base] by (auto simp: i_def ws_def tally_pos_def)
  have cnt: "base + 1 + 32 * (word_of_nat i - 1) = cnt" using i(2) by (simp add: cnt_def tally_start_def i_def of_nat_diff)
  show ?thesis
    unfolding storage_next_counter_def Let_def read ws_def [symmetric] bind.bind_lunit option.case words_of_bytes ws i(1) cnt
    using assms(3-5) app i(3) by auto
qed

lemma next_counter_tally:
  assumes "nc_inv (store st) its" "kv its = m(key \<mapsto> words_bytes (counter_words base k))" "k < 64" "v = unat base + k" "key \<noteq> 0"
    and "initialized st" "app_of key AND FLAG_PUBLIC \<noteq> 0" "unlocked st \<or> app_of key AND FLAGS_WRITE = FLAGS_WRITE"
  shows "if v + 1 < 2 ^ 32
    then \<exists>nc. storage_next_counter se st key = Some (True, Some (word_of_nat (v + 1)), st\<lparr>store := nc\<rparr>) \<and> holds_counter (st\<lparr>store := nc\<rparr>) m key (v + 1)
    else \<exists>count. storage_next_counter se st key = Some (False, count, st)"
proof -
  define ws where "ws = counter_words base k"
  define i where "i = tally_pos k"
  have i: "i = (if k < 32 then 1 else 2)" using assms(3) by (simp add: i_def tally_pos_def)
  have read: "norcow_read (store st) key = Some (Some (words_bytes (counter_words base k)))"
    using norcow_read_inv [OF assms(1,5)] assms(2) by simp
  note step = counter_words_step [OF assms(3), of base, folded i ws_def]
  have d: "1 + 32 * (i - 1) + k mod 32 = k + 1" using assms(3) by (simp add: i le_mod_geq)
  then have sum: "tally_start base k + hamming_weight (NOT (ws ! i)) = word_of_nat (v + 1)"
    unfolding step(3) tally_start_def assms(4) i_def [symmetric] of_nat_add [symmetric] by (simp only: add.assoc)
  have wraps: "word_of_nat (v + 1) < base \<longleftrightarrow> 2 ^ 32 \<le> v + 1"
    using wrapped_iff [of "k + 1" base] assms(3,4) by (simp only: add.assoc)
  have early: "tally_start base k < base \<Longrightarrow> 2 ^ 32 \<le> v + 1"
    using tally_start_wraps [of base k] d assms(4) by (simp add: i_def)
  obtain nc its' where u: "norcow_update_word (store st) key (4 * i) (drop_bit 1 (ws ! i)) = Some (True, nc)" "nc_inv nc its'"
    "kv its' = (kv its)(key \<mapsto> words_bytes (counter_words base (k + 1)))"
  proof -
    have "i < length ws" "kv its key = Some (words_bytes ws)" using i assms(2) by (simp_all add: ws_def)
    from update_item_word [OF assms(1,5) this(2,1) step(2)] that show ?thesis unfolding step(1) by blast
  qed
  have "nc_inv (store (st\<lparr>store := nc\<rparr>)) its' \<and> kv its' = m(key \<mapsto> words_bytes (counter_words base (k + 1))) \<and> k + 1 \<le> 64 \<and> v + 1 = unat base + (k + 1)"
    using u(2,3) assms(2,3,4) by simp
  then have "holds_counter (st\<lparr>store := nc\<rparr>) m key (v + 1)" unfolding holds_counter_def by blast
  then show ?thesis
    using early u(1) assms(3) unfolding next_counter_unfold [OF read less_imp_le [OF assms(3)] assms(6-8), of se, folded ws_def i_def] sum wraps by auto
qed

lemma next_counter_rewrite:
  assumes "nc_inv (store st) its" "kv its = m(key \<mapsto> words_bytes (counter_words base 64))" "v = unat base + 64" "key \<noteq> 0"
    and "initialized st" "app_of key AND FLAG_PUBLIC \<noteq> 0" "unlocked st \<or> app_of key AND FLAGS_WRITE = FLAGS_WRITE" "key \<noteq> 0xFFFF"
  shows "if v + 1 < 2 ^ 32
    then \<exists>nc. storage_next_counter se st key = Some (True, Some (word_of_nat (v + 1)), st\<lparr>store := nc\<rparr>) \<and> holds_counter (st\<lparr>store := nc\<rparr>) m key (v + 1)
    else \<exists>count. storage_next_counter se st key = Some (False, count, st)"
proof -
  define cnt where "cnt = tally_start base 64"
  have read: "norcow_read (store st) key = Some (Some (words_bytes (counter_words base 64)))"
    using norcow_read_inv [OF assms(1,4)] assms(2) by simp
  have v: "cnt = word_of_nat (v + 1)" "cnt < base \<longleftrightarrow> 2 ^ 32 \<le> v + 1"
    using tally_start_wraps [of base 64] assms(3) by (simp_all add: cnt_def tally_start_def tally_pos_def)
  have "space_needed its key 12 \<le> 65536"
    using rewrite_fits [OF assms(1,4), of "words_bytes (counter_words base 64)"] assms(2) by simp
  from set_counter_eq [OF assms(1,4,8,5,6,7) this, of se cnt] obtain nc its' where
    s: "storage_set_counter se st key cnt = Some (True, st\<lparr>store := nc\<rparr>)" "nc_inv nc its'" "kv its' = (kv its)(key \<mapsto> words_bytes (counter_words cnt 0))"
    by blast
  have "holds_counter (st\<lparr>store := nc\<rparr>) m key (v + 1)" if "v + 1 < 2 ^ 32"
  proof -
    have "unat cnt = v + 1" unfolding v(1) using that by (simp add: unat_of_nat take_bit_nat_eq_self del: of_nat_add of_nat_Suc)
    then have "nc_inv (store (st\<lparr>store := nc\<rparr>)) its' \<and> kv its' = m(key \<mapsto> words_bytes (counter_words cnt 0)) \<and> (0 :: nat) \<le> 64 \<and> v + 1 = unat cnt + 0"
      using s(2,3) assms(2) by simp
    then show ?thesis unfolding holds_counter_def by blast
  qed
  then show ?thesis
    using s(1) unfolding next_counter_unfold [OF read order_refl assms(5-7), of se, folded cnt_def] v(2) v(1) [symmetric] by auto
qed

text \<open>
  C34. A counter counts. On an initialized storage that is unlocked, or whose key may be written while it is
  locked, \<open>storage_next_counter\<close> on a counter of value \<open>v\<close> succeeds, returns \<open>v + 1\<close> and leaves a counter of
  value \<open>v + 1\<close> and every other item as it was, whether it clears a bit of the tally or rewrites the item;
  at the largest 32-bit number it fails and changes nothing.
\<close>

theorem storage_next_counter_spec:
  assumes "holds_counter st m key v" "initialized st" "app_of key AND FLAG_PUBLIC \<noteq> 0" "key \<noteq> 0xFFFF"
    and "unlocked st \<or> app_of key AND FLAGS_WRITE = FLAGS_WRITE"
  shows "if v + 1 < 2 ^ 32
    then \<exists>nc. storage_next_counter se st key = Some (True, Some (word_of_nat (v + 1)), st\<lparr>store := nc\<rparr>) \<and> holds_counter (st\<lparr>store := nc\<rparr>) m key (v + 1)
    else \<exists>count. storage_next_counter se st key = Some (False, count, st)"
proof -
  obtain its base k where c: "nc_inv (store st) its" "kv its = m(key \<mapsto> words_bytes (counter_words base k))" "k \<le> 64" "v = unat base + k"
    using assms(1) by (auto simp: holds_counter_def)
  have "key \<noteq> 0" using assms(3) by (auto simp: app_of_def)
  then show ?thesis
    using next_counter_tally [OF c(1,2) _ c(4) _ assms(2,3,5)] next_counter_rewrite [of st its m key base v se] c assms(2-5) by (cases "k < 64") auto
qed

theorem storage_next_counter_spec_witness:
  "\<exists>st nc. storage_next_counter (\<lambda>st k v. None) st 0xC001 = Some (True, Some 8, st\<lparr>store := nc\<rparr>)"
proof -
  obtain nc where nc: "nc_inv nc []" using wiped_store by blast
  define st where "st = \<lparr>initialized = True, unlocked = False, store = nc\<rparr>"
  have app: "app_of 0xC001 AND FLAG_PUBLIC \<noteq> 0" "app_of 0xC001 AND FLAGS_WRITE = FLAGS_WRITE"
    by (simp_all add: app_of_def FLAG_PUBLIC_def FLAGS_WRITE_def)
  from set_counter_eq [of st "[]" "0xC001" "\<lambda>st k v. None" 7] nc app obtain nc' its where
    s: "nc_inv nc' its" "kv its = (kv [])(0xC001 \<mapsto> words_bytes (counter_words 7 0))" by (auto simp: st_def space_needed_def live_def)
  then have "nc_inv (store (st\<lparr>store := nc'\<rparr>)) its \<and> kv its = (kv [])(0xC001 \<mapsto> words_bytes (counter_words 7 0)) \<and> (0 :: nat) \<le> 64 \<and> 7 = unat (7 :: u32) + 0" by simp
  then have "holds_counter (st\<lparr>store := nc'\<rparr>) (kv []) 0xC001 7" unfolding holds_counter_def by blast
  from storage_next_counter_spec [OF this, of "\<lambda>st k v. None"] app
  have "\<exists>nc. storage_next_counter (\<lambda>st k v. None) (st\<lparr>store := nc'\<rparr>) 0xC001 = Some (True, Some 8, st\<lparr>store := nc'\<rparr>\<lparr>store := nc\<rparr>)"
    by (auto simp: st_def)
  then show ?thesis by blast
qed

end
