(* ===== verification/Storage_Legacy.thy ===== *)
theory Storage_Legacy
  imports Hamming
begin

text \<open>
  Comparisons and old formats of \<open>storage/storage.c\<close>: the comparisons without early exit, and the conversions
  between a PIN and the number that stood for it before version 3, by which the PIN and the wipe
  code of an old storage are carried over. A string is the list of its characters.
\<close>

definition secequal :: "u8 list \<Rightarrow> u8 list \<Rightarrow> bool" where
  "secequal p1 p2 = (foldl (\<lambda>diff (a, b). diff OR (a XOR b)) 0 (zip p1 p2) = 0)"

text \<open>The masks are the random words drawn in the loop.\<close>

definition secequal32 :: "u32 list \<Rightarrow> u32 list \<Rightarrow> u32 list \<Rightarrow> bool" where
  "secequal32 masks p1 p2 = (foldl (\<lambda>diff (m, a, b). diff OR ((a + m - b) XOR m)) 0 (zip masks (zip p1 p2)) = 0)"

definition V0_MAX_PIN_LEN :: nat where "V0_MAX_PIN_LEN = 9"

fun pin_digits :: "u32 \<Rightarrow> u8 list \<Rightarrow> u32" where
  "pin_digits val [] = val"
| "pin_digits val (c # pin) = (if c < 0x30 \<or> c > 0x39 then 0 else pin_digits (10 * val + ucast c - 0x30) pin)"

definition pin_to_int :: "u8 list \<Rightarrow> u32" where
  "pin_to_int pin = (if length pin > V0_MAX_PIN_LEN then 0 else pin_digits 1 pin)"

fun wipe_code_loop :: "nat \<Rightarrow> u32 \<Rightarrow> u8 list \<Rightarrow> u8 list option" where
  "wipe_code_loop 0 val code = (if val = 1 then Some code else None)"
| "wipe_code_loop (Suc pos) val code = (if val = 1 then Some code else wipe_code_loop pos (val div 10) ((0x30 + ucast (val mod 10)) # code))"

definition int_to_wipe_code :: "u32 \<Rightarrow> u8 list option" where
  "int_to_wipe_code val =
     (if val = 0 then Some [] else if val = 1 then None else wipe_code_loop V0_MAX_PIN_LEN val [])"

text \<open>The counter of version 0: the first word that is not zero counts failures by its cleared bits.\<close>

fun v0_pin_fails :: "u32 list \<Rightarrow> u32" where
  "v0_pin_fails [] = 0"
| "v0_pin_fails (word # val) = (if word \<noteq> 0 then hamming_weight (NOT word) else v0_pin_fails val)"

section \<open>Comparisons\<close>

lemma fold_or_zero: "foldl (\<lambda>diff x. diff OR f x) d xs = (0 :: 'a::len word) \<longleftrightarrow> d = 0 \<and> (\<forall>x \<in> set xs. f x = 0)"
  by (induction xs arbitrary: d) (auto simp: or_eq_0_iff)

lemma zip_all_eq: "length p = length q \<Longrightarrow> (\<forall>(a, b) \<in> set (zip p q). a = b) \<longleftrightarrow> p = q"
  by (induction p q rule: list_induct2) auto

lemma zip3_all_eq:
  "length ms = length p \<Longrightarrow> length p = length q \<Longrightarrow> (\<forall>(m, a, b) \<in> set (zip ms (zip p q)). a = b) \<longleftrightarrow> p = q"
  by (induction ms p q rule: list_induct3) auto

text \<open>
  The comparisons of byte strings without early exit decide equality; \<open>secequal32\<close> does so for every choice of
  the random masks.
\<close>

theorem secequal_spec:
  assumes "length p1 = length p2" "length q1 = length q2" "length masks = length q1"
  shows "secequal p1 p2 = (p1 = p2) \<and> secequal32 masks q1 q2 = (q1 = q2)"
proof -
  have "secequal p1 p2 \<longleftrightarrow> (\<forall>(a, b) \<in> set (zip p1 p2). a = b)"
    using fold_or_zero [of "\<lambda>(a, b). a XOR b" 0 "zip p1 p2"] by (auto simp: secequal_def case_prod_unfold)
  moreover have "secequal32 masks q1 q2 \<longleftrightarrow> (\<forall>(m, a, b) \<in> set (zip masks (zip q1 q2)). a = b)"
    using fold_or_zero [of "\<lambda>(m, a, b). (a + m - b) XOR m" 0 "zip masks (zip q1 q2)"]
    by (auto simp: secequal32_def case_prod_unfold)
  ultimately show ?thesis using zip_all_eq [OF assms(1)] zip3_all_eq [OF assms(3,2)] by simp
qed

theorem secequal_spec_witness: "\<not> secequal [1, 2] [1, 3] \<and> secequal32 [7] [9] [9]"
  using secequal_spec [of "[1, 2]" "[1, 3]" "[9]" "[9]" "[7]"] by simp

section \<open>Old PIN formats\<close>

definition digit_char :: "u8 \<Rightarrow> bool" where "digit_char c \<longleftrightarrow> 0x30 \<le> c \<and> c \<le> 0x39"

lemma digit_charD:
  assumes "digit_char c"
  shows "48 \<le> unat c" "unat c \<le> 57" "unat c - 48 < 10" "\<not> c < 0x30" "\<not> c > 0x39"
proof -
  show *: "48 \<le> unat c" "unat c \<le> 57" using assms by (simp_all add: digit_char_def word_le_nat_alt)
  then show "unat c - 48 < 10" by linarith
  show "\<not> c < 0x30" "\<not> c > 0x39" using assms by (simp_all add: digit_char_def not_less)
qed

definition pin_number :: "u8 list \<Rightarrow> nat" where
  "pin_number pin = foldl (\<lambda>v c. 10 * v + (unat c - 48)) 1 pin"

lemma pin_number_bounds: "\<forall>c \<in> set pin. digit_char c \<Longrightarrow> 10 ^ length pin \<le> pin_number pin \<and> pin_number pin < 2 * 10 ^ length pin"
proof (induction pin rule: rev_induct)
  case (snoc c pin)
  have "unat c - 48 < 10" using snoc.prems by (intro digit_charD) simp
  then show ?case using snoc by (simp add: pin_number_def)
qed (simp add: pin_number_def)

lemma pin_digits_eq:
  "\<forall>c \<in> set pin. digit_char c \<Longrightarrow> pin_digits (word_of_nat v) pin = word_of_nat (foldl (\<lambda>v c. 10 * v + (unat c - 48)) v pin)"
proof (induction pin arbitrary: v)
  case (Cons c pin)
  have c: "48 \<le> unat c" "\<not> c < 0x30" "\<not> c > 0x39" using Cons.prems digit_charD [of c] by auto
  have "10 * word_of_nat v + ucast c - 0x30 = (word_of_nat (10 * v + (unat c - 48)) :: u32)"
    using c(1) by (simp add: of_nat_diff)
  then show ?case using c Cons.IH [of "10 * v + (unat c - 48)"] Cons.prems by simp
qed simp

lemma wipe_code_loop_eq:
  assumes "\<forall>c \<in> set pin. digit_char c" "length pin \<le> pos" "length pin \<le> 9"
  shows "wipe_code_loop pos (word_of_nat (pin_number pin)) code = Some (pin @ code)"
  using assms
proof (induction pin arbitrary: pos code rule: rev_induct)
  case Nil
  then show ?case by (cases pos) (simp_all add: pin_number_def)
next
  case (snoc c pin)
  then obtain p where p: "pos = Suc p" "length pin \<le> p" by (cases pos) auto
  have d: "unat c - 48 < 10" "48 \<le> unat c" using snoc.prems digit_charD [of c] by auto
  have n: "pin_number (pin @ [c]) = 10 * pin_number pin + (unat c - 48)" by (simp add: pin_number_def)
  have "(10 :: nat) ^ length (pin @ [c]) \<le> 10 ^ 9" using snoc.prems(3) by (intro power_increasing) simp_all
  moreover have "(10 :: nat) \<le> 10 ^ length (pin @ [c])" by simp
  ultimately have small: "pin_number (pin @ [c]) < 2 ^ 32" "pin_number (pin @ [c]) \<noteq> 1"
    using pin_number_bounds [OF snoc.prems(1)] by (auto simp del: length_append)
  define w where "w = (word_of_nat (pin_number (pin @ [c])) :: u32)"
  have u: "unat w = pin_number (pin @ [c])" using small(1) by (simp add: w_def unat_of_nat take_bit_nat_eq_self)
  have "w \<noteq> 1" using u small(2) by auto
  moreover have "w div 10 = word_of_nat (pin_number pin)"
  proof -
    have "unat (w div 10) = pin_number pin" using d(1) u n by (simp add: unat_div)
    then show ?thesis by (metis of_nat_unat ucast_id)
  qed
  moreover have "0x30 + ucast (w mod 10) = c"
  proof -
    have "unat (w mod 10) = unat c - 48" using d(1) u n by (simp add: unat_mod)
    then have "ucast (w mod 10) = (word_of_nat (unat c - 48) :: u8)" by (metis of_nat_unat)
    then show ?thesis using d(2) by (simp add: of_nat_diff)
  qed
  ultimately show ?case using snoc.IH [of p "c # code"] snoc.prems p by (simp add: w_def)
qed

text \<open>
  C35. The old number format keeps PINs apart: for a PIN of one to nine digits \<open>int_to_wipe_code\<close> turns the number of
  \<open>pin_to_int\<close> back into the same digits, leading zeros included, and the numbers of different PINs differ.
\<close>

theorem pin_int_roundtrip:
  assumes "\<forall>c \<in> set pin. digit_char c" "0 < length pin" "length pin \<le> 9"
  shows "int_to_wipe_code (pin_to_int pin) = Some pin"
proof -
  have p: "pin_to_int pin = word_of_nat (pin_number pin)"
    using pin_digits_eq [OF assms(1), of 1] assms(3) by (simp add: pin_to_int_def V0_MAX_PIN_LEN_def pin_number_def)
  have "(10 :: nat) ^ length pin \<le> 10 ^ 9" using assms(3) by (intro power_increasing) simp_all
  moreover have "(10 :: nat) ^ 1 \<le> 10 ^ length pin" using assms(2) by (intro power_increasing) (simp_all add: Suc_le_eq)
  ultimately have "pin_number pin < 2 ^ 32" "1 < pin_number pin"
    using pin_number_bounds [OF assms(1)] by auto
  then have u: "unat (word_of_nat (pin_number pin) :: u32) = pin_number pin" "1 < pin_number pin" by (simp_all add: unat_of_nat take_bit_nat_eq_self)
  then have "(word_of_nat (pin_number pin) :: u32) \<noteq> 0" "(word_of_nat (pin_number pin) :: u32) \<noteq> 1" by (metis unat_0 not_one_less_zero, metis unat_1 less_irrefl)
  then show ?thesis using wipe_code_loop_eq [OF assms(1), of 9 "[]"] assms(3) by (simp add: p int_to_wipe_code_def V0_MAX_PIN_LEN_def)
qed

theorem pin_int_roundtrip_witness: "int_to_wipe_code (pin_to_int [0x30, 0x30, 0x37]) = Some [0x30, 0x30, 0x37]"
  using pin_int_roundtrip [of "[0x30, 0x30, 0x37]"] by (simp add: digit_char_def)

end
