(* ===== verification/Base58.thy ===== *)
theory Base58
  imports Prelude
begin

text \<open>
  \<open>crypto/base58.c\<close>: the encoding of byte strings as numbers in base 58, with a digit \<open>1\<close> for each leading
  zero byte, and the addresses with a checksum made of it. Strings are lists of characters
  without the terminating null byte. The hash function of the checksum is an argument.
\<close>

definition b58digits_ordered :: "u8 list" where
  "b58digits_ordered = map of_char ''123456789ABCDEFGHJKLMNPQRSTUVWXYZabcdefghijkmnopqrstuvwxyz''"

definition b58digits_map :: "int list" where
  "b58digits_map = [
    - 1, - 1, - 1, - 1, - 1, - 1, - 1, - 1, - 1, - 1, - 1, - 1, - 1, - 1, - 1, - 1,
    - 1, - 1, - 1, - 1, - 1, - 1, - 1, - 1, - 1, - 1, - 1, - 1, - 1, - 1, - 1, - 1,
    - 1, - 1, - 1, - 1, - 1, - 1, - 1, - 1, - 1, - 1, - 1, - 1, - 1, - 1, - 1, - 1,
    - 1, 0, 1, 2, 3, 4, 5, 6, 7, 8, - 1, - 1, - 1, - 1, - 1, - 1,
    - 1, 9, 10, 11, 12, 13, 14, 15, 16, - 1, 17, 18, 19, 20, 21, - 1,
    22, 23, 24, 25, 26, 27, 28, 29, 30, 31, 32, - 1, - 1, - 1, - 1, - 1,
    - 1, 33, 34, 35, 36, 37, 38, 39, 40, 41, 42, 43, - 1, 44, 45, 46,
    47, 48, 49, 50, 51, 52, 53, 54, 55, 56, 57, - 1, - 1, - 1, - 1, - 1]"

section \<open>Decoding\<close>

text \<open>Multiplication by 58 and addition, over the words from the last to the first.\<close>

definition b58_step :: "u32 \<Rightarrow> u32 list \<times> u32 \<Rightarrow> u32 list \<times> u32" where
  "b58_step w = (\<lambda>(outi, c). let t = (ucast w :: u64) * 58 + ucast c in (ucast (t AND 0xFFFFFFFF) # outi, ucast (drop_bit 32 t)))"

definition b58_mul :: "u32 list \<Rightarrow> u32 \<Rightarrow> u32 list \<times> u32" where
  "b58_mul outi c = foldr b58_step outi ([], c)"

fun b58_loop :: "u32 \<Rightarrow> u32 list \<Rightarrow> u8 list \<Rightarrow> u32 list option" where
  "b58_loop zeromask outi [] = Some outi"
| "b58_loop zeromask outi (ch # b58) =
     (if ch AND 0x80 \<noteq> 0 then None
      else if b58digits_map ! unat ch = - 1 then None
      else case b58_mul outi (word_of_int (b58digits_map ! unat ch)) of (outi, c) \<Rightarrow>
        if c \<noteq> 0 then None
        else if outi ! 0 AND zeromask \<noteq> 0 then None
        else b58_loop zeromask outi b58)"

text \<open>The last \<open>n\<close> bytes of a word, the most significant one first.\<close>

definition b58_bytes :: "nat \<Rightarrow> u32 \<Rightarrow> u8 list" where
  "b58_bytes n w = map (\<lambda>i. ucast (drop_bit (8 * (i - 1)) w AND 0xff)) (rev [1..<Suc n])"

fun leading :: "'a \<Rightarrow> 'a list \<Rightarrow> nat" where
  "leading a [] = 0"
| "leading a (x # xs) = (if x = a then Suc (leading a xs) else 0)"

text \<open>The result is the whole buffer and the number of valid bytes at its end.\<close>

definition b58tobin :: "nat \<Rightarrow> u8 list \<Rightarrow> (u8 list \<times> nat) option" where
  "b58tobin binsz b58 =
     (if binsz = 0 then None
      else
        let outisz = (binsz + 4 - 1) div 4;
            bytesleft = binsz mod 4;
            zeromask = (if bytesleft \<noteq> 0 then push_bit (bytesleft * 8) 0xFFFFFFFF else 0);
            zerocount = leading 0x31 b58 in
        case b58_loop zeromask (replicate outisz 0) (drop zerocount b58) of
          None \<Rightarrow> None
        | Some outi \<Rightarrow>
            let bin = (if bytesleft \<noteq> 0 then b58_bytes bytesleft (outi ! 0) @ concat (map (b58_bytes 4) (drop 1 outi))
                       else concat (map (b58_bytes 4) outi));
                i = leading 0 bin in
            if zerocount > i then None else Some (bin, binsz - i + zerocount))"

section \<open>Encoding\<close>

function b58_add :: "nat list \<Rightarrow> nat \<Rightarrow> nat \<Rightarrow> nat \<Rightarrow> nat list \<times> nat" where
  "b58_add buf high carry j =
     (if j > high \<or> carry \<noteq> 0 then
        let carry = carry + 256 * buf ! j;
            buf = buf[j := carry mod 58];
            carry = carry div 58 in
        if j = 0 then (buf, j) else b58_add buf high carry (j - 1)
      else (buf, j))"
  by pat_completeness auto
termination by (relation "measure (\<lambda>(buf, high, carry, j). j)") auto

declare b58_add.simps [simp del]

fun b58_convert :: "nat list \<Rightarrow> nat \<Rightarrow> u8 list \<Rightarrow> nat list" where
  "b58_convert buf high [] = buf"
| "b58_convert buf high (b # bin) = (case b58_add buf high (unat b) (length buf - 1) of (buf, j) \<Rightarrow> b58_convert buf j bin)"

text \<open>
  \<open>b58sz\<close> is the size of the buffer for the string. On success the result is the string, which is
  written with a null byte at its end; otherwise it is the size that is needed.
\<close>

definition b58enc :: "nat \<Rightarrow> u8 list \<Rightarrow> nat + u8 list" where
  "b58enc b58sz bin =
     (let binsz = length bin;
          zcount = leading 0 bin;
          size = (binsz - zcount) * 138 div 100 + 1;
          buf = b58_convert (replicate size 0) (size - 1) (drop zcount bin);
          j = leading 0 buf in
      if b58sz \<le> zcount + size - j then Inl (zcount + size - j + 1)
      else Inr (replicate zcount 0x31 @ map (\<lambda>d. b58digits_ordered ! d) (drop j buf)))"

section \<open>Strings with a checksum\<close>

text \<open>The bytes at the position \<open>i\<close>: the string ends with a null byte, the binary does not.\<close>

fun b58_zeros :: "u8 list \<Rightarrow> u8 list \<Rightarrow> int option" where
  "b58_zeros [] str = None"
| "b58_zeros (b # bin) str = (let ch = (case str of [] \<Rightarrow> 0 | ch # _ \<Rightarrow> ch) in
     if b = 0 \<and> ch = 0x31 then b58_zeros bin (tl str)
     else if b = 0 \<or> ch = 0x31 then Some (- 3) else Some 0)"

definition b58check :: "(u8 list \<Rightarrow> u8 list) \<Rightarrow> u8 list \<Rightarrow> u8 list \<Rightarrow> int option" where
  "b58check hash bin base58str =
     (let binsz = length bin in
      if binsz < 4 then Some (- 4)
      else if drop (binsz - 4) bin \<noteq> take 4 (hash (take (binsz - 4) bin)) then Some (- 1)
      else case b58_zeros bin base58str of None \<Rightarrow> None
        | Some r \<Rightarrow> if r < 0 then Some r else Some (uint (bin ! 0)))"

text \<open>The returned length counts the terminating null byte; zero is failure.\<close>

definition base58_encode_check :: "(u8 list \<Rightarrow> u8 list) \<Rightarrow> u8 list \<Rightarrow> nat \<Rightarrow> u8 list option" where
  "base58_encode_check hash data strsize =
     (if length data > 128 then None
      else case b58enc strsize (take (length data + 4) (data @ hash data)) of Inl _ \<Rightarrow> None | Inr str \<Rightarrow> Some str)"

text \<open>
  The decoder returns the number of data bytes, and 0 for failure. The model returns the data, so it
  tells a failure (\<open>None\<close>) from empty data (\<open>Some []\<close>), for which the length in C is 0 as well: callers of
  the C function see the two as the same.
\<close>

definition base58_decode_check :: "(u8 list \<Rightarrow> u8 list) \<Rightarrow> u8 list \<Rightarrow> nat \<Rightarrow> u8 list option option" where
  "base58_decode_check hash str datalen =
     (if datalen > 128 then Some None
      else case b58tobin (datalen + 4) str of
        None \<Rightarrow> Some None
      | Some (d, res) \<Rightarrow>
          let nd = drop (datalen + 4 - res) d in
          case b58check hash nd str of None \<Rightarrow> None
          | Some r \<Rightarrow> if r < 0 then Some None else Some (Some (take (res - 4) nd)))"

end
