(* ===== verification/Base58_Proof.thy ===== *)
theory Base58_Proof
  imports Base58
begin

text \<open>
  Base 58 as arithmetic: the value of a list of digits, the conversions of the two directions as equations between values, and the
  two round trips of strings with a checksum.
\<close>

section \<open>Numbers in a base, the most significant digit first\<close>

primrec radix :: "nat \<Rightarrow> nat list \<Rightarrow> nat" where
  "radix B [] = 0"
| "radix B (d # ds) = d * B ^ length ds + radix B ds"

lemma radix_append: "radix B (xs @ ys) = radix B xs * B ^ length ys + radix B ys"
  by (induction xs) (simp_all add: power_add algebra_simps)

lemma radix_less: "\<forall>d \<in> set ds. d < B \<Longrightarrow> radix B ds < B ^ length ds"
proof (induction ds)
  case (Cons d ds)
  then have "radix B ds < B ^ length ds" "d + 1 \<le> B" by (simp_all add: Suc_le_eq)
  moreover from this(2) have "(d + 1) * B ^ length ds \<le> B * B ^ length ds" by (rule mult_le_mono1)
  ultimately show ?case by simp
qed simp

lemma radix_inj:
  assumes "length xs = length ys" "\<forall>d \<in> set xs. d < B" "\<forall>d \<in> set ys. d < B" "radix B xs = radix B ys"
  shows "xs = ys"
  using assms
proof (induction xs ys rule: list_induct2)
  case (Cons x xs y ys)
  have l: "radix B xs < B ^ length xs" "radix B ys < B ^ length xs" using Cons radix_less [of xs B] radix_less [of ys B] by simp_all
  have "x * B ^ length xs + radix B xs = y * B ^ length xs + radix B ys" using Cons by simp
  from digit_unique [OF this l] have "x = y" "radix B xs = radix B ys" .
  then show ?case using Cons by simp
qed simp

lemma radix_zeros [simp]: "radix B (replicate n 0) = 0"
  by (induction n) simp_all

lemma radix_zero_list: "\<forall>d \<in> set ds. d = 0 \<Longrightarrow> radix B ds = 0"
  by (induction ds) simp_all

lemma leading_split: "xs = replicate (leading a xs) a @ drop (leading a xs) xs"
  by (induction xs) auto

lemma leading_le: "leading a xs \<le> length xs"
  by (induction xs) auto

lemma leading_next: "drop (leading a xs) xs = [] \<or> drop (leading a xs) xs ! 0 \<noteq> a"
  by (induction xs) auto

lemma leading_replicate: "leading a (replicate n a @ xs) = n + leading a xs"
  by (induction n) auto

text \<open>A number decides its digits after the leading zeros, and its length.\<close>

lemma radix_leading:
  assumes "1 < B" "\<forall>d \<in> set xs. d < B" "\<forall>d \<in> set ys. d < B" "radix B xs = radix B ys"
  shows "drop (leading 0 xs) xs = drop (leading 0 ys) ys"
proof -
  have len: "length xs \<le> length ys" if "xs = [] \<or> xs ! 0 \<noteq> 0" "\<forall>d \<in> set ys. d < B" "radix B xs = radix B ys" for xs ys
  proof (cases xs)
    case (Cons x xs')
    with that have "1 * B ^ length xs' \<le> x * B ^ length xs'" by (intro mult_le_mono1) simp
    then have "B ^ length xs' \<le> radix B xs" unfolding Cons radix.simps by linarith
    then have "B ^ length xs' < B ^ length ys" using radix_less [OF that(2)] that(3) by simp
    then have "length xs' < length ys" using assms(1) power_less_imp_less_exp by blast
    then show ?thesis using Cons by simp
  qed simp
  let ?xs = "drop (leading 0 xs) xs" and ?ys = "drop (leading 0 ys) ys"
  have "radix B zs = radix B (drop (leading 0 zs) zs)" for zs
    by (subst leading_split [of zs 0]) (simp add: radix_append)
  with assms(4) have eq: "radix B ?xs = radix B ?ys" by simp
  have "?xs = [] \<or> ?xs ! 0 \<noteq> 0" "?ys = [] \<or> ?ys ! 0 \<noteq> 0"
    by (rule leading_next)+
  moreover have d: "\<forall>d \<in> set ?xs. d < B" "\<forall>d \<in> set ?ys. d < B" using assms(2,3) by (meson in_set_dropD)+
  ultimately have "length ?xs = length ?ys" using len [of ?xs ?ys] len [of ?ys ?xs] eq by simp
  from radix_inj [OF this d eq] show ?thesis .
qed

section \<open>Encoding\<close>

lemma b58_add_value:
  assumes "\<forall>d \<in> set buf. d < 58" "j < length buf" "256 * radix 58 (take (Suc j) buf) + carry < 58 ^ Suc j" "\<forall>k \<le> min j high. buf ! k = 0"
    and "b58_add buf high carry j = (buf', j')"
  shows "(\<forall>d \<in> set buf'. d < 58) \<and> length buf' = length buf \<and> drop (Suc j) buf' = drop (Suc j) buf \<and>
    radix 58 (take (Suc j) buf') = 256 * radix 58 (take (Suc j) buf) + carry \<and> j' \<le> j \<and> (j' \<noteq> 0 \<longrightarrow> (\<forall>k \<le> j'. buf' ! k = 0))"
  using assms
proof (induction j arbitrary: buf carry)
  case 0
  show ?case
  proof (cases "high < 0 \<or> carry \<noteq> 0")
    case True
    then have "buf' = buf[0 := (carry + 256 * buf ! 0) mod 58]" "j' = 0"
      using 0(5) by (simp_all add: b58_add.simps [of buf high carry 0] Let_def)
    moreover have "carry + 256 * buf ! 0 < 58" using 0(2,3) by (cases buf) simp_all
    moreover obtain d ds where "buf = d # ds" using 0(2) by (cases buf) auto
    ultimately show ?thesis using 0(1) by simp
  next
    case False
    then have "buf' = buf" "j' = 0" using 0(5) by (simp_all add: b58_add.simps [of buf high 0 0])
    moreover have "radix 58 (take (Suc 0) buf) = 0" using 0(2,4) by (cases buf) simp_all
    ultimately show ?thesis using 0(1) False by simp
  qed
next
  case (Suc j)
  show ?case
  proof (cases "Suc j > high \<or> carry \<noteq> 0")
    case True
    define c1 where "c1 = carry + 256 * buf ! Suc j"
    define buf1 where "buf1 = buf[Suc j := c1 mod 58]"
    define R where "R = radix 58 (take (Suc j) buf)"
    have rec: "b58_add buf1 high (c1 div 58) j = (buf', j')"
      using True Suc.prems(5) unfolding b58_add.simps [of buf high carry "Suc j"] c1_def buf1_def by (simp add: Let_def)
    have take1: "take (Suc j) buf1 = take (Suc j) buf" by (simp add: buf1_def)
    have R: "radix 58 (take (Suc (Suc j)) buf) = R * 58 + buf ! Suc j"
      using Suc.prems(2) by (simp only: take_Suc_conv_app_nth [of "Suc j"] radix_append R_def) simp
    have mul: "58 * (256 * R + c1 div 58) + c1 mod 58 = 256 * (R * 58 + buf ! Suc j) + carry"
      by (simp add: c1_def algebra_simps)
    have bound: "256 * radix 58 (take (Suc j) buf1) + c1 div 58 < 58 ^ Suc j"
    proof -
      have "58 * (256 * R + c1 div 58) < 58 * 58 ^ Suc j" using Suc.prems(3) mul unfolding R power_Suc [of 58 "Suc j"] by linarith
      then show ?thesis unfolding take1 R_def [symmetric] by simp
    qed
    have "\<forall>d \<in> set buf1. d < 58" unfolding buf1_def using Suc.prems(1) set_update_subset_insert [of buf "Suc j" "c1 mod 58"] by auto
    moreover have "\<forall>k \<le> min j high. buf1 ! k = 0" using Suc.prems(4) by (auto simp: buf1_def)
    moreover have "j < length buf1" using Suc.prems(2) by (simp add: buf1_def)
    ultimately have IH: "\<forall>d \<in> set buf'. d < 58" "length buf' = length buf1" "drop (Suc j) buf' = drop (Suc j) buf1"
      "radix 58 (take (Suc j) buf') = 256 * radix 58 (take (Suc j) buf1) + c1 div 58" "j' \<le> j" "j' \<noteq> 0 \<longrightarrow> (\<forall>k \<le> j'. buf' ! k = 0)"
      using Suc.IH [OF _ _ bound _ rec] by blast+
    have nth: "buf' ! Suc j = c1 mod 58"
      using arg_cong [OF IH(3), of hd] IH(2) Suc.prems(2) by (simp add: hd_drop_conv_nth buf1_def)
    have "drop (Suc (Suc j)) buf' = drop (Suc (Suc j)) buf"
      using arg_cong [OF IH(3), of "drop 1"] by (simp add: buf1_def)
    moreover have "radix 58 (take (Suc (Suc j)) buf') = 256 * radix 58 (take (Suc (Suc j)) buf) + carry"
    proof -
      have "radix 58 (take (Suc (Suc j)) buf') = radix 58 (take (Suc j) buf') * 58 + c1 mod 58"
        using Suc.prems(2) IH(2) nth by (simp only: take_Suc_conv_app_nth [of "Suc j"] radix_append buf1_def length_list_update) simp
      then show ?thesis using IH(4) mul unfolding R take1 R_def [symmetric] by (simp add: mult.commute)
    qed
    ultimately show ?thesis using IH(1,2,5,6) by (simp add: buf1_def)
  next
    case False
    then have "buf' = buf" "j' = Suc j" using Suc.prems(5) by (simp_all add: b58_add.simps [of buf high 0 "Suc j"])
    moreover have z: "\<forall>k \<le> Suc j. buf ! k = 0" using Suc.prems(4) False by simp
    then have "radix 58 (take (Suc (Suc j)) buf) = 0" using Suc.prems(2)
      by (intro radix_zero_list) (auto simp: in_set_conv_nth less_Suc_eq_le)
    ultimately show ?thesis using Suc.prems(1) False z by simp
  qed
qed

text \<open>The state between two bytes: the digits up to \<open>high\<close> are zero.\<close>

definition high_zero :: "nat list \<Rightarrow> nat \<Rightarrow> bool" where
  "high_zero buf high \<longleftrightarrow> high < length buf \<and> (\<forall>d \<in> set buf. d < 58) \<and> (high \<noteq> 0 \<longrightarrow> (\<forall>k \<le> high. buf ! k = 0))"

lemma b58_add_step:
  assumes inv: "high_zero buf high" and bound: "256 * radix 58 buf + unat (b :: u8) < 58 ^ length buf"
    and r: "b58_add buf high (unat b) (length buf - 1) = (buf', j)"
  shows "high_zero buf' j" "length buf' = length buf" "radix 58 buf' = 256 * radix 58 buf + unat b"
proof -
  have len: "Suc (length buf - 1) = length buf" "length buf - 1 < length buf" using inv by (auto simp: high_zero_def)
  have "buf ! 0 = 0"
  proof (cases buf)
    case (Cons d ds)
    show ?thesis
    proof (rule ccontr)
      assume "buf ! 0 \<noteq> 0"
      define P :: nat where "P = 58 ^ length ds"
      have "1 * P \<le> d * P" "0 < P" using \<open>buf ! 0 \<noteq> 0\<close> Cons by (auto simp: P_def)
      moreover have "256 * (d * P) + 256 * radix 58 ds + unat b < 58 * P" using bound Cons by (simp add: P_def)
      ultimately show False using mult_le_mono2 [of "1 * P" "d * P" 256] by (simp only: mult_1)
    qed
  qed (use len in simp)
  then have "\<forall>k \<le> min (length buf - 1) high. buf ! k = 0" using inv by (cases "high = 0") (auto simp: high_zero_def)
  moreover have "256 * radix 58 (take (Suc (length buf - 1)) buf) + unat b < 58 ^ Suc (length buf - 1)" unfolding len(1) using bound by simp
  ultimately have v: "(\<forall>d \<in> set buf'. d < 58) \<and> length buf' = length buf \<and> drop (length buf) buf' = drop (length buf) buf \<and>
    radix 58 (take (length buf) buf') = 256 * radix 58 (take (length buf) buf) + unat b \<and> j \<le> length buf - 1 \<and> (j \<noteq> 0 \<longrightarrow> (\<forall>k \<le> j. buf' ! k = 0))"
    using b58_add_value [OF _ len(2) _ _ r, unfolded len(1)] inv unfolding high_zero_def len(1) by blast
  then show "high_zero buf' j" "length buf' = length buf" "radix 58 buf' = 256 * radix 58 buf + unat b"
    using len by (auto simp: high_zero_def)
qed

lemma b58_convert_value:
  assumes "high_zero buf high" "radix 58 buf * 256 ^ length bin + radix 256 (map unat bin) < 58 ^ length buf"
  shows "length (b58_convert buf high bin) = length buf \<and> (\<forall>d \<in> set (b58_convert buf high bin). d < 58) \<and>
    radix 58 (b58_convert buf high bin) = radix 58 buf * 256 ^ length bin + radix 256 (map unat (bin :: u8 list))"
  using assms
proof (induction bin arbitrary: buf high)
  case Nil
  then show ?case by (simp add: high_zero_def)
next
  case (Cons b bin)
  obtain buf' j where r: "b58_add buf high (unat b) (length buf - 1) = (buf', j)" by fastforce
  have eq: "radix 58 buf * 256 ^ length (b # bin) + radix 256 (map unat (b # bin)) =
      (256 * radix 58 buf + unat b) * 256 ^ length bin + radix 256 (map unat bin)" by (simp add: algebra_simps)
  have "256 * radix 58 buf + unat b \<le> (256 * radix 58 buf + unat b) * 256 ^ length bin" by simp
  then have "256 * radix 58 buf + unat b < 58 ^ length buf" using Cons.prems(2) unfolding eq by linarith
  note step = b58_add_step [OF Cons.prems(1) this r]
  show ?case using Cons.IH [OF step(1)] Cons.prems(2) unfolding eq step(2,3) b58_convert.simps r by simp
qed

text \<open>The buffer is large enough.\<close>

lemma b58_size_50: "(256 :: nat) ^ 50 \<le> 58 ^ 69"
  by simp

lemma b58_size_rest: "r < 50 \<Longrightarrow> (256 :: nat) ^ r < 58 ^ (r * 138 div 100 + 1)"
proof -
  have "list_all (\<lambda>r. (256 :: nat) ^ r < 58 ^ (r * 138 div 100 + 1)) (0 # 1 # [2..<50])" by (simp add: upt_rec_numeral)
  then show "r < 50 \<Longrightarrow> (256 :: nat) ^ r < 58 ^ (r * 138 div 100 + 1)" by (cases "r < 2") (auto simp: list_all_iff less_Suc_eq numeral_2_eq_2)
qed

lemma b58_size: "(256 :: nat) ^ n < 58 ^ (n * 138 div 100 + 1)"
proof -
  define q r where "q = n div 50" and "r = n mod 50"
  have n: "n = 50 * q + r" "r < 50" by (simp_all add: q_def r_def)
  have "n * 138 = r * 138 + 100 * (69 * q)" using n(1) by simp
  then have "n * 138 div 100 = 69 * q + r * 138 div 100" by simp
  then have "(58 :: nat) ^ (n * 138 div 100 + 1) = (58 ^ 69) ^ q * 58 ^ (r * 138 div 100 + 1)"
    by (simp only: power_mult [symmetric] power_add [symmetric] add.assoc)
  moreover have "(256 :: nat) ^ n = (256 ^ 50) ^ q * 256 ^ r" using n(1) by (simp only: power_mult [symmetric] power_add [symmetric])
  moreover have "((256 :: nat) ^ 50) ^ q \<le> (58 ^ 69) ^ q" by (rule power_mono [OF b58_size_50]) simp
  ultimately show ?thesis using b58_size_rest [OF n(2)] by (simp only:) (rule mult_le_less_imp_less; simp)
qed

text \<open>The encoding is the number of the bytes in base 58, without leading zeros, after a digit for each leading zero byte.\<close>

definition b58_buf :: "u8 list \<Rightarrow> nat list" where
  "b58_buf bs = b58_convert (replicate (length bs * 138 div 100 + 1) 0) (length bs * 138 div 100 + 1 - 1) bs"

definition b58_digits :: "u8 list \<Rightarrow> nat list" where
  "b58_digits bin = drop (leading 0 (b58_buf (drop (leading 0 bin) bin))) (b58_buf (drop (leading 0 bin) bin))"

lemma radix_unat_less: "radix 256 (map unat (bin :: u8 list)) < 256 ^ length bin"
proof -
  have "unat (b :: u8) < 256" for b using unsigned_less [of b] by simp
  then show ?thesis using radix_less [of "map unat bin" 256] by simp
qed

lemma b58_buf_value:
  "length (b58_buf bs) = length bs * 138 div 100 + 1" "\<forall>d \<in> set (b58_buf bs). d < 58" "radix 58 (b58_buf bs) = radix 256 (map unat bs)"
proof -
  define size where "size = length bs * 138 div 100 + 1"
  have "size - 1 < size" by (simp add: size_def)
  then have "high_zero (replicate size 0) (size - 1)" by (auto simp: high_zero_def)
  moreover have "radix 256 (map unat bs) < 58 ^ size"
    using radix_unat_less [of bs] b58_size [of "length bs"] unfolding size_def by linarith
  ultimately show "length (b58_buf bs) = length bs * 138 div 100 + 1" "\<forall>d \<in> set (b58_buf bs). d < 58" "radix 58 (b58_buf bs) = radix 256 (map unat bs)"
    using b58_convert_value [of "replicate size 0" "size - 1" bs] unfolding b58_buf_def size_def [symmetric] by simp_all
qed

lemma radix_drop_leading: "radix B (drop (leading 0 ds) ds) = radix B ds"
proof -
  have "radix B ds = radix B (replicate (leading 0 ds) 0 @ drop (leading 0 ds) ds)" by (rule arg_cong [OF leading_split])
  then show ?thesis by (simp add: radix_append)
qed

lemma b58_digits_value:
  "\<forall>d \<in> set (b58_digits bin). d < 58" "radix 58 (b58_digits bin) = radix 256 (map unat bin)"
  "b58_digits bin = [] \<or> b58_digits bin ! 0 \<noteq> 0"
proof -
  show "\<forall>d \<in> set (b58_digits bin). d < 58" unfolding b58_digits_def using b58_buf_value(2) by (meson in_set_dropD)
  show "b58_digits bin = [] \<or> b58_digits bin ! 0 \<noteq> 0" unfolding b58_digits_def by (rule leading_next)
  have "leading 0 (map unat bin) = leading 0 bin" by (induction bin) (auto simp: unat_eq_0)
  then have "radix 256 (map unat (drop (leading 0 bin) bin)) = radix 256 (map unat bin)"
    using radix_drop_leading [of 256 "map unat bin"] by (simp add: drop_map)
  then show "radix 58 (b58_digits bin) = radix 256 (map unat bin)"
    unfolding b58_digits_def radix_drop_leading b58_buf_value(3) .
qed

lemma b58enc_digits:
  "b58enc b58sz bin =
     (let n = leading 0 bin + length (b58_digits bin) in
      if b58sz \<le> n then Inl (n + 1) else Inr (replicate (leading 0 bin) 0x31 @ map (\<lambda>d. b58digits_ordered ! d) (b58_digits bin)))"
proof -
  let ?bs = "drop (leading 0 bin) bin"
  have "(length bin - leading 0 bin) * 138 div 100 + 1 = length (b58_buf ?bs)" by (simp add: b58_buf_value(1))
  moreover have "b58_convert (replicate (length (b58_buf ?bs)) 0) (length (b58_buf ?bs) - 1) ?bs = b58_buf ?bs"
    unfolding b58_buf_value(1) by (simp only: b58_buf_def [of ?bs])
  moreover have "leading 0 bin + length (b58_buf ?bs) - leading 0 (b58_buf ?bs) = leading 0 bin + length (b58_digits bin)"
    using leading_le [of 0 "b58_buf ?bs"] by (simp add: b58_digits_def)
  ultimately show ?thesis unfolding b58enc_def Let_def by (simp only: b58_digits_def)
qed

section \<open>Decoding\<close>

abbreviation words_value :: "u32 list \<Rightarrow> nat" where
  "words_value ws \<equiv> radix (2 ^ 32) (map unat ws)"

lemma b58_step_value:
  assumes "unat c < 58"
  shows "\<exists>w' c'. b58_step w (ws, c) = (w' # ws, c') \<and> unat c' < 58 \<and> unat w' + unat c' * 2 ^ 32 = 58 * unat w + unat c"
proof -
  define t where "t = 58 * unat w + unat c"
  have "unat w < 2 ^ 32" using unsigned_less [of w] by simp
  then have t: "t < 58 * 2 ^ 32" using assms unfolding t_def by linarith
  have T: "unat ((ucast w :: u64) * 58 + ucast c) = t"
    using t unfolding t_def by (simp add: unat_word_ariths unsigned_ucast_eq take_bit_eq_mod mult.commute)
  have "unat (ucast (((ucast w :: u64) * 58 + ucast c) AND 0xFFFFFFFF) :: u32) = t mod 2 ^ 32"
  proof -
    have "((ucast w :: u64) * 58 + ucast c) AND 0xFFFFFFFF = take_bit 32 ((ucast w :: u64) * 58 + ucast c)"
      by (simp only: take_bit_eq_mask) (simp add: mask_eq_exp_minus_1)
    then show ?thesis unfolding T [symmetric] by (simp only: unsigned_ucast_eq unsigned_take_bit_eq) (simp add: take_bit_eq_mod)
  qed
  moreover have "unat (ucast (drop_bit 32 ((ucast w :: u64) * 58 + ucast c)) :: u32) = t div 2 ^ 32"
    unfolding T [symmetric] using t T by (simp only: unsigned_ucast_eq unsigned_drop_bit_eq) (simp add: take_bit_eq_mod drop_bit_eq_div)
  moreover have "t div 2 ^ 32 < 58" using t by (simp add: div_less_iff_less_mult)
  ultimately show ?thesis by (simp add: b58_step_def Let_def t_def)
qed

lemma b58_mul_value:
  assumes "unat c < 58"
  shows "\<exists>ws' c'. b58_mul ws c = (ws', c') \<and> length ws' = length ws \<and> unat c' < 58 \<and>
    words_value ws' + unat c' * (2 ^ 32) ^ length ws = 58 * words_value ws + unat c"
proof (induction ws)
  case (Cons w ws)
  then obtain ws' c' where IH: "foldr b58_step ws ([], c) = (ws', c')" "length ws' = length ws" "unat c' < 58"
    "words_value ws' + unat c' * (2 ^ 32) ^ length ws = 58 * words_value ws + unat c" unfolding b58_mul_def by blast
  obtain w' c'' where step: "b58_step w (ws', c') = (w' # ws', c'')" "unat c'' < 58" "unat w' + unat c'' * 2 ^ 32 = 58 * unat w + unat c'"
    using b58_step_value [OF IH(3)] by blast
  define M :: nat where "M = (2 ^ 32) ^ length ws"
  have "(unat w' + unat c'' * 2 ^ 32) * M = (58 * unat w + unat c') * M" by (simp only: step(3))
  then have "words_value (w' # ws') + unat c'' * (2 ^ 32) ^ length (w # ws) = 58 * words_value (w # ws) + unat c"
    using IH(4) unfolding list.map radix.simps length_map IH(2) M_def [symmetric] list.size(4) power_add power_one_right
    by (simp only: algebra_simps power_Suc0_right)
  then show ?case using IH(1,2) step(1,2) by (simp add: b58_mul_def)
qed (use assms in \<open>simp add: b58_mul_def\<close>)

section \<open>The tables of digits\<close>

definition b58_char :: "nat \<Rightarrow> u8" where
  "b58_char d = b58digits_ordered ! d"

definition b58_digit :: "u8 \<Rightarrow> nat" where
  "b58_digit ch = nat (b58digits_map ! unat ch)"

definition b58_valid :: "u8 \<Rightarrow> bool" where
  "b58_valid ch \<longleftrightarrow> ch AND 0x80 = 0 \<and> b58digits_map ! unat ch \<noteq> - 1"

lemma b58digits_ordered_bytes [code]: "b58digits_ordered = [
    49, 50, 51, 52, 53, 54, 55, 56, 57, 65, 66, 67, 68, 69, 70, 71, 72, 74, 75, 76, 77, 78, 80, 81, 82,
    83, 84, 85, 86, 87, 88, 89, 90, 97, 98, 99, 100, 101, 102, 103, 104, 105, 106, 107, 109, 110, 111,
    112, 113, 114, 115, 116, 117, 118, 119, 120, 121, 122]"
  by (simp add: b58digits_ordered_def)

lemma b58_char_table:
  "list_all (\<lambda>d. b58_valid (b58_char d) \<and> b58_digit (b58_char d) = d \<and> (b58_char d = 0x31) = (d = 0)) [0..<58]"
  by code_simp

lemma b58_digit_table:
  "list_all (\<lambda>(ch, d). d \<noteq> - 1 \<longrightarrow> 0 \<le> d \<and> d < 58 \<and> b58_char (nat d) = ch) (zip (map word_of_nat [0..<128]) b58digits_map)"
  by code_simp

lemma length_b58digits_map: "length b58digits_map = 128"
  by (simp add: b58digits_map_def)

lemma b58_char:
  assumes "d < 58"
  shows "b58_valid (b58_char d)" "b58_digit (b58_char d) = d" "b58_char d = 0x31 \<longleftrightarrow> d = 0"
proof -
  have "d \<in> set [0..<58]" using assms by simp
  then have "b58_valid (b58_char d) \<and> b58_digit (b58_char d) = d \<and> (b58_char d = 0x31) = (d = 0)"
    using b58_char_table unfolding list_all_iff by blast
  then show "b58_valid (b58_char d)" "b58_digit (b58_char d) = d" "b58_char d = 0x31 \<longleftrightarrow> d = 0" by blast+
qed

lemma high_bit_clear: "ch AND 0x80 = 0 \<Longrightarrow> unat (ch :: u8) < 128"
proof -
  assume "ch AND 0x80 = 0"
  then have "\<not> bit (ch AND 0x80) 7" by simp
  then have "\<not> bit ch 7" by (simp add: bit_simps)
  then have "n < 7" if "bit ch n" for n using that bit_imp_le_length [OF that] by (cases "n = 7") simp_all
  then have "take_bit 7 ch = ch" by (intro bit_eqI) (auto simp: bit_simps)
  from arg_cong [OF this, of unat] have "unat ch mod 2 ^ 7 = unat ch" by (simp only: unsigned_take_bit_eq take_bit_nat_def)
  moreover have "unat ch mod 2 ^ 7 < 2 ^ 7" by (rule mod_less_divisor) simp
  ultimately have "unat ch < 2 ^ 7" by (simp only:)
  then show ?thesis by simp
qed

lemma b58_digit:
  assumes "b58_valid ch"
  shows "b58_digit ch < 58" "b58_char (b58_digit ch) = ch" "b58digits_map ! unat ch = int (b58_digit ch)"
proof -
  have "unat ch < 128" using assms high_bit_clear by (simp add: b58_valid_def)
  then have "(map word_of_nat [0..<128] ! unat ch, b58digits_map ! unat ch) \<in> set (zip (map word_of_nat [0..<128]) b58digits_map)"
    unfolding set_zip length_map length_upt length_b58digits_map by (simp only: diff_zero min.idem) blast
  moreover have "map word_of_nat [0..<128] ! unat ch = ch" using \<open>unat ch < 128\<close> by simp
  ultimately have "0 \<le> b58digits_map ! unat ch \<and> b58digits_map ! unat ch < 58 \<and> b58_char (nat (b58digits_map ! unat ch)) = ch"
    using b58_digit_table assms unfolding list_all_iff b58_valid_def by auto
  then show "b58_digit ch < 58" "b58_char (b58_digit ch) = ch" "b58digits_map ! unat ch = int (b58_digit ch)"
    by (auto simp: b58_digit_def)
qed

section \<open>The words of the decoder\<close>

definition b58_value :: "u8 list \<Rightarrow> nat" where
  "b58_value str = radix 58 (map b58_digit str)"

lemma b58_loop_value:
  assumes mask: "\<And>ws. length ws = n \<Longrightarrow> ws ! 0 AND zeromask = 0 \<longleftrightarrow> words_value ws < L" and L: "L \<le> (2 ^ 32) ^ n"
    and "length ws = n" "words_value ws < L"
  shows "case b58_loop zeromask ws str of
      None \<Rightarrow> \<not> (list_all b58_valid str \<and> words_value ws * 58 ^ length str + b58_value str < L)
    | Some ws' \<Rightarrow> list_all b58_valid str \<and> length ws' = n \<and> words_value ws' < L \<and>
        words_value ws' = words_value ws * 58 ^ length str + b58_value str"
  using assms(3,4)
proof (induction str arbitrary: ws)
  case Nil
  then show ?case by (simp add: b58_value_def)
next
  case (Cons ch str)
  show ?case
  proof (cases "b58_valid ch")
    case False
    then have "b58_loop zeromask ws (ch # str) = None" by (auto simp: b58_valid_def)
    then show ?thesis using False by simp
  next
    case True
    define d where "d = b58_digit ch"
    have d: "d < 58" "b58digits_map ! unat ch = int d" using b58_digit [OF True] by (simp_all add: d_def)
    have wd: "unat (word_of_int (int d) :: u32) = d" using d(1) by (simp add: unsigned_of_nat take_bit_nat_eq_self_iff)
    then obtain ws' c where mul: "b58_mul ws (word_of_int (int d)) = (ws', c)" "length ws' = n"
      "words_value ws' + unat c * (2 ^ 32) ^ n = 58 * words_value ws + d"
      using b58_mul_value [of "word_of_int (int d)" ws] d(1) Cons.prems(1) by auto
    have total: "words_value ws * 58 ^ length (ch # str) + b58_value (ch # str) = (58 * words_value ws + d) * 58 ^ length str + b58_value str"
      by (simp add: b58_value_def d_def algebra_simps)
    have loop: "b58_loop zeromask ws (ch # str) = (if c \<noteq> 0 \<or> ws' ! 0 AND zeromask \<noteq> 0 then None else b58_loop zeromask ws' str)"
      using True unfolding b58_valid_def b58_loop.simps d(2) mul(1) by auto
    show ?thesis
    proof (cases "58 * words_value ws + d < L")
      case True
      have "unat c = 0"
      proof (rule ccontr)
        assume "unat c \<noteq> 0"
        then have "1 * (2 ^ 32) ^ n \<le> unat c * (2 ^ 32) ^ n" by (intro mult_le_mono1) simp
        then show False using mul(3) True L by linarith
      qed
      then have eq: "words_value ws' = 58 * words_value ws + d" and c: "c = 0" using mul(3) by (simp_all add: unat_eq_0)
      have "ws' ! 0 AND zeromask = 0" unfolding mask [OF mul(2)] eq by (rule True)
      moreover have "words_value ws' < L" unfolding eq by (rule True)
      from Cons.IH [OF mul(2) this] have "case b58_loop zeromask ws' str of
          None \<Rightarrow> \<not> (list_all b58_valid str \<and> (58 * words_value ws + d) * 58 ^ length str + b58_value str < L)
        | Some ws' \<Rightarrow> list_all b58_valid str \<and> length ws' = n \<and> words_value ws' < L \<and>
            words_value ws' = (58 * words_value ws + d) * 58 ^ length str + b58_value str" unfolding eq .
      ultimately show ?thesis using c \<open>b58_valid ch\<close> unfolding loop total by (cases "b58_loop zeromask ws' str") simp_all
    next
      case False
      then have "c \<noteq> 0 \<or> ws' ! 0 AND zeromask \<noteq> 0" using mul(3) mask [OF mul(2)] by auto
      moreover have "(58 * words_value ws + d) * 1 \<le> (58 * words_value ws + d) * 58 ^ length str" by (rule mult_le_mono2) simp
      then have "\<not> (58 * words_value ws + d) * 58 ^ length str + b58_value str < L" using False unfolding mult_1_right by linarith
      ultimately show ?thesis unfolding loop total by simp
    qed
  qed
qed

lemma b58_bytes_Suc: "b58_bytes (Suc n) w = ucast (drop_bit (8 * n) w AND 0xff) # b58_bytes n w"
  by (simp add: b58_bytes_def)

lemma b58_bytes_length: "length (b58_bytes n w) = n"
  by (simp add: b58_bytes_def)

lemma u32_bound: "unat (w :: u32) < 2 ^ 32"
  using unsigned_less [of w] by simp

lemma b58_byte_value: "unat (ucast (drop_bit (8 * n) (w :: u32) AND 0xff) :: u8) = unat w div 256 ^ n mod 256"
proof -
  have "v AND 0xff = take_bit 8 v" for v :: u32 by (simp only: take_bit_eq_mask) (simp add: mask_eq_exp_minus_1)
  then show ?thesis
    using u32_bound [of w]
    by (simp only: unsigned_ucast_eq unsigned_take_bit_eq unsigned_drop_bit_eq) (simp add: take_bit_eq_mod drop_bit_eq_div power_mult)
qed

lemma b58_bytes_value: "radix 256 (map unat (b58_bytes n w)) = unat w mod 256 ^ n"
proof (induction n)
  case 0
  then show ?case by (simp add: b58_bytes_def)
next
  case (Suc n)
  have "unat w mod (256 ^ n * 256) = 256 ^ n * (unat w div 256 ^ n mod 256) + unat w mod 256 ^ n" by (rule mod_mult2_eq)
  then show ?case
    unfolding b58_bytes_Suc list.map radix.simps b58_byte_value length_map b58_bytes_length Suc power_Suc2 by (simp only: mult.commute)
qed

lemma b58_words_bytes:
  "length (concat (map (b58_bytes 4) ws)) = 4 * length ws"
  "radix 256 (map unat (concat (map (b58_bytes 4) ws))) = words_value ws"
proof (induction ws)
  case (Cons w ws)
  have p: "(256 :: nat) ^ (4 * length ws) = (2 ^ 32) ^ length ws" by (simp only: power_mult) simp
  have "unat w mod 256 ^ 4 = unat w" using u32_bound [of w] by simp
  {
    case 1
    show ?case using Cons(1) by (simp add: b58_bytes_length)
  next
    case 2
    show ?case using Cons \<open>unat w mod 256 ^ 4 = unat w\<close> p by (simp add: radix_append b58_bytes_value)
  }
qed simp_all

lemma words_value_less: "words_value ws < (2 ^ 32) ^ length ws"
  using radix_less [of "map unat ws" "2 ^ 32"] u32_bound by simp

lemma high_mask_zero: "(w :: u32) AND push_bit m 0xFFFFFFFF = 0 \<longleftrightarrow> unat w < 2 ^ m"
proof -
  have "(0xFFFFFFFF :: u32) = - 1" by simp
  then have "w AND push_bit m 0xFFFFFFFF = 0 \<longleftrightarrow> take_bit m w = w"
    by (auto simp: push_bit_minus_one_eq_not_mask bit_eq_iff bit_simps)
  also have "\<dots> \<longleftrightarrow> unat w mod 2 ^ m = unat w" by (simp only: word_unat_eq_iff unsigned_take_bit_eq take_bit_nat_def)
  also have "\<dots> \<longleftrightarrow> unat w < 2 ^ m" by (metis mod_less mod_less_divisor zero_less_numeral zero_less_power)
  finally show ?thesis .
qed

lemma b58_mask:
  assumes "0 < binsz" "length ws = (binsz + 4 - 1) div 4"
  shows "ws ! 0 AND (if binsz mod 4 \<noteq> 0 then push_bit (binsz mod 4 * 8) 0xFFFFFFFF else 0) = 0 \<longleftrightarrow> words_value ws < 256 ^ binsz"
proof -
  obtain w ws' where ws: "ws = w # ws'" using assms by (cases ws) auto
  have p: "(256 :: nat) ^ (4 * k + r) = 256 ^ r * (2 ^ 32) ^ k" for k r by (simp only: power_add power_mult) simp
  show ?thesis
  proof (cases "binsz mod 4 = 0")
    case True
    then have "binsz = 4 * length ws + 0" using assms by presburger
    then have "256 ^ binsz = 1 * ((2 :: nat) ^ 32) ^ length ws" by (simp only: p power_0)
    then show ?thesis using True words_value_less [of ws] by simp
  next
    case False
    define r where "r = binsz mod 4"
    have "binsz = 4 * length ws' + r" using assms(2) False unfolding ws r_def list.size by presburger
    then have P: "256 ^ binsz = 256 ^ r * ((2 :: nat) ^ 32) ^ length ws'" by (simp only: p)
    define M :: nat where "M = (2 ^ 32) ^ length ws'"
    have R: "words_value ws' < M" unfolding M_def by (rule words_value_less)
    have "words_value ws < 256 ^ binsz \<longleftrightarrow> unat w * M + words_value ws' < 256 ^ r * M" unfolding P ws by (simp add: M_def)
    also have "\<dots> \<longleftrightarrow> unat w < 256 ^ r"
    proof
      assume "unat w * M + words_value ws' < 256 ^ r * M"
      then have "unat w * M < 256 ^ r * M" by linarith
      then show "unat w < 256 ^ r" by (simp only: mult_less_cancel2)
    next
      assume "unat w < 256 ^ r"
      then have "(unat w + 1) * M \<le> 256 ^ r * M" by (intro mult_le_mono1) simp
      then show "unat w * M + words_value ws' < 256 ^ r * M" using R by simp
    qed
    also have "\<dots> \<longleftrightarrow> w AND push_bit (r * 8) 0xFFFFFFFF = 0" unfolding high_mask_zero by (simp add: mult.commute [of r] power_mult)
    finally show ?thesis using False by (simp add: ws r_def)
  qed
qed

section \<open>The decoder\<close>

text \<open>Zero bytes in front make a number of \<open>n\<close> bytes.\<close>

definition b58_out :: "nat \<Rightarrow> u32 list \<Rightarrow> u8 list" where
  "b58_out binsz outi =
     (if binsz mod 4 \<noteq> 0 then b58_bytes (binsz mod 4) (outi ! 0) @ concat (map (b58_bytes 4) (drop 1 outi))
      else concat (map (b58_bytes 4) outi))"

lemma b58_out_value:
  assumes "0 < binsz" "length ws = (binsz + 4 - 1) div 4" "words_value ws < 256 ^ binsz"
  shows "length (b58_out binsz ws) = binsz" "radix 256 (map unat (b58_out binsz ws)) = words_value ws"
proof -
  obtain w ws' where ws: "ws = w # ws'" using assms(1,2) by (cases ws) auto
  have "length (b58_out binsz ws) = binsz \<and> radix 256 (map unat (b58_out binsz ws)) = words_value ws"
  proof (cases "binsz mod 4 = 0")
    case True
    then have "binsz = 4 * length ws" using assms(1,2) by presburger
    then show ?thesis using b58_words_bytes [of ws] True unfolding b58_out_def by simp
  next
    case False
    define r where "r = binsz mod 4"
    have n: "binsz = 4 * length ws' + r" using assms(2) False unfolding ws r_def list.size by presburger
    have out: "b58_out binsz ws = b58_bytes r w @ concat (map (b58_bytes 4) ws')" using False by (simp add: b58_out_def ws r_def)
    have "ws ! 0 AND push_bit (r * 8) 0xFFFFFFFF = 0" using b58_mask [OF assms(1,2)] assms(3) False by (simp only: r_def if_True not_False_eq_True)
    then have "unat w < 256 ^ r" unfolding ws high_mask_zero by (simp add: mult.commute [of r] power_mult)
    then have "unat w mod 256 ^ r = unat w" by simp
    moreover have "(256 :: nat) ^ (4 * length ws') = (2 ^ 32) ^ length ws'" by (simp only: power_mult) simp
    ultimately have "radix 256 (map unat (b58_out binsz ws)) = words_value ws" using b58_words_bytes [of ws']
      unfolding out unfolding ws by (simp add: radix_append b58_bytes_value)
    moreover have "length (b58_out binsz ws) = binsz" unfolding out using n b58_words_bytes(1) [of ws'] by (simp only: length_append b58_bytes_length)
    ultimately show ?thesis by blast
  qed
  then show "length (b58_out binsz ws) = binsz" "radix 256 (map unat (b58_out binsz ws)) = words_value ws" by blast+
qed

lemma leading_char: "\<forall>d \<in> set ds. d < 58 \<Longrightarrow> leading 0x31 (map b58_char ds) = leading 0 ds"
  by (induction ds) (simp_all add: b58_char(3))

text \<open>
  The result, in terms of numbers: the digits are valid, the number fits, and the buffer is the number in \<open>binsz\<close> bytes,
  with at least as many zero bytes in front as the string has digits \<open>1\<close>.
\<close>

lemma b58tobin_value:
  fixes str :: "u8 list"
  assumes "0 < binsz"
  defines "rest \<equiv> drop (leading 0x31 str) str"
  shows "case b58tobin binsz str of
      None \<Rightarrow> \<not> (list_all b58_valid rest \<and> b58_value rest < 256 ^ binsz \<and>
        (\<forall>bin :: u8 list. length bin = binsz \<and> radix 256 (map unat bin) = b58_value rest \<longrightarrow> leading 0x31 str \<le> leading 0 bin))
    | Some (bin, n) \<Rightarrow> list_all b58_valid rest \<and> length bin = binsz \<and> radix 256 (map unat bin) = b58_value rest \<and>
        leading 0x31 str \<le> leading 0 bin \<and> n = binsz - leading 0 bin + leading 0x31 str"
proof -
  define outisz where "outisz = (binsz + 4 - 1) div 4"
  define zeromask :: u32 where "zeromask = (if binsz mod 4 \<noteq> 0 then push_bit (binsz mod 4 * 8) 0xFFFFFFFF else 0)"
  have tobin: "b58tobin binsz str = (case b58_loop zeromask (replicate outisz 0) rest of None \<Rightarrow> None
     | Some outi \<Rightarrow> if leading 0x31 str > leading 0 (b58_out binsz outi) then None
         else Some (b58_out binsz outi, binsz - leading 0 (b58_out binsz outi) + leading 0x31 str))"
    using assms(1) unfolding b58tobin_def Let_def b58_out_def zeromask_def outisz_def rest_def by simp
  have mask: "ws ! 0 AND zeromask = 0 \<longleftrightarrow> words_value ws < 256 ^ binsz" if "length ws = outisz" for ws
    using b58_mask [OF assms(1)] that unfolding outisz_def zeromask_def by blast
  have "(256 :: nat) ^ binsz \<le> 256 ^ (4 * outisz)" using assms(1) by (intro power_increasing) (auto simp: outisz_def)
  then have L: "(256 :: nat) ^ binsz \<le> (2 ^ 32) ^ outisz" by (simp only: power_mult) simp
  have zero: "words_value (replicate outisz 0) = 0" by (simp del: power_numeral)
  note loop = b58_loop_value [where str = rest, OF mask L, of "replicate outisz 0", unfolded zero, simplified]
  show ?thesis
  proof (cases "b58_loop zeromask (replicate outisz 0) rest")
    case None
    then show ?thesis using loop tobin by auto
  next
    case (Some outi)
    have o: "list_all b58_valid rest" "length outi = (binsz + 4 - 1) div 4" "words_value outi < 256 ^ binsz" "words_value outi = b58_value rest"
      using loop Some unfolding outisz_def by simp_all
    note v = b58_out_value [OF assms(1) o(2,3), unfolded o(4)]
    show ?thesis
    proof (cases "leading 0x31 str > leading 0 (b58_out binsz outi)")
      case True
      then have "b58tobin binsz str = None" using tobin Some by simp
      moreover have "\<not> (\<forall>bin :: u8 list. length bin = binsz \<and> radix 256 (map unat bin) = b58_value rest \<longrightarrow> leading 0x31 str \<le> leading 0 bin)"
        using True v by (metis not_less)
      ultimately show ?thesis by (simp only: option.case) blast
    next
      case False
      then have "b58tobin binsz str = Some (b58_out binsz outi, binsz - leading 0 (b58_out binsz outi) + leading 0x31 str)" using tobin Some by simp
      then show ?thesis using False v o(1) by simp
    qed
  qed
qed

section \<open>Round trips\<close>

lemma unat_list_inj: "map unat (xs :: u8 list) = map unat ys \<Longrightarrow> xs = ys"
  by (simp add: inj_map_eq_map inj_def word_unat_eq_iff)

lemma bytes_unique:
  assumes "length (xs :: u8 list) = length ys" "radix 256 (map unat xs) = radix 256 (map unat ys)"
  shows "xs = ys"
proof (rule unat_list_inj, rule radix_inj [of _ _ 256])
  have "unat (b :: u8) < 256" for b using unsigned_less [of b] by simp
  then show "\<forall>d \<in> set (map unat xs). d < 256" "\<forall>d \<in> set (map unat ys). d < 256" by simp_all
qed (use assms in simp_all)

lemma leading_append: "zs = [] \<or> zs ! 0 \<noteq> a \<Longrightarrow> leading a (replicate n a @ zs) = n"
  unfolding leading_replicate by (cases zs) simp_all

lemma b58_string:
  fixes bin :: "u8 list"
  defines "str \<equiv> replicate (leading 0 bin) 0x31 @ map b58_char (b58_digits bin)"
  shows "leading 0x31 str = leading 0 bin" "drop (leading 0 bin) str = map b58_char (b58_digits bin)"
    "list_all b58_valid (map b58_char (b58_digits bin))" "b58_value (map b58_char (b58_digits bin)) = radix 256 (map unat bin)"
proof -
  have d: "\<forall>d \<in> set (b58_digits bin). d < 58" by (rule b58_digits_value(1))
  have "map b58_char (b58_digits bin) = [] \<or> map b58_char (b58_digits bin) ! 0 \<noteq> 0x31"
    using b58_digits_value(3) [of bin] d b58_char(3) by (cases "b58_digits bin") auto
  then show "leading 0x31 str = leading 0 bin" unfolding str_def by (rule leading_append)
  show "drop (leading 0 bin) str = map b58_char (b58_digits bin)" by (simp add: str_def)
  show "list_all b58_valid (map b58_char (b58_digits bin))" using d b58_char(1) by (simp add: list_all_iff)
  have "map b58_digit (map b58_char (b58_digits bin)) = b58_digits bin" unfolding map_map using d b58_char(2) by (intro map_idI) simp
  then show "b58_value (map b58_char (b58_digits bin)) = radix 256 (map unat bin)" unfolding b58_value_def by (simp only: b58_digits_value(2))
qed

lemma b58_char_nth: "b58_char = (!) b58digits_ordered"
  by (rule ext) (simp add: b58_char_def)

lemma b58enc_string: "b58enc b58sz bin = Inr str \<Longrightarrow> str = replicate (leading 0 bin) 0x31 @ map b58_char (b58_digits bin)"
  unfolding b58enc_digits Let_def b58_char_def by (auto split: if_splits)

theorem b58_roundtrip:
  assumes "b58enc b58sz bin = Inr str" "length bin \<le> binsz" "0 < binsz"
  shows "b58tobin binsz str = Some (replicate (binsz - length bin) 0 @ bin, length bin)"
proof -
  note s = b58_string [of bin, folded b58enc_string [OF assms(1)]]
  define pad where "pad = replicate (binsz - length bin) 0 @ bin"
  have pad: "length pad = binsz" "leading 0 pad = binsz - length bin + leading 0 bin" "radix 256 (map unat pad) = radix 256 (map unat bin)"
    using assms(2) by (simp_all add: pad_def leading_replicate radix_append)
  have unique: "bin' = pad" if "length bin' = binsz" "radix 256 (map unat bin') = radix 256 (map unat bin)" for bin' :: "u8 list"
    using that pad by (intro bytes_unique) simp_all
  have less: "radix 256 (map unat bin) < 256 ^ binsz" using radix_unat_less [of pad] pad by simp
  have le: "leading 0 bin \<le> length bin" by (rule leading_le)
  note tobin = b58tobin_value [OF assms(3), of str, unfolded s]
  show ?thesis
  proof (cases "b58tobin binsz str")
    case None
    have "leading 0 bin \<le> leading 0 bin'" if "length bin' = binsz \<and> radix 256 (map unat bin') = radix 256 (map unat bin)" for bin' :: "u8 list"
    proof -
      from that unique have "bin' = pad" by blast
      then show ?thesis using pad(2) by simp
    qed
    then have False using tobin less s(3) unfolding None option.case by blast
    then show ?thesis ..
  next
    case (Some p)
    obtain bin' n where p: "p = (bin', n)" by (cases p)
    have "length bin' = binsz \<and> radix 256 (map unat bin') = radix 256 (map unat bin)" and "n = binsz - leading 0 bin' + leading 0 bin"
      using tobin unfolding Some p option.case prod.case by blast+
    then have "bin' = pad" "n = binsz - leading 0 bin' + leading 0 bin" using unique by blast+
    then show ?thesis unfolding Some p pad_def [symmetric] using pad(2) assms(2) le by simp
  qed
qed

text \<open>A string that is decoded is the encoding of the result.\<close>

theorem b58_canonical:
  assumes "b58tobin binsz str = Some (bin, n)" "length str < b58sz"
  shows "n \<le> length bin \<and> b58enc b58sz (drop (length bin - n) bin) = Inr str"
proof -
  have pos: "0 < binsz" using assms(1) by (cases "binsz = 0") (simp_all add: b58tobin_def)
  define z rest i where "z = leading 0x31 str" and "rest = drop (leading 0x31 str) str" and "i = leading 0 bin"
  have v: "list_all b58_valid rest" "length bin = binsz" "radix 256 (map unat bin) = b58_value rest" "z \<le> i" "n = binsz - i + z"
    using b58tobin_value [OF pos, of str] unfolding assms(1) option.case prod.case rest_def z_def i_def by blast+
  have i: "i \<le> binsz" unfolding i_def v(2) [symmetric] by (rule leading_le)
  define nd where "nd = drop (length bin - n) bin"
  have "bin = replicate i 0 @ drop i bin" unfolding i_def by (rule leading_split)
  then have "nd = drop (i - z) (replicate i 0 @ drop i bin)" unfolding nd_def using v(2,4,5) i by simp
  then have nd: "nd = replicate z 0 @ drop i bin" using v(4) by simp
  have top: "drop i bin = [] \<or> drop i bin ! 0 \<noteq> 0" unfolding i_def by (rule leading_next)
  have lead: "leading 0 nd = z" unfolding nd by (rule leading_append [OF top])
  have "leading 0 (map unat bin) = i" unfolding i_def by (induction bin) (auto simp: unat_eq_0)
  then have "radix 256 (map unat (drop i bin)) = b58_value rest" using radix_drop_leading [of 256 "map unat bin"] v(3) by (simp add: drop_map)
  then have num: "radix 256 (map unat nd) = b58_value rest" unfolding nd by (simp add: radix_append)
  have chars: "map b58_char (map b58_digit rest) = rest"
    unfolding map_map using v(1) b58_digit(2) by (intro map_idI) (simp add: list_all_iff)
  have rest: "rest = [] \<or> rest ! 0 \<noteq> 0x31" unfolding rest_def by (rule leading_next)
  have top58: "map b58_digit rest = [] \<or> map b58_digit rest ! 0 \<noteq> 0"
  proof (cases rest)
    case (Cons ch cs)
    then have "b58_char (b58_digit ch) = ch" "b58_digit ch < 58" using v(1) b58_digit by simp_all
    then show ?thesis using rest b58_char(3) [of "b58_digit ch"] Cons by auto
  qed simp
  have "b58_digits nd = map b58_digit rest"
  proof -
    have "\<forall>d \<in> set (map b58_digit rest). d < 58" using v(1) b58_digit(1) by (auto simp: list_all_iff)
    moreover have "radix 58 (b58_digits nd) = radix 58 (map b58_digit rest)" using b58_digits_value(2) num by (simp add: b58_value_def)
    ultimately have "drop (leading 0 (b58_digits nd)) (b58_digits nd) = drop (leading 0 (map b58_digit rest)) (map b58_digit rest)"
      using b58_digits_value(1) by (intro radix_leading [of 58]) simp_all
    moreover have "leading 0 ds = 0" if "ds = [] \<or> ds ! 0 \<noteq> 0" for ds :: "nat list" using that by (cases ds) simp_all
    ultimately show ?thesis using top58 b58_digits_value(3) [of nd] by (metis drop_0)
  qed
  moreover have "str = replicate z 0x31 @ rest" unfolding z_def rest_def by (rule leading_split)
  ultimately have "b58enc b58sz nd = Inr str"
    using assms(2) chars lead unfolding b58enc_digits Let_def b58_char_nth [symmetric] by simp
  then show ?thesis using v(2,4,5) i unfolding nd_def by simp
qed

section \<open>Strings with a checksum\<close>

lemma b58_zeros_ok: "leading 0 bin = leading 0x31 str \<Longrightarrow> leading 0 bin < length bin \<Longrightarrow> b58_zeros bin str = Some 0"
proof (induction bin arbitrary: str)
  case (Cons b bin)
  then show ?case by (cases str) (auto split: if_splits)
qed simp

lemma leading_all: "leading a xs = length xs \<Longrightarrow> x \<in> set xs \<Longrightarrow> x = a"
  by (induction xs) (auto split: if_splits)

text \<open>
  C36. A string made by \<open>base58_encode_check\<close> is decoded to the data, for a buffer that is large enough, whatever the
  hash function is, when the data and the checksum are not all zero.
\<close>

theorem base58_check_roundtrip:
  assumes enc: "base58_encode_check hash data strsize = Some str" and len: "length data \<le> datalen" "datalen \<le> 128" "4 \<le> length (hash data)"
    and nz: "b \<in> set (data @ take 4 (hash data))" "b \<noteq> 0"
  shows "base58_decode_check hash str datalen = Some (Some data)"
proof -
  define nd where "nd = data @ take 4 (hash data)"
  have n: "length nd = length data + 4" using len(3) by (simp add: nd_def)
  have "b58enc strsize nd = Inr str"
    using enc len(1,2) by (simp add: base58_encode_check_def nd_def split: sum.splits)
  from b58_roundtrip [OF this, of "datalen + 4"] b58_string(1) [of nd, folded b58enc_string [OF this]]
  have tobin: "b58tobin (datalen + 4) str = Some (replicate (datalen - length data) 0 @ nd, length data + 4)"
    and lead: "leading 0 nd = leading 0x31 str" using n len(1) by simp_all
  have "leading 0 nd \<noteq> length nd" using nz leading_all [of 0 nd b] unfolding nd_def by blast
  then have "leading 0 nd < length nd" using leading_le [of 0 nd] by simp
  then have "b58_zeros nd str = Some 0" using lead by (intro b58_zeros_ok)
  then have "b58check hash nd str = Some (uint (nd ! 0))" using n by (simp add: b58check_def nd_def)
  then show ?thesis using len n tobin by (simp add: base58_decode_check_def Let_def nd_def)
qed

lemma encode_check_example:
  "base58_encode_check (\<lambda>d. [0, 0, 0, fold (+) d 99]) [0, 0] 20 = Some [49, 49, 49, 49, 49, 50, 105]"
  by code_simp

theorem base58_check_roundtrip_witness:
  "base58_decode_check (\<lambda>d. [0, 0, 0, fold (+) d 99]) [49, 49, 49, 49, 49, 50, 105] 3 = Some (Some [0, 0])"
  by (rule base58_check_roundtrip [OF encode_check_example, of 3 99]) simp_all

text \<open>
  C37. A string that \<open>base58_decode_check\<close> accepts is the one that \<open>base58_encode_check\<close> makes of the result: no two
  strings stand for the same data.
\<close>

theorem base58_check_canonical:
  assumes dec: "base58_decode_check hash str datalen = Some (Some data)" and len: "length str < strsize"
  shows "base58_encode_check hash data strsize = Some str"
proof -
  obtain d res where tobin: "b58tobin (datalen + 4) str = Some (d, res)" and dl: "datalen \<le> 128"
    using dec by (auto simp: base58_decode_check_def split: if_splits option.splits)
  define nd where "nd = drop (datalen + 4 - res) d"
  from tobin obtain r where check: "b58check hash nd str = Some r" "0 \<le> r" and data: "data = take (res - 4) nd"
    using dec dl by (auto simp: base58_decode_check_def nd_def Let_def split: option.splits if_splits)
  have d: "length d = datalen + 4" using b58tobin_value [of "datalen + 4" str] tobin by simp
  from b58_canonical [OF tobin len] have res: "res \<le> datalen + 4" and enc: "b58enc strsize nd = Inr str" unfolding d nd_def by simp_all
  have n: "length nd = res" using res d by (simp add: nd_def)
  have "4 \<le> res \<and> drop (res - 4) nd = take 4 (hash data)"
    using check n data unfolding b58check_def Let_def by (auto split: if_splits)
  then have "nd = data @ take 4 (hash data)" "length data = res - 4" "length (take 4 (hash data)) = 4"
    using data n by (metis append_take_drop_id, simp, metis diff_diff_cancel length_drop)
  then have "take (length data + 4) (data @ hash data) = nd" "length data \<le> 128" using res dl by simp_all
  then show ?thesis using enc by (simp add: base58_encode_check_def)
qed

lemma decode_check_example:
  "base58_decode_check (\<lambda>d. [0, 0, 0, fold (+) d 99]) [49, 49, 49, 49, 49, 50, 105] 3 = Some (Some [0, 0])"
  by code_simp

theorem base58_check_canonical_witness:
  "base58_encode_check (\<lambda>d. [0, 0, 0, fold (+) d 99]) [0, 0] 9 = Some [49, 49, 49, 49, 49, 50, 105]"
  by (rule base58_check_canonical [OF decode_check_example]) simp

end
