(* ===== verification/Drbg_Spec.thy ===== *)
theory Drbg_Spec
  imports Hmac_Drbg
begin

text \<open>
  The generator of NIST SP 800-90A on byte strings, the nonces of RFC 6979, and the refinement by \<open>hmac_drbg.c\<close>
  and \<open>rfc6979.c\<close>: the prepared states of HMAC stand for the key, the sixteen words for the value \<open>V\<close> and its padding.
\<close>

section \<open>The standards\<close>

abbreviation mac256 :: "u8 list \<Rightarrow> u8 list \<Rightarrow> u8 list" where
  "mac256 \<equiv> rfc2104_hmac 64 fips_sha256"

definition sp800_update :: "u8 list \<Rightarrow> u8 list \<times> u8 list \<Rightarrow> u8 list \<times> u8 list" where
  "sp800_update provided_data = (\<lambda>(K, V).
     let K = mac256 K (V @ [0] @ provided_data); V = mac256 K V in
     if provided_data = [] then (K, V)
     else let K = mac256 K (V @ [1] @ provided_data); V = mac256 K V in (K, V))"

definition sp800_instantiate :: "u8 list \<Rightarrow> u8 list \<times> u8 list" where
  "sp800_instantiate seed_material = sp800_update seed_material (replicate 32 0, replicate 32 1)"

primrec sp800_blocks :: "u8 list \<Rightarrow> u8 list \<Rightarrow> nat \<Rightarrow> u8 list \<times> u8 list" where
  "sp800_blocks K V 0 = (V, [])"
| "sp800_blocks K V (Suc n) = (let V = mac256 K V in case sp800_blocks K V n of (V', temp) \<Rightarrow> (V', V @ temp))"

definition sp800_generate :: "nat \<Rightarrow> u8 list \<times> u8 list \<Rightarrow> (u8 list \<times> u8 list) \<times> u8 list" where
  "sp800_generate n = (\<lambda>(K, V). case sp800_blocks K V ((n + 31) div 32) of (V, temp) \<Rightarrow> (sp800_update [] (K, V), take n temp))"

section \<open>Refinement\<close>

abbreviation tail256 :: "u32 list" where
  "tail256 \<equiv> [0x80000000, 0, 0, 0, 0, 0, 0, 768]"

definition drbg_rel :: "HMAC_DRBG_CTX \<Rightarrow> u8 list \<times> u8 list \<Rightarrow> bool" where
  "drbg_rel ctx = (\<lambda>(K, V). length K = 32 \<and> length V = 32 \<and>
     drbg_odig ctx = sha256_Transform sha256_initial_hash_value (be_words 4 (hmac256.okey K)) \<and>
     drbg_idig ctx = sha256_Transform sha256_initial_hash_value (be_words 4 (hmac256.ikey K)) \<and>
     drbg_v ctx = be_words 4 V @ tail256)"

lemma length_mac256 [simp]: "length (mac256 K m) = 32"
  by (simp add: rfc2104_hmac_def sha256_lengths)

lemma length_be_words: "length b = 4 * n \<Longrightarrow> length (be_words 4 b :: u32 list) = n"
  using hmac256.length_words(1) [of b n] by simp

lemma be_words_be_string: "be_words 4 (be_string 4 s) = (s :: u32 list)"
  by (rule be_words_string) (simp_all add: load_store_32)

lemma length_digs:
  "length (sha256_Transform sha256_initial_hash_value (be_words 4 (hmac256.okey K))) = 8"
  "length (sha256_Transform sha256_initial_hash_value (be_words 4 (hmac256.ikey K))) = 8"
  by (simp_all add: sha256_lengths iv_lengths hmac256.length_words)

lemma update_v_rel:
  assumes "drbg_rel ctx (K, V)"
  shows "drbg_rel (update_v ctx) (K, mac256 K V)"
proof -
  let ?O = "sha256_Transform sha256_initial_hash_value (be_words 4 (hmac256.okey K))"
  let ?I = "sha256_Transform sha256_initial_hash_value (be_words 4 (hmac256.ikey K))"
  have r: "length K = 32" "length V = 32" "drbg_odig ctx = ?O" "drbg_idig ctx = ?I" "drbg_v ctx = be_words 4 V @ tail256"
    using assms by (simp_all add: drbg_rel_def)
  have V: "length (be_words 4 V :: u32 list) = 8" using r(2) by (simp add: length_be_words)
  define i where "i = sha256_Transform ?I (be_words 4 V @ tail256)"
  have i: "length i = 8" unfolding i_def by (rule sha256_lengths) (simp_all add: length_digs V)
  define h where "h = sha256_Transform ?O (i @ tail256)"
  have "mac256 K V = be_string 4 h" using hmac256.hmac_digest [of V K] r(2) by (simp add: h_def i_def)
  then have "be_words 4 (mac256 K V) = h" by (simp add: be_words_be_string)
  moreover have "drbg_v (update_v ctx) = h @ tail256"
    unfolding update_v_def Let_def r(3-5) using V i by (simp add: i_def h_def)
  ultimately show ?thesis using r(1,3,4) by (simp add: drbg_rel_def update_v_def Let_def)
qed

lemma padding_97: "be_words 4 (0 # padding 64 56 length64 97) = [0x00800000, 0, 0, 0, 0, 0, 0, 776 :: u32]"
  by code_simp

text \<open>The first hash of HMAC in \<open>update_k\<close>, for an empty and for a longer message.\<close>

lemma inner_empty:
  assumes "length b = 64" "length V = 32"
  shows "fips_sha256 (b @ V @ [0]) = be_string 4 (sha256_Transform (sha256_Transform sha256_initial_hash_value (be_words 4 b))
     (be_words 4 V @ [0x00800000, 0, 0, 0, 0, 0, 0, 776]))"
proof -
  let ?p = "0 # padding 64 56 length64 97"
  have p: "length ?p = 32" by (simp add: padding_def length_length64)
  have "fold_blocks 64 fips_sha256_block sha256_initial_hash_value (b @ V @ ?p) =
      fips_sha256_block (fips_sha256_block sha256_initial_hash_value b) (V @ ?p)"
    using assms p by (simp add: fold_blocks_Cons fold_blocks_one)
  also have "\<dots> = sha256_Transform (sha256_Transform sha256_initial_hash_value (be_words 4 b)) (be_words 4 V @ be_words 4 ?p)"
    using assms p iv_lengths sha256_block(2) [of sha256_initial_hash_value b] by (simp add: be_words_append sha256_block_words)
  finally show ?thesis using assms by (simp add: fips_sha256_def fips_constants be_string_def padding_97)
qed

lemma inner_data:
  assumes "length b = 64" "length V = 32"
  shows "sha256_Final (foldl sha256_Update \<lparr>hstate = sha256_Transform sha256_initial_hash_value (be_words 4 b), bitcount = 776,
      hbuffer = (V @ replicate 32 0)[32 := domain]\<rparr> pieces) = fips_sha256 (b @ V @ [domain] @ concat pieces)"
proof -
  have "sha256.compress sha256_initial_hash_value b = sha256_Transform sha256_initial_hash_value (be_words 4 b)"
    using assms by (simp add: sha256.compress_def transform32_def words_reverse32 be_words_def)
  moreover have "take (Suc 0) ((replicate 32 0)[0 := domain]) = [domain]" by (simp add: numeral_eq_Suc)
  ultimately have "sha256.absorbed sha256_initial_hash_value \<lparr>hstate = sha256_Transform sha256_initial_hash_value (be_words 4 b), bitcount = 776,
      hbuffer = (V @ replicate 32 0)[32 := domain]\<rparr> (b @ V @ [domain])"
    using assms by (simp add: sha256.absorbed_def fold_blocks_Cons fold_blocks_short count64_of_def list_update_append)
  from sha256_absorbed_Final [OF sha256.updates_absorbed [OF this]] show ?thesis by (simp add: sha256_Update_def)
qed

lemma digest_words:
  assumes "length d = 32"
  shows "map REVERSE32 (take 8 (map load_le (chunks 4 d) @ replicate 8 0)) @ drop 8 (map load_le (chunks 4 d) @ replicate 8 0) =
    be_words 4 d @ replicate 8 0"
proof -
  have "length (chunks 4 d) = 8" using assms by (simp add: length_chunks)
  moreover have "map REVERSE32 (map load_le (chunks 4 d)) = be_words 4 d"
    using chunks_length [of 4 d] assms by (simp add: be_words_def REVERSE32_load)
  ultimately show ?thesis by (simp del: map_map)
qed

lemma value_bytes:
  assumes "length V = 32"
  shows "concat (map (\<lambda>w. store_le 4 (REVERSE32 w)) (take 8 (be_words 4 V @ tail256))) = V"
proof -
  have "length (chunks 4 V) = 8" using assms by (simp add: length_chunks)
  moreover have "store_le 4 (REVERSE32 (be_word b)) = b" if "length b = 4" for b :: "u8 list"
    using store_REVERSE32 [of "rev b"] that by (simp add: be_word_def)
  then have "map (\<lambda>w. store_le 4 (REVERSE32 w)) (be_words 4 V) = chunks 4 V"
    using chunks_length [of 4 V] assms by (simp add: be_words_def map_idI)
  moreover have "concat (chunks 4 V) = V" using concat_chunks [of 4 V] by simp
  ultimately show ?thesis by (simp add: be_words_def)
qed

text \<open>The states that are prepared from the words of a new key.\<close>

lemma key_words:
  assumes "length K = 32"
  shows "be_words 4 (hmac256.ikey K) = map (\<lambda>w. w XOR 0x36363636) (be_words 4 K @ replicate 8 0 :: u32 list)"
    "be_words 4 (hmac256.okey K) = map (\<lambda>w. w XOR 0x5c5c5c5c) (be_words 4 K @ replicate 8 0 :: u32 list)"
proof -
  have "be_words 4 (replicate 32 0) = replicate 8 (0 :: u32)" by code_simp
  then have k: "be_words 4 (key_block 64 fips_sha256 K) = be_words 4 K @ replicate 8 (0 :: u32)"
    using assms by (simp add: key_block_def Let_def be_words_append)
  have d: "4 dvd length (key_block 64 fips_sha256 K)" unfolding hmac256.length_key_block by simp
  show "be_words 4 (hmac256.ikey K) = map (\<lambda>w. w XOR 0x36363636) (be_words 4 K @ replicate 8 0 :: u32 list)"
    "be_words 4 (hmac256.okey K) = map (\<lambda>w. w XOR 0x5c5c5c5c) (be_words 4 K @ replicate 8 0 :: u32 list)"
    by (simp_all only: hmac256.ikey_def hmac256.okey_def k hmac256.words_xor [OF d pad_words(2) [symmetric]] hmac256.words_xor [OF d pad_words(1) [symmetric]])
qed

lemma drbg_relD:
  assumes "drbg_rel ctx (K, V)"
  shows "length K = 32" "length V = 32" "length (be_words 4 V :: u32 list) = 8" "drbg_v ctx = be_words 4 V @ tail256"
    "drbg_odig ctx = sha256_Transform sha256_initial_hash_value (be_words 4 (hmac256.okey K))"
    "drbg_idig ctx = sha256_Transform sha256_initial_hash_value (be_words 4 (hmac256.ikey K))"
  using assms by (simp_all add: drbg_rel_def length_be_words)

lemma update_k_inner_eq:
  assumes rel: "drbg_rel ctx (K, V)" and "data1 @ data2 = [] \<longrightarrow> domain = 0"
  shows "update_k_inner ctx domain data1 data2 = (ctx, be_words 4 (fips_sha256 (hmac256.ikey K @ V @ [domain] @ data1 @ data2)) @ replicate 8 0)"
proof (cases "data1 @ data2 = []")
  case True
  note r = drbg_relD [OF rel]
  have "be_words 4 (fips_sha256 (hmac256.ikey K @ V @ [0])) = sha256_Transform (drbg_idig ctx) (be_words 4 V @ [0x00800000, 0, 0, 0, 0, 0, 0, 776])"
    using inner_empty [of "hmac256.ikey K" V] r(2,6) by (simp add: be_words_be_string)
  moreover have "ctx\<lparr>drbg_v := be_words 4 V @ tail256\<rparr> = ctx" using r(4) by (cases ctx) simp
  ultimately show ?thesis using True r(3) assms(2) by (simp add: update_k_inner_def Let_def r(4) list_update_append)
next
  case False
  note r = drbg_relD [OF rel]
  define inner where "inner = fips_sha256 (hmac256.ikey K @ V @ [domain] @ data1 @ data2)"
  have final: "sha256_Final (sha256_Update (sha256_Update \<lparr>hstate = drbg_idig ctx, bitcount = (64 + 32 + 1) * 8,
      hbuffer = (V @ replicate 32 0)[32 := domain]\<rparr> data1) data2) = inner"
    using inner_data [of "hmac256.ikey K" V domain "[data1, data2]"] r(2,6) by (simp add: inner_def)
  have "length inner = 32" by (simp add: inner_def sha256_lengths)
  then have "update_k_inner ctx domain data1 data2 = (ctx, be_words 4 inner @ replicate 8 0)"
    using False unfolding update_k_inner_def Let_def r(4) value_bytes [OF r(2)] final digest_words [OF \<open>length inner = 32\<close>] by auto
  then show ?thesis by (simp only: inner_def)
qed

lemma update_k_rel:
  assumes rel: "drbg_rel ctx (K, V)" and "data1 @ data2 = [] \<longrightarrow> domain = 0"
  shows "drbg_rel (update_k ctx domain data1 data2) (mac256 K (V @ [domain] @ data1 @ data2), V)"
proof -
  note r = drbg_relD [OF rel]
  define inner where "inner = fips_sha256 (hmac256.ikey K @ V @ [domain] @ data1 @ data2)"
  define K' where "K' = mac256 K (V @ [domain] @ data1 @ data2)"
  have l: "length inner = 32" "length K' = 32" by (simp_all add: inner_def K'_def sha256_lengths)
  then have w: "length (be_words 4 inner :: u32 list) = 8" "length (be_words 4 K' :: u32 list) = 8" by (simp_all add: length_be_words)
  have K': "sha256_Transform (drbg_odig ctx) (be_words 4 inner @ tail256) = be_words 4 K'"
    using hmac256.two_blocks [of "hmac256.okey K" inner] l(1) unfolding r(5)
    by (simp add: K'_def rfc2104_hmac_def inner_def be_words_be_string flip: hmac256.okey_def hmac256.ikey_def)
  have "(be_words 4 inner @ replicate 8 0)[8 := 0x80000000, 15 := (64 + 32) * 8] = be_words 4 inner @ tail256"
    using w(1) by (simp add: list_update_append numeral_eq_Suc)
  moreover have "drop 8 (be_words 4 inner @ tail256) = tail256" using w(1) by simp
  moreover have "(be_words 4 K' @ tail256)[8 := 0, 15 := 0] = be_words 4 K' @ replicate 8 (0 :: u32)"
    using w(2) by (simp add: list_update_append numeral_eq_Suc)
  ultimately have "update_k ctx domain data1 data2 =
      (let h = map (\<lambda>w. w XOR 0x36363636) (be_words 4 K' @ replicate 8 0) in
       ctx\<lparr>drbg_idig := sha256_Transform sha256_initial_hash_value h,
         drbg_odig := sha256_Transform sha256_initial_hash_value (map (\<lambda>w. w XOR 0x36363636 XOR 0x5c5c5c5c) h)\<rparr>)"
    unfolding update_k_def update_k_inner_eq [OF assms] inner_def [symmetric] Let_def prod.case by (simp only: K')
  moreover have "map (\<lambda>w. w XOR 0x36363636 XOR 0x5c5c5c5c) (map (\<lambda>w. w XOR 0x36363636) ws) = map (\<lambda>w. w XOR 0x5c5c5c5c) ws" for ws :: "u32 list"
    by (simp add: xor.assoc)
  ultimately show ?thesis
    using r(2,4) l(2) unfolding K'_def [symmetric] drbg_rel_def prod.case key_words [OF l(2)] by (simp add: Let_def del: map_map map_append)
qed

lemma drbg_rel_lengths: "drbg_rel ctx (K, V) \<Longrightarrow> length K = 32 \<and> length V = 32"
  by (simp add: drbg_rel_def)

lemma reseed_rel:
  assumes "drbg_rel ctx s" "entropy \<noteq> [] \<or> addin = []"
  shows "drbg_rel (hmac_drbg_reseed ctx entropy addin) (sp800_update (entropy @ addin) s)"
proof -
  obtain K V where s: "s = (K, V)" by (cases s)
  note rel = assms(1) [unfolded s]
  define K1 where "K1 = mac256 K (V @ [0] @ entropy @ addin)"
  have 1: "drbg_rel (update_v (update_k ctx 0 entropy addin)) (K1, mac256 K1 V)"
    unfolding K1_def by (intro update_v_rel update_k_rel rel) simp
  show ?thesis
  proof (cases "entropy = []")
    case True
    then show ?thesis using 1 assms(2) by (simp add: hmac_drbg_reseed_def sp800_update_def s Let_def K1_def)
  next
    case False
    then have "drbg_rel (update_v (update_k (update_v (update_k ctx 0 entropy addin)) 1 entropy addin)) (sp800_update (entropy @ addin) s)"
      using update_v_rel [OF update_k_rel [OF 1, of entropy addin 1]] by (simp add: sp800_update_def s Let_def K1_def)
    then show ?thesis using False by (simp add: hmac_drbg_reseed_def Let_def)
  qed
qed

lemma init_rel:
  assumes "entropy \<noteq> [] \<or> nonce = []"
  shows "drbg_rel (hmac_drbg_init entropy nonce) (sp800_instantiate (entropy @ nonce))"
proof -
  have i: "map load_le (chunks 4 (replicate 64 0x36)) = replicate 16 (0x36363636 :: u32)" by code_simp
  have o: "map load_le (chunks 4 (replicate 64 0x5c)) = replicate 16 (0x5c5c5c5c :: u32)" by code_simp
  have v: "(map load_le (chunks 4 (replicate 32 1)) @ replicate 8 0)[8 := 0x80000000, 15 := (64 + 32) * 8] = be_words 4 (replicate 32 1) @ tail256"
    by code_simp
  have z: "be_words 4 (replicate 32 0) = replicate 8 (0 :: u32)" by code_simp
  have "drbg_rel \<lparr>drbg_odig = sha256_Transform sha256_initial_hash_value (map load_le (chunks 4 (replicate 64 0x5c))),
      drbg_idig = sha256_Transform sha256_initial_hash_value (map load_le (chunks 4 (replicate 64 0x36))),
      drbg_v = (map load_le (chunks 4 (replicate 32 1)) @ replicate 8 0)[8 := 0x80000000, 15 := (64 + 32) * 8]\<rparr> (replicate 32 0, replicate 32 1)"
    unfolding drbg_rel_def i o v prod.case by (simp add: key_words z flip: replicate_add)
  from reseed_rel [OF this assms] show ?thesis unfolding hmac_drbg_init_def Let_def sp800_instantiate_def .
qed

lemma drbg_bytes_eq: "drbg_bytes w = be_bytes 4 w"
proof -
  have "v AND 0xFF = take_bit 8 v" for v :: u32 by (simp only: take_bit_eq_mask) (simp add: mask_eq_exp_minus_1)
  then have "ucast (v AND 0xFF) = (ucast v :: u8)" for v :: u32 by (auto intro!: bit_word_eqI simp: bit_simps)
  moreover have "[0..<4] = [0, 1, 2, 3 :: nat]" by code_simp
  ultimately show ?thesis by (simp add: drbg_bytes_def be_bytes_def store_le_def)
qed

lemma value_output: "drbg_rel ctx (K, V) \<Longrightarrow> concat (map drbg_bytes (take 8 (drbg_v ctx))) = V"
proof -
  assume rel: "drbg_rel ctx (K, V)"
  note r = drbg_relD [OF rel]
  have eq: "drbg_bytes = (\<lambda>w. store_le 4 (REVERSE32 w))"
  proof
    show "drbg_bytes w = store_le 4 (REVERSE32 w)" for w
      using store_REVERSE32 [of "store_le 4 w"] by (simp add: drbg_bytes_eq be_bytes_def load_store_32)
  qed
  show ?thesis unfolding r(4) eq by (rule value_bytes [OF r(2)])
qed

lemma loop_rel:
  assumes "drbg_rel ctx (K, V)"
  shows "drbg_rel (fst (drbg_loop ctx len)) (K, fst (sp800_blocks K V ((len + 31) div 32))) \<and>
    snd (drbg_loop ctx len) = take len (snd (sp800_blocks K V ((len + 31) div 32)))"
  using assms
proof (induction ctx len arbitrary: V rule: drbg_loop.induct)
  case (1 ctx len)
  show ?case
  proof (cases "len = 0")
    case True
    then show ?thesis using 1(2) by (simp add: drbg_loop.simps)
  next
    case False
    have rel: "drbg_rel (update_v ctx) (K, mac256 K V)" by (rule update_v_rel [OF 1(2)])
    obtain c buf where l: "drbg_loop (update_v ctx) (len - 32) = (c, buf)" by fastforce
    obtain V' t where b: "sp800_blocks K (mac256 K V) ((len - 32 + 31) div 32) = (V', t)" by fastforce
    have "(len + 31) div 32 = Suc ((len - 32 + 31) div 32)"
    proof (cases "len \<le> 32")
      case True
      then have "len + 31 = 32 + (len - 1)" "(len - 1) div 32 = 0" using False by simp_all
      then show ?thesis using True by (simp only: div_add_self1)
    next
      case False
      then have "len + 31 = 32 + (len - 32 + 31)" by simp
      then show ?thesis by (simp only: div_add_self1)
    qed
    then have blocks: "sp800_blocks K V ((len + 31) div 32) = (V', mac256 K V @ t)" by (simp add: Let_def b)
    have IH: "drbg_rel c (K, V')" "buf = take (len - 32) t" using 1(1) [OF False refl refl rel] unfolding l b by simp_all
    show ?thesis using IH value_output [OF rel] False unfolding blocks drbg_loop.simps [of ctx len] Let_def l by simp
  qed
qed

lemma generate_rel:
  assumes "drbg_rel ctx s"
  shows "drbg_rel (fst (hmac_drbg_generate ctx len)) (fst (sp800_generate len s)) \<and>
    snd (hmac_drbg_generate ctx len) = snd (sp800_generate len s)"
proof -
  obtain K V where s: "s = (K, V)" by (cases s)
  obtain c buf where l: "drbg_loop ctx len = (c, buf)" by fastforce
  obtain V' t where b: "sp800_blocks K V ((len + 31) div 32) = (V', t)" by fastforce
  have rel: "drbg_rel c (K, V')" and buf: "buf = take len t" using loop_rel [OF assms [unfolded s], of len] l b by simp_all
  have "drbg_rel (update_v (update_k c 0 [] [])) (sp800_update [] (K, V'))"
    using update_v_rel [OF update_k_rel [OF rel, of "[]" "[]" 0]] by (simp add: sp800_update_def Let_def)
  then show ?thesis by (simp add: hmac_drbg_generate_def sp800_generate_def s l b buf Let_def)
qed

section \<open>Sequences of requests\<close>

datatype drbg_request = Reseed "u8 list" "u8 list" | Generate nat

text \<open>The standard asks for entropy in every reseeding.\<close>

fun request_ok :: "drbg_request \<Rightarrow> bool" where
  "request_ok (Reseed entropy addin) \<longleftrightarrow> entropy \<noteq> []"
| "request_ok (Generate len) \<longleftrightarrow> True"

fun drbg_outputs :: "HMAC_DRBG_CTX \<Rightarrow> drbg_request list \<Rightarrow> u8 list list" where
  "drbg_outputs ctx [] = []"
| "drbg_outputs ctx (Reseed entropy addin # rs) = drbg_outputs (hmac_drbg_reseed ctx entropy addin) rs"
| "drbg_outputs ctx (Generate len # rs) = (case hmac_drbg_generate ctx len of (ctx, buf) \<Rightarrow> buf # drbg_outputs ctx rs)"

fun sp800_outputs :: "u8 list \<times> u8 list \<Rightarrow> drbg_request list \<Rightarrow> u8 list list" where
  "sp800_outputs s [] = []"
| "sp800_outputs s (Reseed entropy addin # rs) = sp800_outputs (sp800_update (entropy @ addin) s) rs"
| "sp800_outputs s (Generate len # rs) = (case sp800_generate len s of (s, buf) \<Rightarrow> buf # sp800_outputs s rs)"

lemma outputs_rel: "drbg_rel ctx s \<Longrightarrow> list_all request_ok rs \<Longrightarrow> drbg_outputs ctx rs = sp800_outputs s rs"
proof (induction rs arbitrary: ctx s)
  case (Cons r rs)
  show ?case
  proof (cases r)
    case (Reseed entropy addin)
    then show ?thesis using Cons.IH [OF reseed_rel [OF Cons.prems(1), of entropy addin]] Cons.prems(2) by simp
  next
    case (Generate len)
    then show ?thesis using generate_rel [OF Cons.prems(1), of len] Cons.IH Cons.prems(2)
      by (cases "hmac_drbg_generate ctx len"; cases "sp800_generate len s") simp
  qed
qed simp

text \<open>
  C38. The generator of \<open>hmac_drbg.c\<close> is HMAC_DRBG of NIST SP 800-90A over SHA-256: initialized with entropy and a nonce, it
  answers every sequence of requests, to reseed and to generate any number of bytes, as the standard demands.
\<close>

theorem hmac_drbg_spec:
  assumes "entropy \<noteq> []" "list_all request_ok rs"
  shows "drbg_outputs (hmac_drbg_init entropy nonce) rs = sp800_outputs (sp800_instantiate (entropy @ nonce)) rs"
  using assms by (intro outputs_rel init_rel) simp_all

theorem hmac_drbg_spec_witness:
  "drbg_outputs (hmac_drbg_init [1, 2, 3] []) [Generate 40, Reseed [4] [5], Generate 3] =
   sp800_outputs (sp800_instantiate [1, 2, 3]) [Generate 40, Reseed [4] [5], Generate 3]"
  using hmac_drbg_spec [of "[1, 2, 3]" "[Generate 40, Reseed [4] [5], Generate 3]" "[]"] by simp

section \<open>RFC 6979\<close>

definition octets2int :: "u8 list \<Rightarrow> int" where
  "octets2int bs = foldl (\<lambda>n b. 256 * n + uint b) 0 bs"

definition int2octets :: "int \<Rightarrow> u8 list" where
  "int2octets z = map (\<lambda>i. word_of_int (z div 256 ^ i)) (rev [0..<32])"

text \<open>Steps a to g for the private key \<open>x\<close> and the hash reduced modulo the order, and the loop of step h without its test.\<close>

definition rfc6979_start :: "int \<Rightarrow> u8 list \<Rightarrow> u8 list \<Rightarrow> u8 list \<times> u8 list" where
  "rfc6979_start q x h1 =
     (let h = int2octets (octets2int h1 mod q);
          V = replicate 32 1; K = replicate 32 0;
          K = mac256 K (V @ [0] @ x @ h);
          V = mac256 K V;
          K = mac256 K (V @ [1] @ x @ h);
          V = mac256 K V in
      (K, V))"

fun rfc6979_candidate :: "u8 list \<times> u8 list \<Rightarrow> nat \<Rightarrow> int" where
  "rfc6979_candidate (K, V) 0 = octets2int (mac256 K V)"
| "rfc6979_candidate (K, V) (Suc n) =
     (let V = mac256 K V;
          K = mac256 K (V @ [0]);
          V = mac256 K V in
      rfc6979_candidate (K, V) n)"

text \<open>The number of the call \<open>n\<close> of \<open>generate_k_rfc6979\<close>.\<close>

fun nth_k :: "HMAC_DRBG_CTX \<Rightarrow> nat \<Rightarrow> bignum256" where
  "nth_k state 0 = snd (generate_k_rfc6979 state)"
| "nth_k state (Suc n) = nth_k (fst (generate_k_rfc6979 state)) n"

lemma octets2int_eq: "octets2int bs = le_val (rev bs)"
proof -
  have "foldl (\<lambda>n b. 256 * n + uint b) a bs = a * 256 ^ length bs + le_val (rev bs)" for a
    by (induction bs arbitrary: a) (simp_all add: horner_sum_append algebra_simps)
  from this [of 0] show ?thesis by (simp add: octets2int_def)
qed

lemma sp800_generate_32: "sp800_generate 32 (K, V) = (sp800_update [] (K, mac256 K V), mac256 K V)"
  by (simp add: sp800_generate_def Let_def)

lemma nth_k_value: "drbg_rel state s \<Longrightarrow> bn_val (nth_k state n) = rfc6979_candidate s n"
proof (induction n arbitrary: state s)
  case 0
  obtain K V where s: "s = (K, V)" by (cases s)
  have "snd (hmac_drbg_generate state 32) = mac256 K V"
    using generate_rel [OF 0, of 32] by (simp add: s sp800_generate_32)
  then have "nth_k state 0 = bn_read_be (mac256 K V)"
    by (cases "hmac_drbg_generate state 32") (simp add: generate_k_rfc6979_def generate_rfc6979_def)
  then show ?case using bn_read_be_eq [of "mac256 K V"] bn_read_le_correct(2) [of "rev (mac256 K V)"] by (simp add: s octets2int_eq)
next
  case (Suc n)
  obtain K V where s: "s = (K, V)" by (cases s)
  have "drbg_rel (fst (generate_k_rfc6979 state)) (sp800_update [] (K, mac256 K V))"
    using generate_rel [OF Suc.prems, of 32]
    by (cases "hmac_drbg_generate state 32") (simp add: s sp800_generate_32 generate_k_rfc6979_def generate_rfc6979_def)
  from Suc.IH [OF this] show ?case by (simp add: s sp800_update_def Let_def)
qed

lemma int2octets_value:
  assumes "0 \<le> z" "z < 2 ^ 256" 
  shows "length (int2octets z) = 32" "le_val (rev (int2octets z)) = z"
proof -
  show "length (int2octets z) = 32" by (simp add: int2octets_def)
  have "rev (int2octets z) = map (\<lambda>i. word_of_int (z div 256 ^ i)) [0..<32]" by (simp add: int2octets_def rev_map)
  then have "le_val (rev (int2octets z)) = horner_sum (\<lambda>i. z div 256 ^ i mod 256) 256 [0..<32]"
    by (simp add: horner_sum_map uint_word_of_int)
  also have "\<dots> = z mod 256 ^ 32" by (rule horner_digits) simp
  finally show "le_val (rev (int2octets z)) = z" using assms by simp
qed

lemma bn_write_be_octets:
  assumes "normalized x" "bn_val x < 2 ^ 256"
  shows "bn_write_be x = int2octets (bn_val x)"
proof -
  note w = bn_write_le_correct [OF assms(1)]
  note z = int2octets_value [OF bn_val_nonneg assms(2)]
  have "bn_write_le x = rev (int2octets (bn_val x))"
    using le_val_inj [of "bn_write_le x" "rev (int2octets (bn_val x))"] w z assms bn_val_nonneg [of x] by simp
  then show ?thesis by (simp add: bn_write_be_eq [OF assms(1)])
qed

text \<open>
  C39. The numbers that \<open>generate_k_rfc6979\<close> returns one after the other are the candidates of RFC 6979 for the private
  key, the hash and the order of the curve; the assertion of \<open>init_rfc6979\<close> holds for an order of 256 bits.
\<close>

theorem rfc6979_spec:
  assumes "length priv_key = 32" "length hash = 32" "normalized order" "2 ^ 255 \<le> bn_val order" "bn_val order < 2 ^ 256"
  shows "map_option (\<lambda>state n. bn_val (nth_k state n)) (init_rfc6979 priv_key hash (Some order)) =
    Some (rfc6979_candidate (rfc6979_start (bn_val order) priv_key hash))"
proof -
  define q where "q = bn_val order"
  have h: "normalized (bn_read_be hash)" "bn_val (bn_read_be hash) = octets2int hash"
    using bn_read_be_eq [OF assms(2)] bn_read_le_correct [of "rev hash"] assms(2) by (simp_all add: octets2int_eq)
  have "octets2int hash < 2 ^ 256" using le_val_bounds(2) [of "rev hash"] assms(2) by (simp add: octets2int_eq)
  then have "partly_reduced (bn_read_be hash) order" using h assms(4) by (simp add: partly_reduced_def)
  then obtain r where r: "bn_mod (bn_read_be hash) order = Some r" "fully_reduced r order" "bn_val r = octets2int hash mod q"
    using bn_mod_correct [OF _ assms(3)] assms(4) h(2) by (fastforce simp: q_def)
  have "256 \<le> bn_bitcount order"
  proof (rule ccontr)
    assume "\<not> 256 \<le> bn_bitcount order"
    then have "(2 :: int) ^ bn_bitcount order \<le> 2 ^ 255" by (intro power_increasing) simp_all
    then show False using bn_bitcount_correct [OF assms(3)] assms(4) by (auto simp: bit_length_of_def)
  qed
  moreover have "bn_write_be r = int2octets (octets2int hash mod q)"
    using bn_write_be_octets [of r] r(2,3) assms(5) by (simp add: fully_reduced_def)
  ultimately have init: "init_rfc6979 priv_key hash (Some order) = Some (hmac_drbg_init priv_key (int2octets (octets2int hash mod q)))"
    using r(1) by (simp add: init_rfc6979_def)
  have "priv_key \<noteq> []" using assms(1) by auto
  then have "drbg_rel (hmac_drbg_init priv_key (int2octets (octets2int hash mod q))) (rfc6979_start q priv_key hash)"
    using init_rel [of priv_key "int2octets (octets2int hash mod q)"]
    by (simp add: sp800_instantiate_def sp800_update_def rfc6979_start_def Let_def)
  from nth_k_value [OF this] show ?thesis unfolding init q_def by simp
qed

lemma secp256k1_order_ok:
  "normalized secp256k1_order" "2 ^ 255 \<le> bn_val secp256k1_order" "bn_val secp256k1_order < 2 ^ 256"
  by (simp_all add: secp256k1_order_def normalized_def bn_val_def)

theorem rfc6979_spec_witness:
  "map_option (\<lambda>state n. bn_val (nth_k state n)) (init_rfc6979 (replicate 32 1) (replicate 32 255) (Some secp256k1_order)) =
    Some (rfc6979_candidate (rfc6979_start (bn_val secp256k1_order) (replicate 32 1) (replicate 32 255)))"
  by (rule rfc6979_spec [OF _ _ secp256k1_order_ok]) simp_all

end
