(* ===== verification/Format_Spec.thy ===== *)
theory Format_Spec
  imports Bignum_Format
begin

text \<open>
  The Python reference of \<open>bn_format\<close> in its comment, on natural numbers and strings, and the proof that the routine writes
  the string of the reference, or reports that the buffer is too small.
\<close>

section \<open>The reference\<close>

definition digit_char :: "nat \<Rightarrow> u8" where
  "digit_char d = word_of_nat (0x30 + d)"

text \<open>The decimal notation, the notation with separators, and the notation padded with zeros.\<close>

fun decimal :: "nat \<Rightarrow> u8 list" where
  "decimal n = (if n < 10 then [digit_char n] else decimal (n div 10) @ [digit_char (n mod 10)])"

declare decimal.simps [simp del]

fun group3 :: "'a \<Rightarrow> 'a list \<Rightarrow> 'a list" where
  "group3 sep (a # b # c # d # ds) = a # b # c # sep # group3 sep (d # ds)"
| "group3 sep ds = ds"

primrec padded :: "nat \<Rightarrow> nat \<Rightarrow> u8 list" where
  "padded 0 n = []"
| "padded (Suc w) n = padded w (n div 10) @ [digit_char (n mod 10)]"

definition rstrip :: "'a \<Rightarrow> 'a list \<Rightarrow> 'a list" where
  "rstrip c s = rev (dropWhile (\<lambda>x. x = c) (rev s))"

definition scaled :: "nat \<Rightarrow> int \<Rightarrow> nat" where
  "scaled amount exponent = (if exponent \<ge> 0 then amount * 10 ^ nat exponent else amount div 10 ^ nat (- exponent))"

definition integer_str :: "nat \<Rightarrow> u8 \<Rightarrow> u8 list" where
  "integer_str n thousands = (if thousands = 0 then decimal n else rev (group3 thousands (rev (decimal n))))"

definition decimal_str :: "nat \<Rightarrow> nat \<Rightarrow> bool \<Rightarrow> u8 list" where
  "decimal_str part decimals trailing =
     (if decimals = 0 then []
      else let s = 0x2e # padded decimals part in if trailing then s else rstrip 0x2e (rstrip 0x30 s))"

definition format_string :: "nat \<Rightarrow> u8 list \<Rightarrow> u8 list \<Rightarrow> nat \<Rightarrow> int \<Rightarrow> bool \<Rightarrow> u8 \<Rightarrow> u8 list" where
  "format_string amount prefix suffix decimals exponent trailing thousands =
     (let amount = scaled amount exponent;
          d = 10 ^ decimals in
      prefix @ integer_str (amount div d) thousands @ decimal_str (amount mod d) decimals trailing @ suffix)"

section \<open>Writing from the end\<close>

lemma run_bind_simps [simp]: "run_bind (Inl e) f = Inl e" "run_bind (Inr x) f = f x"
  by (simp_all add: run_bind_def)

lemma run_bind_assoc: "run_bind (run_bind m f) g = run_bind m (\<lambda>x. run_bind (f x) g)"
  by (cases m) simp_all

lemma run_bind_return: "run_bind m Inr = m"
  by (cases m) simp_all

lemma add_output_chars_append: "add_output_chars (a @ b) st = run_bind (add_output_chars a st) (add_output_chars b)"
proof (induction a arbitrary: st)
  case (Cons c a)
  then show ?case by (cases "add_output_char c st") simp_all
qed simp

lemma add_output_chars_one: "add_output_chars [c] st = add_output_char c st"
  by (cases "add_output_char c st") simp_all

lemma add_output_chars_result:
  "pos \<le> length buf \<Longrightarrow> add_output_chars cs (buf, pos) =
     (if length cs \<le> pos then Inr (take (pos - length cs) buf @ rev cs @ drop pos buf, pos - length cs)
      else Inl No_Space)"
proof (induction cs arbitrary: buf pos)
  case Nil
  then show ?case by simp
next
  case (Cons c cs)
  show ?case
  proof (cases pos)
    case 0
    then show ?thesis by (simp add: add_output_char_def)
  next
    case (Suc p)
    then have "p < length buf" using Cons.prems by simp
    then have "drop p (buf[p := c]) = c # drop (Suc p) buf" by (simp add: drop_update_cancel Cons_nth_drop_Suc [symmetric])
    then show ?thesis using Cons.IH [of p "buf[p := c]"] Cons.prems Suc by (simp add: add_output_char_def)
  qed
qed

section \<open>Division by ten\<close>

text \<open>A number and its value.\<close>

definition holds :: "bignum256 \<Rightarrow> nat \<Rightarrow> bool" where
  "holds x n \<longleftrightarrow> normalized x \<and> bn_val x = int n"

lemma holds_zero: "holds x n \<Longrightarrow> bn_is_zero x \<longleftrightarrow> n = 0"
  by (simp add: holds_def bn_is_zero_iff)

lemma divmod10_holds:
  assumes "holds x n"
  shows "\<exists>q r. divmod10 x = Inr (q, r) \<and> holds q (n div 10) \<and> unat r = n mod 10"
proof -
  obtain q r where qr: "bn_long_division x 10 = Some (q, r)" "normalized q" "bn_val q = int n div 10" "uint r = int n mod 10"
    using bn_long_division_correct [of x 10] assms by (auto simp: holds_def)
  moreover from this have "unat r = n mod 10" by (metis int_ops(3) nat_int of_nat_numeral unat_eq_nat_uint zmod_int)
  ultimately show ?thesis by (simp add: divmod10_def bn_divmod10_def holds_def zdiv_int)
qed

lemma digit_char_eq: "unat (r :: u32) = n mod 10 \<Longrightarrow> ucast (0x30 + r) = digit_char (n mod 10)"
proof -
  assume r: "unat r = n mod 10"
  have "word_of_nat (unat r) = r" by simp
  then have "r = word_of_nat (n mod 10)" unfolding r by simp
  moreover have "ucast (word_of_nat k :: u32) = (word_of_nat k :: u8)" for k by (simp add: word_unat_eq_iff unsigned_ucast_eq unsigned_of_nat take_bit_take_bit)
  from this [of "0x30 + n mod 10"] have "ucast (0x30 + word_of_nat (n mod 10) :: u32) = digit_char (n mod 10)" by (simp add: digit_char_def)
  ultimately show ?thesis by simp
qed

lemma format_divide_holds: "holds x n \<Longrightarrow> \<exists>q. format_divide k x = Inr q \<and> holds q (n div 10 ^ k)"
proof (induction k arbitrary: x n)
  case (Suc k)
  obtain q r where qr: "divmod10 x = Inr (q, r)" "holds q (n div 10)" using divmod10_holds [OF Suc.prems] by blast
  show ?case
  proof (cases "n = 0")
    case True
    then show ?thesis using Suc.prems holds_zero [OF Suc.prems] by simp
  next
    case False
    then show ?thesis using Suc.IH [OF qr(2)] qr(1) holds_zero [OF Suc.prems] by (simp add: div_mult2_eq)
  qed
qed simp

section \<open>The fraction\<close>

lemma rstrip_snoc: "rstrip c (s @ [x]) = (if x = c then rstrip c s else s @ [x])"
  by (simp add: rstrip_def)

lemma digit_char_zero: "d < 10 \<Longrightarrow> digit_char d = 0x30 \<longleftrightarrow> d = 0"
  by (auto simp: digit_char_def word_of_nat_eq_0_iff dest!: dvd_imp_le)

lemma padded_zero: "padded w 0 = replicate w 0x30"
  by (induction w) (simp_all add: digit_char_def replicate_append_same)

lemma rstrip_replicate: "rstrip c (replicate n c) = []"
  by (simp add: rstrip_def dropWhile_replicate)

text \<open>The string that the loop writes, for the value \<open>n\<close>.\<close>

definition fraction :: "bool \<Rightarrow> nat \<Rightarrow> nat \<Rightarrow> u8 list" where
  "fraction keep w n = (if keep then padded w n else rstrip 0x30 (padded w n))"

lemma format_fraction_eq:
  assumes "holds x n"
  shows "\<exists>q. holds q (n div 10 ^ w) \<and> (\<forall>st. format_fraction trailing w fp x st =
    run_bind (add_output_chars (rev (fraction (trailing \<or> fp) w n)) st) (\<lambda>st. Inr (fp \<or> fraction (trailing \<or> fp) w n \<noteq> [], q, st)))"
  using assms
proof (induction w arbitrary: x n fp)
  case 0
  then show ?case by (auto simp: fraction_def rstrip_def)
next
  case (Suc w)
  obtain q r where qr: "divmod10 x = Inr (q, r)" "holds q (n div 10)" "unat r = n mod 10" using divmod10_holds [OF Suc.prems] by blast
  have z: "r = 0 \<longleftrightarrow> n mod 10 = 0" using qr(3) by (simp add: unat_eq_0 [symmetric])
  note c = digit_char_eq [OF qr(3)]
  show ?case
  proof (cases "fp \<or> r \<noteq> 0 \<or> trailing")
    case True
    obtain q' where q': "holds q' (n div 10 div 10 ^ w)" "\<And>st. format_fraction trailing w True q st =
        run_bind (add_output_chars (rev (padded w (n div 10))) st) (\<lambda>st. Inr (True, q', st))"
      using Suc.IH [OF qr(2), of True] by (auto simp: fraction_def)
    have f: "fraction (trailing \<or> fp) (Suc w) n = padded w (n div 10) @ [digit_char (n mod 10)]"
      using True z digit_char_zero [of "n mod 10"] by (auto simp: fraction_def rstrip_snoc)
    have "format_fraction trailing (Suc w) fp x st =
        run_bind (add_output_chars (rev (fraction (trailing \<or> fp) (Suc w) n)) st) (\<lambda>st. Inr (fp \<or> fraction (trailing \<or> fp) (Suc w) n \<noteq> [], q', st))" for st
      using True qr(1) unfolding f by (cases "add_output_char (digit_char (n mod 10)) st") (simp_all add: c q'(2))
    then show ?thesis using q'(1) by (auto simp: div_mult2_eq)
  next
    case False
    then have f: "fraction (trailing \<or> fp) (Suc w) n = fraction (trailing \<or> fp) w (n div 10)"
      using z by (simp add: fraction_def rstrip_snoc digit_char_def)
    show ?thesis
    proof (cases "n div 10 = 0")
      case True
      then have "fraction (trailing \<or> fp) (Suc w) n = []" using False unfolding f by (simp add: fraction_def padded_zero rstrip_replicate)
      moreover have "bn_is_zero q" "holds q (n div 10 ^ Suc w)" using True qr(2) holds_zero [OF qr(2)] by (simp_all add: div_mult2_eq)
      ultimately show ?thesis using False qr(1) by auto
    next
      case zero: False
      then show ?thesis using Suc.IH [OF qr(2), of fp] False qr holds_zero [OF qr(2)] f by (simp add: div_mult2_eq)
    qed
  qed
qed

section \<open>The digits before the point\<close>

text \<open>Digits from the last to the first, with separators; \<open>m\<close> digits were written before.\<close>

fun grouped :: "u8 \<Rightarrow> nat \<Rightarrow> u8 list \<Rightarrow> u8 list" where
  "grouped sep m [] = []"
| "grouped sep m [d] = [d]"
| "grouped sep m (d # e # ds) = d # (if sep \<noteq> 0 \<and> Suc m mod 3 = 0 then [sep] else []) @ grouped sep (Suc m) (e # ds)"

lemma grouped_group3: "m mod 3 = 0 \<Longrightarrow> sep \<noteq> 0 \<Longrightarrow> grouped sep m ds = group3 sep ds"
proof (induction ds arbitrary: m rule: length_induct)
  case (1 ds)
  have m: "Suc m mod 3 = 1" "Suc (Suc m) mod 3 = 2" "Suc (Suc (Suc m)) mod 3 = 0" using 1(2) by presburger+
  have IH: "grouped sep (Suc (Suc (Suc m))) es = group3 sep es" if "length es < length ds" for es
    by (rule 1(1) [rule_format, OF that m(3) 1(3)])
  show ?case using IH m 1(3) by (cases "(sep, ds)" rule: group3.cases) simp_all
qed

lemma grouped_none: "grouped 0 m ds = ds"
  by (induction "0 :: u8" m ds rule: grouped.induct) simp_all

lemma rev_decimal: "rev (decimal n) = (if n < 10 then [digit_char n] else digit_char (n mod 10) # rev (decimal (n div 10)))"
  by (subst decimal.simps) simp

lemma decimal_Nil: "decimal n \<noteq> []"
  by (subst decimal.simps) simp

lemma integer_str_grouped: "integer_str n thousands = rev (grouped thousands 0 (rev (decimal n)))"
  by (cases "thousands = 0") (simp_all add: integer_str_def grouped_none grouped_group3)

lemma rev_decimal_shift: "0 < n \<Longrightarrow> rev (decimal (n * 10 ^ k)) = replicate k 0x30 @ rev (decimal n)"
proof (induction k)
  case (Suc k)
  have "10 \<le> n * 10 ^ Suc k" using Suc.prems by (simp add: Suc_le_eq)
  moreover have "n * 10 ^ Suc k div 10 = n * 10 ^ k" "n * 10 ^ Suc k mod 10 = 0" by simp_all
  ultimately show ?case using Suc by (subst rev_decimal) (simp add: digit_char_def)
qed simp

lemma format_digits_eq:
  assumes "holds x n"
  shows "format_digits thousands m x st = add_output_chars (grouped thousands m (rev (decimal n))) st"
  using assms
proof (induction n arbitrary: x m st rule: less_induct)
  case (less n)
  obtain q r where qr: "divmod10 x = Inr (q, r)" "holds q (n div 10)" "unat r = n mod 10" using divmod10_holds [OF less.prems] by blast
  note c = digit_char_eq [OF qr(3)] and z = holds_zero [OF qr(2)]
  show ?case
  proof (cases "n < 10")
    case True
    then have "bn_is_zero q" "n mod 10 = n" using z by simp_all
    then show ?thesis using qr(1) c True
      by (cases "add_output_char (digit_char n) st") (simp_all add: format_digits.simps [of thousands m x st] rev_decimal [of n])
  next
    case False
    then have nz: "\<not> bn_is_zero q" and "n div 10 < n" using z by simp_all
    note IH = less.IH [OF \<open>n div 10 < n\<close> qr(2)]
    obtain e ds where e: "rev (decimal (n div 10)) = e # ds" using decimal_Nil [of "n div 10"] by (cases "rev (decimal (n div 10))") simp_all
    define sep where "sep = (if thousands \<noteq> 0 \<and> Suc m mod 3 = 0 then [thousands] else [])"
    have g: "grouped thousands m (rev (decimal n)) = digit_char (n mod 10) # sep @ grouped thousands (Suc m) (rev (decimal (n div 10)))"
      using False e by (simp add: rev_decimal [of n] sep_def)
    show ?thesis unfolding g format_digits.simps [of thousands m x st] using qr(1) c nz
      by (cases "add_output_char (digit_char (n mod 10)) st") (auto simp: sep_def IH add_output_chars_append run_bind_def split: sum.split)
  qed
qed

primrec zero_groups :: "u8 \<Rightarrow> nat \<Rightarrow> nat \<Rightarrow> u8 list" where
  "zero_groups sep 0 m = []"
| "zero_groups sep (Suc k) m = 0x30 # (if sep \<noteq> 0 \<and> Suc m mod 3 = 0 then [sep] else []) @ zero_groups sep k (Suc m)"

lemma format_zeros_eq:
  "format_zeros thousands k m st = run_bind (add_output_chars (zero_groups thousands k m) st) (\<lambda>st. Inr (m + k, st))"
proof (induction k arbitrary: m st)
  case (Suc k)
  then show ?case
    by (cases "add_output_char 0x30 st") (simp_all add: Let_def add_output_chars_append run_bind_def split: sum.split)
qed simp

lemma grouped_zeros:
  assumes "ds \<noteq> []"
  shows "grouped thousands m (replicate k 0x30 @ ds) = zero_groups thousands k m @ grouped thousands (m + k) ds"
proof (induction k arbitrary: m)
  case (Suc k)
  obtain e es where e: "replicate k 0x30 @ ds = e # es" using assms by (cases "replicate k 0x30 @ ds") simp_all
  have "grouped thousands m (replicate (Suc k) 0x30 @ ds) =
      0x30 # (if thousands \<noteq> 0 \<and> Suc m mod 3 = 0 then [thousands] else []) @ grouped thousands (Suc m) (replicate k 0x30 @ ds)"
    by (simp only: replicate_Suc append_Cons e grouped.simps)
  then show ?case using Suc.IH [of "Suc m"] by simp
qed simp

text \<open>Both loops write the integer part.\<close>

lemma format_integer:
  assumes "holds x n"
  shows "run_bind (if \<not> bn_is_zero x then format_zeros thousands k 0 st else Inr (0, st)) (\<lambda>(digits, st). format_digits thousands digits x st) =
    add_output_chars (rev (integer_str (n * 10 ^ k) thousands)) st"
proof (cases "n = 0")
  case True
  then show ?thesis using assms holds_zero [OF assms] by (simp add: format_digits_eq [OF assms] integer_str_grouped)
next
  case False
  then have "rev (integer_str (n * 10 ^ k) thousands) = zero_groups thousands k 0 @ grouped thousands k (rev (decimal n))"
    using decimal_Nil [of n] by (simp add: integer_str_grouped rev_decimal_shift grouped_zeros)
  then show ?thesis using False holds_zero [OF assms]
    by (simp add: format_zeros_eq format_digits_eq [OF assms] add_output_chars_append run_bind_assoc)
qed

section \<open>The whole routine\<close>

lemma padded_shift: "padded (w + k) (n * 10 ^ k) = padded w n @ replicate k 0x30"
proof (induction k)
  case (Suc k)
  have "n * 10 ^ Suc k div 10 = n * 10 ^ k" "n * 10 ^ Suc k mod 10 = 0" by simp_all
  then show ?case using Suc by (simp add: digit_char_def replicate_append_same)
qed simp

lemma padded_mod: "padded w (n mod 10 ^ w) = padded w n"
proof (induction w arbitrary: n)
  case (Suc w)
  have "n mod 10 ^ Suc w div 10 = n div 10 mod 10 ^ w" "n mod 10 ^ Suc w mod 10 = n mod 10"
    by (simp_all add: mod_mult2_eq mod_mod_cancel)
  then show ?case using Suc [of "n div 10"] by simp
qed simp

lemma rstrip_append_replicate: "rstrip c (s @ replicate k c) = rstrip c s"
  by (induction k) (simp_all add: replicate_append_same [symmetric] rstrip_snoc flip: append_assoc)

lemma rstrip_point:
  assumes "p \<noteq> c" "p \<notin> set s"
  shows "rstrip p (rstrip c (p # s)) = (if rstrip c s = [] then [] else p # rstrip c s)"
proof -
  have "dropWhile (\<lambda>x. x = c) (r @ [p]) = dropWhile (\<lambda>x. x = c) r @ [p]" for r using assms(1) by (induction r) simp_all
  then have c: "rstrip c (p # s) = p # rstrip c s" by (simp add: rstrip_def)
  have "set (rstrip c s) \<subseteq> set s" by (auto simp: rstrip_def dest: set_dropWhileD)
  then have "p \<notin> set (rstrip c s)" using assms(2) by blast
  then show ?thesis unfolding c
  proof (cases "rstrip c s" rule: rev_cases)
    case (snoc ys y)
    then show "rstrip p (p # rstrip c s) = (if rstrip c s = [] then [] else p # rstrip c s)"
      using \<open>p \<notin> set (rstrip c s)\<close> rstrip_snoc [of p "p # ys" y] by auto
  next
    case Nil
    then show "rstrip p (p # rstrip c s) = (if rstrip c s = [] then [] else p # rstrip c s)" by (simp add: rstrip_def [of p])
  qed
qed

lemma unat_digit_char: "d < 10 \<Longrightarrow> unat (digit_char d) = 48 + d"
  unfolding digit_char_def by (simp only: unsigned_of_nat) (simp add: take_bit_nat_eq_self)

lemma padded_point: "0x2e \<notin> set (padded w n)"
proof (induction w arbitrary: n)
  case (Suc w)
  have "unat (digit_char (n mod 10)) \<noteq> unat (0x2e :: u8)" using unat_digit_char [of "n mod 10"] by simp
  then have "digit_char (n mod 10) \<noteq> 0x2e" by metis
  then show ?case using Suc by auto
qed simp

definition fraction_str :: "bool \<Rightarrow> nat \<Rightarrow> nat \<Rightarrow> nat \<Rightarrow> u8 list" where
  "fraction_str trailing w k t =
     (let f = fraction trailing w t @ (if trailing then replicate k 0x30 else []) in if f = [] then [] else 0x2e # f)"

lemma decimal_str_eq:
  assumes "padded D N = padded w t @ replicate k 0x30" "D = w + k"
  shows "decimal_str (N mod 10 ^ D) D trailing = fraction_str trailing w k t"
proof (cases "D = 0")
  case True
  then show ?thesis using assms(2) by (simp add: decimal_str_def fraction_str_def fraction_def rstrip_def)
next
  case False
  have p: "padded D (N mod 10 ^ D) = padded w t @ replicate k 0x30" using assms(1) by (simp add: padded_mod)
  show ?thesis
  proof (cases trailing)
    case True
    moreover have "padded w t @ replicate k 0x30 \<noteq> []" using False assms(2) by (cases w) auto
    ultimately show ?thesis using False p by (simp add: decimal_str_def fraction_str_def fraction_def Let_def)
  next
    case nt: False
    have "0x2e \<notin> set (padded w t @ replicate k 0x30)" using padded_point by auto
    from rstrip_point [of "0x2e" "0x30", OF _ this] show ?thesis
      using False nt p by (simp add: decimal_str_def fraction_str_def fraction_def rstrip_append_replicate Let_def)
  qed
qed

lemma format_fraction_part:
  assumes "holds x t"
  shows "\<exists>q. holds q (t div 10 ^ w) \<and> (\<forall>st g.
    run_bind (if trailing \<and> k \<noteq> 0 then run_bind (add_output_chars (replicate k 0x30) st) (\<lambda>st. Inr (True, st)) else Inr (False, st)) (\<lambda>(fp, st).
    run_bind (format_fraction trailing w fp x st) (\<lambda>(fp, temp, st).
    run_bind (if fp then add_output_char 0x2e st else Inr st) (\<lambda>st. g temp st))) =
    run_bind (add_output_chars (rev (fraction_str trailing w k t)) st) (g q))"
proof -
  obtain q where q: "holds q (t div 10 ^ w)" and f: "\<And>st. format_fraction trailing w (trailing \<and> k \<noteq> 0) x st =
      run_bind (add_output_chars (rev (fraction trailing w t)) st) (\<lambda>st. Inr (trailing \<and> k \<noteq> 0 \<or> fraction trailing w t \<noteq> [], q, st))"
  proof -
    have "(trailing \<or> trailing \<and> k \<noteq> 0) = trailing" by blast
    with format_fraction_eq [OF assms, of w trailing "trailing \<and> k \<noteq> 0"] that show thesis by (simp only:) blast
  qed
  define z where "z = (if trailing then replicate k (0x30 :: u8) else [])"
  have first: "(if trailing \<and> k \<noteq> 0 then run_bind (add_output_chars (replicate k 0x30) st) (\<lambda>st. Inr (True, st)) else Inr (False, st)) =
      run_bind (add_output_chars z st) (\<lambda>st. Inr (trailing \<and> k \<noteq> 0, st))" for st by (simp add: z_def)
  have e: "z = [] \<longleftrightarrow> \<not> (trailing \<and> k \<noteq> 0)" "rev z = z" by (auto simp: z_def)
  have str: "rev (fraction_str trailing w k t) = z @ rev (fraction trailing w t) @ (if trailing \<and> k \<noteq> 0 \<or> fraction trailing w t \<noteq> [] then [0x2e] else [])"
    using e by (auto simp: fraction_str_def Let_def z_def [symmetric])
  have one: "add_output_chars (if b then [c] else []) st = (if b then add_output_char c st else Inr st)" for b c st
    by (simp add: add_output_chars_one del: add_output_chars.simps(2))
  show ?thesis unfolding first str run_bind_assoc run_bind_simps prod.case f add_output_chars_append one
    by (rule exI [of _ q]) (simp only: q simp_thms)
qed

lemma format_run_eq:
  assumes "normalized amount"
  shows "format_run amount prefix suffix decimals exponent trailing thousands output =
    add_output_chars (rev (format_string (nat (bn_val amount)) (string_of prefix) (string_of suffix) decimals exponent trailing thousands @ [0]))
      (output, length output)"
proof -
  define e where "e = nat exponent"
  define k where "k = (if decimals < e then decimals else e)"
  define w where "w = decimals - k"
  have "holds amount (nat (bn_val amount))" using assms bn_val_nonneg by (simp add: holds_def)
  from format_divide_holds [OF this] obtain x where div: "format_divide (nat (- exponent)) amount = Inr x"
    and x: "holds x (nat (bn_val amount) div 10 ^ nat (- exponent))" by blast
  define t where "t = nat (bn_val amount) div 10 ^ nat (- exponent)"
  define N where "N = scaled (nat (bn_val amount)) exponent"
  have N: "N = t * 10 ^ e" by (simp add: N_def t_def e_def scaled_def)
  have D: "decimals = w + k" and wk: "k = e \<or> w = 0 \<and> k \<le> e" by (auto simp: w_def k_def)
  have "padded decimals N = padded w t @ replicate k 0x30"
  proof -
    have "padded (w + k) (t * 10 ^ (e - k) * 10 ^ k) = padded w (t * 10 ^ (e - k)) @ replicate k 0x30" by (rule padded_shift)
    moreover have "t * 10 ^ (e - k) * 10 ^ k = N" using wk by (auto simp: N mult.assoc simp flip: power_add)
    moreover have "padded w (t * 10 ^ (e - k)) = padded w t" using wk by auto
    ultimately show ?thesis unfolding D by simp
  qed
  from decimal_str_eq [OF this D] have dec: "decimal_str (N mod 10 ^ decimals) decimals trailing = fraction_str trailing w k t" .
  obtain q where q: "holds q (t div 10 ^ w)" and frac: "\<And>st (g :: bignum256 \<Rightarrow> format_state \<Rightarrow> stop + format_state).
    run_bind (if trailing \<and> k \<noteq> 0 then run_bind (add_output_chars (replicate k 0x30) st) (\<lambda>st. Inr (True, st)) else Inr (False, st)) (\<lambda>(fp, st).
    run_bind (format_fraction trailing w fp x st) (\<lambda>(fp, temp, st).
    run_bind (if fp then add_output_char 0x2e st else Inr st) (\<lambda>st. g temp st))) =
    run_bind (add_output_chars (rev (fraction_str trailing w k t)) st) (g q)"
    using format_fraction_part [OF x [folded t_def], of w trailing k] by blast
  have "N div 10 ^ decimals = t div 10 ^ w * 10 ^ (e - k)"
  proof (cases "k = e")
    case True
    then have "N div 10 ^ decimals = 10 ^ k * t div (10 ^ k * 10 ^ w)" by (simp only: N D power_add mult.commute)
    then show ?thesis using True by simp
  next
    case False
    then have "w = 0" "k \<le> e" using wk by auto
    then have "N = t * 10 ^ (e - k) * 10 ^ k" by (simp add: N mult.assoc flip: power_add)
    then show ?thesis using \<open>w = 0\<close> D by simp
  qed
  then have str: "rev (format_string (nat (bn_val amount)) (string_of prefix) (string_of suffix) decimals exponent trailing thousands @ [0]) =
      [0] @ rev (string_of suffix) @ rev (fraction_str trailing w k t) @ rev (integer_str (t div 10 ^ w * 10 ^ (e - k)) thousands) @ rev (string_of prefix)"
    by (simp add: format_string_def Let_def dec N_def [symmetric])
  define g where "g = (\<lambda>temp st. run_bind (if \<not> bn_is_zero temp then format_zeros thousands (e - k) 0 st else Inr (0, st)) (\<lambda>(digits, st).
    run_bind (format_digits thousands digits temp st) (\<lambda>st. add_output_chars (rev (string_of prefix)) st)))"
  have "format_run amount prefix suffix decimals exponent trailing thousands output =
    run_bind (add_output_char 0 (output, length output)) (\<lambda>st.
    run_bind (add_output_chars (rev (string_of suffix)) st) (\<lambda>st.
    run_bind (add_output_chars (rev (fraction_str trailing w k t)) st) (g q)))"
    unfolding format_run_def bn_copy_def div run_bind_simps Let_def e_def [symmetric] k_def [symmetric] w_def [symmetric] frac [of _ g, symmetric]
    unfolding g_def ..
  moreover have "g q = (\<lambda>st. run_bind (add_output_chars (rev (integer_str (t div 10 ^ w * 10 ^ (e - k)) thousands)) st)
      (add_output_chars (rev (string_of prefix))))"
    unfolding g_def format_integer [OF q, symmetric] by (simp only: run_bind_assoc case_prod_unfold)
  ultimately show ?thesis unfolding str add_output_chars_append add_output_chars_one by simp
qed

text \<open>
  C40. The output of \<open>bn_format\<close> is the string of the Python reference in its comment, for every amount, number of decimals,
  exponent, separator, prefix and suffix, followed by a null byte; when this does not fit, the buffer is cleared and the length is zero.
\<close>

theorem bn_format_spec:
  assumes "normalized amount"
  shows "case bn_format amount prefix suffix decimals exponent trailing thousands output of
      None \<Rightarrow> False
    | Some (buf, len) \<Rightarrow>
        let s = format_string (nat (bn_val amount)) (string_of prefix) (string_of suffix) decimals exponent trailing thousands in
        length buf = length output \<and>
        (if length s < length output then take (length s + 1) buf = s @ [0] \<and> len = length s else buf = replicate (length output) 0 \<and> len = 0)"
proof -
  define s where "s = format_string (nat (bn_val amount)) (string_of prefix) (string_of suffix) decimals exponent trailing thousands"
  have "format_run amount prefix suffix decimals exponent trailing thousands output =
      (if length s < length output then Inr (take (length output - Suc (length s)) output @ s @ [0], length output - Suc (length s)) else Inl No_Space)"
    using format_run_eq [OF assms] add_output_chars_result [of "length output" "output" "rev (s @ [0])"] by (simp add: s_def [symmetric] Suc_le_eq)
  moreover have "drop p (take p output @ s @ [0]) = s @ [0]" "length (take p output @ s @ [0]) = length output"
    if "length s < length output" "p = length output - Suc (length s)" for p using that by simp_all
  ultimately show ?thesis unfolding s_def [symmetric] bn_format_def by (cases "length s < length output") (simp_all add: Let_def)
qed

lemma format_string_example: "format_string 1234567 [] [0x20, 0x42] 2 0 False 0x2c = map of_char ''12,345.67 B''"
proof -
  have d: "decimal 12345 = [49, 50, 51, 52, 53]" by (simp add: decimal.simps [of 12345] decimal.simps [of 1234] decimal.simps [of 123] decimal.simps [of 12]
      decimal.simps [of "Suc 0"] digit_char_def)
  have "padded (Suc (Suc 0)) 67 = [54, 55]" by (simp add: digit_char_def)
  then have p: "padded 2 67 = [54, 55]" by (simp add: numeral_2_eq_2)
  show ?thesis by (simp add: format_string_def scaled_def integer_str_def decimal_str_def Let_def d p rstrip_def)
qed

theorem bn_format_spec_witness:
  "case bn_format \<lparr>val = [1234567, 0, 0, 0, 0, 0, 0, 0, 0]\<rparr> None (Some [0x20, 0x42]) 2 0 False 0x2c (replicate 16 7) of
     None \<Rightarrow> False | Some (buf, len) \<Rightarrow> take (len + 1) buf = map of_char ''12,345.67 B'' @ [0]"
proof -
  have n: "normalized \<lparr>val = [1234567, 0, 0, 0, 0, 0, 0, 0, 0]\<rparr>" "bn_val \<lparr>val = [1234567, 0, 0, 0, 0, 0, 0, 0, 0]\<rparr> = 1234567"
    by (simp_all add: normalized_def bn_val_def)
  show ?thesis
    using bn_format_spec [OF n(1), of None "Some [0x20, 0x42]" 2 0 False "0x2c" "replicate 16 7"] 
    by (simp add: n(2) string_of_def format_string_example Let_def split: option.splits prod.splits)
qed

end
