(* ===== verification/Spec2Isabelle.thy ===== *)
theory Spec2Isabelle
  imports Bignum_Power Bignum_Inverse Bignum_Div Bignum_Bytes Trans_Fifo Tlv Norcow_Spec Segwit_Addr Cash_Addr Base32 Shamir Bytewords Bip39 Slip39 Pbkdf2 Storage_Counter Storage_Legacy Base58_Proof Drbg_Spec Format_Spec
begin

text \<open>
  Verification of the OneKey Pro firmware: a model of the parts of the C code that carry its own
  logic, each with the theorems that make it correct.

  \<^bold>\<open>The program.\<close> The firmware of a hardware wallet. The library \<open>src/crypto\<close> holds the arithmetic of
  256-bit numbers, hashing and key stretching, deterministic random numbers, the encodings of
  addresses, the recovery phrases and the sharing of secrets; \<open>src/storage\<close> holds the store of the
  settings and keys with the counter of wrong PINs, on top of the flash memory; \<open>src/core/embed\<close> holds
  the drivers, among them the buffer between the Bluetooth transport and the application, the parser of the
  smart cards and the encoding of the animated QR codes. The parts meet as follows: transport packets
  pass through the fifo; the store keeps items in two flash sectors, and the PIN counter and the other
  counters are items that are updated in place; recovery phrases are looked up in the word tables,
  checked with SHA-256 and turned into seeds by PBKDF2 over HMAC over SHA-512; the nonces of signatures
  come from the generator over HMAC; addresses use the bit regrouping and the checksum polynomials.

  \<^bold>\<open>Theories and sources.\<close>
  \<^item> \<open>Prelude\<close>: the C integer types as words, word operations read as integer arithmetic, shared facts.
  \<^item> \<open>Limbs\<close>, \<open>Bignum\<close>, \<open>Bignum_Mod\<close>, \<open>Modular_Power\<close>, \<open>Bignum_Power\<close>, \<open>Bignum_Inverse\<close>, \<open>Bignum_Div\<close>,
    \<open>Bignum_Bytes\<close>, \<open>Bignum_Format\<close>, \<open>Format_Spec\<close>: \<open>crypto/bignum.c\<close> and \<open>bignum.h\<close>. A \<open>bignum256\<close> is a
    record of nine 32-bit limbs in base \<open>2 ^ 29\<close>; every operation keeps the machine width and is compared
    with the integer \<open>bn_val\<close> it stands for. \<open>Modular_Power\<close> states square and multiply as a locale,
    interpreted on \<open>bn_multiply\<close>; \<open>Format_Spec\<close> compares the decimal output with the reference that the
    comment of \<open>bn_format\<close> gives.
  \<^item> \<open>Byte_Queue\<close>, \<open>Trans_Fifo\<close>: \<open>core/embed/trezorhal/trans_fifo.c\<close>. The locale \<open>packet_queue\<close> is the contract
    of a bounded queue of bytes with a lock at the end of the last packet; the ring buffer, a record with
    the sums of its positions taken modulo \<open>2 ^ 32\<close>, is an instance.
  \<^item> \<open>Tlv\<close>: \<open>core/embed/lite_card/tlv.c\<close>; a read past the data is \<open>None\<close>.
  \<^item> \<open>Flash\<close>: \<open>core/embed/unix/flash.c\<close>, the flash memory as bytes where a write only clears bits.
  \<^item> \<open>Norcow\<close> (the operations), \<open>Norcow_Log\<close> (a sector as a list of items), \<open>Norcow_Store\<close> (the operations
    on that list), \<open>Kv_Store\<close> (the contract of a key-value store, a locale), \<open>Norcow_Spec\<close> (its
    interpretation and the properties): \<open>storage/norcow.c\<close>. A failed \<open>ensure\<close> is \<open>None\<close>.
  \<^item> \<open>Hamming\<close>, \<open>Pin_Log\<close> (the operations on the logs of PIN entries and successes), \<open>Pin_Counter\<close> (what they
    count), \<open>Storage_Counter\<close> (the counters that survive a restart), \<open>Storage_Legacy\<close> (the PIN format of
    older versions): parts of \<open>storage/storage.c\<close>, over the store of \<open>Norcow\<close>.
  \<^item> \<open>Block_Hash\<close> (buffering and padding of a hash over blocks, a locale), \<open>Sha2\<close> (the operations),
    \<open>Sha2_Words\<close> (byte order), \<open>Sha2_Constants\<close> (the constants of the standard as roots of primes), \<open>Sha2_Spec\<close>
    (the standard, and the interpretations for SHA-1, SHA-256 and SHA-512): \<open>crypto/sha2.c\<close>.
  \<^item> \<open>Hmac\<close>, \<open>Pbkdf2\<close>: \<open>crypto/hmac.c\<close> and \<open>crypto/pbkdf2.c\<close> for both hash functions, with prepared states.
  \<^item> \<open>Hmac_Drbg\<close>, \<open>Drbg_Spec\<close>: \<open>crypto/hmac_drbg.c\<close> and \<open>crypto/rfc6979.c\<close>, and the algorithms of
    SP 800-90A and RFC 6979. The reference has no limit on requests and no reseed counter, as the code.
  \<^item> \<open>Polymod\<close> (checksums by linear steps, a locale), \<open>Convert_Bits\<close>, \<open>Symbol_Strings\<close>, \<open>Segwit_Addr\<close>,
    \<open>Cash_Addr\<close>: \<open>crypto/segwit_addr.c\<close> and \<open>crypto/cash_addr.c\<close>, two interpretations of the locale.
  \<^item> \<open>Base32\<close>: \<open>crypto/base32.c\<close>. \<open>Base58\<close>, \<open>Base58_Proof\<close>: \<open>crypto/base58.c\<close>; an access outside the string
    or the buffer is \<open>None\<close>.
  \<^item> \<open>Gf256\<close>, \<open>Interpolation\<close>, \<open>Shamir\<close>: \<open>crypto/shamir.c\<close>. The bit-sliced arithmetic is read lane by
    lane in the type \<open>gf\<close>, an instance of the class of fields.
  \<^item> \<open>Bytewords\<close>: \<open>core/embed/bytewords/bc_bytewords.c\<close>; a store past the buffer is the result \<open>Overflow\<close>.
  \<^item> \<open>Word_Table\<close> (comparison of strings and bisection of a sorted table, the locale \<open>sorted_table\<close>),
    \<open>Bip39_Words\<close>, \<open>Slip39_Words\<close> (the word lists and the locale's interpretations on them), \<open>Bip39\<close>,
    \<open>Slip39\<close>: \<open>crypto/bip39.c\<close>, \<open>bip39_english.c\<close>, \<open>slip39.c\<close>, \<open>slip39_wordlist.h\<close>.

  \<^bold>\<open>What the theorems show.\<close>
  \<^item> Big numbers: each routine returns a number in the range its comments promise and congruent to the
    mathematical result, without a limb overflowing; the almost inverse loop ends within its 522 turns
    with the inverse; the decimal output is that of the reference or the buffer is cleared.
  \<^item> Fifo: through every sequence of operations the ring buffer answers as the bounded packet queue, across
    the end of the buffer and when it refuses bytes, for buffers of at most \<open>2 ^ 31\<close> bytes. A packet that is
    refused leaves its beginning in the queue.
  \<^item> Store: setting, deleting, scanning, updating in place and restarting behave as a finite map with
    stated conditions for success, failure and halting. A compaction keeps the map. When the power is
    lost during one, the map survives if the items were moving out of sector 1; out of sector 0 only the
    items already copied do.
  \<^item> PIN: the counter is the number of entries since the last success through any sequence of entries,
    successes and renewals of the logs, and such a sequence never gets stuck as long as at most ten
    entries follow each other. Counters return successive numbers and fail at the largest.
  \<^item> Hashing: SHA-1, SHA-256, SHA-512, HMAC, PBKDF2, the generator and the nonces agree with the
    standards for every way to cut the input into pieces, and the seed of a phrase is that of BIP-39 for the
    first 256 bytes of the passphrase.
  \<^item> Encodings: what is encoded decodes to itself, malformed input is rejected, a Base58 string that is
    accepted is the encoding of its result, and a single wrong symbol of a Bech32 string is detected.
  \<^item> Sharing: interpolation evaluates the polynomial of the shares, so any large enough set of shares
    gives the same secret.
  \<^item> Recovery phrases: entropy is read back from the words printed for it with a checksum that is
    accepted, completion by bisection equals a scan of the list, and the cache of seeds is transparent.

  \<^bold>\<open>Loops.\<close> Loops over an array are structural recursions or functions with a measure. The loops of the
  store may run forever on a malformed sector: they are partial functions, and that they end is
  proved for every well-formed sector. The rejection loops of the random numbers consume a list and end
  with \<open>None\<close> when it is used up; that enough numbers give a result is a stated condition where it matters.

  \<^bold>\<open>Arguments that stand for other code.\<close> \<open>Bip39\<close> takes SHA-256, the steps of PBKDF2 and the random bytes
  as arguments, with the only assumption that a digest has 32 bytes; \<open>Pbkdf2\<close> instantiates them with the
  models of \<open>sha2.c\<close> and \<open>pbkdf2.c\<close>. \<open>Base58\<close> takes the hash of the checksum, which the C code selects by
  a number. Random numbers are a list of words.

  \<^bold>\<open>Not modelled.\<close> In \<open>bignum.c\<close>: the debug print and the slow inverse that the build does not select. In
  \<open>flash.c\<close>: mapping the file. Erasure of memory after use has no effect on results and is left out
  throughout. In \<open>storage.c\<close>: the encryption and authentication of the items, the wipe code, unlocking and the upgrade
  of old storages; its \<open>handle_fault\<close> counts a failure or wipes the device before it halts, and stands in
  the model for not returning. In \<open>src/crypto\<close>: the other hash functions, the elliptic curves and
  signatures, key derivation, the addresses and scripts of single coins, and the ciphers. In
  \<open>src/core/embed\<close>: the boot loaders and the drivers of the secure element, display, touch panel, camera,
  fingerprint sensor and memory card, which access hardware. The graphics, bar code, file system,
  tracing and QR code libraries are third-party code, and the bindings to the interpreter, fonts and
  images are generated or glue.
\<close>

end
